(* ===== verification/Prelude.thy ===== *)
theory Prelude
  imports Complex_Main "HOL-Library.Word" "HOL-Library.Multiset" "HOL-Library.Code_Target_Numeral"
begin

text \<open>
  What every component of the development shares: the named collections of simplification
  rules, bytes and big-endian integers (the part of the JavaScript \<open>DataView\<close> interface the
  framing code uses), and the bookkeeping of promises: a request handed to a transport is
  either still waiting or has been settled, and is settled at most once.
\<close>

named_theorems frame_simps \<open>encoders and decoders of the wire formats\<close>
named_theorems handler_defs \<open>definitions of the event handlers of the state machines\<close>

section \<open>Bytes and big-endian integers\<close>

type_synonym byte = "8 word"
type_synonym bytes = "byte list"

text \<open>\<open>be_bytes k n\<close>: the \<open>k\<close> low bytes of \<open>n\<close>, most significant first, as
  \<open>DataView.setUint16/32/BigUint64\<close> store them.\<close>

fun be_bytes :: "nat \<Rightarrow> nat \<Rightarrow> bytes" where
  "be_bytes 0 n = []"
| "be_bytes (Suc k) n = be_bytes k (n div 256) @ [of_nat n]"

text \<open>\<open>be_val bs\<close>: the unsigned big-endian value of \<open>bs\<close>, as \<open>DataView.getUint32\<close> and
  \<open>getBigUint64\<close> read it.\<close>

definition be_val :: "bytes \<Rightarrow> nat" where
  "be_val bs = foldl (\<lambda>a b. 256 * a + unat b) 0 bs"

lemma length_be_bytes [simp]: "length (be_bytes k n) = k"
  by (induction k arbitrary: n) auto

lemma be_val_Nil [simp]: "be_val [] = 0"
  by (simp add: be_val_def)

lemma be_val_snoc [simp]: "be_val (bs @ [b]) = 256 * be_val bs + unat b"
  by (simp add: be_val_def)

lemma unat_of_nat_byte [simp]: "unat (of_nat n :: byte) = n mod 256"
  by (simp add: unat_of_nat)

lemma be_val_be_bytes: "be_val (be_bytes k n) = n mod 256 ^ k"
proof (induction k arbitrary: n)
  case (Suc k)
  have "n mod (256 * 256 ^ k) = 256 * (n div 256 mod 256 ^ k) + n mod 256"
    by (rule mod_mult2_eq)
  then show ?case using Suc by simp
qed simp

lemma be_val_be_bytes_id: "n < 256 ^ k \<Longrightarrow> be_val (be_bytes k n) = n"
  by (simp add: be_val_be_bytes)

lemma unat_byte_lt [simp]: "unat (b :: byte) < 256"
  using unsigned_less [of b] by simp

lemma be_val_lt: "be_val bs < 256 ^ length bs"
proof (induction bs rule: rev_induct)
  case (snoc b bs)
  have "256 * be_val bs + unat b < 256 * (be_val bs + 1)"
    using unat_byte_lt [of b] by (simp only: distrib_left)
  also have "\<dots> \<le> 256 * 256 ^ length bs"
    using snoc by (intro mult_le_mono) auto
  finally show ?case by simp
qed simp

lemma be_bytes_be_val: "be_bytes (length bs) (be_val bs) = bs"
proof (induction bs rule: rev_induct)
  case (snoc b bs)
  have d: "(256 * be_val bs + unat b) div 256 = be_val bs"
    using unat_byte_lt [of b] by simp
  have "(of_nat (256 * be_val bs + unat b) :: byte) = of_nat (unat b)"
  proof -
    have "unat (of_nat (256 * be_val bs + unat b) :: byte) = unat (of_nat (unat b) :: byte)"
      by (simp only: unat_of_nat_byte) simp
    then show ?thesis by (simp only: word_unat_eq_iff)
  qed
  then show ?case using snoc d by simp
qed simp

lemma take_append_len: "length xs = n \<Longrightarrow> take n (xs @ ys) = xs"
  by simp

lemma drop_append_len: "length xs = n \<Longrightarrow> drop n (xs @ ys) = ys"
  by simp

section \<open>Numbers as text\<close>

text \<open>\<open>String(n)\<close> of an integer.\<close>

fun digits :: "nat \<Rightarrow> string" where
  "digits n = (if n < 10 then [''0123456789'' ! n] else digits (n div 10) @ [''0123456789'' ! (n mod 10)])"

declare digits.simps [simp del]

definition show_int :: "int \<Rightarrow> string" where
  "show_int n = (if n < 0 then CHR ''-'' # digits (nat (- n)) else digits (nat n))"

lemma digits_inj: "digits m = digits n \<Longrightarrow> m = n"
proof (induction m arbitrary: n rule: less_induct)
  case (less m)
  have d: "digits k = (if k < 10 then [] else digits (k div 10)) @ [''0123456789'' ! (k mod 10)]" for k
    by (subst digits.simps) simp
  have ne: "digits k \<noteq> []" for k by (subst d) simp
  have "(if m < 10 then [] else digits (m div 10)) @ [''0123456789'' ! (m mod 10)]
      = (if n < 10 then [] else digits (n div 10)) @ [''0123456789'' ! (n mod 10)]"
    by (simp only: d [symmetric] less.prems)
  then have c: "(if m < 10 then [] else digits (m div 10)) = (if n < 10 then [] else digits (n div 10))"
    and l: "''0123456789'' ! (m mod 10) = ''0123456789'' ! (n mod 10)"
    by (simp_all only: append1_eq_conv)
  have "i = j" if "i < 10" "j < 10" "''0123456789'' ! i = ''0123456789'' ! j" for i j :: nat
  proof -
    have "distinct ''0123456789''" by simp
    from nth_eq_iff_index_eq [OF this, of i j] show ?thesis using that by simp
  qed
  then have m: "m mod 10 = n mod 10" using l by simp
  show ?case
  proof (cases "m < 10 \<or> n < 10")
    case True
    then have "m < 10 \<and> n < 10"
      using c ne [of "m div 10"] ne [of "n div 10"] by (auto split: if_splits)
    then show ?thesis using m by simp
  next
    case False
    then have "m div 10 = n div 10" using c less.IH [of "m div 10" "n div 10"] by simp
    then show ?thesis using m by (metis div_mult_mod_eq)
  qed
qed

lemma split_unique: "c \<notin> set a \<Longrightarrow> c \<notin> set b \<Longrightarrow> a @ c # x = b @ c # y \<Longrightarrow> a = b \<and> x = y"
proof (induction a arbitrary: b)
  case Nil
  then show ?case by (cases b) auto
next
  case (Cons d a)
  then show ?case by (cases b) auto
qed

definition digit_chars :: "char set" where "digit_chars = set ''0123456789''"

lemma digits_chars: "set (digits n) \<subseteq> digit_chars"
proof (induction n rule: digits.induct)
  case (1 n)
  have "''0123456789'' ! (n mod 10) \<in> digit_chars" unfolding digit_chars_def by (rule nth_mem) simp
  then show ?case using 1 by (subst digits.simps) (cases "n < 10"; simp)
qed

lemma show_int_chars: "set (show_int n) \<subseteq> insert (CHR ''-'') digit_chars"
  using digits_chars [of "nat n"] digits_chars [of "nat (- n)"] by (auto simp only: show_int_def list.set split: if_splits)

lemma show_int_inj:
  assumes "show_int m = show_int n"
  shows "m = n"
proof -
  have d: "digits k \<noteq> CHR ''-'' # s" for k s
  proof
    assume "digits k = CHR ''-'' # s"
    then have "CHR ''-'' \<in> digit_chars" using digits_chars [of k] by simp
    then show False by (simp add: digit_chars_def)
  qed
  consider "m < 0" "n < 0" | "m < 0" "0 \<le> n" | "0 \<le> m" "n < 0" | "0 \<le> m" "0 \<le> n" by linarith
  then show ?thesis
  proof cases
    case 1
    then have "nat (- m) = nat (- n)" using assms by (intro digits_inj) (simp add: show_int_def)
    then show ?thesis using 1 by simp
  next
    case 4
    then have "nat m = nat n" using assms by (intro digits_inj) (simp add: show_int_def)
    then show ?thesis using 4 by simp
  qed (use assms d [of "nat m"] d [of "nat n", THEN not_sym] in \<open>simp_all add: show_int_def\<close>)
qed

section \<open>Settling promises\<close>

text \<open>
  The transports hand out one promise per request. Promises are numbered in the order they
  are created; \<open>accounted n waiting settled\<close> says that of the first \<open>n\<close> promises each is
  exactly once either waiting or settled.
\<close>

definition accounted :: "nat \<Rightarrow> nat list \<Rightarrow> nat list \<Rightarrow> bool" where
  "accounted n waiting settled \<longleftrightarrow> mset waiting + mset settled = mset [0..<n]"

lemma accounted_Nil [simp]: "accounted 0 [] []"
  by (simp add: accounted_def)

lemma accounted_issue: "accounted n w s \<Longrightarrow> accounted (Suc n) (w @ [n]) s"
  by (simp add: accounted_def)

lemma accounted_issue_settled: "accounted n w s \<Longrightarrow> accounted (Suc n) w (s @ [n])"
  by (simp add: accounted_def)

lemma accounted_extend:
  assumes "accounted n w s" and "[0..<n'] = [0..<n] @ xs"
  shows "accounted n' (w @ xs) s"
  unfolding accounted_def assms(2) mset_append assms(1) [unfolded accounted_def, symmetric]
  by (simp add: ac_simps)

lemma accounted_perm:
  "accounted n w s \<Longrightarrow> mset w' + mset s' = mset w + mset s \<Longrightarrow> accounted n w' s'"
  by (simp add: accounted_def)

lemma accounted_distinct:
  assumes "accounted n w s"
  shows "distinct (w @ s)" and "set (w @ s) = {0..<n}"
proof -
  have m: "mset (w @ s) = mset [0..<n]" using assms by (simp add: accounted_def)
  then have "distinct (w @ s) \<longleftrightarrow> distinct [0..<n]" by (rule mset_eq_imp_distinct_iff)
  then show "distinct (w @ s)" by simp
  from m have "set (w @ s) = set [0..<n]" by (rule mset_eq_setD)
  then show "set (w @ s) = {0..<n}" by simp
qed

end
