(* ===== verification/StreamDecoder.thy ===== *)
theory StreamDecoder
  imports Prelude
begin

text \<open>
  The interface of an incremental frame parser: a byte stream arrives in chunks of any size and
  a parser cuts it into frames. \<open>next_frame\<close> looks at the buffered bytes and either asks for
  more, rejects them, or cuts off one frame; \<open>drain\<close> is the parser's loop, which cuts frames
  until it has to stop. The laws say that more bytes never change a decision that was taken
  and that a frame consumes something. From them: the frames do not depend on how the stream
  was split into chunks, and the encoder's output is cut back into the encoded frames.
\<close>

datatype ('e, 'f) cut = More | Bad 'e | Cut 'f bytes

locale stream_parser =
  fixes next_frame :: "bytes \<Rightarrow> ('e, 'f) cut"
    and drain :: "bytes \<Rightarrow> 'f list \<times> bytes \<times> 'e option"
  assumes cut_append: "next_frame b = Cut f r \<Longrightarrow> next_frame (b @ c) = Cut f (r @ c)"
    and bad_append: "next_frame b = Bad e \<Longrightarrow> next_frame (b @ c) = Bad e"
    and cut_shorter: "next_frame b = Cut f r \<Longrightarrow> length r < length b"
    and drain_unfold: "drain b = (case next_frame b of
          More \<Rightarrow> ([], b, None)
        | Bad e \<Rightarrow> ([], b, Some e)
        | Cut f r \<Rightarrow> (case drain r of (fs, b', e) \<Rightarrow> (f # fs, b', e)))"
begin

lemma drain_More: "next_frame b = More \<Longrightarrow> drain b = ([], b, None)"
  by (subst drain_unfold) simp

lemma drain_Bad: "next_frame b = Bad e \<Longrightarrow> drain b = ([], b, Some e)"
  by (subst drain_unfold) simp

lemma drain_Cut:
  "next_frame b = Cut f r \<Longrightarrow> drain b = (case drain r of (fs, b', e) \<Rightarrow> (f # fs, b', e))"
  by (subst drain_unfold) simp

lemma drain_append:
  "drain b = (fs, r, None) \<Longrightarrow> drain (r @ c) = (gs, r', e) \<Longrightarrow> drain (b @ c) = (fs @ gs, r', e)"
proof (induction "length b" arbitrary: b fs rule: less_induct)
  case less
  show ?case
  proof (cases "next_frame b")
    case More
    then show ?thesis using less.prems by (simp add: drain_More)
  next
    case (Bad e')
    then show ?thesis using less.prems by (simp add: drain_Bad)
  next
    case (Cut f b')
    obtain fs' r'' e'' where d: "drain b' = (fs', r'', e'')" by (cases "drain b'") auto
    have "fs = f # fs'" "r'' = r" "e'' = None"
      using less.prems(1) d by (simp_all add: drain_Cut [OF Cut])
    moreover have "drain (b' @ c) = (fs' @ gs, r', e)"
      using less.hyps [OF cut_shorter [OF Cut]] d less.prems(2) calculation by simp
    ultimately show ?thesis by (simp add: drain_Cut [OF cut_append [OF Cut]])
  qed
qed

lemma drain_error_stable:
  "drain b = (fs, r, Some e) \<Longrightarrow> drain (b @ c) = (fs, r @ c, Some e)"
proof (induction "length b" arbitrary: b fs rule: less_induct)
  case less
  show ?case
  proof (cases "next_frame b")
    case More
    then show ?thesis using less.prems by (simp add: drain_More)
  next
    case (Bad e')
    then show ?thesis using less.prems by (simp add: drain_Bad [OF bad_append] drain_Bad)
  next
    case (Cut f b')
    obtain fs' r' e' where d: "drain b' = (fs', r', e')" by (cases "drain b'") auto
    have eqs: "fs = f # fs'" "r' = r" "e' = Some e"
      using less.prems d by (simp_all add: drain_Cut [OF Cut])
    have "drain (b' @ c) = (fs', r @ c, Some e)"
      using less.hyps [OF cut_shorter [OF Cut]] d eqs by simp
    then show ?thesis by (simp add: drain_Cut [OF cut_append [OF Cut]] eqs)
  qed
qed

text \<open>Feeding the chunks one after another, as a socket delivers them.\<close>

primrec feed :: "bytes \<Rightarrow> bytes list \<Rightarrow> 'f list \<times> bytes \<times> 'e option" where
  "feed b [] = ([], b, None)"
| "feed b (c # cs) = (case drain (b @ c) of
      (fs, r, Some e) \<Rightarrow> (fs, r, Some e)
    | (fs, r, None) \<Rightarrow> (case feed r cs of (gs, r', e) \<Rightarrow> (fs @ gs, r', e)))"

lemma drain_rest_More: "drain b = (fs, r, None) \<Longrightarrow> next_frame r = More"
proof (induction "length b" arbitrary: b fs rule: less_induct)
  case less
  show ?case
  proof (cases "next_frame b")
    case More
    then show ?thesis using less.prems by (simp add: drain_More)
  next
    case (Bad e)
    then show ?thesis using less.prems by (simp add: drain_Bad)
  next
    case (Cut f b')
    obtain fs' r' e' where d: "drain b' = (fs', r', e')" by (cases "drain b'") auto
    have "r' = r" "e' = None" using less.prems d by (simp_all add: drain_Cut [OF Cut])
    then show ?thesis using less.hyps [OF cut_shorter [OF Cut]] d by simp
  qed
qed

text \<open>
  The frames and the error do not depend on how the stream is split. When no error occurs the
  buffered rest is the same too.
\<close>

lemma feed_eq_drain:
  assumes "next_frame b = More" and "feed b cs = (fs, r, e)" and "drain (b @ concat cs) = (gs, r', e')"
  shows "gs = fs \<and> e' = e \<and> (e = None \<longrightarrow> r' = r)"
  using assms
proof (induction cs arbitrary: b fs gs r e r' e')
  case Nil
  then show ?case by (simp add: drain_More)
next
  case (Cons c cs)
  obtain fs1 r1 e1 where d: "drain (b @ c) = (fs1, r1, e1)" by (cases "drain (b @ c)") auto
  show ?case
  proof (cases e1)
    case None
    obtain gs2 r2 e2 where f: "feed r1 cs = (gs2, r2, e2)" by (cases "feed r1 cs") auto
    obtain hs r3 e3 where h: "drain (r1 @ concat cs) = (hs, r3, e3)"
      by (cases "drain (r1 @ concat cs)") auto
    have fs: "fs = fs1 @ gs2" "r = r2" "e = e2" using Cons.prems(2) d None f by auto
    have "drain ((b @ c) @ concat cs) = (fs1 @ hs, r3, e3)"
      using drain_append d None h by blast
    then have "gs = fs1 @ hs" "r' = r3" "e' = e3" using Cons.prems(3) by auto
    then show ?thesis
      using Cons.IH [OF drain_rest_More [OF d [unfolded None]] f h] fs by simp
  next
    case (Some x)
    have "fs = fs1" "r = r1" "e = Some x" using Cons.prems(2) d Some by auto
    moreover have "drain ((b @ c) @ concat cs) = (fs1, r1 @ concat cs, Some x)"
      using drain_error_stable d Some by blast
    ultimately show ?thesis using Cons.prems(3) by auto
  qed
qed

end

text \<open>The sending side: an encoder whose frames the parser cuts off again.\<close>

locale frame_codec = stream_parser next_frame drain
  for next_frame :: "bytes \<Rightarrow> ('e, 'f) cut" and drain :: "bytes \<Rightarrow> 'f list \<times> bytes \<times> 'e option" +
  fixes encode :: "'f \<Rightarrow> bytes" and fits :: "'f \<Rightarrow> bool"
  assumes cut_encode: "fits f \<Longrightarrow> next_frame (encode f @ c) = Cut f c"
    and cut_Nil: "next_frame [] = More"
begin

lemma drain_encoded: "list_all fits fs \<Longrightarrow> drain (concat (map encode fs)) = (fs, [], None)"
proof (induction fs)
  case Nil
  then show ?case by (simp add: drain_More cut_Nil)
next
  case (Cons f fs)
  then show ?case by (simp add: drain_Cut [OF cut_encode])
qed

text \<open>Any chunking of an encoded sequence of frames is cut back into that sequence.\<close>

lemma feed_encoded:
  assumes "list_all fits fs" and "concat cs = concat (map encode fs)"
  shows "feed [] cs = (fs, [], None)"
proof -
  obtain gs r e where f: "feed [] cs = (gs, r, e)" by (cases "feed [] cs") auto
  have "drain ([] @ concat cs) = (fs, [], None)" using assms drain_encoded by simp
  from feed_eq_drain [OF cut_Nil f this] f show ?thesis by simp
qed

end

end
