(* ===== verification/NngFraming.thy ===== *)
theory NngFraming
  imports StreamDecoder
begin

text \<open>
  The nng SP wire format over \<open>ipc://\<close> sockets
  (\<open>packages/client/src/transport/nng-framing.ts\<close>): the eight-byte handshake, the nine-byte
  frame header, the four-byte request id, and the incremental parser, which keeps the received
  chunks in a list and cuts frames across chunk boundaries. The parser on chunk lists is shown
  to refine a parser on one contiguous buffer, which is an instance of \<open>stream_parser\<close>.
\<close>

section \<open>Handshake, frames, request bodies\<close>

definition SP_HANDSHAKE_LENGTH :: nat where "SP_HANDSHAKE_LENGTH = 8"
definition SP_PROTO_REQ0 :: nat where "SP_PROTO_REQ0 = 0x30"
definition SP_PROTO_REP0 :: nat where "SP_PROTO_REP0 = 0x31"
definition SP_PROTO_PUB0 :: nat where "SP_PROTO_PUB0 = 0x20"
definition SP_PROTO_SUB0 :: nat where "SP_PROTO_SUB0 = 0x21"
definition NNG_FRAME_HEADER_LENGTH :: nat where "NNG_FRAME_HEADER_LENGTH = 9"
definition NNG_FRAME_TYPE_DATA :: byte where "NNG_FRAME_TYPE_DATA = 0x01"
definition REQ_ID_FLAG :: nat where "REQ_ID_FLAG = 0x80000000"

lemmas nng_consts [frame_simps] = SP_HANDSHAKE_LENGTH_def SP_PROTO_REQ0_def SP_PROTO_REP0_def
  SP_PROTO_PUB0_def SP_PROTO_SUB0_def NNG_FRAME_HEADER_LENGTH_def NNG_FRAME_TYPE_DATA_def
  REQ_ID_FLAG_def

text \<open>
  What a decoder throws: a \<open>TransportError('protocol')\<close>, or the runtime's \<open>TypeError\<close> when a
  chunk is read that does not exist.
\<close>

datatype parse_error = ProtocolFault | TypeFault

definition encodeSpHandshake :: "nat \<Rightarrow> bytes" where
  "encodeSpHandshake proto =
     [0x00, 0x53, 0x50, 0x00, of_nat (proto div 256), of_nat proto, 0x00, 0x00]"

definition decodeSpHandshake :: "bytes \<Rightarrow> parse_error + nat" where
  "decodeSpHandshake bs =
     (if length bs < SP_HANDSHAKE_LENGTH then Inl ProtocolFault
      else if bs ! 0 \<noteq> 0x00 \<or> bs ! 1 \<noteq> 0x53 \<or> bs ! 2 \<noteq> 0x50 \<or> bs ! 3 \<noteq> 0x00 then Inl ProtocolFault
      else if bs ! 6 \<noteq> 0x00 \<or> bs ! 7 \<noteq> 0x00 then Inl ProtocolFault
      else Inr (256 * unat (bs ! 4) + unat (bs ! 5)))"

definition encodeNngFrame :: "bytes \<Rightarrow> bytes" where
  "encodeNngFrame body = NNG_FRAME_TYPE_DATA # be_bytes 8 (length body) @ body"

definition encodeReqBody :: "nat \<Rightarrow> bytes \<Rightarrow> bytes" where
  "encodeReqBody rid payload = be_bytes 4 rid @ payload"

definition splitReqBody :: "bytes \<Rightarrow> parse_error + (nat \<times> bytes)" where
  "splitReqBody body =
     (if length body < 4 then Inl ProtocolFault
      else Inr (be_val (take 4 body), drop 4 body))"

text \<open>The WebSocket subprotocol that stands for the handshake on \<open>ws://\<close> sockets.\<close>

definition sp_proto_name :: "nat \<Rightarrow> string option" where
  "sp_proto_name proto =
     (if proto = SP_PROTO_REQ0 then Some ''req''
      else if proto = SP_PROTO_REP0 then Some ''rep''
      else if proto = SP_PROTO_PUB0 then Some ''pub''
      else if proto = SP_PROTO_SUB0 then Some ''sub''
      else None)"

definition spWsSubprotocol :: "nat \<Rightarrow> parse_error + string" where
  "spWsSubprotocol peerProto =
     (case sp_proto_name peerProto of
        None \<Rightarrow> Inl ProtocolFault
      | Some name \<Rightarrow> Inr (name @ ''.sp.nanomsg.org''))"

lemma decode_encode_handshake [frame_simps]:
  "proto < 65536 \<Longrightarrow> decodeSpHandshake (encodeSpHandshake proto) = Inr proto"
  by (simp add: decodeSpHandshake_def encodeSpHandshake_def frame_simps)

lemma length_encodeSpHandshake [simp]: "length (encodeSpHandshake proto) = 8"
  by (simp add: encodeSpHandshake_def)

lemma split_encode_req [frame_simps]:
  "rid < 2 ^ 32 \<Longrightarrow> splitReqBody (encodeReqBody rid payload) = Inr (rid, payload)"
  by (simp add: splitReqBody_def encodeReqBody_def be_val_be_bytes_id)

section \<open>The incremental parser\<close>

record nng_parser =
  chunks :: "bytes list"
  buffered :: nat
  handshake :: "nat option"
  expectPeerProto :: "nat option"
  maxFrameBytes :: nat

definition newNngFrameParser :: "nat option \<Rightarrow> nat option \<Rightarrow> nng_parser" where
  "newNngFrameParser expect maxFrame =
     \<lparr>chunks = [], buffered = 0, handshake = None, expectPeerProto = expect,
      maxFrameBytes = (case maxFrame of None \<Rightarrow> 256 * 1024 * 1024 | Some m \<Rightarrow> m)\<rparr>"

definition handshaken :: "nng_parser \<Rightarrow> bool" where
  "handshaken p \<longleftrightarrow> handshake p \<noteq> None"

text \<open>\<open>peek\<close>: copy the first \<open>n\<close> buffered bytes; the copy starts as zeros.\<close>

fun peek_loop :: "nat \<Rightarrow> bytes list \<Rightarrow> bytes" where
  "peek_loop n [] = replicate n 0"
| "peek_loop n (c # cs) =
     (let t = min (length c) n
      in take t c @ (if t = n then [] else peek_loop (n - t) cs))"

definition peek :: "nng_parser \<Rightarrow> nat \<Rightarrow> bytes option" where
  "peek p n =
     (case chunks p of
        [] \<Rightarrow> None
      | first # _ \<Rightarrow>
          if n \<le> length first then Some (take n first) else Some (peek_loop n (chunks p)))"

text \<open>\<open>take\<close>: consume the first \<open>n\<close> buffered bytes.\<close>

fun take_loop :: "nat \<Rightarrow> bytes list \<Rightarrow> (bytes \<times> bytes list) option" where
  "take_loop 0 cs = Some ([], cs)"
| "take_loop (Suc n) [] = None"
| "take_loop (Suc n) (c # cs) =
     (let t = min (length c) (Suc n)
      in if t = length c
         then map_option (\<lambda>(out, rest). (take t c @ out, rest)) (take_loop (Suc n - t) cs)
         else Some (take t c, drop t c # cs))"

lemma take_loop_code [code]:
  "take_loop n cs =
     (if n = 0 then Some ([], cs)
      else case cs of [] \<Rightarrow> None | c # cs' \<Rightarrow>
        (let t = min (length c) n
         in if t = length c
            then map_option (\<lambda>(out, rest). (take t c @ out, rest)) (take_loop (n - t) cs')
            else Some (take t c, drop t c # cs')))"
  by (cases n; cases cs) (simp_all add: Let_def)

definition take_bytes :: "nng_parser \<Rightarrow> nat \<Rightarrow> (bytes \<times> nng_parser) option" where
  "take_bytes p n =
     (if n = 0 then Some ([], p)
      else case chunks p of
        [] \<Rightarrow> None
      | first # others \<Rightarrow>
          if n \<le> length first
          then Some (take n first,
                     p\<lparr>chunks := (if length first = n then others else drop n first # others),
                       buffered := buffered p - n\<rparr>)
          else map_option (\<lambda>(out, rest). (out, p\<lparr>chunks := rest, buffered := buffered p - n\<rparr>))
                 (take_loop n (chunks p)))"

lemma take_bytes_buffered: "take_bytes p n = Some (b, p') \<Longrightarrow> buffered p' = buffered p - n"
  by (auto simp: take_bytes_def split: if_splits list.splits)

text \<open>The frame loop of \<open>push\<close>: cut frames until the buffer runs short.\<close>

function frame_loop :: "nng_parser \<Rightarrow> nng_parser \<times> (parse_error + bytes list)" where
  "frame_loop p =
     (if buffered p < NNG_FRAME_HEADER_LENGTH then (p, Inr [])
      else case peek p NNG_FRAME_HEADER_LENGTH of
        None \<Rightarrow> (p, Inl TypeFault)
      | Some header \<Rightarrow>
          if header ! 0 \<noteq> NNG_FRAME_TYPE_DATA then (p, Inl ProtocolFault)
          else let len = be_val (take 8 (drop 1 header)) in
            if len > maxFrameBytes p then (p, Inl ProtocolFault)
            else if buffered p < NNG_FRAME_HEADER_LENGTH + len then (p, Inr [])
            else case take_bytes p NNG_FRAME_HEADER_LENGTH of
              None \<Rightarrow> (p, Inl TypeFault)
            | Some (_, p1) \<Rightarrow>
                (case take_bytes p1 len of
                   None \<Rightarrow> (p1, Inl TypeFault)
                 | Some (body, p2) \<Rightarrow>
                     (case frame_loop p2 of
                        (q, Inl e) \<Rightarrow> (q, Inl e)
                      | (q, Inr bodies) \<Rightarrow> (q, Inr (body # bodies)))))"
  by pat_completeness auto
termination
  by (relation "measure buffered") (auto dest!: take_bytes_buffered simp: frame_simps)

declare frame_loop.simps [simp del]

definition store_chunk :: "nng_parser \<Rightarrow> bytes \<Rightarrow> nng_parser" where
  "store_chunk p chunk = (if 0 < length chunk
     then p\<lparr>chunks := chunks p @ [chunk], buffered := buffered p + length chunk\<rparr> else p)"

definition push :: "nng_parser \<Rightarrow> bytes \<Rightarrow> nng_parser \<times> (parse_error + bytes list)" where
  "push p0 chunk =
     (let p = store_chunk p0 chunk in
      case handshake p of
        Some _ \<Rightarrow> frame_loop p
      | None \<Rightarrow>
          if buffered p < SP_HANDSHAKE_LENGTH then (p, Inr [])
          else case take_bytes p SP_HANDSHAKE_LENGTH of
            None \<Rightarrow> (p, Inl TypeFault)
          | Some (hs, p1) \<Rightarrow>
              (case decodeSpHandshake hs of
                 Inl e \<Rightarrow> (p1, Inl e)
               | Inr proto \<Rightarrow>
                   if expectPeerProto p1 \<noteq> None \<and> expectPeerProto p1 \<noteq> Some proto
                   then (p1, Inl ProtocolFault)
                   else frame_loop (p1\<lparr>handshake := Some proto\<rparr>)))"

section \<open>The parser on one contiguous buffer\<close>

text \<open>
  The chunk list stands for its concatenation. On that buffer one step of the frame loop is
  \<open>next_nng\<close>; \<open>frame_loop\<close> refines \<open>nng_drain\<close>, the loop on buffers.
\<close>

definition buffer :: "nng_parser \<Rightarrow> bytes" where
  "buffer p = concat (chunks p)"

definition parser_ok :: "nng_parser \<Rightarrow> bool" where
  "parser_ok p \<longleftrightarrow> buffered p = length (buffer p) \<and> [] \<notin> set (chunks p)"

definition next_nng :: "nat \<Rightarrow> bytes \<Rightarrow> (parse_error, bytes) cut" where
  "next_nng maxb b =
     (if length b < 9 then More
      else if b ! 0 \<noteq> 1 then Bad ProtocolFault
      else let len = be_val (take 8 (drop 1 b)) in
        if len > maxb then Bad ProtocolFault
        else if length b < 9 + len then More
        else Cut (take len (drop 9 b)) (drop (9 + len) b))"

lemma next_nng_Cut_shorter: "next_nng m b = Cut f r \<Longrightarrow> length r < length b"
  by (auto simp: next_nng_def Let_def split: if_splits)

function nng_drain :: "nat \<Rightarrow> bytes \<Rightarrow> bytes list \<times> bytes \<times> parse_error option" where
  "nng_drain m b = (case next_nng m b of
          More \<Rightarrow> ([], b, None)
        | Bad e \<Rightarrow> ([], b, Some e)
        | Cut f r \<Rightarrow> (case nng_drain m r of (fs, b', e) \<Rightarrow> (f # fs, b', e)))"
  by pat_completeness auto
termination
  by (relation "measure (\<lambda>(m, b). length b)") (auto simp: next_nng_Cut_shorter)

declare nng_drain.simps [simp del]

lemma header_append:
  "9 \<le> length b \<Longrightarrow> (b @ c) ! 0 = b ! 0 \<and> take 8 (drop 1 (b @ c)) = take 8 (drop 1 b)"
  by (cases b) (auto simp: nth_append)

lemma next_nng_append:
  "next_nng m b = Cut f r \<Longrightarrow> next_nng m (b @ c) = Cut f (r @ c)"
  "next_nng m b = Bad e \<Longrightarrow> next_nng m (b @ c) = Bad e"
  by (auto simp: next_nng_def Let_def header_append split: if_splits)

definition nng_fits :: "nat \<Rightarrow> bytes \<Rightarrow> bool" where
  "nng_fits m body \<longleftrightarrow> length body \<le> m \<and> length body < 2 ^ 64"

lemma next_nng_encode:
  "nng_fits m f \<Longrightarrow> next_nng m (encodeNngFrame f @ c) = Cut f c"
  by (simp add: next_nng_def encodeNngFrame_def nng_fits_def frame_simps be_val_be_bytes_id Let_def
      drop_Cons')

interpretation nng: frame_codec "next_nng m" "nng_drain m" encodeNngFrame "nng_fits m"
  for m :: nat
proof
  show "nng_drain m b = (case next_nng m b of
          More \<Rightarrow> ([], b, None)
        | Bad e \<Rightarrow> ([], b, Some e)
        | Cut f r \<Rightarrow> (case nng_drain m r of (fs, b', e) \<Rightarrow> (f # fs, b', e)))" for b
    by (rule nng_drain.simps)
  show "next_nng m [] = More" by (simp add: next_nng_def)
qed (auto simp: next_nng_append next_nng_Cut_shorter next_nng_encode)

section \<open>The chunk list refines the buffer\<close>

lemma peek_loop_concat: "peek_loop n cs = take n (concat cs @ replicate n 0)"
proof (induction n cs rule: peek_loop.induct)
  case (2 n c cs)
  show ?case
  proof (cases "n \<le> length c")
    case True
    then show ?thesis by (simp add: Let_def)
  next
    case False
    then have "peek_loop n (c # cs) = c @ take (n - length c) (concat cs @ replicate (n - length c) 0)"
      using 2 by (simp add: Let_def)
    also have "\<dots> = c @ take (n - length c) (concat cs @ replicate n 0)"
      by (simp add: min_def)
    also have "\<dots> = take n (concat (c # cs) @ replicate n 0)"
      using False by simp
    finally show ?thesis .
  qed
qed simp

lemma peek_buffer:
  "n \<le> length (buffer p) \<Longrightarrow> 0 < n \<Longrightarrow> peek p n = Some (take n (buffer p))"
  by (auto simp: peek_def buffer_def peek_loop_concat split: list.splits)

lemma take_loop_concat:
  "n \<le> length (concat cs) \<Longrightarrow> [] \<notin> set cs \<Longrightarrow>
   \<exists>rest. take_loop n cs = Some (take n (concat cs), rest) \<and> concat rest = drop n (concat cs)
     \<and> [] \<notin> set rest"
proof (induction n cs rule: take_loop.induct)
  case (3 n c cs)
  show ?case
  proof (cases "length c \<le> Suc n")
    case True
    have t: "min (length c) (Suc n) = length c" using True by simp
    have "Suc n - length c \<le> length (concat cs)" "[] \<notin> set cs" using "3.prems" by auto
    with "3.IH" [OF refl] t obtain rest where
      "take_loop (Suc n - length c) cs = Some (take (Suc n - length c) (concat cs), rest)"
      "concat rest = drop (Suc n - length c) (concat cs)" "[] \<notin> set rest"
      by auto
    then show ?thesis using True t by (auto simp: Let_def)
  next
    case False
    then show ?thesis using "3.prems" by (auto simp: Let_def min_def)
  qed
qed auto

lemma take_bytes_buffer:
  assumes "parser_ok p" and "n \<le> length (buffer p)"
  shows "\<exists>p'. take_bytes p n = Some (take n (buffer p), p') \<and> parser_ok p'
     \<and> buffer p' = drop n (buffer p) \<and> handshake p' = handshake p
     \<and> expectPeerProto p' = expectPeerProto p \<and> maxFrameBytes p' = maxFrameBytes p"
proof (cases "n = 0 \<or> chunks p = []")
  case True
  then show ?thesis using assms by (auto simp: take_bytes_def buffer_def)
next
  case False
  then obtain first others where ch: "chunks p = first # others" and n: "n \<noteq> 0"
    by (cases "chunks p") auto
  show ?thesis
  proof (cases "n \<le> length first")
    case True
    then show ?thesis using assms ch n
      by (auto simp: take_bytes_def buffer_def parser_ok_def)
  next
    case False
    obtain rest where "take_loop n (chunks p) = Some (take n (concat (chunks p)), rest)"
      "concat rest = drop n (concat (chunks p))" "[] \<notin> set rest"
      using take_loop_concat [of n "chunks p"] assms by (auto simp: buffer_def parser_ok_def)
    then show ?thesis using False assms ch n
      by (auto simp: take_bytes_def buffer_def parser_ok_def)
  qed
qed

text \<open>The abstract view of what the loop returns: the parser afterwards and its verdict.\<close>

lemma frame_loop_refines:
  assumes "parser_ok p" and "nng_drain (maxFrameBytes p) (buffer p) = (fs, r, e)"
  shows "\<exists>q. frame_loop p = (q, case e of None \<Rightarrow> Inr fs | Some x \<Rightarrow> Inl x) \<and> parser_ok q
     \<and> buffer q = r \<and> handshake q = handshake p \<and> expectPeerProto q = expectPeerProto p
     \<and> maxFrameBytes q = maxFrameBytes p"
  using assms
proof (induction "buffered p" arbitrary: p fs r e rule: less_induct)
  case less
  note ok = less.prems(1)
  have len: "buffered p = length (buffer p)" using ok by (simp add: parser_ok_def)
  show ?case
  proof (cases "next_nng (maxFrameBytes p) (buffer p)")
    case More
    then have "fs = []" "r = buffer p" "e = None"
      using less.prems(2) by (simp_all add: nng.drain_More)
    moreover have "frame_loop p = (p, Inr [])"
      using More len peek_buffer [of 9 p]
      by (subst frame_loop.simps)
        (auto simp: next_nng_def frame_simps Let_def drop_take split: if_splits)
    ultimately show ?thesis using ok by simp
  next
    case (Bad x)
    then have "fs = []" "r = buffer p" "e = Some x"
      using less.prems(2) by (simp_all add: nng.drain_Bad)
    moreover have "frame_loop p = (p, Inl x)"
      using Bad len peek_buffer [of 9 p]
      by (subst frame_loop.simps)
        (auto simp: next_nng_def frame_simps Let_def drop_take split: if_splits)
    ultimately show ?thesis using ok by simp
  next
    case (Cut f b')
    define n where "n = be_val (take 8 (drop 1 (buffer p)))"
    have c: "9 \<le> length (buffer p)" "buffer p ! 0 = 1" "n \<le> maxFrameBytes p"
      "9 + n \<le> length (buffer p)" "f = take n (drop 9 (buffer p))" "b' = drop (9 + n) (buffer p)"
      using Cut by (auto simp: next_nng_def Let_def n_def split: if_splits)
    obtain p1 where p1: "take_bytes p 9 = Some (take 9 (buffer p), p1)" "parser_ok p1"
      "buffer p1 = drop 9 (buffer p)" "handshake p1 = handshake p"
      "expectPeerProto p1 = expectPeerProto p" "maxFrameBytes p1 = maxFrameBytes p"
      using take_bytes_buffer [OF ok c(1)] by blast
    have "n \<le> length (buffer p1)" using c(4) p1(3) by simp
    then obtain p2 where p2: "take_bytes p1 n = Some (f, p2)" "parser_ok p2" "buffer p2 = b'"
      "handshake p2 = handshake p" "expectPeerProto p2 = expectPeerProto p"
      "maxFrameBytes p2 = maxFrameBytes p"
      using take_bytes_buffer [OF p1(2)] p1(3-6) c(5,6) by (metis add.commute drop_drop)
    obtain gs r' e' where d: "nng_drain (maxFrameBytes p) b' = (gs, r', e')"
      by (cases "nng_drain (maxFrameBytes p) b'") auto
    have eqs: "fs = f # gs" "r = r'" "e = e'"
      using less.prems(2) d by (simp_all add: nng.drain_Cut [OF Cut])
    have "buffered p2 < buffered p"
      using p2(2,3) c(4,6) len by (simp add: parser_ok_def)
    then obtain q where q: "frame_loop p2 = (q, case e' of None \<Rightarrow> Inr gs | Some x \<Rightarrow> Inl x)"
      "parser_ok q" "buffer q = r'" "handshake q = handshake p"
      "expectPeerProto q = expectPeerProto p" "maxFrameBytes q = maxFrameBytes p"
      using less.hyps [OF _ p2(2)] p2(3-6) d by (metis (no_types, lifting))
    have pk: "peek p 9 = Some (take 9 (buffer p))" using c(1) by (simp add: peek_buffer)
    have hd: "take 9 (buffer p) ! 0 = 1" "be_val (take 8 (drop 1 (take 9 (buffer p)))) = n"
      using c(1,2) by (simp_all add: n_def take_drop)
    have "frame_loop p = (q, case e of None \<Rightarrow> Inr fs | Some x \<Rightarrow> Inl x)"
      using c(1,3,4) len pk hd p1(1) p2(1) q(1) eqs
      by (subst frame_loop.simps) (simp add: frame_simps Let_def split: option.splits)
    with q eqs show ?thesis by blast
  qed
qed

section \<open>What a receiver of the stream sees\<close>

text \<open>The socket's data callback: push each chunk, hand over the bodies, stop at an error.\<close>

fun nng_feed :: "nng_parser \<Rightarrow> bytes list \<Rightarrow> bytes list \<times> nng_parser \<times> parse_error option" where
  "nng_feed p [] = ([], p, None)"
| "nng_feed p (c # cs) = (case push p c of
      (q, Inl e) \<Rightarrow> ([], q, Some e)
    | (q, Inr bodies) \<Rightarrow> (case nng_feed q cs of (rest, q', e) \<Rightarrow> (bodies @ rest, q', e)))"

lemma store_chunk_props [simp]:
  "buffer (store_chunk p c) = buffer p @ c"
  "parser_ok p \<Longrightarrow> parser_ok (store_chunk p c)"
  "handshake (store_chunk p c) = handshake p"
  "expectPeerProto (store_chunk p c) = expectPeerProto p"
  "maxFrameBytes (store_chunk p c) = maxFrameBytes p"
  by (auto simp: store_chunk_def buffer_def parser_ok_def)

lemma parser_ok_update [simp]:
  "parser_ok (p\<lparr>handshake := h\<rparr>) = parser_ok p" "buffer (p\<lparr>handshake := h\<rparr>) = buffer p"
  by (auto simp: parser_ok_def buffer_def)

lemma push_handshaken:
  assumes "parser_ok p" "handshake p = Some h"
    and "nng_drain (maxFrameBytes p) (buffer p @ c) = (fs, r, e)"
  shows "\<exists>q. push p c = (q, case e of None \<Rightarrow> Inr fs | Some x \<Rightarrow> Inl x) \<and> parser_ok q
     \<and> buffer q = r \<and> handshake q = Some h \<and> expectPeerProto q = expectPeerProto p
     \<and> maxFrameBytes q = maxFrameBytes p"
  using frame_loop_refines [of "store_chunk p c" fs r e] assms
  by (simp add: push_def Let_def)

lemma push_short:
  assumes "parser_ok p" "handshake p = None" "length (buffer p @ c) < 8"
  shows "push p c = (store_chunk p c, Inr [])"
  using assms store_chunk_props(1,2) [of p c]
  by (simp add: push_def Let_def parser_ok_def frame_simps)

lemma push_handshake:
  assumes "parser_ok p" "handshake p = None" "8 \<le> length (buffer p @ c)"
  shows "\<exists>p1. parser_ok p1 \<and> buffer p1 = drop 8 (buffer p @ c) \<and> handshake p1 = None
     \<and> expectPeerProto p1 = expectPeerProto p \<and> maxFrameBytes p1 = maxFrameBytes p
     \<and> push p c = (case decodeSpHandshake (take 8 (buffer p @ c)) of
          Inl e \<Rightarrow> (p1, Inl e)
        | Inr proto \<Rightarrow> if expectPeerProto p \<noteq> None \<and> expectPeerProto p \<noteq> Some proto
             then (p1, Inl ProtocolFault) else frame_loop (p1\<lparr>handshake := Some proto\<rparr>))"
proof -
  have ok: "parser_ok (store_chunk p c)" using assms(1) by simp
  then obtain p1 where p1: "take_bytes (store_chunk p c) 8 = Some (take 8 (buffer p @ c), p1)"
    "parser_ok p1" "buffer p1 = drop 8 (buffer p @ c)" "handshake p1 = None"
    "expectPeerProto p1 = expectPeerProto p" "maxFrameBytes p1 = maxFrameBytes p"
    using take_bytes_buffer [OF ok, of 8] assms(2,3) by auto
  have "\<not> buffered (store_chunk p c) < 8" using ok assms(3) by (simp add: parser_ok_def)
  then show ?thesis using p1 assms(2)
    by (auto simp: push_def Let_def frame_simps split: sum.splits)
qed

lemma push_ok: "parser_ok p \<Longrightarrow> parser_ok (fst (push p c))"
proof -
  assume ok: "parser_ok p"
  show ?thesis
  proof (cases "handshake p")
    case None
    show ?thesis
    proof (cases "length (buffer p @ c) < 8")
      case True
      then show ?thesis using push_short [OF ok None True] ok by simp
    next
      case False
      then obtain p1 where p1: "parser_ok p1" and eq:
        "push p c = (case decodeSpHandshake (take 8 (buffer p @ c)) of
          Inl e \<Rightarrow> (p1, Inl e)
        | Inr proto \<Rightarrow> if expectPeerProto p \<noteq> None \<and> expectPeerProto p \<noteq> Some proto
             then (p1, Inl ProtocolFault) else frame_loop (p1\<lparr>handshake := Some proto\<rparr>))"
        using push_handshake [OF ok None] by (auto simp: not_less)
      have "parser_ok (fst (frame_loop (p1\<lparr>handshake := h\<rparr>)))" for h
        using frame_loop_refines [of "p1\<lparr>handshake := h\<rparr>"] p1
        by (metis fst_conv parser_ok_update(1) prod_cases3)
      then show ?thesis using eq p1 by (auto split: sum.splits)
    qed
  next
    case (Some h)
    then show ?thesis using push_handshaken [OF ok Some]
      by (metis fst_conv prod_cases3)
  qed
qed

lemma nng_feed_handshaken:
  "parser_ok p \<Longrightarrow> handshake p = Some h \<Longrightarrow> nng.feed (maxFrameBytes p) (buffer p) cs = (fs, r, None) \<Longrightarrow>
   \<exists>q. nng_feed p cs = (fs, q, None) \<and> parser_ok q \<and> buffer q = r \<and> handshake q = Some h"
proof (induction cs arbitrary: p fs)
  case (Cons c cs)
  obtain gs r1 e1 where d: "nng_drain (maxFrameBytes p) (buffer p @ c) = (gs, r1, e1)"
    by (cases "nng_drain (maxFrameBytes p) (buffer p @ c)") auto
  then have e1: "e1 = None" using Cons.prems(3) by (cases e1) auto
  obtain hs r2 e2 where f: "nng.feed (maxFrameBytes p) r1 cs = (hs, r2, e2)"
    by (cases "nng.feed (maxFrameBytes p) r1 cs") auto
  have eqs: "fs = gs @ hs" "r2 = r" "e2 = None" using Cons.prems(3) d e1 f by auto
  obtain q where q: "push p c = (q, Inr gs)" "parser_ok q" "buffer q = r1" "handshake q = Some h"
    "maxFrameBytes q = maxFrameBytes p"
    using push_handshaken [OF Cons.prems(1,2) d] e1 by auto
  have "nng.feed (maxFrameBytes q) (buffer q) cs = (hs, r, None)"
    using f eqs q by simp
  then obtain q' where "nng_feed q cs = (hs, q', None)" "parser_ok q'" "buffer q' = r"
    "handshake q' = Some h"
    using Cons.IH [OF q(2,4)] by blast
  then show ?case using q(1) eqs by simp
qed simp

lemma handshake_then_frames:
  assumes "parser_ok p" "handshake p = None" "expectPeerProto p = expect" "maxFrameBytes p = m"
    and "\<not> length (buffer p @ c) < 8"
    and "buffer p @ concat (c # cs) = encodeSpHandshake proto @ concat (map encodeNngFrame bodies)"
    and "proto < 65536" and "expect = None \<or> expect = Some proto" and "list_all (nng_fits m) bodies"
  shows "\<exists>q. nng_feed p (c # cs) = (bodies, q, None) \<and> handshake q = Some proto \<and> buffered q = 0"
proof -
  have split: "(buffer p @ c) @ concat cs
      = encodeSpHandshake proto @ concat (map encodeNngFrame bodies)"
    using assms(6) by simp
  have hs: "take 8 (buffer p @ c) = encodeSpHandshake proto"
    and rest: "drop 8 (buffer p @ c) @ concat cs = concat (map encodeNngFrame bodies)"
    using arg_cong [OF split, of "take 8"] arg_cong [OF split, of "drop 8"] assms(5)
    by simp_all
  obtain p1 where p1: "parser_ok p1" "buffer p1 = drop 8 (buffer p @ c)"
    "expectPeerProto p1 = expect" "maxFrameBytes p1 = m"
    and push: "push p c = frame_loop (p1\<lparr>handshake := Some proto\<rparr>)"
    using push_handshake [OF assms(1,2), of c] assms(5) hs assms(7,8) assms(3,4)
    by (auto simp: frame_simps not_less simp del: take_append drop_append)
  have fd: "nng.feed m [] (buffer p1 # cs) = (bodies, [], None)"
    by (rule nng.feed_encoded) (use assms(9) rest p1(2) in auto)
  obtain gs r e where d: "nng_drain m (buffer p1) = (gs, r, e)"
    by (cases "nng_drain m (buffer p1)") auto
  with fd have e: "e = None" by (cases e) auto
  obtain hs' r' e' where f: "nng.feed m r cs = (hs', r', e')"
    by (cases "nng.feed m r cs") auto
  have eqs: "bodies = gs @ hs'" "r' = []" "e' = None" using fd d e f by auto
  obtain q where q: "push p c = (q, Inr gs)" "parser_ok q" "buffer q = r"
    "handshake q = Some proto" "maxFrameBytes q = m"
    using frame_loop_refines [of "p1\<lparr>handshake := Some proto\<rparr>" gs r e] d e p1 push
    by auto
  have "nng.feed (maxFrameBytes q) (buffer q) cs = (hs', [], None)"
    using q f eqs by simp
  then obtain q' where "nng_feed q cs = (hs', q', None)" "parser_ok q'" "buffer q' = []"
    "handshake q' = Some proto"
    using nng_feed_handshaken [OF q(2,4)] by blast
  then show ?thesis using q(1) eqs by (simp add: parser_ok_def)
qed

text \<open>
  C5: a receiver that is sent a handshake it accepts and any sequence of frames within its limit
  gets exactly these bodies, in order, however the stream is cut into chunks, and ends with an
  empty buffer and the peer's protocol recorded.
\<close>

theorem nng_stream_delivered:
  assumes "proto < 65536" and "expect = None \<or> expect = Some proto"
    and "list_all (nng_fits (maxFrameBytes (newNngFrameParser expect limit))) bodies"
    and "concat cs = encodeSpHandshake proto @ concat (map encodeNngFrame bodies)"
  shows "\<exists>q. nng_feed (newNngFrameParser expect limit) cs = (bodies, q, None)
     \<and> handshake q = Some proto \<and> buffered q = 0"
proof -
  let ?m = "maxFrameBytes (newNngFrameParser expect limit)"
  have "\<exists>q. nng_feed p cs = (bodies, q, None) \<and> handshake q = Some proto \<and> buffered q = 0"
    if "parser_ok p" "handshake p = None" "expectPeerProto p = expect" "maxFrameBytes p = ?m"
      "length (buffer p) < 8"
      "buffer p @ concat cs = encodeSpHandshake proto @ concat (map encodeNngFrame bodies)" for p
    using that
  proof (induction cs arbitrary: p)
    case Nil
    then have "length (buffer p) = 8 + length (concat (map encodeNngFrame bodies))" by simp
    then show ?case using Nil by simp
  next
    case (Cons c cs)
    show ?case
    proof (cases "length (buffer p @ c) < 8")
      case True
      have "nng_feed p (c # cs) = nng_feed (store_chunk p c) cs"
        using push_short [OF Cons.prems(1,2) True]
        by (simp split: prod.splits)
      then show ?thesis using Cons.IH [of "store_chunk p c"] Cons.prems True by simp
    next
      case False
      then show ?thesis
        using handshake_then_frames [OF Cons.prems(1-4) _ Cons.prems(6) assms(1-3)] by simp
    qed
  qed
  from this [of "newNngFrameParser expect limit"] assms(4) show ?thesis
    by (simp add: newNngFrameParser_def parser_ok_def buffer_def)
qed

theorem nng_stream_delivered_witness:
  "\<exists>q. nng_feed (newNngFrameParser (Some 0x31) (Some 16))
       [[0, 0x53, 0x50], [0, 0, 0x31, 0, 0, 1], [0, 0, 0, 0, 0, 0, 0, 2, 7], [8]]
     = ([[7, 8]], q, None) \<and> handshake q = Some 0x31 \<and> buffered q = 0"
proof (rule nng_stream_delivered)
  show "list_all (nng_fits (maxFrameBytes (newNngFrameParser (Some 0x31) (Some 16)))) [[7, 8]]"
    by (simp add: newNngFrameParser_def nng_fits_def)
  show "concat [[0, 0x53, 0x50], [0, 0, 0x31, 0, 0, 1], [0, 0, 0, 0, 0, 0, 0, 2, 7], [8]]
      = encodeSpHandshake 0x31 @ concat (map encodeNngFrame [[7, 8]])"
    by code_simp
qed simp_all

lemma nng_drain_rest_bound:
  assumes "nng_drain m b = (fs, r, None)" shows "length r < 9 + m"
  using nng.drain_rest_More [OF assms] by (auto simp: next_nng_def Let_def split: if_splits)

lemma nng_drain_fault:
  "nng_drain m b = (fs, r, Some e) \<Longrightarrow> e = ProtocolFault"
proof (induction m b arbitrary: fs rule: nng_drain.induct)
  case (1 m b)
  show ?case
  proof (cases "next_nng m b")
    case More
    then show ?thesis using "1.prems" by (simp add: nng.drain_More)
  next
    case (Bad x)
    then have "x = ProtocolFault" by (auto simp: next_nng_def Let_def split: if_splits)
    then show ?thesis using Bad "1.prems" by (simp add: nng.drain_Bad)
  next
    case (Cut f b')
    obtain gs r' e' where d: "nng_drain m b' = (gs, r', e')" by (cases "nng_drain m b'") auto
    then show ?thesis using "1.IH" [OF Cut] "1.prems" by (simp add: nng.drain_Cut [OF Cut])
  qed
qed

lemma frame_loop_safe:
  assumes "parser_ok p"
  shows "snd (frame_loop p) \<noteq> Inl TypeFault"
    and "isl (snd (frame_loop p)) \<or> buffered (fst (frame_loop p)) < 9 + maxFrameBytes p"
proof -
  obtain fs r e where d: "nng_drain (maxFrameBytes p) (buffer p) = (fs, r, e)"
    by (cases "nng_drain (maxFrameBytes p) (buffer p)") auto
  then obtain q where q: "frame_loop p = (q, case e of None \<Rightarrow> Inr fs | Some x \<Rightarrow> Inl x)"
    "parser_ok q" "buffer q = r"
    using frame_loop_refines [OF assms d] by blast
  show "snd (frame_loop p) \<noteq> Inl TypeFault"
    using q nng_drain_fault [of "maxFrameBytes p" "buffer p" fs r] d by (cases e) auto
  show "isl (snd (frame_loop p)) \<or> buffered (fst (frame_loop p)) < 9 + maxFrameBytes p"
    using q d nng_drain_rest_bound by (cases e) (auto simp: parser_ok_def)
qed

text \<open>
  The parser never reads a chunk that is not there, whatever bytes arrive in whatever pieces,
  and between calls it holds back less than one frame: fewer bytes than a handshake, or fewer
  than a header and a body within the limit.
\<close>

theorem nng_push_safe:
  assumes "parser_ok p"
  shows "parser_ok (fst (push p c)) \<and> snd (push p c) \<noteq> Inl TypeFault
     \<and> (isl (snd (push p c)) \<or> buffered (fst (push p c)) < 9 + maxFrameBytes p)"
proof (cases "handshake p")
  case None
  show ?thesis
  proof (cases "length (buffer p @ c) < 8")
    case True
    then show ?thesis
      using push_short [OF assms None True] push_ok [OF assms, of c] by (simp add: parser_ok_def)
  next
    case False
    have dec: "decodeSpHandshake bs \<noteq> Inl TypeFault" for bs by (simp add: decodeSpHandshake_def)
    obtain p1 where p1: "parser_ok p1" "maxFrameBytes p1 = maxFrameBytes p" and eq:
      "push p c = (case decodeSpHandshake (take 8 (buffer p @ c)) of
          Inl e \<Rightarrow> (p1, Inl e)
        | Inr proto \<Rightarrow> if expectPeerProto p \<noteq> None \<and> expectPeerProto p \<noteq> Some proto
             then (p1, Inl ProtocolFault) else frame_loop (p1\<lparr>handshake := Some proto\<rparr>))"
      using push_handshake [OF assms None] False by (auto simp: not_less)
    show ?thesis
      using push_ok [OF assms, of c] eq dec p1(2) frame_loop_safe [of "p1\<lparr>handshake := h\<rparr>" for h] p1(1)
      by (auto split: sum.splits if_splits)
  qed
next
  case (Some h)
  have "push p c = frame_loop (store_chunk p c)"
    using Some by (simp add: push_def Let_def)
  then show ?thesis using frame_loop_safe [of "store_chunk p c"] push_ok [OF assms, of c] assms by simp
qed

theorem nng_push_safe_witness:
  "parser_ok (fst (push (newNngFrameParser None None) [1, 2, 3]))
   \<and> snd (push (newNngFrameParser None None) [1, 2, 3]) \<noteq> Inl TypeFault
   \<and> (isl (snd (push (newNngFrameParser None None) [1, 2, 3]))
      \<or> buffered (fst (push (newNngFrameParser None None) [1, 2, 3]))
         < 9 + maxFrameBytes (newNngFrameParser None None))"
  by (rule nng_push_safe) (simp add: newNngFrameParser_def parser_ok_def buffer_def)

end
