(* ===== verification/StdioFraming.thy ===== *)
theory StdioFraming
  imports StreamDecoder NngFraming
begin

text \<open>
  The framing of \<open>StdioTransport\<close> (\<open>packages/client/src/transport/stdio.ts\<close>): a four-byte
  big-endian length before each payload, and the incremental parser \<open>StdioFrameParser\<close>, an
  instance of \<open>stream_parser\<close>.
\<close>

section \<open>Framing\<close>

definition STDIO_FRAME_HEADER_LENGTH :: nat where "STDIO_FRAME_HEADER_LENGTH = 4"
definition DEFAULT_MAX_FRAME_BYTES :: nat where "DEFAULT_MAX_FRAME_BYTES = 256 * 1024 * 1024"

definition encodeStdioFrame :: "bytes \<Rightarrow> bytes" where
  "encodeStdioFrame payload = be_bytes 4 (length payload) @ payload"

text \<open>The loop of \<open>StdioFrameParser.push\<close>: the frames cut, what stays buffered, and the error
  thrown, if any.\<close>

function stdio_frames :: "nat \<Rightarrow> bytes \<Rightarrow> bytes list \<times> bytes \<times> parse_error option" where
  "stdio_frames m buf =
     (if length buf < STDIO_FRAME_HEADER_LENGTH then ([], buf, None)
      else let len = be_val (take 4 buf) in
        if len > m then ([], buf, Some ProtocolFault)
        else if length buf < STDIO_FRAME_HEADER_LENGTH + len then ([], buf, None)
        else case stdio_frames m (drop (STDIO_FRAME_HEADER_LENGTH + len) buf) of
          (fs, r, e) \<Rightarrow> (take len (drop STDIO_FRAME_HEADER_LENGTH buf) # fs, r, e))"
  by pat_completeness auto
termination
  by (relation "measure (\<lambda>(m, b). length b)") (auto simp: STDIO_FRAME_HEADER_LENGTH_def)

declare stdio_frames.simps [simp del]

text \<open>\<open>push\<close>: the buffered bytes and the chunk are merged; a throw loses the frames cut before
  it, since they are only returned at the end.\<close>

definition stdio_push :: "nat \<Rightarrow> bytes \<Rightarrow> bytes \<Rightarrow> bytes \<times> (parse_error + bytes list)" where
  "stdio_push m buf chunk =
     (case stdio_frames m (if length buf = 0 then chunk else buf @ chunk) of
        (fs, r, None) \<Rightarrow> (r, Inr fs)
      | (fs, r, Some e) \<Rightarrow> (r, Inl e))"

definition next_stdio :: "nat \<Rightarrow> bytes \<Rightarrow> (parse_error, bytes) cut" where
  "next_stdio m b =
     (if length b < 4 then More
      else if be_val (take 4 b) > m then Bad ProtocolFault
      else if length b < 4 + be_val (take 4 b) then More
      else Cut (take (be_val (take 4 b)) (drop 4 b)) (drop (4 + be_val (take 4 b)) b))"

definition stdio_fits :: "nat \<Rightarrow> bytes \<Rightarrow> bool" where
  "stdio_fits m f \<longleftrightarrow> length f \<le> m \<and> length f < 2 ^ 32"

interpretation stdio: frame_codec "next_stdio m" "stdio_frames m" encodeStdioFrame "stdio_fits m"
  for m :: nat
proof
  show "next_stdio m (b @ c) = Cut f (r @ c)" if "next_stdio m b = Cut f r" for b c f r
    using that by (auto simp: next_stdio_def split: if_splits)
  show "next_stdio m (b @ c) = Bad e" if "next_stdio m b = Bad e" for b c e
    using that by (auto simp: next_stdio_def split: if_splits)
  show "length r < length b" if "next_stdio m b = Cut f r" for b f r
    using that by (auto simp: next_stdio_def split: if_splits)
  show "stdio_frames m b = (case next_stdio m b of
          More \<Rightarrow> ([], b, None)
        | Bad e \<Rightarrow> ([], b, Some e)
        | Cut f r \<Rightarrow> (case stdio_frames m r of (fs, b', e) \<Rightarrow> (f # fs, b', e)))" for b
    by (subst stdio_frames.simps) (simp add: next_stdio_def STDIO_FRAME_HEADER_LENGTH_def Let_def)
  show "next_stdio m (encodeStdioFrame f @ c) = Cut f c" if "stdio_fits m f" for f c
    using that
    by (simp add: next_stdio_def encodeStdioFrame_def stdio_fits_def be_val_be_bytes_id)
  show "next_stdio m [] = More" by (simp add: next_stdio_def)
qed

text \<open>The reader of the pipe: chunks are pushed as they arrive.\<close>

fun stdio_feed :: "nat \<Rightarrow> bytes \<Rightarrow> bytes list \<Rightarrow> bytes list \<times> bytes \<times> parse_error option" where
  "stdio_feed m buf [] = ([], buf, None)"
| "stdio_feed m buf (c # cs) = (case stdio_push m buf c of
      (r, Inl e) \<Rightarrow> ([], r, Some e)
    | (r, Inr fs) \<Rightarrow> (case stdio_feed m r cs of (gs, r', e) \<Rightarrow> (fs @ gs, r', e)))"

lemma stdio_feed_eq:
  "stdio.feed m buf cs = (fs, r, None) \<Longrightarrow> stdio_feed m buf cs = (fs, r, None)"
proof (induction cs arbitrary: buf fs)
  case (Cons c cs)
  obtain gs r1 e1 where d: "stdio_frames m (buf @ c) = (gs, r1, e1)"
    by (cases "stdio_frames m (buf @ c)") auto
  then have e1: "e1 = None" using Cons.prems by (cases e1) auto
  obtain hs r2 e2 where f: "stdio.feed m r1 cs = (hs, r2, e2)" by (cases "stdio.feed m r1 cs") auto
  have eqs: "fs = gs @ hs" "r2 = r" "e2 = None" using Cons.prems d e1 f by auto
  have "stdio_push m buf c = (r1, Inr gs)"
    using d e1 by (cases buf) (auto simp: stdio_push_def)
  then show ?case using Cons.IH [of r1 hs] f eqs by simp
qed simp

text \<open>
  Whatever frames within the limit the host writes and however the pipe splits them, the
  reader gets exactly these frames in order and nothing stays buffered.
\<close>

theorem stdio_stream_delivered:
  assumes "list_all (stdio_fits m) frames" and "concat cs = concat (map encodeStdioFrame frames)"
  shows "stdio_feed m [] cs = (frames, [], None)"
  by (rule stdio_feed_eq) (rule stdio.feed_encoded [OF assms])

theorem stdio_stream_delivered_witness:
  "stdio_feed 16 [] [[0, 0, 0], [2, 5], [6, 0, 0, 0, 0, 0, 0], [0, 1, 9]] = ([[5, 6], [], [9]], [], None)"
proof (rule stdio_stream_delivered)
  show "concat [[0, 0, 0], [2, 5], [6, 0, 0, 0, 0, 0, 0], [0, 1, 9]]
      = concat (map encodeStdioFrame [[5, 6], [], [9]])" by code_simp
qed (simp add: stdio_fits_def)

end
