(* ===== verification/TransportTypes.thy ===== *)
theory TransportTypes
  imports Prelude "HOL-Library.Sublist"
begin

text \<open>
  The vocabulary of the transport layer (\<open>packages/client/src/transport/types.ts\<close>): states,
  error codes, and the effects a transport has on the world around it, recorded in the order in
  which they happen. An error is represented by its code; the message text, which no code reads,
  is left out.
\<close>

datatype transport_state = Connecting | Open | ClosedState

datatype transport_error = TimeoutError | ClosedError | ProtocolError | ConnectError

text \<open>
  A timeout in milliseconds as the options give it. A timer is armed only for a finite positive
  value (\<open>timeoutMs > 0 && Number.isFinite(timeoutMs)\<close>).
\<close>

datatype millis = Ms int | InfiniteMs

fun arms_timer :: "millis \<Rightarrow> bool" where
  "arms_timer (Ms n) = (n > 0)"
| "arms_timer InfiniteMs = False"

text \<open>
  The effects: what a caller's promise gets (\<open>Resolve\<close>, \<open>Reject\<close>), what state listeners see
  (\<open>Notify\<close>), what is written for a request (\<open>Wire\<close>), which bytes a connection takes (\<open>Accept\<close>), that a
  connection is ended (\<open>EndSocket\<close>), which reply frames came in (\<open>Arrived\<close>) and which event bodies are handed
  to message listeners (\<open>Deliver\<close>). Promises and connections are numbered.
\<close>

datatype effect =
    Resolve nat bytes
  | Reject nat transport_error
  | Notify transport_state
  | Wire nat bytes
  | Accept nat bytes
  | EndSocket nat
  | Arrived bytes
  | Deliver bytes

fun settles :: "effect \<Rightarrow> nat list" where
  "settles (Resolve t _) = [t]"
| "settles (Reject t _) = [t]"
| "settles _ = []"

definition settled_by :: "effect list \<Rightarrow> nat list" where
  "settled_by es = concat (map settles es)"

lemma settled_by_Nil [simp]: "settled_by [] = []"
  by (simp add: settled_by_def)

lemma settled_by_append [simp]: "settled_by (xs @ ys) = settled_by xs @ settled_by ys"
  by (simp add: settled_by_def)

lemma settled_by_Cons [simp]: "settled_by (x # xs) = settles x @ settled_by xs"
  by (simp add: settled_by_def)

lemma settled_by_rejects [simp]: "settled_by (map (\<lambda>p. Reject (f p) e) ps) = map f ps"
  by (induction ps) auto

text \<open>What was written and what came back, in order.\<close>

fun wired_by :: "effect list \<Rightarrow> nat list" where
  "wired_by [] = []"
| "wired_by (Wire t _ # es) = t # wired_by es"
| "wired_by (_ # es) = wired_by es"

fun arrived_by :: "effect list \<Rightarrow> bytes list" where
  "arrived_by [] = []"
| "arrived_by (Arrived b # es) = b # arrived_by es"
| "arrived_by (_ # es) = arrived_by es"

fun resolved_by :: "effect list \<Rightarrow> (nat \<times> bytes) list" where
  "resolved_by [] = []"
| "resolved_by (Resolve t b # es) = (t, b) # resolved_by es"
| "resolved_by (_ # es) = resolved_by es"

text \<open>The frames written, with their request; the bytes a connection took.\<close>

fun wires_by :: "effect list \<Rightarrow> (nat \<times> bytes) list" where
  "wires_by [] = []"
| "wires_by (Wire t f # es) = (t, f) # wires_by es"
| "wires_by (_ # es) = wires_by es"

fun taken_by :: "nat \<Rightarrow> effect list \<Rightarrow> bytes" where
  "taken_by k [] = []"
| "taken_by k (Accept j b # es) = (if j = k then b else []) @ taken_by k es"
| "taken_by k (_ # es) = taken_by k es"

lemma wires_by_append [simp]: "wires_by (xs @ ys) = wires_by xs @ wires_by ys"
  by (induction xs rule: wires_by.induct) auto

lemma taken_by_append [simp]: "taken_by k (xs @ ys) = taken_by k xs @ taken_by k ys"
  by (induction k xs rule: taken_by.induct) auto

lemma wired_by_wires: "wired_by es = map fst (wires_by es)"
  by (induction es rule: wired_by.induct) auto

lemma wired_by_append [simp]: "wired_by (xs @ ys) = wired_by xs @ wired_by ys"
  by (induction xs rule: wired_by.induct) auto

lemma arrived_by_append [simp]: "arrived_by (xs @ ys) = arrived_by xs @ arrived_by ys"
  by (induction xs rule: arrived_by.induct) auto

lemma resolved_by_append [simp]: "resolved_by (xs @ ys) = resolved_by xs @ resolved_by ys"
  by (induction xs rule: resolved_by.induct) auto

lemma rejects_only [simp]:
  "wired_by (map (\<lambda>p. Reject (f p) e) ps) = []"
  "arrived_by (map (\<lambda>p. Reject (f p) e) ps) = []"
  "resolved_by (map (\<lambda>p. Reject (f p) e) ps) = []"
  "wires_by (map (\<lambda>p. Reject (f p) e) ps) = []"
  by (induction ps) auto

section \<open>Runs of an event-driven machine\<close>

text \<open>
  A transport reacts to events (a call, a socket callback, a timer) one at a time: its model is
  a step function and a guard that says which events the runtime can deliver in which state.
\<close>

inductive reach :: "'s \<Rightarrow> ('e \<Rightarrow> 's \<Rightarrow> bool) \<Rightarrow> ('e \<Rightarrow> 's \<Rightarrow> 's) \<Rightarrow> 's \<Rightarrow> bool"
  for init allowed step where
  start: "reach init allowed step init"
| step: "reach init allowed step s \<Longrightarrow> allowed e s \<Longrightarrow> reach init allowed step (step e s)"

lemma reach_invariant:
  assumes "reach init allowed step s" and "ok init"
    and "\<And>e s. ok s \<Longrightarrow> allowed e s \<Longrightarrow> ok (step e s)"
  shows "ok s"
  using assms(1) by (induction rule: reach.induct) (auto intro: assms(2,3))

lemma reach_mono:
  "reach init allowed step s \<Longrightarrow> (\<And>e s. allowed e s \<Longrightarrow> allowed' e s) \<Longrightarrow> reach init allowed' step s"
  by (induction rule: reach.induct) (auto intro: reach.intros)

fun run :: "('e \<Rightarrow> 's \<Rightarrow> 's) \<Rightarrow> 'e list \<Rightarrow> 's \<Rightarrow> 's" where
  "run step [] s = s"
| "run step (e # es) s = run step es (step e s)"

fun runs_allowed :: "('e \<Rightarrow> 's \<Rightarrow> bool) \<Rightarrow> ('e \<Rightarrow> 's \<Rightarrow> 's) \<Rightarrow> 'e list \<Rightarrow> 's \<Rightarrow> bool" where
  "runs_allowed allowed step [] s = True"
| "runs_allowed allowed step (e # es) s = (allowed e s \<and> runs_allowed allowed step es (step e s))"

lemma reach_run:
  "reach init allowed step s \<Longrightarrow> runs_allowed allowed step es s \<Longrightarrow>
   reach init allowed step (run step es s)"
  by (induction es arbitrary: s) (auto intro: reach.step)

text \<open>
  The contract of a transport's promises: every step keeps the books in order. Interpreted on
  each transport of the client.
\<close>

locale promise_machine =
  fixes init :: 's and allowed :: "'e \<Rightarrow> 's \<Rightarrow> bool" and step :: "'e \<Rightarrow> 's \<Rightarrow> 's"
    and ok :: "'s \<Rightarrow> bool"
    and issued :: "'s \<Rightarrow> nat" and waiting :: "'s \<Rightarrow> nat list" and trace :: "'s \<Rightarrow> effect list"
  assumes inv_init: "ok init"
    and inv_step: "ok s \<Longrightarrow> allowed e s \<Longrightarrow> ok (step e s)"
    and books_init: "accounted (issued init) (waiting init) (settled_by (trace init))"
    and books_step: "ok s \<Longrightarrow> allowed e s \<Longrightarrow>
      accounted (issued s) (waiting s) (settled_by (trace s)) \<Longrightarrow>
      accounted (issued (step e s)) (waiting (step e s)) (settled_by (trace (step e s)))"
    and trace_grows: "prefix (trace s) (trace (step e s))"
begin

lemma reachable_inv: "reach init allowed step s \<Longrightarrow> ok s"
  by (erule reach_invariant [where ok = ok]) (auto intro: inv_init inv_step)

lemma reachable_books:
  "reach init allowed step s \<Longrightarrow> accounted (issued s) (waiting s) (settled_by (trace s))"
proof (induction rule: reach.induct)
  case start
  show ?case by (rule books_init)
next
  case (step s e)
  show ?case by (rule books_step [OF reachable_inv [OF step.hyps(1)] step.hyps(2) step.IH])
qed

lemma settled_once: "reach init allowed step s \<Longrightarrow> distinct (settled_by (trace s))"
  using accounted_distinct(1) [OF reachable_books] by simp

lemma waiting_or_settled:
  assumes "reach init allowed step s" and "t < issued s"
  shows "t \<in> set (waiting s) \<longleftrightarrow> t \<notin> set (settled_by (trace s))"
  using accounted_distinct [OF reachable_books [OF assms(1)]] assms(2)
  by (auto simp: set_eq_iff)

lemma all_settled:
  assumes "reach init allowed step s" and "waiting s = []"
  shows "set (settled_by (trace s)) = {0..<issued s}"
  using accounted_distinct(2) [OF reachable_books [OF assms(1)]] assms(2) by simp

lemma trace_run: "prefix (trace s) (trace (run step evs s))"
  by (induction evs arbitrary: s) (auto intro: prefix_order.trans trace_grows)

lemma settled_run: "set (settled_by (trace s)) \<subseteq> set (settled_by (trace (run step evs s)))"
  using trace_run [of s evs] by (auto simp: prefix_def)

end

section \<open>The contract of a transport, abstractly\<close>

text \<open>
  What a caller of \<open>send\<close> may rely on, without any of the machinery: a list of promises, one per
  call. A step hands out a new promise or settles one that is waiting; nothing ever happens to a
  promise that is settled.
\<close>

datatype promise = Waiting | Fulfilled bytes | Rejected transport_error

inductive promise_step :: "promise list \<Rightarrow> promise list \<Rightarrow> bool" where
  issue: "promise_step ps (ps @ [Waiting])"
| settle: "k < length ps \<Longrightarrow> ps ! k = Waiting \<Longrightarrow> q \<noteq> Waiting \<Longrightarrow> promise_step ps (ps[k := q])"

inductive_cases promise_step_cases: "promise_step ps qs"

abbreviation promise_steps :: "promise list \<Rightarrow> promise list \<Rightarrow> bool" where
  "promise_steps \<equiv> promise_step\<^sup>*\<^sup>*"

lemma promise_step_Cons: "promise_step ps qs \<Longrightarrow> promise_step (p # ps) (p # qs)"
proof (erule promise_step_cases)
  assume "qs = ps @ [Waiting]"
  then show ?thesis using promise_step.issue [of "p # ps"] by simp
next
  fix k q assume "qs = ps[k := q]" "k < length ps" "ps ! k = Waiting" "q \<noteq> Waiting"
  then show ?thesis using promise_step.settle [of "Suc k" "p # ps" q] by simp
qed

lemma promise_steps_Cons: "promise_steps ps qs \<Longrightarrow> promise_steps (p # ps) (p # qs)"
  by (induction rule: rtranclp_induct) (auto intro: rtranclp.rtrancl_into_rtrancl promise_step_Cons)

lemma promise_steps_issue: "promise_steps ps (ps @ replicate n Waiting)"
proof (induction n)
  case (Suc n)
  then show ?case
    using promise_step.issue [of "ps @ replicate n Waiting"]
    by (simp add: replicate_append_same [symmetric] rtranclp.rtrancl_into_rtrancl)
qed simp

lemma promise_steps_settle:
  "list_all2 (\<lambda>p q. p \<noteq> Waiting \<longrightarrow> q = p) ps qs \<Longrightarrow> promise_steps ps qs"
proof (induction rule: list_all2_induct)
  case (Cons p ps q qs)
  have s: "promise_steps (p # ps) (p # qs)" by (rule promise_steps_Cons [OF Cons(3)])
  show ?case
  proof (cases "p = q")
    case False
    then have "promise_step (p # qs) ((p # qs)[0 := q])"
      using Cons(1) by (intro promise_step.settle) auto
    then show ?thesis using s by (simp add: rtranclp.rtrancl_into_rtrancl)
  qed (use s in simp)
qed simp

text \<open>What the trace of a transport tells of promise \<open>k\<close>.\<close>

fun promise_of :: "effect list \<Rightarrow> nat \<Rightarrow> promise" where
  "promise_of [] k = Waiting"
| "promise_of (Resolve t b # es) k = (if t = k then Fulfilled b else promise_of es k)"
| "promise_of (Reject t e # es) k = (if t = k then Rejected e else promise_of es k)"
| "promise_of (_ # es) k = promise_of es k"

lemma promise_of_waiting: "promise_of es k = Waiting \<longleftrightarrow> k \<notin> set (settled_by es)"
  by (induction es k rule: promise_of.induct) auto

lemma promise_of_append:
  "promise_of (xs @ ys) k = (if promise_of xs k = Waiting then promise_of ys k else promise_of xs k)"
  by (induction xs k rule: promise_of.induct) auto

lemma promise_of_resolved: "promise_of es k = Fulfilled b \<Longrightarrow> (k, b) \<in> set (resolved_by es)"
  by (induction es k rule: promise_of.induct) (auto split: if_splits)

definition promises :: "nat \<Rightarrow> effect list \<Rightarrow> promise list" where
  "promises n tr = map (promise_of tr) [0..<n]"

lemma promise_steps_prefix:
  assumes "prefix tr tr'" and "n \<le> m"
  shows "promise_steps (promises n tr) (promises m tr')"
proof -
  have late: "promise_of tr' k = promise_of tr k" if "promise_of tr k \<noteq> Waiting" for k
    using assms(1) that by (auto simp: prefix_def promise_of_append)
  have "promise_steps (promises n tr @ replicate (m - n) Waiting) (promises m tr')"
    by (rule promise_steps_settle)
       (use assms(2) late in \<open>auto simp: promises_def list_all2_conv_all_nth nth_append\<close>)
  then show ?thesis by (rule rtranclp_trans [OF promise_steps_issue])
qed

text \<open>A transport whose steps implement the contract.\<close>

locale promise_contract = promise_machine +
  assumes issued_step: "ok s \<Longrightarrow> allowed e s \<Longrightarrow> issued s \<le> issued (step e s)"
begin

lemma refines_step:
  "reach init allowed step s \<Longrightarrow> allowed e s \<Longrightarrow>
   promise_steps (promises (issued s) (trace s)) (promises (issued (step e s)) (trace (step e s)))"
  by (rule promise_steps_prefix [OF trace_grows issued_step [OF reachable_inv]])

lemma promise_waits:
  assumes "reach init allowed step s" and "k < issued s"
  shows "promises (issued s) (trace s) ! k = Waiting \<longleftrightarrow> k \<in> set (waiting s)"
  using waiting_or_settled [OF assms] assms(2) by (simp add: promises_def promise_of_waiting)

end

end
