(* ===== verification/StdioTransport.thy ===== *)
theory StdioTransport
  imports StdioFraming TransportTypes
begin

text \<open>
  \<open>StdioTransport\<close> (\<open>packages/client/src/transport/stdio.ts\<close>): requests go to a child process
  as length-prefixed frames on its stdin, replies come back on stdout and are matched to
  requests by position only. The transport is an event-driven machine with a FIFO queue, one
  request in flight, and a count of replies that are still on their way for requests that timed
  out. Logging is left out; listeners are taken not to call back into the transport before they
  return.
\<close>

section \<open>State\<close>

record pending =
  p_tok :: nat
  p_payload :: bytes
  p_timeoutMs :: millis
  p_timer :: bool

text \<open>
  \<open>stdin_ok\<close> and \<open>exited\<close> are the state of the child process: whether a write to its stdin
  succeeds, and whether it has exited. \<open>closing\<close> says that \<open>close()\<close> is waiting for the exit.
  \<open>out_buf\<close> and \<open>ev_buf\<close> are the buffers of the two frame parsers, and \<open>out_done\<close>,
  \<open>ev_done\<close> say that the reading loop has ended. \<open>issued\<close> counts the promises handed out and
  \<open>trace\<close> records the effects.
\<close>

record stdio_transport =
  st_state :: transport_state
  proc :: bool
  queue :: "pending list"
  inFlight :: "pending option"
  orphanReplies :: nat
  stderrChunks :: "string list"
  closedByUser :: bool
  lastError :: "transport_error option"
  eventsOpen :: bool
  closing :: bool
  stdin_ok :: bool
  exited :: bool
  out_buf :: bytes
  out_done :: bool
  ev_buf :: bytes
  ev_done :: bool
  maxFrame :: nat
  defaultTimeoutMs :: millis
  issued :: nat
  trace :: "effect list"

definition emit :: "effect list \<Rightarrow> stdio_transport \<Rightarrow> stdio_transport" where
  "emit es t = t\<lparr>trace := trace t @ es\<rparr>"

section \<open>Operations\<close>

definition setState :: "transport_state \<Rightarrow> stdio_transport \<Rightarrow> stdio_transport" where
  "setState s t = (if st_state t = s then t else emit [Notify s] (t\<lparr>st_state := s\<rparr>))"

definition waiting :: "stdio_transport \<Rightarrow> nat list" where
  "waiting t = (case inFlight t of None \<Rightarrow> [] | Some p \<Rightarrow> [p_tok p]) @ map p_tok (queue t)"

definition failAll :: "transport_error \<Rightarrow> stdio_transport \<Rightarrow> stdio_transport" where
  "failAll err t =
     (let t1 = (case inFlight t of
                  None \<Rightarrow> t
                | Some p \<Rightarrow> emit [Reject (p_tok p) err] (t\<lparr>inFlight := None\<rparr>));
          q = queue t1
      in emit (map (\<lambda>p. Reject (p_tok p) err) q) (t1\<lparr>queue := []\<rparr>))"

definition pump :: "stdio_transport \<Rightarrow> stdio_transport" where
  "pump t =
     (if st_state t \<noteq> Open \<or> inFlight t \<noteq> None \<or> length (queue t) = 0 then t
      else if \<not> proc t then t
      else
        let p = (hd (queue t))\<lparr>p_timer := arms_timer (p_timeoutMs (hd (queue t)))\<rparr>;
            t1 = t\<lparr>queue := tl (queue t), inFlight := Some p\<rparr>
        in if stdin_ok t then emit [Wire (p_tok p) (encodeStdioFrame (p_payload p))] t1
           else setState ClosedState (failAll ClosedError
                  (emit [Reject (p_tok p) ClosedError] (t1\<lparr>lastError := Some ClosedError, inFlight := None\<rparr>))))"

text \<open>The constructor: \<open>spawned\<close> is the outcome of \<open>Bun.spawn\<close>, \<open>fd\<close> whether the events
  descriptor came up.\<close>

definition newStdioTransport :: "bool \<Rightarrow> bool \<Rightarrow> bool \<Rightarrow> nat option \<Rightarrow> millis option \<Rightarrow> stdio_transport" where
  "newStdioTransport spawned wantEvents fd mx dflt =
     (let t = \<lparr>st_state = Connecting, proc = False, queue = [], inFlight = None, orphanReplies = 0,
               stderrChunks = [], closedByUser = False, lastError = None, eventsOpen = False,
               closing = False, stdin_ok = spawned, exited = False, out_buf = [],
               out_done = \<not> spawned, ev_buf = [], ev_done = \<not> (spawned \<and> wantEvents \<and> fd),
               maxFrame = (case mx of None \<Rightarrow> DEFAULT_MAX_FRAME_BYTES | Some m \<Rightarrow> m),
               defaultTimeoutMs = (case dflt of None \<Rightarrow> Ms 30000 | Some d \<Rightarrow> d),
               issued = 0, trace = []\<rparr>
      in if spawned
         then setState Open (t\<lparr>proc := True, eventsOpen := wantEvents \<and> fd\<rparr>)
         else setState ClosedState (t\<lparr>lastError := Some ConnectError\<rparr>))"

definition closed_error :: "stdio_transport \<Rightarrow> transport_error" where
  "closed_error t = (case lastError t of None \<Rightarrow> ClosedError | Some e \<Rightarrow> e)"

definition send :: "bytes \<Rightarrow> millis option \<Rightarrow> stdio_transport \<Rightarrow> stdio_transport" where
  "send request timeoutMs t =
     (let tok = issued t; t1 = t\<lparr>issued := issued t + 1\<rparr> in
      if st_state t = ClosedState then emit [Reject tok (closed_error t)] t1
      else pump (t1\<lparr>queue := queue t @
             [\<lparr>p_tok = tok, p_payload = request,
               p_timeoutMs = (case timeoutMs of None \<Rightarrow> defaultTimeoutMs t | Some m \<Rightarrow> m),
               p_timer = False\<rparr>]\<rparr>))"

text \<open>\<open>close()\<close> up to its \<open>await proc.exited\<close>, and what follows it.\<close>

definition close_end :: "stdio_transport \<Rightarrow> stdio_transport" where
  "close_end t = setState ClosedState (t\<lparr>eventsOpen := False, closing := False\<rparr>)"

definition close_begin :: "stdio_transport \<Rightarrow> stdio_transport" where
  "close_begin t =
     (if closedByUser t then t
      else let t1 = failAll ClosedError (t\<lparr>closedByUser := True\<rparr>) in
        if proc t1 \<and> \<not> exited t1 then emit [EndSocket 0] (t1\<lparr>closing := True\<rparr>)
        else close_end t1)"

definition onReply :: "bytes \<Rightarrow> stdio_transport \<Rightarrow> stdio_transport" where
  "onReply frame t0 =
     (let t = emit [Arrived frame] t0 in
      if orphanReplies t > 0 then t\<lparr>orphanReplies := orphanReplies t - 1\<rparr>
      else case inFlight t of
          None \<Rightarrow> t
        | Some p \<Rightarrow> pump (emit [Resolve (p_tok p) frame] (t\<lparr>inFlight := None\<rparr>)))"

text \<open>One turn of \<open>pumpStdout\<close> with a chunk, and its end.\<close>

definition onStdout :: "bytes \<Rightarrow> stdio_transport \<Rightarrow> stdio_transport" where
  "onStdout chunk t =
     (case stdio_push (maxFrame t) (out_buf t) chunk of
        (r, Inl e) \<Rightarrow> (close_begin (failAll ProtocolError
            (t\<lparr>out_buf := r, lastError := Some ProtocolError\<rparr>)))\<lparr>out_done := True\<rparr>
      | (r, Inr frames) \<Rightarrow> fold onReply frames (t\<lparr>out_buf := r\<rparr>))"

definition onStdoutEnd :: "stdio_transport \<Rightarrow> stdio_transport" where
  "onStdoutEnd t = t\<lparr>out_done := True\<rparr>"

definition onEventChunk :: "bytes \<Rightarrow> stdio_transport \<Rightarrow> stdio_transport" where
  "onEventChunk chunk t =
     (case stdio_push (maxFrame t) (ev_buf t) chunk of
        (r, Inl e) \<Rightarrow> t\<lparr>ev_buf := r, ev_done := True, eventsOpen := False\<rparr>
      | (r, Inr frames) \<Rightarrow> emit (map Deliver frames) (t\<lparr>ev_buf := r\<rparr>))"

definition onEventsEnd :: "stdio_transport \<Rightarrow> stdio_transport" where
  "onEventsEnd t = t\<lparr>ev_done := True, eventsOpen := False\<rparr>"

text \<open>One turn of \<open>pumpStderr\<close>: the last chunks of the diagnostics are kept.\<close>

definition onStderr :: "string \<Rightarrow> stdio_transport \<Rightarrow> stdio_transport" where
  "onStderr s t =
     (let c = stderrChunks t @ [s]
      in t\<lparr>stderrChunks := (if length c > 4096 then drop (length c - 2048) c else c)\<rparr>)"

definition onExit :: "stdio_transport \<Rightarrow> stdio_transport" where
  "onExit t =
     (if closedByUser t then t
      else setState ClosedState (failAll ClosedError
             (t\<lparr>lastError := Some ClosedError, eventsOpen := False\<rparr>)))"

definition onRequestTimeout :: "nat \<Rightarrow> stdio_transport \<Rightarrow> stdio_transport" where
  "onRequestTimeout tok t =
     (case inFlight t of
        None \<Rightarrow> t
      | Some p \<Rightarrow> if p_tok p \<noteq> tok then t
          else pump (emit [Reject tok TimeoutError]
                 (t\<lparr>inFlight := None, orphanReplies := orphanReplies t + 1\<rparr>)))"

section \<open>The machine\<close>

datatype stdio_event =
    Send bytes "millis option"
  | Close
  | CloseResumes
  | StdoutChunk bytes
  | StdoutEnd
  | EventChunk bytes
  | EventsEnd
  | StderrChunk string
  | ProcExit
  | StdinBreaks
  | Timeout nat

fun stdio_step :: "stdio_event \<Rightarrow> stdio_transport \<Rightarrow> stdio_transport" where
  "stdio_step (Send r m) t = send r m t"
| "stdio_step Close t = close_begin t"
| "stdio_step CloseResumes t = close_end t"
| "stdio_step (StdoutChunk c) t = onStdout c t"
| "stdio_step StdoutEnd t = onStdoutEnd t"
| "stdio_step (EventChunk c) t = onEventChunk c t"
| "stdio_step EventsEnd t = onEventsEnd t"
| "stdio_step (StderrChunk s) t = onStderr s t"
| "stdio_step ProcExit t = onExit (t\<lparr>exited := True\<rparr>)"
| "stdio_step StdinBreaks t = t\<lparr>stdin_ok := False\<rparr>"
| "stdio_step (Timeout tok) t = onRequestTimeout tok t"

text \<open>
  What the runtime can deliver: chunks while the reading loop runs, one exit of a process that
  was spawned, the continuation of \<open>close()\<close> after the exit, and the timer of the request in
  flight, which is the only one armed.
\<close>

fun stdio_allowed :: "stdio_event \<Rightarrow> stdio_transport \<Rightarrow> bool" where
  "stdio_allowed CloseResumes t = (closing t \<and> exited t)"
| "stdio_allowed (StdoutChunk c) t = (\<not> out_done t)"
| "stdio_allowed StdoutEnd t = (\<not> out_done t)"
| "stdio_allowed (EventChunk c) t = (\<not> ev_done t)"
| "stdio_allowed EventsEnd t = (\<not> ev_done t)"
| "stdio_allowed ProcExit t = (proc t \<and> \<not> exited t)"
| "stdio_allowed (Timeout tok) t =
     (case inFlight t of None \<Rightarrow> False | Some p \<Rightarrow> p_tok p = tok \<and> p_timer p)"
| "stdio_allowed _ t = True"

lemmas stdio_ops [handler_defs] = emit_def setState_def failAll_def send_def close_end_def
  close_begin_def onStdoutEnd_def onEventsEnd_def onStderr_def onExit_def onRequestTimeout_def

section \<open>Promises\<close>

lemma setState_simps [simp]:
  "issued (setState s t) = issued t" "waiting (setState s t) = waiting t"
  "settled_by (trace (setState s t)) = settled_by (trace t)"
  "wired_by (trace (setState s t)) = wired_by (trace t)"
  "arrived_by (trace (setState s t)) = arrived_by (trace t)"
  "resolved_by (trace (setState s t)) = resolved_by (trace t)"
  "st_state (setState s t) = s" "inFlight (setState s t) = inFlight t"
  "queue (setState s t) = queue t" "orphanReplies (setState s t) = orphanReplies t"
  "closedByUser (setState s t) = closedByUser t" "proc (setState s t) = proc t"
  "closing (setState s t) = closing t" "exited (setState s t) = exited t"
  "eventsOpen (setState s t) = eventsOpen t" "stderrChunks (setState s t) = stderrChunks t"
  by (simp_all add: setState_def emit_def waiting_def)

lemma failAll_simps [simp]:
  "issued (failAll e t) = issued t" "waiting (failAll e t) = []"
  "settled_by (trace (failAll e t)) = settled_by (trace t) @ waiting t"
  "wired_by (trace (failAll e t)) = wired_by (trace t)"
  "arrived_by (trace (failAll e t)) = arrived_by (trace t)"
  "resolved_by (trace (failAll e t)) = resolved_by (trace t)"
  "st_state (failAll e t) = st_state t" "inFlight (failAll e t) = None"
  "queue (failAll e t) = []" "orphanReplies (failAll e t) = orphanReplies t"
  "closedByUser (failAll e t) = closedByUser t" "proc (failAll e t) = proc t"
  "closing (failAll e t) = closing t" "exited (failAll e t) = exited t"
  "eventsOpen (failAll e t) = eventsOpen t" "stderrChunks (failAll e t) = stderrChunks t"
  by (simp_all add: failAll_def emit_def waiting_def Let_def split: option.splits)

definition books :: "stdio_transport \<Rightarrow> bool" where
  "books t \<longleftrightarrow> accounted (issued t) (waiting t) (settled_by (trace t))"

lemmas books_simps = books_def accounted_def waiting_def emit_def

lemma books_update [simp]:
  "books (t\<lparr>out_done := b\<rparr>) = books t" "books (t\<lparr>ev_done := b\<rparr>) = books t"
  "books (t\<lparr>eventsOpen := b\<rparr>) = books t" "books (t\<lparr>out_buf := r\<rparr>) = books t"
  "books (t\<lparr>ev_buf := r\<rparr>) = books t" "books (t\<lparr>exited := b\<rparr>) = books t"
  "books (t\<lparr>stdin_ok := b\<rparr>) = books t" "books (t\<lparr>stderrChunks := c\<rparr>) = books t"
  "books (t\<lparr>closedByUser := b\<rparr>) = books t" "books (t\<lparr>closing := b\<rparr>) = books t"
  "books (t\<lparr>lastError := e\<rparr>) = books t" "books (t\<lparr>orphanReplies := n\<rparr>) = books t"
  by (simp_all add: books_simps)

lemma books_emit [simp]: "settled_by es = [] \<Longrightarrow> books (emit es t) = books t"
  by (simp add: books_simps)

lemma books_failAll [simp]: "books (failAll e t) = books t"
  by (simp add: books_def accounted_def add.commute)

lemma books_setState [simp]: "books (setState s t) = books t"
  by (simp add: books_def)

lemma books_pump [simp]: "books (pump t) = books t"
proof (cases "queue t")
  case (Cons p q)
  then show ?thesis
    by (simp add: pump_def Let_def) (auto simp: books_simps)
qed (simp add: pump_def)

lemma books_onReply [simp]: "books (onReply f t) = books t"
  by (simp add: onReply_def Let_def split: option.split) (auto simp: books_simps)

lemma books_fold_onReply [simp]: "books (fold onReply fs t) = books t"
  by (induction fs arbitrary: t) auto

lemma books_onRequestTimeout [simp]: "books (onRequestTimeout k t) = books t"
  by (simp add: onRequestTimeout_def Let_def split: option.split) (auto simp: books_simps)

lemma books_send [simp]: "books t \<Longrightarrow> books (send r m t)"
  by (simp add: send_def Let_def) (auto simp: books_simps)

lemma books_close_end [simp]: "books (close_end t) = books t"
  by (simp add: close_end_def)

lemma books_close_begin [simp]: "books (close_begin t) = books t"
  by (simp add: close_begin_def Let_def)

lemma effects_Delivers [simp]:
  "settled_by (map Deliver fs) = []" "wired_by (map Deliver fs) = []"
  "arrived_by (map Deliver fs) = []" "resolved_by (map Deliver fs) = []"
  by (induction fs) auto

lemma books_step: "books t \<Longrightarrow> books (stdio_step e t)"
  by (cases e) (auto simp: onStdout_def onStdoutEnd_def onEventsEnd_def onStderr_def
      onEventChunk_def onExit_def Let_def split: prod.splits sum.splits)

lemma books_new: "books (newStdioTransport sp ev fd mx d)"
  by (simp add: newStdioTransport_def Let_def books_simps setState_def)

text \<open>Nothing is ever taken out of the trace.\<close>

lemma prefix_emit [simp]: "prefix (trace t) (trace (emit es t))"
  by (simp add: emit_def)

lemma prefix_setState [simp]: "prefix (trace t) (trace (setState s t))"
  by (simp add: setState_def emit_def)

lemma prefix_failAll [simp]: "prefix (trace t) (trace (failAll e t))"
  by (simp add: failAll_def emit_def Let_def split: option.splits)

lemma prefix_pump [simp]: "prefix (trace t) (trace (pump t))"
  by (auto simp: pump_def Let_def emit_def failAll_def setState_def)

lemma prefix_onReply [simp]: "prefix (trace t) (trace (onReply f t))"
  by (auto simp: onReply_def Let_def emit_def split: option.splits
      intro: prefix_order.trans [OF _ prefix_pump])

lemma prefix_fold_onReply [simp]: "prefix (trace t) (trace (fold onReply fs t))"
  by (induction fs arbitrary: t) (auto intro: prefix_order.trans [OF prefix_onReply])

lemma prefix_close_end [simp]: "prefix (trace t) (trace (close_end t))"
  by (simp add: close_end_def setState_def emit_def)

lemma prefix_close_begin [simp]: "prefix (trace t) (trace (close_begin t))"
  by (auto simp: close_begin_def close_end_def setState_def emit_def Let_def failAll_def
      split: option.splits)

lemmas prefix_via = prefix_order.trans [OF _ prefix_emit] prefix_order.trans [OF _ prefix_setState]
  prefix_order.trans [OF _ prefix_failAll] prefix_order.trans [OF _ prefix_pump]
  prefix_order.trans [OF _ prefix_fold_onReply] prefix_order.trans [OF _ prefix_close_end]
  prefix_order.trans [OF _ prefix_close_begin]

lemma prefix_step: "prefix (trace t) (trace (stdio_step e t))"
  by (cases e) (simp_all add: prefix_via send_def onRequestTimeout_def onStdout_def onStdoutEnd_def
      onEventsEnd_def onStderr_def onEventChunk_def onExit_def Let_def
      split: prod.split sum.split option.split)

section \<open>Work, order and the matching of replies\<close>

text \<open>
  The state of the request in flight: a request waits only behind one that is on the wire, and
  once the transport is closed by anything but \<open>close()\<close> nothing waits.
\<close>

definition sane :: "stdio_transport \<Rightarrow> bool" where
  "sane t \<longleftrightarrow>
     st_state t \<noteq> Connecting \<and> (st_state t = Open \<longrightarrow> proc t) \<and> (closing t \<longrightarrow> closedByUser t) \<and>
     (st_state t = ClosedState \<and> \<not> closedByUser t \<longrightarrow> inFlight t = None \<and> queue t = []) \<and>
     (\<forall>p. inFlight t = Some p \<longrightarrow> p_timer p = arms_timer (p_timeoutMs p))"

definition busy_inv :: "stdio_transport \<Rightarrow> bool" where
  "busy_inv t \<longleftrightarrow> sane t \<and> (st_state t = Open \<longrightarrow> inFlight t = None \<longrightarrow> queue t = [])"

lemma busy_pump [simp]: "sane t \<Longrightarrow> busy_inv (pump t)"
proof (cases "queue t")
  case (Cons p q)
  assume "sane t"
  then show ?thesis using Cons
    by (auto simp: pump_def Let_def emit_def busy_inv_def sane_def)
qed (simp add: pump_def busy_inv_def)

lemma busy_failAll [simp]: "sane t \<Longrightarrow> busy_inv (failAll e t)"
  by (simp add: busy_inv_def sane_def)

lemma busy_closed [simp]: "inFlight t = None \<Longrightarrow> queue t = [] \<Longrightarrow> sane t \<Longrightarrow> busy_inv (setState ClosedState t)"
  by (simp add: busy_inv_def sane_def)

lemma busy_sane [simp]: "busy_inv t \<Longrightarrow> sane t"
  by (simp add: busy_inv_def)

lemma busy_update [simp]:
  "busy_inv (t\<lparr>out_done := b\<rparr>) = busy_inv t" "busy_inv (t\<lparr>ev_done := b\<rparr>) = busy_inv t"
  "busy_inv (t\<lparr>eventsOpen := b\<rparr>) = busy_inv t" "busy_inv (t\<lparr>out_buf := r\<rparr>) = busy_inv t"
  "busy_inv (t\<lparr>ev_buf := r\<rparr>) = busy_inv t" "busy_inv (t\<lparr>exited := b\<rparr>) = busy_inv t"
  "busy_inv (t\<lparr>stdin_ok := b\<rparr>) = busy_inv t" "busy_inv (t\<lparr>stderrChunks := c\<rparr>) = busy_inv t"
  "busy_inv (t\<lparr>lastError := e\<rparr>) = busy_inv t" "busy_inv (t\<lparr>orphanReplies := n\<rparr>) = busy_inv t"
  "busy_inv (emit es t) = busy_inv t"
  by (simp_all add: busy_inv_def sane_def emit_def)

lemma sane_update [simp]:
  "sane (t\<lparr>eventsOpen := b\<rparr>) = sane t" "sane (t\<lparr>lastError := e\<rparr>) = sane t"
  "sane (t\<lparr>orphanReplies := n\<rparr>) = sane t" "sane (emit es t) = sane t"
  "sane (t\<lparr>exited := b\<rparr>) = sane t" "sane (t\<lparr>out_buf := r\<rparr>) = sane t"
  "sane t \<Longrightarrow> sane (t\<lparr>inFlight := None\<rparr>)" "sane t \<Longrightarrow> sane (t\<lparr>closedByUser := True\<rparr>)"
  by (auto simp: sane_def emit_def)

lemma busy_onReply [simp]: "busy_inv t \<Longrightarrow> busy_inv (onReply f t)"
  by (simp add: onReply_def Let_def split: option.split)

lemma busy_fold_onReply [simp]: "busy_inv t \<Longrightarrow> busy_inv (fold onReply fs t)"
  by (induction fs arbitrary: t) auto

lemma busy_onRequestTimeout [simp]: "busy_inv t \<Longrightarrow> busy_inv (onRequestTimeout k t)"
  by (simp add: onRequestTimeout_def split: option.split)

lemma busy_send [simp]: "busy_inv t \<Longrightarrow> busy_inv (send r m t)"
proof -
  assume b: "busy_inv t"
  then have "busy_inv (t\<lparr>issued := n\<rparr>)" for n by (simp add: busy_inv_def sane_def)
  moreover have "st_state t \<noteq> ClosedState \<Longrightarrow> sane (t\<lparr>issued := n, queue := q\<rparr>)" for n q
    using b by (simp add: busy_inv_def sane_def)
  ultimately show ?thesis by (simp add: send_def Let_def)
qed

lemma busy_close_end [simp]: "busy_inv t \<Longrightarrow> closedByUser t \<Longrightarrow> busy_inv (close_end t)"
  by (simp add: close_end_def busy_inv_def sane_def)

lemma busy_close_begin [simp]: "busy_inv t \<Longrightarrow> busy_inv (close_begin t)"
  by (simp add: close_begin_def Let_def) (simp add: busy_inv_def sane_def)

lemma busy_step: "busy_inv t \<Longrightarrow> stdio_allowed e t \<Longrightarrow> busy_inv (stdio_step e t)"
proof (cases e)
  case CloseResumes
  assume "busy_inv t" "stdio_allowed e t"
  then show ?thesis using CloseResumes by (simp add: busy_inv_def sane_def close_end_def)
qed (auto simp: onStdout_def onStdoutEnd_def onEventsEnd_def onStderr_def onEventChunk_def
      onExit_def Let_def split: prod.split sum.split)

lemma busy_new: "busy_inv (newStdioTransport sp ev fd mx d)"
  by (simp add: newStdioTransport_def Let_def busy_inv_def sane_def)

text \<open>Requests go on the wire in the order in which they were made.\<close>

definition fifo_inv :: "stdio_transport \<Rightarrow> bool" where
  "fifo_inv t \<longleftrightarrow>
     sorted_wrt (<) (wired_by (trace t) @ map p_tok (queue t)) \<and>
     (\<forall>k \<in> set (wired_by (trace t) @ map p_tok (queue t)). k < issued t)"

lemma fifo_pump [simp]: "fifo_inv t \<Longrightarrow> fifo_inv (pump t)"
proof (cases "queue t")
  case (Cons p q)
  assume "fifo_inv t"
  then show ?thesis using Cons
    by (simp add: pump_def Let_def) (auto simp: fifo_inv_def emit_def sorted_wrt_append)
qed (simp add: pump_def)

lemma fifo_setState [simp]: "fifo_inv (setState s t) = fifo_inv t"
  by (simp add: fifo_inv_def)

lemma fifo_failAll [simp]: "fifo_inv t \<Longrightarrow> fifo_inv (failAll e t)"
  by (simp add: fifo_inv_def sorted_wrt_append)

lemma fifo_update [simp]:
  "fifo_inv (t\<lparr>out_done := b\<rparr>) = fifo_inv t" "fifo_inv (t\<lparr>ev_done := b\<rparr>) = fifo_inv t"
  "fifo_inv (t\<lparr>eventsOpen := b\<rparr>) = fifo_inv t" "fifo_inv (t\<lparr>out_buf := r\<rparr>) = fifo_inv t"
  "fifo_inv (t\<lparr>ev_buf := r\<rparr>) = fifo_inv t" "fifo_inv (t\<lparr>exited := b\<rparr>) = fifo_inv t"
  "fifo_inv (t\<lparr>stdin_ok := b\<rparr>) = fifo_inv t" "fifo_inv (t\<lparr>stderrChunks := c\<rparr>) = fifo_inv t"
  "fifo_inv (t\<lparr>closedByUser := b\<rparr>) = fifo_inv t" "fifo_inv (t\<lparr>closing := b\<rparr>) = fifo_inv t"
  "fifo_inv (t\<lparr>lastError := e\<rparr>) = fifo_inv t" "fifo_inv (t\<lparr>orphanReplies := n\<rparr>) = fifo_inv t"
  "fifo_inv (t\<lparr>inFlight := f\<rparr>) = fifo_inv t"
  by (simp_all add: fifo_inv_def)

lemma fifo_emit [simp]: "wired_by es = [] \<Longrightarrow> fifo_inv (emit es t) = fifo_inv t"
  by (simp add: fifo_inv_def emit_def)

lemma fifo_onReply [simp]: "fifo_inv t \<Longrightarrow> fifo_inv (onReply f t)"
  by (simp add: onReply_def Let_def split: option.split)

lemma fifo_fold_onReply [simp]: "fifo_inv t \<Longrightarrow> fifo_inv (fold onReply fs t)"
  by (induction fs arbitrary: t) auto

lemma fifo_send [simp]: "fifo_inv t \<Longrightarrow> fifo_inv (send r m t)"
proof -
  assume "fifo_inv t"
  then have "fifo_inv (t\<lparr>issued := Suc (issued t)\<rparr>)"
    and "fifo_inv (t\<lparr>issued := Suc (issued t), queue := queue t @
             [\<lparr>p_tok = issued t, p_payload = r, p_timeoutMs = x, p_timer = False\<rparr>]\<rparr>)" for x
    by (auto simp: fifo_inv_def sorted_wrt_append less_SucI)
  then show ?thesis by (simp add: send_def Let_def)
qed

lemma fifo_close_end [simp]: "fifo_inv (close_end t) = fifo_inv t"
  by (simp add: close_end_def)

lemma fifo_close_begin [simp]: "fifo_inv t \<Longrightarrow> fifo_inv (close_begin t)"
  by (simp add: close_begin_def Let_def)

lemma fifo_step: "fifo_inv t \<Longrightarrow> fifo_inv (stdio_step e t)"
  by (cases e) (auto simp: onStdout_def onStdoutEnd_def onEventsEnd_def onStderr_def
      onEventChunk_def onExit_def onRequestTimeout_def Let_def split: prod.splits sum.splits option.splits)

lemma fifo_new: "fifo_inv (newStdioTransport sp ev fd mx d)"
  by (simp add: newStdioTransport_def Let_def fifo_inv_def setState_def emit_def)

text \<open>
  The host answers one request after another: when a chunk is read, it holds replies to
  requests that are already on the wire.
\<close>

fun host_honest :: "stdio_event \<Rightarrow> stdio_transport \<Rightarrow> bool" where
  "host_honest (StdoutChunk c) t =
     (case stdio_push (maxFrame t) (out_buf t) c of
        (r, Inl e) \<Rightarrow> True
      | (r, Inr frames) \<Rightarrow>
          length (arrived_by (trace t)) + length frames \<le> length (wired_by (trace t)))"
| "host_honest _ t = True"

text \<open>The pairs of a request on the wire and the reply in the same position.\<close>

definition matched :: "effect list \<Rightarrow> (nat \<times> bytes) set" where
  "matched tr = set (zip (wired_by tr) (arrived_by tr))"

lemma zip_mono: "set (zip xs ys) \<subseteq> set (zip (xs @ xs') (ys @ ys'))"
  by (auto simp: set_zip nth_append)

lemma matched_append: "x \<in> matched tr \<Longrightarrow> x \<in> matched (tr @ es)"
  using subsetD [OF zip_mono] by (simp add: matched_def)

lemma matched_simps [simp]:
  "matched (trace (setState s t)) = matched (trace t)"
  "matched (trace (failAll e t)) = matched (trace t)"
  by (simp_all add: matched_def)

definition aligned :: "stdio_transport \<Rightarrow> bool" where
  "aligned t \<longleftrightarrow>
     (\<not> closedByUser t \<longrightarrow> set (resolved_by (trace t)) \<subseteq> matched (trace t)) \<and>
     (\<not> closedByUser t \<and> st_state t = Open \<longrightarrow>
        length (wired_by (trace t)) =
          length (arrived_by (trace t)) + orphanReplies t + (if inFlight t = None then 0 else 1) \<and>
        (\<forall>p. inFlight t = Some p \<longrightarrow> last (wired_by (trace t)) = p_tok p))"

lemma aligned_pump [simp]: "aligned t \<Longrightarrow> aligned (pump t)"
proof (cases "queue t")
  case (Cons p q)
  assume "aligned t"
  then show ?thesis using Cons
    by (auto simp: pump_def Let_def aligned_def emit_def matched_append)
qed (simp add: pump_def)

lemma aligned_update [simp]:
  "aligned (t\<lparr>out_done := b\<rparr>) = aligned t" "aligned (t\<lparr>ev_done := b\<rparr>) = aligned t"
  "aligned (t\<lparr>eventsOpen := b\<rparr>) = aligned t" "aligned (t\<lparr>out_buf := r\<rparr>) = aligned t"
  "aligned (t\<lparr>ev_buf := r\<rparr>) = aligned t" "aligned (t\<lparr>exited := b\<rparr>) = aligned t"
  "aligned (t\<lparr>stdin_ok := b\<rparr>) = aligned t" "aligned (t\<lparr>stderrChunks := c\<rparr>) = aligned t"
  "aligned (t\<lparr>lastError := e\<rparr>) = aligned t" "aligned (t\<lparr>closing := b\<rparr>) = aligned t"
  "aligned (t\<lparr>queue := q\<rparr>) = aligned t" "aligned (t\<lparr>issued := n\<rparr>) = aligned t"
  by (simp_all add: aligned_def)

lemma aligned_emit [simp]:
  "aligned t \<Longrightarrow> wired_by es = [] \<Longrightarrow> arrived_by es = [] \<Longrightarrow> resolved_by es = [] \<Longrightarrow> aligned (emit es t)"
  by (auto simp: aligned_def emit_def matched_append)

lemma aligned_byUser [simp]: "closedByUser t \<Longrightarrow> aligned t"
  by (simp add: aligned_def)

lemma aligned_closed: "aligned t \<Longrightarrow> aligned (setState ClosedState (failAll e t))"
  by (auto simp: aligned_def matched_def)

lemma closedByUser_pump [simp]: "closedByUser (pump t) = closedByUser t"
  by (simp add: pump_def Let_def emit_def)

lemma aligned_resolve:
  assumes "aligned t" "\<not> closedByUser t" "st_state t = Open" "inFlight t = Some p"
    and "orphanReplies t = 0"
  shows "aligned (emit [Resolve (p_tok p) f] (emit [Arrived f] t\<lparr>inFlight := None\<rparr>))"
proof -
  let ?w = "wired_by (trace t)" and ?a = "arrived_by (trace t)"
  have len: "length ?w = length ?a + 1" and lst: "last ?w = p_tok p"
    and res: "set (resolved_by (trace t)) \<subseteq> matched (trace t)"
    using assms by (auto simp: aligned_def)
  have "?w ! length ?a = p_tok p" using len lst by (cases ?w rule: rev_cases) (auto simp: nth_append)
  then have "(p_tok p, f) \<in> set (zip ?w (?a @ [f]))"
    using len by (force simp: set_zip nth_append intro!: exI [of _ "length ?a"])
  moreover have "matched (trace t) \<subseteq> set (zip ?w (?a @ [f]))"
    using zip_mono [of ?w ?a "[]" "[f]"] by (simp add: matched_def)
  ultimately show ?thesis using res len assms(2,3,5)
    by (auto simp: aligned_def matched_def emit_def)
qed

lemma aligned_onReply:
  assumes "aligned t" "busy_inv t" "length (arrived_by (trace t)) < length (wired_by (trace t))"
  shows "aligned (onReply f t)"
proof -
  have dropped: "inFlight t = None \<or> orphanReplies t > 0 \<Longrightarrow> ?thesis"
    using assms(1,3) matched_append [of _ "trace t" "[Arrived f]"]
    by (auto simp: onReply_def emit_def Let_def aligned_def split: option.splits)
  show ?thesis
  proof (cases "closedByUser t")
    case True
    then have "closedByUser (onReply f t)"
      by (simp add: onReply_def Let_def emit_def split: option.split)
    then show ?thesis by simp
  next
    case False
    show ?thesis
    proof (cases "st_state t = Open \<and> orphanReplies t = 0")
      case True
      show ?thesis
      proof (cases "inFlight t")
        case (Some p)
        then show ?thesis using aligned_resolve [OF assms(1) False _ Some, of f] True
          by (simp add: onReply_def Let_def emit_def)
      qed (rule dropped, simp)
    next
      case False
      then show ?thesis using dropped assms(2) \<open>\<not> closedByUser t\<close>
        by (cases "st_state t") (auto simp: busy_inv_def sane_def)
    qed
  qed
qed

lemma wired_mono_onReply: "length (wired_by (trace t)) \<le> length (wired_by (trace (onReply f t)))"
  using prefix_onReply [of t f] by (auto simp: prefix_def)

lemma arrived_pump [simp]: "arrived_by (trace (pump t)) = arrived_by (trace t)"
  by (simp add: pump_def Let_def) (simp add: emit_def)

lemma arrived_onReply [simp]: "arrived_by (trace (onReply f t)) = arrived_by (trace t) @ [f]"
  by (simp add: onReply_def Let_def split: option.split) (simp add: emit_def)

lemma aligned_fold_onReply:
  "aligned t \<Longrightarrow> busy_inv t \<Longrightarrow>
   length (arrived_by (trace t)) + length fs \<le> length (wired_by (trace t)) \<Longrightarrow>
   aligned (fold onReply fs t)"
proof (induction fs arbitrary: t)
  case (Cons f fs)
  then show ?case using wired_mono_onReply [of t f] by (auto intro!: Cons.IH aligned_onReply)
qed simp

lemma aligned_timeout: "aligned t \<Longrightarrow> aligned (onRequestTimeout k t)"
proof -
  assume a: "aligned t"
  have "aligned (emit [Reject k TimeoutError] (t\<lparr>inFlight := None, orphanReplies := orphanReplies t + 1\<rparr>))"
    if "inFlight t = Some p" for p
    using a that by (auto simp: aligned_def emit_def matched_def)
  then show ?thesis using a by (auto simp: onRequestTimeout_def split: option.splits)
qed

lemma closedByUser_close_begin [simp]: "closedByUser (close_begin t)"
  by (simp add: close_begin_def close_end_def Let_def emit_def)

lemma aligned_send [simp]: "aligned t \<Longrightarrow> aligned (send r m t)"
  by (simp add: send_def Let_def)

lemma aligned_step:
  assumes "aligned t" "busy_inv t" "stdio_allowed e t" "host_honest e t"
  shows "aligned (stdio_step e t)"
proof (cases e)
  case (StdoutChunk c)
  show ?thesis
  proof (cases "stdio_push (maxFrame t) (out_buf t) c")
    case (Pair r res)
    then show ?thesis using StdoutChunk assms
      by (cases res) (auto simp: onStdout_def intro!: aligned_fold_onReply)
  qed
next
  case CloseResumes
  then have "closedByUser (stdio_step e t)"
    using assms(2,3) by (simp add: close_end_def busy_inv_def sane_def)
  then show ?thesis by simp
next
  case (EventChunk c)
  then show ?thesis using assms(1)
    by (auto simp: onEventChunk_def split: prod.split sum.split)
qed (use assms in \<open>auto simp: onStdoutEnd_def onEventsEnd_def onStderr_def Let_def onExit_def
      aligned_timeout intro!: aligned_closed\<close>)

lemma aligned_new: "aligned (newStdioTransport sp ev fd mx d)"
  by (simp add: newStdioTransport_def Let_def aligned_def setState_def emit_def)

interpretation stdio_machine: promise_machine "newStdioTransport spawned wantEvents fd mx dflt"
  stdio_allowed stdio_step "\<lambda>t. busy_inv t \<and> fifo_inv t" issued waiting trace
  for spawned :: bool and wantEvents :: bool and fd :: bool and mx :: "nat option"
    and dflt :: "millis option"
proof
  show "accounted (issued (newStdioTransport spawned wantEvents fd mx dflt))
      (waiting (newStdioTransport spawned wantEvents fd mx dflt))
      (settled_by (trace (newStdioTransport spawned wantEvents fd mx dflt)))"
    using books_new by (simp only: books_def)
  show "accounted (issued (stdio_step e t)) (waiting (stdio_step e t)) (settled_by (trace (stdio_step e t)))"
    if "accounted (issued t) (waiting t) (settled_by (trace t))" for e t
    using books_step [of t e] that by (simp only: books_def)
qed (auto intro: busy_new fifo_new busy_step fifo_step prefix_step)

lemma honest_reach:
  assumes "reach (newStdioTransport sp ev fd mx d) (\<lambda>e t. stdio_allowed e t \<and> host_honest e t) stdio_step s"
  shows "busy_inv s \<and> fifo_inv s \<and> aligned s"
  using assms
  by (induction rule: reach.induct)
     (auto intro: busy_new fifo_new aligned_new busy_step fifo_step aligned_step)

text \<open>
  C3: in every run in which the host answers the requests it was sent one after another, requests
  are written in the order in which they were made, and until \<open>close()\<close> is called the reply a
  caller gets is the one in the position of its own request, also after requests that timed out.
\<close>

theorem stdio_replies_matched:
  assumes "reach (newStdioTransport spawned wantEvents fd mx dflt)
      (\<lambda>e t. stdio_allowed e t \<and> host_honest e t) stdio_step s"
  shows "sorted_wrt (<) (wired_by (trace s)) \<and>
    (\<not> closedByUser s \<longrightarrow> (\<forall>(k, reply) \<in> set (resolved_by (trace s)).
      \<exists>i < length (arrived_by (trace s)). i < length (wired_by (trace s))
        \<and> wired_by (trace s) ! i = k \<and> arrived_by (trace s) ! i = reply))"
proof -
  have f: "fifo_inv s" and a: "aligned s" using honest_reach [OF assms] by simp_all
  have "\<exists>i < length (arrived_by (trace s)). i < length (wired_by (trace s))
        \<and> wired_by (trace s) ! i = k \<and> arrived_by (trace s) ! i = reply"
    if "\<not> closedByUser s" "(k, reply) \<in> set (resolved_by (trace s))" for k reply
  proof -
    have "(k, reply) \<in> set (zip (wired_by (trace s)) (arrived_by (trace s)))"
      using a that by (auto simp: aligned_def matched_def)
    then show ?thesis by (auto simp: set_zip)
  qed
  then show ?thesis using f by (auto simp: fifo_inv_def sorted_wrt_append)
qed

text \<open>
  In every run each promise of \<open>send\<close> is settled at most once and is waiting exactly until
  it is settled; while the transport is open a waiting request has one on the wire; and when
  the transport closes because the process exits or its stdin breaks, no promise is left.
\<close>

theorem stdio_promises_settled:
  assumes "reach (newStdioTransport spawned wantEvents fd mx dflt) stdio_allowed stdio_step s"
  shows "distinct (settled_by (trace s)) \<and>
    (\<forall>k < issued s. k \<in> set (waiting s) \<longleftrightarrow> k \<notin> set (settled_by (trace s))) \<and>
    (st_state s = Open \<and> waiting s \<noteq> [] \<longrightarrow> inFlight s \<noteq> None) \<and>
    (st_state s = ClosedState \<and> \<not> closedByUser s \<longrightarrow> set (settled_by (trace s)) = {0..<issued s})"
proof -
  have "busy_inv s" using stdio_machine.reachable_inv [OF assms] by simp
  then have "st_state s = Open \<and> waiting s \<noteq> [] \<longrightarrow> inFlight s \<noteq> None"
    and "st_state s = ClosedState \<and> \<not> closedByUser s \<longrightarrow> waiting s = []"
    by (auto simp: busy_inv_def sane_def waiting_def)
  then show ?thesis
    using stdio_machine.settled_once [OF assms] stdio_machine.waiting_or_settled [OF assms]
      stdio_machine.all_settled [OF assms] by blast
qed

text \<open>
  A run for the witnesses: the first request times out, its late reply comes with the second's.
\<close>

definition stdio_demo_events :: "stdio_event list" where
  "stdio_demo_events = [Send [1] (Some (Ms 5)), Send [2] None, Timeout 0,
     StdoutChunk [0, 0, 0, 1, 7], StdoutChunk [0, 0, 0, 1, 8]]"

definition stdio_demo :: stdio_transport where
  "stdio_demo = run stdio_step stdio_demo_events (newStdioTransport True True True (Some 16) (Some InfiniteMs))"

lemma stdio_demo_reach:
  "reach (newStdioTransport True True True (Some 16) (Some InfiniteMs))
     (\<lambda>e t. stdio_allowed e t \<and> host_honest e t) stdio_step stdio_demo"
  unfolding stdio_demo_def by (rule reach_run [OF reach.start]) code_simp

theorem stdio_replies_matched_witness:
  "resolved_by (trace stdio_demo) = [(1, [8])] \<and> wired_by (trace stdio_demo) = [0, 1]
   \<and> (\<exists>i < length (arrived_by (trace stdio_demo)). i < length (wired_by (trace stdio_demo))
        \<and> wired_by (trace stdio_demo) ! i = 1 \<and> arrived_by (trace stdio_demo) ! i = [8])"
proof -
  have r: "resolved_by (trace stdio_demo) = [(1, [8])]" "wired_by (trace stdio_demo) = [0, 1]"
    "\<not> closedByUser stdio_demo"
    by code_simp+
  then show ?thesis using stdio_replies_matched [OF stdio_demo_reach] by auto
qed

definition stdio_demo_exit :: stdio_transport where
  "stdio_demo_exit = run stdio_step [Send [3] None, ProcExit] stdio_demo"

theorem stdio_promises_settled_witness:
  "set (settled_by (trace stdio_demo_exit)) = {0..<3}"
proof -
  have r: "reach (newStdioTransport True True True (Some 16) (Some InfiniteMs)) stdio_allowed stdio_step
      stdio_demo_exit"
    unfolding stdio_demo_exit_def
    by (rule reach_run [OF reach_mono [OF stdio_demo_reach]]) (rule conjunct1, assumption, code_simp)
  have "st_state stdio_demo_exit = ClosedState \<and> \<not> closedByUser stdio_demo_exit"
    and i: "issued stdio_demo_exit = 3"
    by code_simp+
  then have "set (settled_by (trace stdio_demo_exit)) = {0..<issued stdio_demo_exit}"
    using stdio_promises_settled [OF r] by blast
  then show ?thesis unfolding i .
qed

text \<open>
  Between a call of \<open>close()\<close> and the exit of the process, \<open>send\<close> still takes requests
  (it looks at the state, which is still open, and not at \<open>closedByUser\<close>): if the write to the
  stdin that was just ended is accepted, such a request gets the reply to a request that
  \<open>close()\<close> rejected, and one behind it is still waiting when the transport has closed.
\<close>

theorem stdio_send_while_closing:
  "let s = run stdio_step [Send [1] None, Close, Send [2] None, Send [3] None,
         StdoutChunk [0, 0, 0, 1, 7], ProcExit, CloseResumes]
         (newStdioTransport True True True (Some 16) (Some InfiniteMs))
   in reach (newStdioTransport True True True (Some 16) (Some InfiniteMs))
        (\<lambda>e t. stdio_allowed e t \<and> host_honest e t) stdio_step s
      \<and> resolved_by (trace s) = [(1, [7])] \<and> hd (wired_by (trace s)) = 0
      \<and> st_state s = ClosedState \<and> waiting s = [2]"
  unfolding Let_def
  by (intro conjI reach_run [OF reach.start]) code_simp+
end
