(* ===== verification/NngIpcTransport.thy ===== *)
theory NngIpcTransport
  imports NngFraming TransportTypes
begin

text \<open>
  \<open>NngIpcTransport\<close> (\<open>packages/client/src/transport/nng-ipc.ts\<close>): the REQ side of nng over a
  Unix socket. Requests carry a 31-bit id with the top bit set, one is in flight and the others
  queue, ids of requests that timed out are remembered so that their late replies are dropped,
  and a lost connection is dialed again with exponential backoff. Logging is left out; listeners
  are taken not to call back into the transport before they return.
\<close>

section \<open>State\<close>

text \<open>\<open>maxAttempts = None\<close> stands for \<open>Infinity\<close>.\<close>

record reconnect_options =
  maxAttempts :: "nat option"
  initialDelayMs :: rat
  maxDelayMs :: rat
  factor :: rat

definition DEFAULT_RECONNECT :: reconnect_options where
  "DEFAULT_RECONNECT = \<lparr>maxAttempts = None, initialDelayMs = 100, maxDelayMs = 5000, factor = 2\<rparr>"

datatype on_timeout = KeepConnection | Reconnect

text \<open>
  A connection: its number, whether \<open>Bun.connect\<close> has handed over the socket, its parser and the
  bytes the kernel did not take yet. The field \<open>closed\<close> of the source is set exactly when the
  transport forgets the connection, so a test for it is the test that this is the current one.
\<close>

record connection =
  c_num :: nat
  c_sock :: bool
  c_parser :: nng_parser
  c_backlog :: "bytes option"

record pending =
  p_tok :: nat
  p_id :: nat
  p_payload :: bytes
  p_timeoutMs :: millis
  p_timer :: bool

text \<open>
  \<open>dials\<close> numbers the connections, \<open>kernel\<close> holds what the coming calls of \<open>sock.write\<close>
  return (all bytes when it is empty), and \<open>hung\<close> is set when the search for an id never ends.
\<close>

record ipc_transport =
  defaultTimeoutMs :: millis
  reconnect :: "reconnect_options option"
  onTimeout :: on_timeout
  maxFrame :: "nat option"
  ipc_state :: transport_state
  conn :: "connection option"
  queue :: "pending list"
  inFlight :: "pending option"
  nextId :: nat
  staleIds :: "nat list"
  closedByUser :: bool
  everOpened :: bool
  attempt :: nat
  reconnectTimer :: "rat option"
  lastError :: "transport_error option"
  dials :: nat
  kernel :: "int list"
  hung :: bool
  issued :: nat
  trace :: "effect list"

definition emit :: "effect list \<Rightarrow> ipc_transport \<Rightarrow> ipc_transport" where
  "emit es t = t\<lparr>trace := trace t @ es\<rparr>"

definition current :: "ipc_transport \<Rightarrow> nat \<Rightarrow> bool" where
  "current t k = (case conn t of None \<Rightarrow> False | Some c \<Rightarrow> c_num c = k)"

section \<open>Operations\<close>

definition setState :: "transport_state \<Rightarrow> ipc_transport \<Rightarrow> ipc_transport" where
  "setState s t = (if ipc_state t = s then t else emit [Notify s] (t\<lparr>ipc_state := s\<rparr>))"

text \<open>The id of a request: 31 bits of the counter and the flag, as an unsigned 32-bit number.\<close>

definition req_id :: "nat \<Rightarrow> nat" where
  "req_id n = unat (or (and (word_of_nat n) 0x7fffffff) (0x80000000 :: 32 word))"

partial_function (option) alloc_loop :: "nat list \<Rightarrow> nat \<Rightarrow> (nat \<times> nat) option" where
  "alloc_loop stale next =
     (let rid = req_id next; next' = next mod 0x7fffffff + 1 in
      if List.member stale rid then alloc_loop stale next' else Some (rid, next'))"

declare alloc_loop.simps [code]

definition allocId :: "ipc_transport \<Rightarrow> (nat \<times> ipc_transport) option" where
  "allocId t = (case alloc_loop (staleIds t) (nextId t) of
      None \<Rightarrow> None | Some (rid, n) \<Rightarrow> Some (rid, t\<lparr>nextId := n\<rparr>))"

definition rejectInFlight :: "transport_error \<Rightarrow> ipc_transport \<Rightarrow> ipc_transport" where
  "rejectInFlight err t = (case inFlight t of
      None \<Rightarrow> t | Some p \<Rightarrow> emit [Reject (p_tok p) err] (t\<lparr>inFlight := None\<rparr>))"

definition failAll :: "transport_error \<Rightarrow> ipc_transport \<Rightarrow> ipc_transport" where
  "failAll err t =
     (let t1 = rejectInFlight err t
      in emit (map (\<lambda>p. Reject (p_tok p) err) (queue t1)) (t1\<lparr>queue := []\<rparr>))"

definition writeAll :: "bytes \<Rightarrow> ipc_transport \<Rightarrow> ipc_transport" where
  "writeAll bs t =
     (case conn t of
        None \<Rightarrow> t
      | Some c \<Rightarrow> if \<not> c_sock c then t else
          let n = (case kernel t of [] \<Rightarrow> int (length bs) | k # ks \<Rightarrow> min k (int (length bs)));
              t1 = emit [Accept (c_num c) (take (nat n) bs)] (t\<lparr>kernel := tl (kernel t)\<rparr>)
          in if n < int (length bs)
             then t1\<lparr>conn := Some (c\<lparr>c_backlog := Some (drop (nat (max n 0)) bs)\<rparr>)\<rparr>
             else t1)"

definition pump :: "ipc_transport \<Rightarrow> ipc_transport" where
  "pump t =
     (if ipc_state t \<noteq> Open \<or> inFlight t \<noteq> None \<or> length (queue t) = 0 then t
      else case conn t of
        None \<Rightarrow> t
      | Some c \<Rightarrow> if \<not> c_sock c then t else
          (case allocId (t\<lparr>queue := tl (queue t)\<rparr>) of
             None \<Rightarrow> t\<lparr>hung := True\<rparr>
           | Some (rid, t1) \<Rightarrow>
               let p = (hd (queue t))\<lparr>p_id := rid, p_timer := arms_timer (p_timeoutMs (hd (queue t)))\<rparr>;
                   frame = encodeNngFrame (encodeReqBody rid (p_payload p))
               in writeAll frame (emit [Wire (p_tok p) frame] (t1\<lparr>inFlight := Some p\<rparr>))))"

definition closed_error :: "ipc_transport \<Rightarrow> transport_error" where
  "closed_error t = (case lastError t of None \<Rightarrow> ClosedError | Some e \<Rightarrow> e)"

definition send :: "bytes \<Rightarrow> millis option \<Rightarrow> ipc_transport \<Rightarrow> ipc_transport" where
  "send request timeoutMs t =
     (let tok = issued t; t1 = t\<lparr>issued := issued t + 1\<rparr> in
      if closedByUser t \<or> ipc_state t = ClosedState then emit [Reject tok (closed_error t)] t1
      else pump (t1\<lparr>queue := queue t @
             [\<lparr>p_tok = tok, p_id = 0, p_payload = request,
               p_timeoutMs = (case timeoutMs of None \<Rightarrow> defaultTimeoutMs t | Some m \<Rightarrow> m),
               p_timer = False\<rparr>]\<rparr>))"

definition dropConnection :: "ipc_transport \<Rightarrow> ipc_transport" where
  "dropConnection t =
     (case conn t of
        None \<Rightarrow> t
      | Some c \<Rightarrow> emit (if c_sock c then [EndSocket (c_num c)] else []) (t\<lparr>conn := None\<rparr>))"

definition close :: "ipc_transport \<Rightarrow> ipc_transport" where
  "close t =
     (if closedByUser t then t
      else setState ClosedState (dropConnection (failAll ClosedError
             (t\<lparr>closedByUser := True, reconnectTimer := None\<rparr>))))"

text \<open>\<open>dial()\<close> up to its \<open>await\<close>, and what follows when \<open>Bun.connect\<close> has a socket.\<close>

definition dial :: "ipc_transport \<Rightarrow> ipc_transport" where
  "dial t =
     (if closedByUser t then t
      else (setState Connecting t)\<lparr>
        conn := Some \<lparr>c_num = dials t, c_sock = False,
                      c_parser = newNngFrameParser (Some SP_PROTO_REP0) (maxFrame t), c_backlog = None\<rparr>,
        dials := dials t + 1\<rparr>)"

definition onDialed :: "nat \<Rightarrow> ipc_transport \<Rightarrow> ipc_transport" where
  "onDialed k t =
     (if \<not> current t k then emit [EndSocket k] t
      else t\<lparr>conn := map_option (\<lambda>c. c\<lparr>c_sock := True\<rparr>) (conn t)\<rparr>)"

definition onOpen :: "nat \<Rightarrow> ipc_transport \<Rightarrow> ipc_transport" where
  "onOpen k t = emit [Accept k (encodeSpHandshake SP_PROTO_REQ0)] t"

definition backoff :: "reconnect_options \<Rightarrow> nat \<Rightarrow> rat" where
  "backoff r n = min (maxDelayMs r) (initialDelayMs r * factor r ^ n)"

definition afterDisconnect :: "transport_error \<Rightarrow> ipc_transport \<Rightarrow> ipc_transport" where
  "afterDisconnect err t =
     (if closedByUser t then t
      else case reconnect t of
          Some r \<Rightarrow>
            if (case maxAttempts r of None \<Rightarrow> True | Some m \<Rightarrow> attempt t < m) then
              (setState Connecting (t\<lparr>attempt := attempt t + 1\<rparr>))\<lparr>
                 reconnectTimer := Some (backoff r (attempt t))\<rparr>
            else setState ClosedState (failAll err t)
        | None \<Rightarrow> setState ClosedState (failAll err t))"

definition onConnectFailure :: "nat \<Rightarrow> ipc_transport \<Rightarrow> ipc_transport" where
  "onConnectFailure k t =
     (if \<not> current t k then t
      else afterDisconnect ConnectError ((dropConnection t)\<lparr>lastError := Some ConnectError\<rparr>))"

definition onConnectTimer :: "nat \<Rightarrow> ipc_transport \<Rightarrow> ipc_transport" where
  "onConnectTimer k t = (if current t k \<and> ipc_state t \<noteq> Open then onConnectFailure k t else t)"

definition onSocketClosed :: "nat \<Rightarrow> ipc_transport \<Rightarrow> ipc_transport" where
  "onSocketClosed k t =
     (if \<not> current t k then t
      else let err = (if everOpened t then ClosedError else ConnectError)
        in afterDisconnect err (rejectInFlight err (t\<lparr>conn := None, lastError := Some err\<rparr>)))"

definition onMessage :: "bytes \<Rightarrow> ipc_transport \<Rightarrow> ipc_transport" where
  "onMessage body t =
     (case splitReqBody body of
        Inl e \<Rightarrow> t
      | Inr (rid, payload) \<Rightarrow>
          (case inFlight t of
             Some p \<Rightarrow> if p_id p = rid then pump (emit [Resolve (p_tok p) payload] (t\<lparr>inFlight := None\<rparr>))
                       else t\<lparr>staleIds := removeAll rid (staleIds t)\<rparr>
           | None \<Rightarrow> t\<lparr>staleIds := removeAll rid (staleIds t)\<rparr>))"

definition onData :: "nat \<Rightarrow> bytes \<Rightarrow> ipc_transport \<Rightarrow> ipc_transport" where
  "onData k chunk t =
     (case conn t of
        None \<Rightarrow> t
      | Some c \<Rightarrow> if c_num c \<noteq> k then t else
          (case push (c_parser c) chunk of
             (q, Inl e) \<Rightarrow>
               afterDisconnect ProtocolError (rejectInFlight ProtocolError
                 ((dropConnection t)\<lparr>lastError := Some ProtocolError\<rparr>))
           | (q, Inr bodies) \<Rightarrow>
               let t1 = t\<lparr>conn := Some (c\<lparr>c_parser := q\<rparr>)\<rparr>;
                   t2 = (if ipc_state t1 = Connecting \<and> handshaken q
                         then pump (setState Open (t1\<lparr>everOpened := True, attempt := 0\<rparr>)) else t1)
               in fold onMessage bodies t2))"

definition onDrain :: "nat \<Rightarrow> ipc_transport \<Rightarrow> ipc_transport" where
  "onDrain k t =
     (case conn t of
        None \<Rightarrow> t
      | Some c \<Rightarrow> if c_num c \<noteq> k \<or> \<not> c_sock c then t else
          (case c_backlog c of
             None \<Rightarrow> t
           | Some b \<Rightarrow> writeAll b (t\<lparr>conn := Some (c\<lparr>c_backlog := None\<rparr>)\<rparr>)))"

definition remember_stale :: "nat \<Rightarrow> nat list \<Rightarrow> nat list" where
  "remember_stale rid ids =
     (let ids' = (if List.member ids rid then ids else ids @ [rid])
      in if length ids' > 1024 then drop 512 ids' else ids')"

definition onRequestTimeout :: "nat \<Rightarrow> ipc_transport \<Rightarrow> ipc_transport" where
  "onRequestTimeout tok t =
     (case inFlight t of
        None \<Rightarrow> t
      | Some p \<Rightarrow> if p_tok p \<noteq> tok then t else
          let t1 = emit [Reject tok TimeoutError]
                (t\<lparr>inFlight := None, staleIds := remember_stale (p_id p) (staleIds t)\<rparr>)
          in if onTimeout t = Reconnect then
               let t2 = (dropConnection t1)\<lparr>lastError := Some ClosedError\<rparr>
               in if conn t \<noteq> None then afterDisconnect ClosedError t2 else t2
             else pump t1)"

definition onReconnectTimer :: "ipc_transport \<Rightarrow> ipc_transport" where
  "onReconnectTimer t = dial (t\<lparr>reconnectTimer := None\<rparr>)"

definition newNngIpcTransport ::
  "millis option \<Rightarrow> reconnect_options option \<Rightarrow> on_timeout option \<Rightarrow> nat option \<Rightarrow> ipc_transport" where
  "newNngIpcTransport dflt rc ot mx = dial
     \<lparr>defaultTimeoutMs = (case dflt of None \<Rightarrow> Ms 30000 | Some d \<Rightarrow> d), reconnect = rc,
      onTimeout = (case ot of None \<Rightarrow> KeepConnection | Some x \<Rightarrow> x), maxFrame = mx,
      ipc_state = Connecting, conn = None, queue = [], inFlight = None, nextId = 1, staleIds = [],
      closedByUser = False, everOpened = False, attempt = 0, reconnectTimer = None,
      lastError = None, dials = 0, kernel = [], hung = False, issued = 0, trace = []\<rparr>"

section \<open>The machine\<close>

datatype ipc_event =
    Send bytes "millis option"
  | Close
  | Dialed nat
  | DialFailed nat
  | ConnectTimer nat
  | SockOpen nat
  | SockData nat bytes
  | SockDrain nat
  | SockClosed nat
  | ReconnectTimer
  | Timeout nat
  | KernelTakes int

fun ipc_step :: "ipc_event \<Rightarrow> ipc_transport \<Rightarrow> ipc_transport" where
  "ipc_step (Send r m) t = send r m t"
| "ipc_step Close t = close t"
| "ipc_step (Dialed k) t = onDialed k t"
| "ipc_step (DialFailed k) t = onConnectFailure k t"
| "ipc_step (ConnectTimer k) t = onConnectTimer k t"
| "ipc_step (SockOpen k) t = onOpen k t"
| "ipc_step (SockData k c) t = onData k c t"
| "ipc_step (SockDrain k) t = onDrain k t"
| "ipc_step (SockClosed k) t = onSocketClosed k t"
| "ipc_step ReconnectTimer t = onReconnectTimer t"
| "ipc_step (Timeout tok) t = onRequestTimeout tok t"
| "ipc_step (KernelTakes n) t = t\<lparr>kernel := kernel t @ [n]\<rparr>"

text \<open>
  What the runtime can deliver: callbacks of connections that were dialed; no failure to connect
  on one that is open; data only once the socket was handed over; and the timers that are armed.
\<close>

fun ipc_allowed :: "ipc_event \<Rightarrow> ipc_transport \<Rightarrow> bool" where
  "ipc_allowed (Dialed k) t = (k < dials t)"
| "ipc_allowed (DialFailed k) t = (k < dials t \<and> \<not> (current t k \<and> ipc_state t = Open))"
| "ipc_allowed (ConnectTimer k) t = (k < dials t)"
| "ipc_allowed (SockOpen k) t = (k < dials t)"
| "ipc_allowed (SockData k c) t =
     (k < dials t \<and> (case conn t of None \<Rightarrow> True | Some c \<Rightarrow> c_num c = k \<longrightarrow> c_sock c))"
| "ipc_allowed (SockDrain k) t = (k < dials t)"
| "ipc_allowed (SockClosed k) t = (k < dials t)"
| "ipc_allowed ReconnectTimer t = (reconnectTimer t \<noteq> None)"
| "ipc_allowed (Timeout tok) t =
     (case inFlight t of None \<Rightarrow> False | Some p \<Rightarrow> p_tok p = tok \<and> p_timer p)"
| "ipc_allowed _ t = True"

section \<open>Request ids\<close>

lemma req_id_eq: "n < 2 ^ 31 \<Longrightarrow> req_id n = 2 ^ 31 + n"
proof -
  assume n: "n < 2 ^ 31"
  have a: "and n 0x7fffffff = n"
  proof -
    have "and n 0x7fffffff = and n (mask 31)" by (simp add: mask_eq_exp_minus_1)
    also have "\<dots> = n" using n by (simp add: take_bit_nat_eq_self flip: take_bit_eq_mask)
    finally show ?thesis .
  qed
  have o: "or n 0x80000000 = n + 2 ^ 31"
  proof -
    have "take_bit 31 n = n" using n by (simp add: take_bit_nat_eq_self)
    then have "bit n i \<Longrightarrow> i < 31" for i by (metis bit_take_bit_iff)
    then have "\<not> bit n i \<or> \<not> bit (2 ^ 31 :: nat) i" for i
      by (auto simp: bit_exp_iff simp del: power_numeral)
    then have "n + 2 ^ 31 = or n (2 ^ 31)" by (rule disjunctive_add)
    then show ?thesis by simp
  qed
  have "unat (word_of_nat n :: 32 word) = n" using n by (simp add: unat_of_nat)
  then show ?thesis using a o by (simp add: req_id_def unsigned_or_eq unsigned_and_eq)
qed

definition next_n :: "nat \<Rightarrow> nat \<Rightarrow> nat" where
  "next_n n i = (n - 1 + i) mod 0x7fffffff + 1"

lemma next_n_bounds [simp]: "0 < next_n n i" "next_n n i < 2 ^ 31"
  by (simp_all add: next_n_def)

lemma next_n_lt [simp]: "next_n n i < 2147483648"
  using next_n_bounds(2) [of n i] by simp

lemma next_n_step: "0 < n \<Longrightarrow> next_n (n mod 0x7fffffff + 1) i = next_n n (Suc i)"
  by (simp add: next_n_def mod_add_left_eq)

lemma next_n_inj: "inj_on (next_n n) {..<0x7fffffff}"
proof (rule inj_onI)
  fix i j assume ij: "i \<in> {..<0x7fffffff}" "j \<in> {..<0x7fffffff}" "next_n n i = next_n n j"
  then have "(n - 1 + i) mod 0x7fffffff = (n - 1 + j) mod 0x7fffffff" by (simp add: next_n_def)
  then have "i mod 0x7fffffff = j mod 0x7fffffff"
    by (simp add: nat_mod_eq_iff)
  then show "i = j" using ij by simp
qed

lemma alloc_loop_at:
  "0 < n \<Longrightarrow> n < 2 ^ 31 \<Longrightarrow> \<forall>j<i. req_id (next_n n j) \<in> set stale \<Longrightarrow> req_id (next_n n i) \<notin> set stale \<Longrightarrow>
   alloc_loop stale n = Some (req_id (next_n n i), next_n n (Suc i))"
proof (induction i arbitrary: n)
  case 0
  then have "next_n n 0 = n" by (simp add: next_n_def)
  with 0 show ?case by (subst alloc_loop.simps) (simp add: Let_def next_n_def)
next
  case (Suc i)
  have n0: "next_n n 0 = n" using Suc.prems(1,2) by (simp add: next_n_def)
  then have m: "req_id n \<in> set stale" using Suc.prems(3) by (metis zero_less_Suc)
  have "alloc_loop stale (n mod 0x7fffffff + 1)
      = Some (req_id (next_n (n mod 0x7fffffff + 1) i), next_n (n mod 0x7fffffff + 1) (Suc i))"
  proof (rule Suc.IH)
    show "n mod 0x7fffffff + 1 < 2 ^ 31" by (simp add: less_Suc_eq_le)
    show "\<forall>j<i. req_id (next_n (n mod 0x7fffffff + 1) j) \<in> set stale"
      using Suc.prems(1,3) by (simp add: next_n_step [simplified])
  qed (use Suc.prems(1,4) in \<open>simp_all add: next_n_step [simplified]\<close>)
  then show ?case using m Suc.prems(1)
    by (subst alloc_loop.simps) (simp add: Let_def next_n_step [simplified])
qed

lemma card_bound:
  assumes "length stale < 0x7fffffff"
  shows "\<exists>i \<le> length stale. req_id (next_n n i) \<notin> set stale"
proof (rule ccontr)
  assume "\<not> ?thesis"
  then have sub: "(\<lambda>i. req_id (next_n n i)) ` {..length stale} \<subseteq> set stale" by auto
  have "inj_on (\<lambda>i. req_id (next_n n i)) {..length stale}"
  proof (rule inj_onI)
    fix i j assume "i \<in> {..length stale}" "j \<in> {..length stale}"
      "req_id (next_n n i) = req_id (next_n n j)"
    then show "i = j" 
      using inj_onD [OF next_n_inj, of n i j] assms by (simp add: req_id_eq [OF next_n_bounds(2)])
  qed
  then have "Suc (length stale) \<le> card (set stale)"
    using card_mono [OF _ sub] by (simp add: card_image)
  then show False using card_length [of stale] by simp
qed

text \<open>The search for an id ends, with an id that is not remembered and has the flag.\<close>

lemma alloc_loop_total:
  assumes "length stale < 0x7fffffff" and "0 < n" and "n < 2 ^ 31"
  shows "\<exists>i. alloc_loop stale n = Some (req_id (next_n n i), next_n n (Suc i))
     \<and> req_id (next_n n i) \<notin> set stale"
proof -
  let ?P = "\<lambda>i. req_id (next_n n i) \<notin> set stale"
  obtain i where "?P i" using card_bound [OF assms(1)] by blast
  then have least: "?P (LEAST i. ?P i)" "\<forall>j < (LEAST i. ?P i). \<not> ?P j"
    by (rule LeastI) (use not_less_Least in blast)
  then show ?thesis using alloc_loop_at [OF assms(2,3), of "LEAST i. ?P i" stale] by blast
qed

section \<open>Promises\<close>

definition waiting :: "ipc_transport \<Rightarrow> nat list" where
  "waiting t = (case inFlight t of None \<Rightarrow> [] | Some p \<Rightarrow> [p_tok p]) @ map p_tok (queue t)"

definition books :: "ipc_transport \<Rightarrow> bool" where
  "books t \<longleftrightarrow> accounted (issued t) (waiting t) (settled_by (trace t))"

lemmas ipc_books_simps = books_def accounted_def waiting_def emit_def

lemma ipc_books_emit [simp]: "settled_by es = [] \<Longrightarrow> books (emit es t) = books t"
  by (simp add: ipc_books_simps)

lemma ipc_books_update [simp]:
  "books (t\<lparr>conn := c\<rparr>) = books t" "books (t\<lparr>lastError := e\<rparr>) = books t"
  "books (t\<lparr>kernel := ks\<rparr>) = books t" "books (t\<lparr>hung := b\<rparr>) = books t"
  "books (t\<lparr>dials := n\<rparr>) = books t" "books (t\<lparr>attempt := n\<rparr>) = books t"
  "books (t\<lparr>reconnectTimer := d\<rparr>) = books t" "books (t\<lparr>closedByUser := b\<rparr>) = books t"
  "books (t\<lparr>everOpened := b\<rparr>) = books t" "books (t\<lparr>staleIds := xs\<rparr>) = books t"
  "books (t\<lparr>nextId := n\<rparr>) = books t" "books (t\<lparr>ipc_state := s\<rparr>) = books t"
  by (simp_all add: ipc_books_simps)

lemma ipc_books_setState [simp]: "books (setState s t) = books t"
  by (simp add: setState_def)

lemma books_rejectInFlight [simp]: "books (rejectInFlight e t) = books t"
  by (auto simp: rejectInFlight_def ipc_books_simps split: option.split)

lemma ipc_books_failAll [simp]: "books (failAll e t) = books t"
proof -
  have "books (emit (map (\<lambda>p. Reject (p_tok p) e) (queue t')) (t'\<lparr>queue := []\<rparr>)) = books t'" for t'
    by (simp add: ipc_books_simps ac_simps)
  then show ?thesis by (simp add: failAll_def Let_def)
qed

lemma books_writeAll [simp]: "books (writeAll b t) = books t"
  by (auto simp: writeAll_def Let_def split: option.split)

lemma ipc_books_pump [simp]: "books (pump t) = books t"
proof (cases "ipc_state t \<noteq> Open \<or> inFlight t \<noteq> None \<or> length (queue t) = 0 \<or> conn t = None")
  case False
  then obtain c p q where c: "conn t = Some c" "inFlight t = None" "queue t = p # q"
    by (cases "queue t") auto
  show ?thesis
  proof (cases "allocId (t\<lparr>queue := q\<rparr>)")
    case (Some r)
    then obtain k n where r: "r = (k, t\<lparr>queue := q, nextId := n\<rparr>)"
      by (auto simp: allocId_def split: option.splits)
    have "books (emit [Wire x f] (t\<lparr>queue := q, nextId := n, inFlight := Some (p\<lparr>p_id := k, p_timer := b\<rparr>)\<rparr>)) = books t"
      for x f b using c by (simp add: ipc_books_simps)
    then show ?thesis using False c Some r by (simp add: pump_def Let_def)
  qed (use False c in \<open>simp add: pump_def\<close>)
qed (auto simp: pump_def)

lemma books_dropConnection [simp]: "books (dropConnection t) = books t"
  by (auto simp: dropConnection_def split: option.split)

lemma books_afterDisconnect [simp]: "books (afterDisconnect e t) = books t"
  by (auto simp: afterDisconnect_def split: option.split)

lemma books_onMessage [simp]: "books (onMessage b t) = books t"
proof -
  have "books (emit [Resolve (p_tok p) x] (t\<lparr>inFlight := None\<rparr>)) = books t" if "inFlight t = Some p" for p x
    using that by (simp add: ipc_books_simps)
  then show ?thesis by (auto simp: onMessage_def split: sum.split option.split)
qed

lemma books_fold_onMessage [simp]: "books (fold onMessage fs t) = books t"
  by (induction fs arbitrary: t) auto

lemma ipc_books_onRequestTimeout [simp]: "books (onRequestTimeout k t) = books t"
proof -
  have "books (emit [Reject (p_tok p) TimeoutError] (t\<lparr>inFlight := None, staleIds := ss\<rparr>)) = books t"
    if "inFlight t = Some p" for p ss
    using that by (simp add: ipc_books_simps)
  then show ?thesis by (auto simp: onRequestTimeout_def Let_def split: option.split)
qed

lemma books_dial [simp]: "books (dial t) = books t"
  by (simp add: dial_def)

lemma ipc_books_send: "books t \<Longrightarrow> books (send r m t)"
  by (simp add: send_def Let_def) (auto simp: ipc_books_simps)

lemma ipc_books_step: "books t \<Longrightarrow> books (ipc_step e t)"
  by (cases e) (auto simp: ipc_books_send close_def onDialed_def onConnectFailure_def onConnectTimer_def
      onOpen_def onData_def onDrain_def onSocketClosed_def onReconnectTimer_def Let_def
      split: option.split prod.split sum.split)

lemma ipc_books_new: "books (newNngIpcTransport d rc ot mx)"
  by (simp add: newNngIpcTransport_def) (simp add: ipc_books_simps)

text \<open>Nothing is ever taken out of the trace.\<close>

lemma ipc_prefix_emit: "prefix x (trace t) \<Longrightarrow> prefix x (trace (emit es t))"
  by (simp add: emit_def)

lemma ipc_prefix_setState: "prefix x (trace t) \<Longrightarrow> prefix x (trace (setState s t))"
  by (simp add: setState_def emit_def)

lemma prefix_rejectInFlight: "prefix x (trace t) \<Longrightarrow> prefix x (trace (rejectInFlight e t))"
  by (simp add: rejectInFlight_def emit_def split: option.splits)

lemma ipc_prefix_failAll: "prefix x (trace t) \<Longrightarrow> prefix x (trace (failAll e t))"
  by (simp add: failAll_def Let_def ipc_prefix_emit prefix_rejectInFlight)

lemma prefix_writeAll: "prefix x (trace t) \<Longrightarrow> prefix x (trace (writeAll b t))"
  by (simp add: writeAll_def Let_def emit_def split: option.splits)

lemma ipc_prefix_pump: "prefix x (trace t) \<Longrightarrow> prefix x (trace (pump t))"
  by (auto simp: pump_def Let_def allocId_def prefix_writeAll ipc_prefix_emit split: option.splits)

lemma prefix_dropConnection: "prefix x (trace t) \<Longrightarrow> prefix x (trace (dropConnection t))"
  by (simp add: dropConnection_def emit_def split: option.splits)

lemma prefix_afterDisconnect: "prefix x (trace t) \<Longrightarrow> prefix x (trace (afterDisconnect e t))"
  by (simp add: afterDisconnect_def ipc_prefix_setState ipc_prefix_failAll split: option.splits)

lemma prefix_onMessage: "prefix x (trace t) \<Longrightarrow> prefix x (trace (onMessage b t))"
  by (simp add: onMessage_def ipc_prefix_pump ipc_prefix_emit split: option.splits sum.splits prod.splits)

lemma prefix_fold_onMessage: "prefix x (trace t) \<Longrightarrow> prefix x (trace (fold onMessage bs t))"
  by (induction bs arbitrary: t) (auto intro: prefix_onMessage)

lemma prefix_dial: "prefix x (trace t) \<Longrightarrow> prefix x (trace (dial t))"
  by (simp add: dial_def ipc_prefix_setState)

lemmas ipc_prefix_via = ipc_prefix_emit ipc_prefix_setState prefix_rejectInFlight ipc_prefix_failAll prefix_writeAll
  ipc_prefix_pump prefix_dropConnection prefix_afterDisconnect prefix_fold_onMessage prefix_dial

lemma ipc_prefix_step: "prefix (trace t) (trace (ipc_step e t))"
  by (cases e) (simp_all add: ipc_prefix_via send_def close_def onDialed_def onConnectFailure_def
      onConnectTimer_def onOpen_def onData_def onDrain_def onSocketClosed_def onReconnectTimer_def
      onRequestTimeout_def Let_def split: option.split prod.split sum.split)

section \<open>The invariant of the life cycle\<close>

definition sock_up :: "ipc_transport \<Rightarrow> bool" where
  "sock_up t = (case conn t of None \<Rightarrow> False | Some c \<Rightarrow> c_sock c)"

lemma sock_up_cong: "conn t' = conn t \<Longrightarrow> sock_up t' = sock_up t"
  by (simp add: sock_up_def)

lemma writeAll_simps [simp]:
  "ipc_state (writeAll b t) = ipc_state t" "inFlight (writeAll b t) = inFlight t"
  "queue (writeAll b t) = queue t" "nextId (writeAll b t) = nextId t"
  "staleIds (writeAll b t) = staleIds t" "closedByUser (writeAll b t) = closedByUser t"
  "attempt (writeAll b t) = attempt t" "reconnectTimer (writeAll b t) = reconnectTimer t"
  "reconnect (writeAll b t) = reconnect t" "hung (writeAll b t) = hung t"
  "issued (writeAll b t) = issued t" "onTimeout (writeAll b t) = onTimeout t"
  "wires_by (trace (writeAll b t)) = wires_by (trace t)"
  "resolved_by (trace (writeAll b t)) = resolved_by (trace t)"
  "(conn (writeAll b t) = None) = (conn t = None)"
  "sock_up (writeAll b t) = sock_up t"
  by (simp_all add: writeAll_def emit_def Let_def sock_up_def split: option.split)

lemma ipc_setState_simps [simp]:
  "ipc_state (setState s t) = s" "inFlight (setState s t) = inFlight t"
  "queue (setState s t) = queue t" "nextId (setState s t) = nextId t"
  "staleIds (setState s t) = staleIds t" "closedByUser (setState s t) = closedByUser t"
  "attempt (setState s t) = attempt t" "reconnectTimer (setState s t) = reconnectTimer t"
  "reconnect (setState s t) = reconnect t" "hung (setState s t) = hung t"
  "issued (setState s t) = issued t" "conn (setState s t) = conn t" "sock_up (setState s t) = sock_up t"
  "wires_by (trace (setState s t)) = wires_by (trace t)"
  "resolved_by (trace (setState s t)) = resolved_by (trace t)"
  by (simp_all add: setState_def emit_def sock_up_def)

lemma rejectInFlight_simps [simp]:
  "ipc_state (rejectInFlight e t) = ipc_state t" "inFlight (rejectInFlight e t) = None"
  "queue (rejectInFlight e t) = queue t" "nextId (rejectInFlight e t) = nextId t"
  "staleIds (rejectInFlight e t) = staleIds t" "closedByUser (rejectInFlight e t) = closedByUser t"
  "attempt (rejectInFlight e t) = attempt t" "reconnectTimer (rejectInFlight e t) = reconnectTimer t"
  "reconnect (rejectInFlight e t) = reconnect t" "hung (rejectInFlight e t) = hung t"
  "issued (rejectInFlight e t) = issued t" "conn (rejectInFlight e t) = conn t"
  "wires_by (trace (rejectInFlight e t)) = wires_by (trace t)"
  "resolved_by (trace (rejectInFlight e t)) = resolved_by (trace t)"
  by (simp_all add: rejectInFlight_def emit_def split: option.splits)

lemma ipc_failAll_simps [simp]:
  "ipc_state (failAll e t) = ipc_state t" "inFlight (failAll e t) = None"
  "queue (failAll e t) = []" "nextId (failAll e t) = nextId t"
  "staleIds (failAll e t) = staleIds t" "closedByUser (failAll e t) = closedByUser t"
  "attempt (failAll e t) = attempt t" "reconnectTimer (failAll e t) = reconnectTimer t"
  "reconnect (failAll e t) = reconnect t" "hung (failAll e t) = hung t"
  "issued (failAll e t) = issued t" "conn (failAll e t) = conn t"
  "wires_by (trace (failAll e t)) = wires_by (trace t)"
  "resolved_by (trace (failAll e t)) = resolved_by (trace t)"
  by (simp_all add: failAll_def Let_def) (simp_all add: emit_def)

lemma dropConnection_simps [simp]:
  "ipc_state (dropConnection t) = ipc_state t" "inFlight (dropConnection t) = inFlight t"
  "queue (dropConnection t) = queue t" "nextId (dropConnection t) = nextId t"
  "staleIds (dropConnection t) = staleIds t" "closedByUser (dropConnection t) = closedByUser t"
  "attempt (dropConnection t) = attempt t" "reconnectTimer (dropConnection t) = reconnectTimer t"
  "reconnect (dropConnection t) = reconnect t" "hung (dropConnection t) = hung t"
  "issued (dropConnection t) = issued t" "conn (dropConnection t) = None"
  "wires_by (trace (dropConnection t)) = wires_by (trace t)"
  "resolved_by (trace (dropConnection t)) = resolved_by (trace t)"
  by (simp_all add: dropConnection_def emit_def split: option.splits)

lemma emit_simps [simp]:
  "ipc_state (emit es t) = ipc_state t" "inFlight (emit es t) = inFlight t"
  "queue (emit es t) = queue t" "nextId (emit es t) = nextId t"
  "staleIds (emit es t) = staleIds t" "closedByUser (emit es t) = closedByUser t"
  "attempt (emit es t) = attempt t" "reconnectTimer (emit es t) = reconnectTimer t"
  "reconnect (emit es t) = reconnect t" "hung (emit es t) = hung t"
  "issued (emit es t) = issued t" "conn (emit es t) = conn t"
  "wires_by (trace (emit es t)) = wires_by (trace t) @ wires_by es"
  "resolved_by (trace (emit es t)) = resolved_by (trace t) @ resolved_by es"
  by (simp_all add: emit_def)

lemma sock_up_simps [simp]:
  "sock_up (emit es t) = sock_up t" "sock_up (t\<lparr>queue := q\<rparr>) = sock_up t"
  "sock_up (t\<lparr>inFlight := f\<rparr>) = sock_up t" "sock_up (t\<lparr>nextId := n\<rparr>) = sock_up t"
  "sock_up (t\<lparr>staleIds := xs\<rparr>) = sock_up t" "sock_up (t\<lparr>issued := n\<rparr>) = sock_up t"
  "sock_up (t\<lparr>conn := Some c\<rparr>) = c_sock c" "sock_up (t\<lparr>kernel := ks\<rparr>) = sock_up t"
  "sock_up (t\<lparr>everOpened := b\<rparr>) = sock_up t" "sock_up (t\<lparr>attempt := n\<rparr>) = sock_up t"
  by (simp_all add: sock_up_def emit_def)

lemma sock_up_conn: "sock_up t \<Longrightarrow> \<exists>c. conn t = Some c \<and> c_sock c"
  by (simp add: sock_up_def split: option.splits)

text \<open>
  \<open>core_ok\<close>: the counters stay in their bounds; \<open>sane\<close>: how state, connection, timer and
  request in flight hang together; \<open>ipc_inv\<close>: moreover an open transport is never idle while
  requests queue.
\<close>

definition tries_ok :: "reconnect_options option \<Rightarrow> nat \<Rightarrow> bool" where
  "tries_ok rc n \<longleftrightarrow> (\<forall>r m. rc = Some r \<and> maxAttempts r = Some m \<longrightarrow> n \<le> m)"

lemma tries_ok_simps [simp]: "tries_ok rc 0" "tries_ok None n"
  by (simp_all add: tries_ok_def)

lemma tries_ok_Suc:
  "(case maxAttempts r of None \<Rightarrow> True | Some m \<Rightarrow> n < m) \<Longrightarrow> tries_ok (Some r) (Suc n)"
  by (auto simp: tries_ok_def)

definition core_ok :: "ipc_transport \<Rightarrow> bool" where
  "core_ok t \<longleftrightarrow> \<not> hung t \<and> length (staleIds t) \<le> 1024 \<and> 0 < nextId t \<and> nextId t < 2 ^ 31 \<and>
     (\<forall>p. inFlight t = Some p \<longrightarrow> p_timer p = arms_timer (p_timeoutMs p)) \<and>
     (\<forall>d. reconnectTimer t = Some d \<longrightarrow> (\<exists>r. reconnect t = Some r \<and> d \<le> maxDelayMs r)) \<and>
     tries_ok (reconnect t) (attempt t)"

definition sane :: "ipc_transport \<Rightarrow> bool" where
  "sane t \<longleftrightarrow> core_ok t \<and>
     (ipc_state t \<noteq> Open \<longrightarrow> inFlight t = None) \<and>
     (ipc_state t = Open \<longrightarrow> sock_up t) \<and>
     (ipc_state t = ClosedState \<longrightarrow> queue t = [] \<and> conn t = None \<and> reconnectTimer t = None) \<and>
     (closedByUser t \<longrightarrow> ipc_state t = ClosedState) \<and>
     (ipc_state t = Connecting \<longrightarrow> conn t \<noteq> None \<or> reconnectTimer t \<noteq> None) \<and>
     (conn t \<noteq> None \<longrightarrow> reconnectTimer t = None)"

definition ipc_inv :: "ipc_transport \<Rightarrow> bool" where
  "ipc_inv t \<longleftrightarrow> sane t \<and> (ipc_state t = Open \<and> inFlight t = None \<longrightarrow> queue t = [])"

lemma pump_cases:
  assumes "core_ok t"
  obtains (idle) "pump t = t" "ipc_state t \<noteq> Open \<or> inFlight t \<noteq> None \<or> queue t = [] \<or> \<not> sock_up t"
  | (work) p q k n where "queue t = p # q" "ipc_state t = Open" "inFlight t = None"
      "alloc_loop (staleIds t) (nextId t) = Some (k, n)" "k \<notin> set (staleIds t)" "0 < n" "n < 2 ^ 31" "k < 2 ^ 32"
      "\<exists>i. k = req_id (next_n (nextId t) i) \<and> n = next_n (nextId t) (Suc i)"
      "pump t = writeAll (encodeNngFrame (encodeReqBody k (p_payload p)))
         (emit [Wire (p_tok p) (encodeNngFrame (encodeReqBody k (p_payload p)))]
           (t\<lparr>queue := q, nextId := n,
              inFlight := Some (p\<lparr>p_id := k, p_timer := arms_timer (p_timeoutMs p)\<rparr>)\<rparr>))"
proof -
  obtain i where i: "alloc_loop (staleIds t) (nextId t)
      = Some (req_id (next_n (nextId t) i), next_n (nextId t) (Suc i))"
    "req_id (next_n (nextId t) i) \<notin> set (staleIds t)"
    using alloc_loop_total [of "staleIds t" "nextId t"] assms by (auto simp: core_ok_def)
  show thesis
  proof (cases "ipc_state t = Open \<and> inFlight t = None \<and> queue t \<noteq> [] \<and> sock_up t")
    case True
    then obtain c p q where c: "conn t = Some c" "c_sock c" "queue t = p # q"
      by (cases "queue t") (auto dest: sock_up_conn)
    show thesis
    proof (rule work)
      show "req_id (next_n (nextId t) i) < 2 ^ 32"
        using next_n_bounds(2) [of "nextId t" i] by (simp add: req_id_eq [OF next_n_bounds(2)])
      show "\<exists>j. req_id (next_n (nextId t) i) = req_id (next_n (nextId t) j)
          \<and> next_n (nextId t) (Suc i) = next_n (nextId t) (Suc j)" by blast
      show "pump t = writeAll (encodeNngFrame (encodeReqBody (req_id (next_n (nextId t) i)) (p_payload p)))
         (emit [Wire (p_tok p) (encodeNngFrame (encodeReqBody (req_id (next_n (nextId t) i)) (p_payload p)))]
           (t\<lparr>queue := q, nextId := next_n (nextId t) (Suc i),
              inFlight := Some (p\<lparr>p_id := req_id (next_n (nextId t) i),
                p_timer := arms_timer (p_timeoutMs p)\<rparr>)\<rparr>))"
      proof -
        have "allocId (t\<lparr>queue := tl (queue t)\<rparr>) = Some (req_id (next_n (nextId t) i),
            t\<lparr>queue := q, nextId := next_n (nextId t) (Suc i)\<rparr>)"
          using i(1) c(3) by (simp add: allocId_def)
        then show ?thesis using True c by (simp add: pump_def Let_def)
      qed
    qed (use True c i in simp_all)
  next
    case False
    then consider "ipc_state t \<noteq> Open \<or> inFlight t \<noteq> None \<or> queue t = []" | "\<not> sock_up t" by metis
    then have "pump t = t"
    proof cases
      case 2
      then show ?thesis by (cases "conn t") (simp_all add: pump_def sock_up_def)
    qed (simp add: pump_def)
    then show thesis using False idle by blast
  qed
qed

lemma pump_inv: "sane t \<Longrightarrow> ipc_inv (pump t)"
proof -
  assume s: "sane t"
  then have c: "core_ok t" by (simp add: sane_def)
  from c show ?thesis
  proof (cases rule: pump_cases)
    case idle
    then show ?thesis using s by (auto simp: ipc_inv_def sane_def)
  next
    case (work p q k n)
    then show ?thesis using s by (auto simp: ipc_inv_def sane_def core_ok_def)
  qed
qed

lemma core_update [simp]:
  "core_ok (t\<lparr>conn := c\<rparr>) = core_ok t" "core_ok (t\<lparr>lastError := le\<rparr>) = core_ok t"
  "core_ok (t\<lparr>closedByUser := b\<rparr>) = core_ok t" "core_ok (emit es t) = core_ok t"
  "core_ok (setState s t) = core_ok t" "core_ok (writeAll bs t) = core_ok t"
  "core_ok t \<Longrightarrow> core_ok (rejectInFlight e t)" "core_ok t \<Longrightarrow> core_ok (failAll e t)"
  "core_ok t \<Longrightarrow> core_ok (dropConnection t)" "core_ok t \<Longrightarrow> core_ok (t\<lparr>inFlight := None\<rparr>)"
  "core_ok t \<Longrightarrow> core_ok (t\<lparr>reconnectTimer := None\<rparr>)"
  by (auto simp: core_ok_def)

lemma length_removeAll_le: "length xs \<le> n \<Longrightarrow> length (removeAll x xs) \<le> n"
  by (meson le_trans length_removeAll_less_eq)

lemma remember_bound: "length ids \<le> 1024 \<Longrightarrow> length (remember_stale k ids) \<le> 1024"
  by (auto simp: remember_stale_def Let_def)

lemma disconnect_inv:
  assumes "core_ok t" "conn t = None" "inFlight t = None" "\<not> closedByUser t" "reconnectTimer t = None"
  shows "ipc_inv (afterDisconnect e t)"
proof (cases "reconnect t")
  case None
  then show ?thesis using assms
    by (simp add: afterDisconnect_def ipc_inv_def sane_def)
next
  case (Some r)
  then show ?thesis using assms
    by (auto simp: afterDisconnect_def ipc_inv_def sane_def core_ok_def backoff_def tries_ok_Suc split: option.split)
qed

lemma ipc_inv_sane: "ipc_inv t \<Longrightarrow> sane t"
  by (simp add: ipc_inv_def)

lemma sane_core: "sane t \<Longrightarrow> core_ok t"
  by (simp add: sane_def)

lemma sane_inFlight: "sane t \<Longrightarrow> sane (emit es (t\<lparr>inFlight := None\<rparr>))"
  by (simp add: sane_def core_ok_def)

lemma onMessage_inv: "ipc_inv t \<Longrightarrow> ipc_inv (onMessage b t)"
proof -
  assume i: "ipc_inv t"
  then have "ipc_inv (t\<lparr>staleIds := removeAll k (staleIds t)\<rparr>)" for k
    by (auto simp: ipc_inv_def sane_def core_ok_def intro: length_removeAll_le)
  moreover have "sane (emit es (t\<lparr>inFlight := None\<rparr>))" for es
    using i by (intro sane_inFlight ipc_inv_sane)
  ultimately show ?thesis using i
    by (auto simp: onMessage_def split: sum.split option.split intro!: pump_inv)
qed

lemma fold_onMessage_inv: "ipc_inv t \<Longrightarrow> ipc_inv (fold onMessage bs t)"
  by (induction bs arbitrary: t) (auto intro: onMessage_inv)

lemma send_inv: "ipc_inv t \<Longrightarrow> ipc_inv (send r m t)"
proof -
  assume i: "ipc_inv t"
  have "ipc_inv (emit es (t\<lparr>issued := n\<rparr>))" for es n
    using i by (simp add: ipc_inv_def sane_def core_ok_def)
  moreover have "ipc_state t \<noteq> ClosedState \<Longrightarrow> sane (t\<lparr>issued := n, queue := q\<rparr>)" for n q
    using i by (simp add: ipc_inv_def sane_def core_ok_def)
  ultimately show ?thesis by (auto simp: send_def Let_def intro!: pump_inv)
qed

lemma close_inv: "ipc_inv t \<Longrightarrow> ipc_inv (close t)"
  by (auto simp: close_def ipc_inv_def sane_def core_ok_def)

lemma dial_inv:
  assumes "core_ok t" "inFlight t = None" "reconnectTimer t = None" "\<not> closedByUser t"
  shows "ipc_inv (dial t)"
  using assms by (simp add: dial_def ipc_inv_def sane_def core_ok_def)

lemma onDialed_inv: "ipc_inv t \<Longrightarrow> ipc_inv (onDialed k t)"
  by (cases "conn t") (auto simp: onDialed_def ipc_inv_def sane_def core_ok_def current_def)

lemma current_conn: "current t k \<Longrightarrow> conn t \<noteq> None"
  by (auto simp: current_def split: option.splits)

lemma onConnectFailure_inv:
  assumes "ipc_inv t" "\<not> (current t k \<and> ipc_state t = Open)"
  shows "ipc_inv (onConnectFailure k t)"
  using assms current_conn [of t k]
  by (auto simp: onConnectFailure_def intro!: disconnect_inv)
     (auto simp: ipc_inv_def sane_def core_ok_def)

lemma onConnectTimer_inv: "ipc_inv t \<Longrightarrow> ipc_inv (onConnectTimer k t)"
  by (auto simp: onConnectTimer_def intro: onConnectFailure_inv)

lemma lost_inv:
  assumes "ipc_inv t" "conn t \<noteq> None" "core_ok t'" "conn t' = None" "inFlight t' = None"
    "closedByUser t' = closedByUser t" "reconnectTimer t' = reconnectTimer t"
  shows "ipc_inv (afterDisconnect e t')"
  using assms by (intro disconnect_inv) (auto simp: ipc_inv_def sane_def)

lemma ipc_inv_core: "ipc_inv t \<Longrightarrow> core_ok t"
  by (simp add: ipc_inv_def sane_def)

lemma onSocketClosed_inv:
  assumes "ipc_inv t" shows "ipc_inv (onSocketClosed k t)"
  using assms current_conn [of t k] ipc_inv_core [OF assms]
  by (auto simp: onSocketClosed_def Let_def intro!: lost_inv [OF assms])

lemma onData_inv:
  assumes i: "ipc_inv t" and a: "ipc_allowed (SockData k c) t" shows "ipc_inv (onData k c t)"
proof (cases "conn t")
  case None
  then show ?thesis using i by (simp add: onData_def)
next
  case (Some x)
  show ?thesis
  proof (cases "c_num x = k")
    case False
    then show ?thesis using i Some by (simp add: onData_def)
  next
    case True
    then have sock: "c_sock x" using a Some by simp
    obtain q res where p: "push (c_parser x) c = (q, res)" by (cases "push (c_parser x) c") auto
    show ?thesis
    proof (cases res)
      case (Inl e)
      then show ?thesis using Some True p ipc_inv_core [OF i]
        by (auto simp: onData_def intro!: lost_inv [OF i])
    next
      case (Inr bodies)
      have "ipc_inv (t\<lparr>conn := Some (x\<lparr>c_parser := q\<rparr>)\<rparr>)"
        using i Some sock by (auto simp: ipc_inv_def sane_def)
      moreover have "sane (setState Open (t\<lparr>conn := Some (x\<lparr>c_parser := q\<rparr>), everOpened := True, attempt := 0\<rparr>))"
        if "ipc_state t = Connecting"
        using i Some sock that by (auto simp: ipc_inv_def sane_def core_ok_def)
      ultimately show ?thesis using Some True p Inr
        by (auto simp: onData_def Let_def intro!: fold_onMessage_inv pump_inv)
    qed
  qed
qed

lemma writeAll_inv: "ipc_inv t \<Longrightarrow> ipc_inv (writeAll b t)"
  by (simp add: ipc_inv_def sane_def del: not_None_eq)

lemma onDrain_inv: "ipc_inv t \<Longrightarrow> ipc_inv (onDrain k t)"
proof -
  assume i: "ipc_inv t"
  have "ipc_inv (t\<lparr>conn := Some (c\<lparr>c_backlog := None\<rparr>)\<rparr>)" if "conn t = Some c" for c
    using i that by (auto simp: ipc_inv_def sane_def sock_up_def)
  then show ?thesis using i by (auto simp: onDrain_def split: option.split intro: writeAll_inv)
qed

lemma onRequestTimeout_inv:
  assumes i: "ipc_inv t" shows "ipc_inv (onRequestTimeout k t)"
proof (cases "inFlight t")
  case None
  then show ?thesis using i by (simp add: onRequestTimeout_def)
next
  case (Some p)
  then have o: "ipc_state t = Open" "conn t \<noteq> None"
    using i by (auto simp: ipc_inv_def sane_def dest: sock_up_conn)
  have "length (remember_stale (p_id p) (staleIds t)) \<le> 1024"
    using i by (intro remember_bound) (simp add: ipc_inv_def sane_def core_ok_def)
  then have s: "sane (emit es (t\<lparr>inFlight := None, staleIds := remember_stale (p_id p) (staleIds t)\<rparr>))" for es
    using i by (simp add: ipc_inv_def sane_def core_ok_def)
  have "ipc_inv (afterDisconnect ClosedError ((dropConnection (emit es
      (t\<lparr>inFlight := None, staleIds := remember_stale (p_id p) (staleIds t)\<rparr>)))\<lparr>lastError := le\<rparr>))" for es le
    by (rule lost_inv [OF i o(2)]) (use sane_core [OF s] in simp_all)
  then show ?thesis using i o s Some
    by (auto simp: onRequestTimeout_def Let_def intro: pump_inv)
qed

lemma onReconnectTimer_inv:
  assumes i: "ipc_inv t" and "reconnectTimer t \<noteq> None" shows "ipc_inv (onReconnectTimer t)"
proof -
  have s: "sane t" using i by (rule ipc_inv_sane)
  have "\<not> sock_up t" using s assms(2) sock_up_conn [of t] by (fastforce simp: sane_def)
  then have "ipc_state t = Connecting"
    using s assms(2) by (cases "ipc_state t") (simp_all add: sane_def)
  then have "inFlight t = None" "\<not> closedByUser t" using s by (auto simp: sane_def)
  then show ?thesis using ipc_inv_core [OF i]
    by (auto simp: onReconnectTimer_def intro!: dial_inv)
qed

lemma ipc_inv_step: "ipc_inv t \<Longrightarrow> ipc_allowed e t \<Longrightarrow> ipc_inv (ipc_step e t)"
proof (cases e)
  case (KernelTakes n)
  assume "ipc_inv t"
  then show ?thesis using KernelTakes by (simp add: ipc_inv_def sane_def core_ok_def)
next
  case (SockOpen k)
  assume "ipc_inv t"
  then show ?thesis using SockOpen by (simp add: onOpen_def ipc_inv_def sane_def core_ok_def)
next
  case (Send r m)
  assume "ipc_inv t" "ipc_allowed e t"
  then show ?thesis using Send by (simp add: send_inv)
next
  case Close
  assume "ipc_inv t" "ipc_allowed e t"
  then show ?thesis using Close by (simp add: close_inv)
next
  case (Dialed k)
  assume "ipc_inv t" "ipc_allowed e t"
  then show ?thesis using Dialed by (simp add: onDialed_inv)
next
  case (DialFailed k)
  assume "ipc_inv t" "ipc_allowed e t"
  then show ?thesis using DialFailed by (simp add: onConnectFailure_inv)
next
  case (ConnectTimer k)
  assume "ipc_inv t" "ipc_allowed e t"
  then show ?thesis using ConnectTimer by (simp add: onConnectTimer_inv)
next
  case (SockData k c)
  assume "ipc_inv t" "ipc_allowed e t"
  then show ?thesis using SockData by (simp add: onData_inv)
next
  case (SockDrain k)
  assume "ipc_inv t" "ipc_allowed e t"
  then show ?thesis using SockDrain by (simp add: onDrain_inv)
next
  case (SockClosed k)
  assume "ipc_inv t" "ipc_allowed e t"
  then show ?thesis using SockClosed by (simp add: onSocketClosed_inv)
next
  case ReconnectTimer
  assume "ipc_inv t" "ipc_allowed e t"
  then show ?thesis using ReconnectTimer by (simp add: onReconnectTimer_inv)
next
  case (Timeout k)
  assume "ipc_inv t" "ipc_allowed e t"
  then show ?thesis using Timeout by (simp add: onRequestTimeout_inv)
qed

lemma ipc_inv_new: "ipc_inv (newNngIpcTransport d rc ot mx)"
  unfolding newNngIpcTransport_def by (rule dial_inv) (auto simp: core_ok_def)

interpretation ipc_machine: promise_machine "newNngIpcTransport dflt rc ot mx"
  ipc_allowed ipc_step ipc_inv issued waiting trace
  for dflt :: "millis option" and rc :: "reconnect_options option" and ot :: "on_timeout option"
    and mx :: "nat option"
proof
  show "accounted (issued (newNngIpcTransport dflt rc ot mx)) (waiting (newNngIpcTransport dflt rc ot mx))
      (settled_by (trace (newNngIpcTransport dflt rc ot mx)))"
    using ipc_books_new by (simp only: books_def)
  show "accounted (issued (ipc_step e t)) (waiting (ipc_step e t)) (settled_by (trace (ipc_step e t)))"
    if "accounted (issued t) (waiting t) (settled_by (trace t))" for e t
    using ipc_books_step [of t e] that by (simp only: books_def)
qed (auto intro: ipc_inv_new ipc_inv_step ipc_prefix_step)

section \<open>Replies and requests\<close>

text \<open>The id in a written frame.\<close>

definition frame_id :: "bytes \<Rightarrow> nat" where
  "frame_id f = be_val (take 4 (drop 9 f))"

lemma frame_id_encode: "k < 2 ^ 32 \<Longrightarrow> frame_id (encodeNngFrame (encodeReqBody k p)) = k"
  by (simp add: frame_id_def encodeNngFrame_def encodeReqBody_def be_val_be_bytes_id)

abbreviation ids_of :: "ipc_transport \<Rightarrow> nat list" where
  "ids_of t \<equiv> map (frame_id \<circ> snd) (wires_by (trace t))"

definition order_ok :: "ipc_transport \<Rightarrow> bool" where
  "order_ok t \<longleftrightarrow>
     sorted_wrt (<) (map fst (wires_by (trace t)) @ map p_tok (queue t)) \<and>
     (\<forall>k \<in> set (map fst (wires_by (trace t)) @ map p_tok (queue t)). k < issued t)"

definition ids_ok :: "ipc_transport \<Rightarrow> bool" where
  "ids_ok t \<longleftrightarrow> core_ok t \<and>
     (\<forall>p. inFlight t = Some p \<longrightarrow> (\<exists>f. (p_tok p, f) \<in> set (wires_by (trace t)) \<and> frame_id f = p_id p)) \<and>
     set (staleIds t) \<subseteq> set (ids_of t) \<and>
     (length (ids_of t) \<le> 0x7fffffff \<longrightarrow>
        ids_of t = map (\<lambda>i. 2 ^ 31 + Suc i) [0..<length (ids_of t)] \<and>
        nextId t = length (ids_of t) mod 0x7fffffff + 1)"

text \<open>
  \<open>ans\<close> is what the server answers to each request. The server is honest when each body it
  sends is too short to be a reply or the answer to a request that was written, under its id.
\<close>

definition honest_reply :: "(nat \<Rightarrow> bytes) \<Rightarrow> (nat \<times> bytes) list \<Rightarrow> bytes \<Rightarrow> bool" where
  "honest_reply ans ws b = (case splitReqBody b of
      Inl e \<Rightarrow> True
    | Inr (rid, payload) \<Rightarrow> list_ex (\<lambda>(k, f). frame_id f = rid \<and> payload = ans k) ws)"

fun server_honest :: "(nat \<Rightarrow> bytes) \<Rightarrow> ipc_event \<Rightarrow> ipc_transport \<Rightarrow> bool" where
  "server_honest ans (SockData k chunk) t =
     (case conn t of
        None \<Rightarrow> True
      | Some c \<Rightarrow> (case push (c_parser c) chunk of
            (q, Inl e) \<Rightarrow> True
          | (q, Inr bodies) \<Rightarrow> list_all (honest_reply ans (wires_by (trace t))) bodies))"
| "server_honest ans _ t = True"

definition answered :: "(nat \<Rightarrow> bytes) \<Rightarrow> ipc_transport \<Rightarrow> bool" where
  "answered ans t \<longleftrightarrow> (length (wires_by (trace t)) \<le> 0x7fffffff \<longrightarrow>
     (\<forall>(k, r) \<in> set (resolved_by (trace t)). r = ans k))"

lemma order_pump: "order_ok t \<Longrightarrow> core_ok t \<Longrightarrow> order_ok (pump t)"
proof -
  assume o: "order_ok t" and "core_ok t"
  from this(2) show ?thesis
    by (cases rule: pump_cases) (use o in \<open>auto simp: order_ok_def sorted_wrt_append\<close>)
qed

lemma ids_distinct:
  assumes "ids_ok t" "length (wires_by (trace t)) \<le> 0x7fffffff" shows "distinct (ids_of t)"
proof -
  have "ids_of t = map (\<lambda>i. 2 ^ 31 + Suc i) [0..<length (ids_of t)]"
    using assms by (simp add: ids_ok_def)
  moreover have "distinct (map (\<lambda>i. 2 ^ 31 + Suc i) [0..<n])" for n
    by (simp add: distinct_map inj_on_def)
  ultimately show ?thesis by metis
qed

lemma next_id_fresh:
  assumes "ids_ok t" "length (ids_of t) < 0x7fffffff"
  shows "alloc_loop (staleIds t) (nextId t) = Some (2 ^ 31 + Suc (length (ids_of t)),
      Suc (length (ids_of t)) mod 0x7fffffff + 1)"
proof -
  let ?n = "length (ids_of t)"
  have n: "nextId t = ?n + 1" and ids: "ids_of t = map (\<lambda>i. 2 ^ 31 + Suc i) [0..<?n]"
    using assms by (simp_all add: ids_ok_def)
  have "2 ^ 31 + Suc ?n \<notin> set (map (\<lambda>i. 2 ^ 31 + Suc i) [0..<?n])" by auto
  then have "2 ^ 31 + Suc ?n \<notin> set (ids_of t)" using ids by metis
  then have "2 ^ 31 + Suc ?n \<notin> set (staleIds t)" using assms(1) by (auto simp: ids_ok_def)
  moreover have "req_id (nextId t) = 2 ^ 31 + Suc ?n"
    using assms(2) n by (simp add: req_id_eq)
  ultimately show ?thesis using n by (subst alloc_loop.simps) (simp add: Let_def)
qed

lemma ids_pump: "ids_ok t \<Longrightarrow> ids_ok (pump t)"
proof -
  assume i: "ids_ok t"
  then have c: "core_ok t" by (simp add: ids_ok_def)
  from c show ?thesis
  proof (cases rule: pump_cases)
    case idle
    then show ?thesis using i by simp
  next
    case (work p q k n)
    have fid: "frame_id (encodeNngFrame (encodeReqBody k x)) = k" for x
      using work(8) by (rule frame_id_encode)
    have core: "core_ok (pump t)" using c work by (simp add: core_ok_def)
    have ids: "ids_of (pump t) = ids_of t @ [k]" using work fid by simp
    have flat: "ids_of t @ [k] = map (\<lambda>i. 2 ^ 31 + Suc i) [0..<Suc (length (ids_of t))]
        \<and> n = Suc (length (ids_of t)) mod 0x7fffffff + 1"
      if "length (ids_of t) < 0x7fffffff"
    proof -
      have "ids_of t = map (\<lambda>i. 2 ^ 31 + Suc i) [0..<length (ids_of t)]"
        using i that by (simp add: ids_ok_def)
      then show ?thesis using next_id_fresh [OF i that] work(4) by simp
    qed
    have "nextId (pump t) = n" "staleIds (pump t) = staleIds t" using work by simp_all
    moreover have "\<exists>f. (p_tok p', f) \<in> set (wires_by (trace (pump t))) \<and> frame_id f = p_id p'"
      if "inFlight (pump t) = Some p'" for p'
      using that work fid by auto
    ultimately show ?thesis using core ids flat i
      by (auto simp: ids_ok_def simp del: comp_apply)
  qed
qed

lemma answered_pump: "answered ans t \<Longrightarrow> core_ok t \<Longrightarrow> answered ans (pump t)"
proof -
  assume a: "answered ans t" and "core_ok t"
  from this(2) show ?thesis
    by (cases rule: pump_cases) (use a in \<open>auto simp: answered_def\<close>)
qed

lemma wires_mono_pump: "core_ok t \<Longrightarrow> set (wires_by (trace t)) \<subseteq> set (wires_by (trace (pump t)))"
  by (erule pump_cases) auto

definition matched_inv :: "(nat \<Rightarrow> bytes) \<Rightarrow> ipc_transport \<Rightarrow> bool" where
  "matched_inv ans t \<longleftrightarrow> order_ok t \<and> ids_ok t \<and> answered ans t"

lemma matched_core: "matched_inv ans t \<Longrightarrow> core_ok t"
  by (simp add: matched_inv_def ids_ok_def)

lemma matched_pump: "matched_inv ans t \<Longrightarrow> matched_inv ans (pump t)"
proof -
  assume m: "matched_inv ans t"
  then have "core_ok t" by (rule matched_core)
  then show ?thesis using m by (simp add: matched_inv_def order_pump ids_pump answered_pump)
qed

text \<open>What keeps the books of ids when nothing is written.\<close>

lemma matched_same:
  assumes "matched_inv ans t" "core_ok t'"
    and "wires_by (trace t') = wires_by (trace t)" "resolved_by (trace t') = resolved_by (trace t)"
    and "queue t' = queue t \<or> queue t' = []" "issued t \<le> issued t'"
    and "inFlight t' = inFlight t \<or> inFlight t' = None"
    and "set (staleIds t') \<subseteq> set (ids_of t)" "nextId t' = nextId t"
  shows "matched_inv ans t'"
proof -
  have m: "order_ok t" "ids_ok t" "answered ans t" using assms(1) by (simp_all add: matched_inv_def)
  have "order_ok t'"
  proof (cases "queue t' = []")
    case True
    have "\<forall>k \<in> set (map fst (wires_by (trace t))). k < issued t'"
    proof
      fix k assume "k \<in> set (map fst (wires_by (trace t)))"
      then have "k < issued t" using m(1) unfolding order_ok_def set_append by blast
      then show "k < issued t'" using assms(6) by simp
    qed
    then show ?thesis using m(1) True assms(3) by (simp add: order_ok_def sorted_wrt_append)
  next
    case False
    then have q: "queue t' = queue t" using assms(5) by simp
    show ?thesis using m(1) assms(6) unfolding order_ok_def q assms(3) by (meson less_le_trans)
  qed
  moreover have "ids_ok t'"
    using m(2) assms(7,8) unfolding ids_ok_def assms(3,9) by (auto simp: assms(2))
  moreover have "answered ans t'" using m(3) unfolding answered_def assms(3,4) .
  ultimately show ?thesis by (simp add: matched_inv_def)
qed

lemma matched_stale: "matched_inv ans t \<Longrightarrow> set (staleIds t) \<subseteq> set (ids_of t)"
  by (simp add: matched_inv_def ids_ok_def)

lemma matched_resolve:
  assumes m: "matched_inv ans t" and p: "inFlight t = Some p"
    and h: "list_ex (\<lambda>(k, f). frame_id f = p_id p \<and> r = ans k) (wires_by (trace t))"
  shows "matched_inv ans (emit [Resolve (p_tok p) r] (t\<lparr>inFlight := None\<rparr>))"
proof -
  have i: "ids_ok t" using m by (simp add: matched_inv_def)
  obtain k f where kf: "(k, f) \<in> set (wires_by (trace t))" "frame_id f = p_id p" "r = ans k"
    using h by (auto simp: list_ex_iff)
  obtain f' where pf: "(p_tok p, f') \<in> set (wires_by (trace t))" "frame_id f' = p_id p"
    using i p by (auto simp: ids_ok_def)
  have "k = p_tok p" if "length (wires_by (trace t)) \<le> 0x7fffffff"
  proof -
    have "inj_on (frame_id \<circ> snd) (set (wires_by (trace t)))"
      using ids_distinct [OF i that] by (simp add: distinct_map)
    then have "(k, f) = (p_tok p, f')" by (rule inj_onD) (use kf pf in simp_all)
    then show ?thesis by simp
  qed
  then show ?thesis using m i kf(3)
    by (auto simp: matched_inv_def order_ok_def ids_ok_def answered_def core_ok_def)
qed

lemma matched_onMessage:
  assumes m: "matched_inv ans t" and h: "honest_reply ans (wires_by (trace t)) b"
  shows "matched_inv ans (onMessage b t)"
proof (cases "splitReqBody b")
  case (Inl e)
  then show ?thesis using m by (simp add: onMessage_def)
next
  case (Inr r)
  obtain rid payload where r: "r = (rid, payload)" by (cases r)
  have drop: "matched_inv ans (t\<lparr>staleIds := removeAll rid (staleIds t)\<rparr>)"
    by (rule matched_same [OF m])
      (use m in \<open>auto simp: matched_inv_def ids_ok_def core_ok_def intro: length_removeAll_le\<close>)
  show ?thesis
  proof (cases "inFlight t")
    case None
    then show ?thesis using Inr r drop by (simp add: onMessage_def)
  next
    case (Some p)
    show ?thesis
    proof (cases "p_id p = rid")
      case True
      then have "matched_inv ans (emit [Resolve (p_tok p) payload] (t\<lparr>inFlight := None\<rparr>))"
        using matched_resolve [OF m Some, of payload] h Inr r by (simp add: honest_reply_def)
      then show ?thesis using Inr r Some True by (simp add: onMessage_def matched_pump)
    next
      case False
      then show ?thesis using Inr r Some drop by (simp add: onMessage_def)
    qed
  qed
qed

lemma wires_onMessage: "core_ok t \<Longrightarrow> set (wires_by (trace t)) \<subseteq> set (wires_by (trace (onMessage b t)))"
proof -
  assume c: "core_ok t"
  have "set (wires_by (trace t)) \<subseteq> set (wires_by (trace (pump (emit [Resolve k x] (t\<lparr>inFlight := None\<rparr>)))))" for k x
    using wires_mono_pump [of "emit [Resolve k x] (t\<lparr>inFlight := None\<rparr>)"] c by simp
  then show ?thesis by (auto simp: onMessage_def split: sum.split option.split)
qed

lemma honest_mono:
  "honest_reply ans ws b \<Longrightarrow> set ws \<subseteq> set ws' \<Longrightarrow> honest_reply ans ws' b"
  by (auto simp: honest_reply_def list_ex_iff split: sum.splits)

lemma matched_fold:
  "matched_inv ans t \<Longrightarrow> list_all (honest_reply ans (wires_by (trace t))) bs \<Longrightarrow>
   matched_inv ans (fold onMessage bs t)"
proof (induction bs arbitrary: t)
  case (Cons b bs)
  have c: "core_ok t" using Cons.prems(1) by (simp add: matched_inv_def ids_ok_def)
  have "matched_inv ans (onMessage b t)" using Cons.prems by (intro matched_onMessage) simp_all
  moreover have "list_all (honest_reply ans (wires_by (trace (onMessage b t)))) bs"
    using Cons.prems(2) honest_mono [OF _ wires_onMessage [OF c]]
    by (auto simp: list_all_iff)
  ultimately show ?case using Cons.IH by simp
qed simp

lemma matched_disconnect:
  assumes "matched_inv ans t" "ipc_inv (afterDisconnect e t)"
  shows "matched_inv ans (afterDisconnect e t)"
  by (rule matched_same [OF assms(1) ipc_inv_core [OF assms(2)]])
    (use matched_stale [OF assms(1)] in \<open>auto simp: afterDisconnect_def split: option.split\<close>)

lemma remember_subset: "set (remember_stale k ids) \<subseteq> insert k (set ids)"
  by (auto simp: remember_stale_def Let_def dest: in_set_dropD)

lemma matched_send:
  assumes m: "matched_inv ans t" shows "matched_inv ans (send r x t)"
proof -
  have c: "core_ok t" using m by (simp add: matched_inv_def ids_ok_def)
  have "matched_inv ans (emit [Reject k e] (t\<lparr>issued := Suc (issued t)\<rparr>))" for k e
    by (rule matched_same [OF m]) (use c matched_stale [OF m] in \<open>simp_all add: core_ok_def\<close>)
  moreover have "matched_inv ans (t\<lparr>issued := Suc (issued t), queue := queue t @
             [\<lparr>p_tok = issued t, p_id = 0, p_payload = r, p_timeoutMs = y, p_timer = False\<rparr>]\<rparr>)" for y
    using m by (auto simp: matched_inv_def order_ok_def ids_ok_def answered_def core_ok_def
        sorted_wrt_append less_SucI)
  ultimately show ?thesis by (simp add: send_def Let_def matched_pump)
qed

lemma matched_step:
  assumes m: "matched_inv ans t" and i: "ipc_inv t" and a: "ipc_allowed e t" and h: "server_honest ans e t"
  shows "matched_inv ans (ipc_step e t)"
proof -
  note st = matched_stale [OF m] and c = matched_core [OF m]
  have ci: "core_ok (ipc_step e t)" by (rule ipc_inv_core) (rule ipc_inv_step [OF i a])
  have plain: "matched_inv ans (ipc_step e t)"
    if "wires_by (trace (ipc_step e t)) = wires_by (trace t)"
      "resolved_by (trace (ipc_step e t)) = resolved_by (trace t)"
      "queue (ipc_step e t) = queue t \<or> queue (ipc_step e t) = []"
      "issued (ipc_step e t) = issued t" "nextId (ipc_step e t) = nextId t"
      "inFlight (ipc_step e t) = inFlight t \<or> inFlight (ipc_step e t) = None"
      "staleIds (ipc_step e t) = staleIds t"
    using that st by (intro matched_same [OF m ci]) simp_all
  show ?thesis
  proof (cases e)
    case (Send r x)
    then show ?thesis using matched_send [OF m] by simp
  next
    case (SockData k b)
    show ?thesis
    proof (cases "current t k")
      case False
      then show ?thesis using SockData m
        by (auto simp: onData_def current_def split: option.splits)
    next
      case True
      then obtain x where x: "conn t = Some x" "c_num x = k"
        by (auto simp: current_def split: option.splits)
      obtain q res where p: "push (c_parser x) b = (q, res)" by (cases "push (c_parser x) b") auto
      show ?thesis
      proof (cases res)
        case (Inl err)
        then show ?thesis using SockData x p
          by (intro plain) (auto simp: onData_def afterDisconnect_def split: option.split)
      next
        case (Inr bodies)
        let ?t1 = "t\<lparr>conn := Some (x\<lparr>c_parser := q\<rparr>)\<rparr>"
        let ?t2 = "setState Open (?t1\<lparr>everOpened := True, attempt := 0\<rparr>)"
        have m1: "matched_inv ans ?t1"
          by (rule matched_same [OF m]) (use st c in simp_all)
        have c2: "core_ok ?t2" using c by (simp add: core_ok_def)
        have m2: "matched_inv ans ?t2"
          by (rule matched_same [OF m c2]) (use st in simp_all)
        have l: "list_all (honest_reply ans (wires_by (trace t))) bodies"
          using h SockData x p Inr by simp
        have "list_all (honest_reply ans (wires_by (trace (pump ?t2)))) bodies"
          using l honest_mono [OF _ wires_mono_pump [OF c2]] by (auto simp: list_all_iff)
        then show ?thesis using SockData x p Inr m1 m2 l
          by (auto simp: onData_def Let_def intro!: matched_fold matched_pump)
      qed
    qed
  next
    case (Timeout k)
    show ?thesis
    proof (cases "inFlight t")
      case None
      then show ?thesis using Timeout m by (simp add: onRequestTimeout_def)
    next
      case (Some p)
      let ?s = "remember_stale (p_id p) (staleIds t)"
      let ?t1 = "emit [Reject k TimeoutError] (t\<lparr>inFlight := None, staleIds := ?s\<rparr>)"
      have "p_id p \<in> set (ids_of t)"
        using m Some by (force simp: matched_inv_def ids_ok_def)
      then have s: "set ?s \<subseteq> set (ids_of t)" using remember_subset [of "p_id p" "staleIds t"] st by auto
      have c1: "core_ok ?t1"
        using c remember_bound [of "staleIds t" "p_id p"] by (simp add: core_ok_def)
      have m1: "matched_inv ans ?t1" by (rule matched_same [OF m c1]) (use s in simp_all)
      show ?thesis
      proof (cases "onTimeout t = Reconnect")
        case True
        then have "set (staleIds (ipc_step e t)) \<subseteq> set (ids_of t)"
          using Timeout Some s st by (auto simp: onRequestTimeout_def Let_def afterDisconnect_def split: option.split)
        then show ?thesis using Timeout Some True
          by (intro matched_same [OF m ci])
            (auto simp: onRequestTimeout_def Let_def afterDisconnect_def split: option.split)
      next
        case False
        then show ?thesis using Timeout Some m m1
          by (simp add: onRequestTimeout_def Let_def matched_pump)
      qed
    qed
  qed (intro plain; auto simp: close_def onDialed_def onConnectFailure_def onConnectTimer_def
      onOpen_def onDrain_def onSocketClosed_def onReconnectTimer_def dial_def afterDisconnect_def Let_def
      split: option.split)+
qed

lemma matched_new: "matched_inv ans (newNngIpcTransport d rc ot mx)"
  by (simp add: newNngIpcTransport_def dial_def matched_inv_def order_ok_def ids_ok_def answered_def
      core_ok_def setState_def)

lemma matched_reach:
  assumes "reach (newNngIpcTransport d rc ot mx) (\<lambda>e t. ipc_allowed e t \<and> server_honest ans e t) ipc_step s"
  shows "ipc_inv s \<and> matched_inv ans s"
  using assms
  by (induction rule: reach.induct) (auto intro: ipc_inv_new matched_new ipc_inv_step matched_step)

text \<open>
  C2: in every run in which the server answers under the ids it was sent, as long as no more than
  \<open>2 ^ 31 - 1\<close> requests were written, the reply that a caller gets is the answer to its own
  request, over timeouts, late replies and reconnects; the ids on the wire are pairwise different
  and carry the request flag.
\<close>

theorem ipc_replies_matched:
  assumes "reach (newNngIpcTransport dflt rc ot mx)
      (\<lambda>e t. ipc_allowed e t \<and> server_honest ans e t) ipc_step s"
    and "length (wires_by (trace s)) \<le> 0x7fffffff"
  shows "(\<forall>(k, r) \<in> set (resolved_by (trace s)). r = ans k)
    \<and> distinct (map (frame_id \<circ> snd) (wires_by (trace s)))
    \<and> (\<forall>(k, f) \<in> set (wires_by (trace s)). REQ_ID_FLAG < frame_id f \<and> frame_id f < 2 ^ 32)"
proof -
  have m: "matched_inv ans s" using matched_reach [OF assms(1)] by simp
  then have i: "ids_ok s" by (simp add: matched_inv_def)
  have n: "length (ids_of s) \<le> 0x7fffffff" using assms(2) by simp
  have ids: "ids_of s = map (\<lambda>i. 2 ^ 31 + Suc i) [0..<length (ids_of s)]"
    using i n by (simp add: ids_ok_def)
  have "REQ_ID_FLAG < frame_id f \<and> frame_id f < 2 ^ 32" if "(k, f) \<in> set (wires_by (trace s))" for k f
  proof -
    have "frame_id f \<in> set (ids_of s)" using that by force
    then have "frame_id f \<in> set (map (\<lambda>i. 2 ^ 31 + Suc i) [0..<length (ids_of s)])" using ids by metis
    then show ?thesis using n by (auto simp: REQ_ID_FLAG_def)
  qed
  moreover have "(\<forall>(k, r) \<in> set (resolved_by (trace s)). r = ans k)"
    using m assms(2) by (simp add: matched_inv_def answered_def)
  ultimately show ?thesis using ids_distinct [OF i assms(2)] by blast
qed

text \<open>
  C29: in every run each promise is settled at most once and waits exactly until it is settled; the
  search for a request id always ends; an open transport with a waiting request has one on the
  wire; a connecting one has a dial or a reconnect timer pending, with a delay and a number of
  attempts within the limits; and when the transport is closed no promise is left.
\<close>

theorem ipc_promises_settled:
  assumes "reach (newNngIpcTransport dflt rc ot mx) ipc_allowed ipc_step s"
  shows "distinct (settled_by (trace s)) \<and>
    (\<forall>k < issued s. k \<in> set (waiting s) \<longleftrightarrow> k \<notin> set (settled_by (trace s))) \<and>
    \<not> hung s \<and> length (staleIds s) \<le> 1024 \<and>
    (ipc_state s = Open \<and> waiting s \<noteq> [] \<longrightarrow> inFlight s \<noteq> None) \<and>
    (ipc_state s = Connecting \<longrightarrow> conn s \<noteq> None \<or> reconnectTimer s \<noteq> None) \<and>
    (\<forall>d. reconnectTimer s = Some d \<longrightarrow> (\<exists>r. reconnect s = Some r \<and> d \<le> maxDelayMs r
       \<and> (\<forall>m. maxAttempts r = Some m \<longrightarrow> attempt s \<le> m))) \<and>
    (ipc_state s = ClosedState \<longrightarrow> set (settled_by (trace s)) = {0..<issued s})"
proof -
  have i: "ipc_inv s" using ipc_machine.reachable_inv [OF assms] .
  then have "ipc_state s = Open \<and> waiting s \<noteq> [] \<longrightarrow> inFlight s \<noteq> None"
    and "ipc_state s = ClosedState \<longrightarrow> waiting s = []"
    by (auto simp: ipc_inv_def sane_def waiting_def)
  moreover have "\<not> hung s" "length (staleIds s) \<le> 1024"
    "ipc_state s = Connecting \<longrightarrow> conn s \<noteq> None \<or> reconnectTimer s \<noteq> None"
    "\<forall>d. reconnectTimer s = Some d \<longrightarrow> (\<exists>r. reconnect s = Some r \<and> d \<le> maxDelayMs r
       \<and> (\<forall>m. maxAttempts r = Some m \<longrightarrow> attempt s \<le> m))"
    using i by (auto simp: ipc_inv_def sane_def core_ok_def tries_ok_def)
  ultimately show ?thesis
    using ipc_machine.settled_once [OF assms] ipc_machine.waiting_or_settled [OF assms]
      ipc_machine.all_settled [OF assms] by blast
qed

text \<open>A run for the witnesses: a timeout, the late reply, the next reply, then the peer closes.\<close>

definition ipc_demo_reply :: "nat \<Rightarrow> bytes \<Rightarrow> bytes" where
  "ipc_demo_reply rid p = encodeNngFrame (encodeReqBody rid p)"

definition ipc_demo_events :: "ipc_event list" where
  "ipc_demo_events = [Send [1] (Some (Ms 5)), Send [2] None, SockOpen 0, Dialed 0,
     SockData 0 (encodeSpHandshake SP_PROTO_REP0), Timeout 0,
     SockData 0 (ipc_demo_reply 0x80000001 [10] @ ipc_demo_reply 0x80000002 [11])]"

definition ipc_demo :: ipc_transport where
  "ipc_demo = run ipc_step ipc_demo_events (newNngIpcTransport (Some InfiniteMs) None None (Some 64))"

definition ipc_demo_ans :: "nat \<Rightarrow> bytes" where
  "ipc_demo_ans k = [word_of_nat (10 + k)]"

lemma ipc_demo_reach:
  "reach (newNngIpcTransport (Some InfiniteMs) None None (Some 64))
     (\<lambda>e t. ipc_allowed e t \<and> server_honest ipc_demo_ans e t) ipc_step ipc_demo"
  unfolding ipc_demo_def by (rule reach_run [OF reach.start]) code_simp

theorem ipc_replies_matched_witness:
  "resolved_by (trace ipc_demo) = [(1, [11])] \<and> [11] = ipc_demo_ans 1
   \<and> distinct (map (frame_id \<circ> snd) (wires_by (trace ipc_demo)))"
proof -
  have "length (wires_by (trace ipc_demo)) = 2" and r: "resolved_by (trace ipc_demo) = [(1, [11])]"
    by code_simp+
  then have "(\<forall>(k, r) \<in> set (resolved_by (trace ipc_demo)). r = ipc_demo_ans k)
    \<and> distinct (map (frame_id \<circ> snd) (wires_by (trace ipc_demo)))"
    using ipc_replies_matched [OF ipc_demo_reach] by simp
  then show ?thesis using r by simp
qed

definition ipc_demo_lost :: ipc_transport where
  "ipc_demo_lost = run ipc_step [Send [3] None, SockClosed 0] ipc_demo"

theorem ipc_promises_settled_witness: "set (settled_by (trace ipc_demo_lost)) = {0..<3}"
proof -
  have r: "reach (newNngIpcTransport (Some InfiniteMs) None None (Some 64)) ipc_allowed ipc_step ipc_demo_lost"
    unfolding ipc_demo_lost_def
    by (rule reach_run [OF reach_mono [OF ipc_demo_reach]]) (rule conjunct1, assumption, code_simp)
  have i: "issued ipc_demo_lost = 3" and c: "ipc_state ipc_demo_lost = ClosedState" by code_simp+
  have "set (settled_by (trace ipc_demo_lost)) = {0..<issued ipc_demo_lost}"
    using ipc_promises_settled [OF r] c by blast
  then show ?thesis unfolding i .
qed

section \<open>Partial writes\<close>

text \<open>The bytes of the current connection that the kernel has not taken.\<close>

definition backlog :: "ipc_transport \<Rightarrow> bytes" where
  "backlog t = (case conn t of None \<Rightarrow> [] | Some c \<Rightarrow> case c_backlog c of None \<Rightarrow> [] | Some b \<Rightarrow> b)"

definition on_sock :: "nat \<Rightarrow> ipc_transport \<Rightarrow> bool" where
  "on_sock k t = (case conn t of None \<Rightarrow> False | Some c \<Rightarrow> c_num c = k \<and> c_sock c)"

lemma writeAll_stream:
  assumes "on_sock k t" "backlog t = []"
  shows "on_sock k (writeAll bs t)
    \<and> taken_by k (trace (writeAll bs t)) @ backlog (writeAll bs t) = taken_by k (trace t) @ bs"
proof -
  obtain c where c: "conn t = Some c" "c_num c = k" "c_sock c"
    using assms(1) by (auto simp: on_sock_def split: option.splits)
  let ?n = "case kernel t of [] \<Rightarrow> int (length bs) | m # ms \<Rightarrow> min m (int (length bs))"
  have "?n \<le> int (length bs)" by (simp split: list.split)
  moreover have "nat (max n 0) = nat n" for n by simp
  moreover have "case c_backlog c of None \<Rightarrow> True | Some b \<Rightarrow> b = []"
    using assms(2) c(1) by (simp add: backlog_def split: option.splits)
  ultimately show ?thesis using c
    by (auto simp: writeAll_def Let_def on_sock_def backlog_def emit_def split: option.splits)
qed

lemma onDrain_stream:
  assumes "on_sock k t"
  shows "on_sock k (onDrain j t)
    \<and> taken_by k (trace (onDrain j t)) @ backlog (onDrain j t) = taken_by k (trace t) @ backlog t"
proof -
  obtain c where c: "conn t = Some c" "c_num c = k" "c_sock c"
    using assms by (auto simp: on_sock_def split: option.splits)
  show ?thesis
  proof (cases "c_num c = j \<and> c_backlog c \<noteq> None")
    case True
    then obtain b where b: "c_backlog c = Some b" by auto
    let ?t = "t\<lparr>conn := Some (c\<lparr>c_backlog := None\<rparr>)\<rparr>"
    have "on_sock k ?t" "backlog ?t = []" using c by (simp_all add: on_sock_def backlog_def)
    from writeAll_stream [OF this, of b] show ?thesis
      using True b c by (simp add: onDrain_def backlog_def)
  next
    case False
    then have "onDrain j t = t" using c by (auto simp: onDrain_def split: option.split)
    then show ?thesis using assms by simp
  qed
qed

text \<open>
  When a frame is written while nothing is held back, then whatever part of it the kernel takes
  at each try and however often the socket drains, the bytes it has taken followed by those held
  back are the earlier bytes followed by exactly this frame: no byte is lost or sent twice.
\<close>

theorem ipc_write_integrity:
  assumes "on_sock k t" and "backlog t = []"
  shows "taken_by k (trace ((onDrain j ^^ n) (writeAll bs t))) @ backlog ((onDrain j ^^ n) (writeAll bs t))
    = taken_by k (trace t) @ bs"
proof -
  have "on_sock k ((onDrain j ^^ n) (writeAll bs t)) \<and>
    taken_by k (trace ((onDrain j ^^ n) (writeAll bs t))) @ backlog ((onDrain j ^^ n) (writeAll bs t))
    = taken_by k (trace t) @ bs"
    by (induction n) (use writeAll_stream [OF assms] onDrain_stream in auto)
  then show ?thesis by simp
qed

definition ipc_demo_partial :: ipc_transport where
  "ipc_demo_partial = ipc_demo\<lparr>trace := [], kernel := [2, - 1, 1]\<rparr>"

theorem ipc_write_integrity_witness:
  "taken_by 0 (trace ((onDrain 0 ^^ 2) (writeAll [5, 6, 7, 8] ipc_demo_partial))) = [5, 6, 7]
   \<and> taken_by 0 (trace ((onDrain 0 ^^ 2) (writeAll [5, 6, 7, 8] ipc_demo_partial)))
      @ backlog ((onDrain 0 ^^ 2) (writeAll [5, 6, 7, 8] ipc_demo_partial)) = [5, 6, 7, 8]"
proof -
  have "on_sock 0 ipc_demo_partial" "backlog ipc_demo_partial = []" "trace ipc_demo_partial = []"
    and t: "taken_by 0 (trace ((onDrain 0 ^^ 2) (writeAll [5, 6, 7, 8] ipc_demo_partial))) = [5, 6, 7]"
    by code_simp+
  then show ?thesis using ipc_write_integrity [of 0 ipc_demo_partial, where j = 0 and n = 2 and bs = "[5, 6, 7, 8]"]
    by simp
qed

definition ipc_torn :: ipc_transport where
  "ipc_torn = run ipc_step [Send [1] (Some (Ms 5)), Send [2] None, SockOpen 0, Dialed 0, KernelTakes 5,
     SockData 0 (encodeSpHandshake SP_PROTO_REP0), Timeout 0, SockDrain 0]
     (newNngIpcTransport (Some InfiniteMs) None None None)"

text \<open>
  A request that times out while part of its frame is held back lets the next frame out at
  once, in the middle of the first: the server's parser is given both frames in full and still
  delivers no request.
\<close>

theorem ipc_timeout_tears_frames:
  "reach (newNngIpcTransport (Some InfiniteMs) None None None) ipc_allowed ipc_step ipc_torn
   \<and> backlog ipc_torn = []
   \<and> length (taken_by 0 (trace ipc_torn))
      = length (encodeSpHandshake SP_PROTO_REQ0) + length (concat (map snd (wires_by (trace ipc_torn))))
   \<and> length (wires_by (trace ipc_torn)) = 2
   \<and> fst (nng_feed (newNngFrameParser (Some SP_PROTO_REQ0) None) [taken_by 0 (trace ipc_torn)]) = []"
proof (intro conjI)
  show "reach (newNngIpcTransport (Some InfiniteMs) None None None) ipc_allowed ipc_step ipc_torn"
    unfolding ipc_torn_def by (rule reach_run [OF reach.start]) code_simp
qed code_simp+
end
