(* ===== verification/JsCollections.thy ===== *)
theory JsCollections
  imports Prelude
begin

text \<open>
  JavaScript's \<open>Map\<close> and \<open>Set\<close> as the store uses them: a map is an association list and a set a
  list, both in insertion order. Setting a key that is present keeps its place. The interface
  \<open>map_laws\<close> is what the store's lemmas need of a map; it is interpreted on this one.
\<close>

type_synonym ('k, 'v) jmap = "('k \<times> 'v) list"
type_synonym 'a jset = "'a list"

definition jget :: "('k, 'v) jmap \<Rightarrow> 'k \<Rightarrow> 'v option" where
  "jget m k = map_of m k"

definition jhas :: "('k, 'v) jmap \<Rightarrow> 'k \<Rightarrow> bool" where
  "jhas m k = (jget m k \<noteq> None)"

fun jput :: "'k \<Rightarrow> 'v \<Rightarrow> ('k, 'v) jmap \<Rightarrow> ('k, 'v) jmap" where
  "jput k v [] = [(k, v)]"
| "jput k v ((k', v') # m) = (if k' = k then (k, v) # m else (k', v') # jput k v m)"

definition jdel :: "'k \<Rightarrow> ('k, 'v) jmap \<Rightarrow> ('k, 'v) jmap" where
  "jdel k m = filter (\<lambda>(k', _). k' \<noteq> k) m"

definition jkeys :: "('k, 'v) jmap \<Rightarrow> 'k list" where
  "jkeys m = map fst m"

definition jvalues :: "('k, 'v) jmap \<Rightarrow> 'v list" where
  "jvalues m = map snd m"

definition sadd :: "'a \<Rightarrow> 'a jset \<Rightarrow> 'a jset" where
  "sadd x s = (if x \<in> set s then s else s @ [x])"

definition sdel :: "'a \<Rightarrow> 'a jset \<Rightarrow> 'a jset" where
  "sdel x s = filter (\<lambda>y. y \<noteq> x) s"

lemma set_sadd [simp]: "set (sadd x s) = insert x (set s)"
  by (auto simp: sadd_def)

lemma set_sdel [simp]: "set (sdel x s) = set s - {x}"
  by (auto simp: sdel_def)

lemma distinct_sadd [simp]: "distinct s \<Longrightarrow> distinct (sadd x s)"
  by (simp add: sadd_def)

lemma set_fold_sadd [simp]: "set (fold sadd xs s) = set s \<union> set xs"
  by (induction xs arbitrary: s) auto

lemma jget_Nil [simp]: "jget [] k = None"
  by (simp add: jget_def)

lemma jget_jput [simp]: "jget (jput k v m) j = (if j = k then Some v else jget m j)"
  by (induction k v m rule: jput.induct) (auto simp: jget_def)

lemma jget_jdel [simp]: "jget (jdel k m) j = (if j = k then None else jget m j)"
  by (induction m) (auto simp: jget_def jdel_def)

lemma keys_jput: "set (jkeys (jput k v m)) = insert k (set (jkeys m))"
  by (induction k v m rule: jput.induct) (auto simp: jkeys_def)

lemma distinct_jput [simp]: "distinct (jkeys m) \<Longrightarrow> distinct (jkeys (jput k v m))"
proof (induction k v m rule: jput.induct)
  case (2 k v k' v' m)
  then show ?case using keys_jput [of k v m] by (auto simp: jkeys_def)
qed (simp add: jkeys_def)

lemma distinct_jdel [simp]: "distinct (jkeys m) \<Longrightarrow> distinct (jkeys (jdel k m))"
  by (auto simp: jkeys_def jdel_def distinct_map inj_on_def)

lemma jkeys_jget: "k \<in> set (jkeys m) \<longleftrightarrow> jget m k \<noteq> None"
  by (induction m) (auto simp: jkeys_def jget_def)

lemma jvalues_jget: "distinct (jkeys m) \<Longrightarrow> v \<in> set (jvalues m) \<longleftrightarrow> (\<exists>k. jget m k = Some v)"
  by (auto simp: jvalues_def jget_def jkeys_def)
     (force simp: map_of_eq_Some_iff)+

text \<open>The laws of a map, and what follows for writing and removing many entries.\<close>

locale map_laws =
  fixes get :: "'m \<Rightarrow> 'k \<Rightarrow> 'v option"
    and put :: "'k \<Rightarrow> 'v \<Rightarrow> 'm \<Rightarrow> 'm"
    and del :: "'k \<Rightarrow> 'm \<Rightarrow> 'm"
  assumes get_put: "get (put k v m) j = (if j = k then Some v else get m j)"
    and get_del: "get (del k m) j = (if j = k then None else get m j)"
begin

lemma get_del_all: "get (fold del ks m) j = (if j \<in> set ks then None else get m j)"
  by (induction ks arbitrary: m) (auto simp: get_del)

lemma get_put_all:
  "get (fold (\<lambda>x. put (key x) x) xs m) j =
     (case find (\<lambda>x. key x = j) (rev xs) of None \<Rightarrow> get m j | Some x \<Rightarrow> Some x)"
proof (induction xs arbitrary: m rule: rev_induct)
  case (snoc x xs)
  then show ?case by (auto simp: get_put)
qed simp

lemma put_del: "get (put k v (del k m)) j = get (put k v m) j"
  by (simp add: get_put get_del)

end

interpretation jmap: map_laws jget jput jdel
  by unfold_locales auto

end
