(* ===== verification/JsonValues.thy ===== *)
theory JsonValues
  imports JsCollections
begin

text \<open>
  JavaScript's numbers as far as the code looks at them, and the values \<open>JSON.parse\<close> makes: an object is
  the list of its properties, with distinct names, in their order; a number may be infinite (\<open>1e999\<close> is
  valid JSON) but is not NaN.
\<close>

type_synonym num = rat

datatype js_number = Fin num | Infinite bool | NaN

datatype json =
    JNull
  | JBool bool
  | JNum js_number
  | JStr string
  | JArr "json list"
  | JObj "(string \<times> json) list"

abbreviation jnum :: "num \<Rightarrow> json" where
  "jnum \<equiv> (\<lambda>r. JNum (Fin r))"

text \<open>\<open>x.k\<close>; \<open>None\<close> is \<open>undefined\<close>.\<close>

fun jprop :: "json \<Rightarrow> string \<Rightarrow> json option" where
  "jprop (JObj fields) k = map_of fields k"
| "jprop _ k = None"

fun is_string :: "json option \<Rightarrow> bool" where
  "is_string (Some (JStr _)) = True"
| "is_string _ = False"

fun is_number :: "json option \<Rightarrow> bool" where
  "is_number (Some (JNum _)) = True"
| "is_number _ = False"

fun one_of :: "string list \<Rightarrow> json option \<Rightarrow> bool" where
  "one_of names (Some (JStr s)) = (s \<in> set names)"
| "one_of names _ = False"

end
