(* ===== verification/ItemStore.thy ===== *)
theory ItemStore
  imports JsCollections
begin

text \<open>
  \<open>MemoryItemStore\<close> (\<open>packages/client/src/store/item-store.ts\<close>): the items of a document by id,
  with indexes by type, layer and net, mutated only through patches that say what was added,
  updated and removed. Protobuf messages are opaque: \<open>s_proto\<close> is the identity of the object,
  which is all the store compares. The field \<open>bbox\<close>, filled in by consumers, is left out.
\<close>

section \<open>Data\<close>

type_synonym item_id = string

record item =
  i_id :: item_id
  i_typeName :: string
  i_layer :: "string option"
  i_net :: "string option"
  i_parent :: "item_id option"
  i_proto :: nat

record stored_item =
  s_id :: item_id
  s_type :: string
  s_layer :: "string option"
  s_net :: "string option"
  s_parent :: "item_id option"
  s_proto :: nat
  s_item :: "item option"

definition toStoredItem :: "item \<Rightarrow> stored_item" where
  "toStoredItem i = \<lparr>s_id = i_id i, s_type = i_typeName i, s_layer = i_layer i, s_net = i_net i,
     s_parent = i_parent i, s_proto = i_proto i, s_item = Some i\<rparr>"

record store_diff =
  d_added :: "stored_item list"
  d_updated :: "stored_item list"
  d_removed :: "item_id list"
  d_revision :: nat

record store_patch =
  p_added :: "stored_item list"
  p_updated :: "stored_item list"
  p_removed :: "item_id list"

type_synonym 'k index = "('k, item_id jset) jmap"

text \<open>\<open>delivered\<close> records the diffs the subscribers got.\<close>

record item_store =
  items :: "(item_id, stored_item) jmap"
  typeIdx :: "string index"
  layerIdx :: "string index"
  netIdx :: "string index"
  rev_no :: nat
  delivered :: "store_diff list"

definition newItemStore :: item_store where
  "newItemStore = \<lparr>items = [], typeIdx = [], layerIdx = [], netIdx = [], rev_no = 0, delivered = []\<rparr>"

section \<open>Operations\<close>

definition store_get :: "item_store \<Rightarrow> item_id \<Rightarrow> stored_item option" where
  "store_get st i = jget (items st) i"

definition store_has :: "item_store \<Rightarrow> item_id \<Rightarrow> bool" where
  "store_has st i = jhas (items st) i"

definition store_all :: "item_store \<Rightarrow> stored_item list" where
  "store_all st = jvalues (items st)"

definition filterIds :: "item_store \<Rightarrow> item_id jset option \<Rightarrow> stored_item list" where
  "filterIds st ids = (case ids of None \<Rightarrow> [] | Some is \<Rightarrow> List.map_filter (store_get st) is)"

definition byType :: "item_store \<Rightarrow> string \<Rightarrow> stored_item list" where
  "byType st ty = filterIds st (jget (typeIdx st) ty)"

definition byLayer :: "item_store \<Rightarrow> string \<Rightarrow> stored_item list" where
  "byLayer st l = filterIds st (jget (layerIdx st) l)"

definition byNet :: "item_store \<Rightarrow> string \<Rightarrow> stored_item list" where
  "byNet st n = filterIds st (jget (netIdx st) n)"

definition store_types :: "item_store \<Rightarrow> string list" where
  "store_types st = jkeys (typeIdx st)"

definition store_layers :: "item_store \<Rightarrow> string list" where
  "store_layers st = jkeys (layerIdx st)"

definition store_nets :: "item_store \<Rightarrow> string list" where
  "store_nets st = jkeys (netIdx st)"

text \<open>The two index helpers \<open>add\<close> and \<open>del\<close>.\<close>

definition idx_add :: "'k \<Rightarrow> item_id \<Rightarrow> 'k index \<Rightarrow> 'k index" where
  "idx_add key i idx = (case jget idx key of
      None \<Rightarrow> jput key [i] idx
    | Some s \<Rightarrow> jput key (sadd i s) idx)"

definition idx_del :: "'k \<Rightarrow> item_id \<Rightarrow> 'k index \<Rightarrow> 'k index" where
  "idx_del key i idx = (case jget idx key of
      None \<Rightarrow> idx
    | Some s \<Rightarrow> let s' = sdel i s in if s' = [] then jdel key idx else jput key s' idx)"

text \<open>An optional string counts when it is present and not empty.\<close>

definition truthy :: "string option \<Rightarrow> string option" where
  "truthy x = (case x of Some s \<Rightarrow> if s = '''' then None else Some s | None \<Rightarrow> None)"

definition opt_idx :: "(string \<Rightarrow> string index \<Rightarrow> string index) \<Rightarrow> string option \<Rightarrow> string index \<Rightarrow> string index" where
  "opt_idx f key idx = (case truthy key of None \<Rightarrow> idx | Some k \<Rightarrow> f k idx)"

definition index_item :: "stored_item \<Rightarrow> item_store \<Rightarrow> item_store" where
  "index_item it st = st\<lparr>
     typeIdx := idx_add (s_type it) (s_id it) (typeIdx st),
     layerIdx := opt_idx (\<lambda>k. idx_add k (s_id it)) (s_layer it) (layerIdx st),
     netIdx := opt_idx (\<lambda>k. idx_add k (s_id it)) (s_net it) (netIdx st)\<rparr>"

definition unindex_item :: "stored_item \<Rightarrow> item_store \<Rightarrow> item_store" where
  "unindex_item it st = st\<lparr>
     typeIdx := idx_del (s_type it) (s_id it) (typeIdx st),
     layerIdx := opt_idx (\<lambda>k. idx_del k (s_id it)) (s_layer it) (layerIdx st),
     netIdx := opt_idx (\<lambda>k. idx_del k (s_id it)) (s_net it) (netIdx st)\<rparr>"

text \<open>The loops of \<open>apply\<close>.\<close>

definition unindex_id :: "item_id \<Rightarrow> item_store \<Rightarrow> item_store" where
  "unindex_id i st = (case jget (items st) i of None \<Rightarrow> st | Some it \<Rightarrow> unindex_item it st)"

definition put_item :: "stored_item \<Rightarrow> item_store \<Rightarrow> item_store" where
  "put_item it st = index_item it
     (let st' = unindex_id (s_id it) st in st'\<lparr>items := jput (s_id it) it (items st')\<rparr>)"

definition store_apply :: "store_patch \<Rightarrow> item_store \<Rightarrow> store_diff option \<times> item_store" where
  "store_apply patch st =
     (let known = \<lambda>it. jhas (items st) (s_id it);
          wanted = p_added patch @ p_updated patch;
          added = filter (\<lambda>it. \<not> known it) wanted;
          updated = filter known wanted;
          removed = filter (jhas (items st)) (p_removed patch)
      in if added = [] \<and> updated = [] \<and> removed = [] then (None, st)
         else
           let st1 = fold unindex_id removed st;
               st2 = st1\<lparr>items := fold jdel removed (items st1)\<rparr>;
               st3 = fold put_item (added @ updated) st2;
               r = rev_no st + 1;
               d = \<lparr>d_added = added, d_updated = updated, d_removed = removed, d_revision = r\<rparr>
           in (Some d, st3\<lparr>rev_no := r, delivered := delivered st3 @ [d]\<rparr>))"

definition store_replaceAll :: "stored_item list \<Rightarrow> item_store \<Rightarrow> store_diff option \<times> item_store" where
  "store_replaceAll its st =
     (let next = fold (\<lambda>it. jput (s_id it) it) its [];
          removed = filter (\<lambda>i. \<not> jhas next i) (jkeys (items st));
          added = filter (\<lambda>it. jget (items st) (s_id it) = None) (jvalues next);
          updated = filter (\<lambda>it. case jget (items st) (s_id it) of
              None \<Rightarrow> False | Some prev \<Rightarrow> s_proto prev \<noteq> s_proto it) (jvalues next)
      in store_apply \<lparr>p_added = added, p_updated = updated, p_removed = removed\<rparr> st)"

definition store_clear :: "item_store \<Rightarrow> store_diff option \<times> item_store" where
  "store_clear st = store_apply \<lparr>p_added = [], p_updated = [], p_removed = jkeys (items st)\<rparr> st"

definition store_applyItems :: "item list \<Rightarrow> item list \<Rightarrow> item_id list \<Rightarrow> item_store \<Rightarrow> store_diff option \<times> item_store" where
  "store_applyItems added updated removed st = store_apply
     \<lparr>p_added = map toStoredItem added, p_updated = map toStoredItem updated, p_removed = removed\<rparr> st"

section \<open>What an index holds\<close>

definition ids_at :: "'k index \<Rightarrow> 'k \<Rightarrow> item_id jset" where
  "ids_at idx k = (case jget idx k of None \<Rightarrow> [] | Some s \<Rightarrow> s)"

lemma ids_at_add [simp]: "ids_at (idx_add k i idx) j = (if j = k then sadd i (ids_at idx k) else ids_at idx j)"
  by (auto simp: idx_add_def ids_at_def sadd_def split: option.split)

lemma ids_at_del [simp]: "ids_at (idx_del k i idx) j = (if j = k then sdel i (ids_at idx k) else ids_at idx j)"
  by (auto simp: idx_del_def ids_at_def sdel_def Let_def split: option.split)

text \<open>
  \<open>idx_ok key idx c\<close>: under each key the index has exactly the ids of the items in \<open>c\<close> with that
  key, each once, and it has no empty entry.
\<close>

definition idx_ok :: "(stored_item \<Rightarrow> 'k option) \<Rightarrow> 'k index \<Rightarrow> (item_id \<Rightarrow> stored_item option) \<Rightarrow> bool" where
  "idx_ok key idx c \<longleftrightarrow>
     (\<forall>k i. i \<in> set (ids_at idx k) \<longleftrightarrow> (\<exists>it. c i = Some it \<and> key it = Some k)) \<and>
     (\<forall>k. distinct (ids_at idx k)) \<and> (\<forall>k. jget idx k \<noteq> Some [])"

lemma idx_ok_add:
  assumes "idx_ok key idx c" "c i = None" "key it = Some k"
  shows "idx_ok key (idx_add k i idx) (c(i := Some it))"
proof -
  have "jget (idx_add k i idx) j \<noteq> Some []" for j
    using assms(1) by (auto simp: idx_ok_def idx_add_def sadd_def split: option.split)
  then show ?thesis using assms by (auto simp: idx_ok_def)
qed

lemma idx_ok_skip_add: "idx_ok key idx c \<Longrightarrow> c i = None \<Longrightarrow> key it = None \<Longrightarrow> idx_ok key idx (c(i := Some it))"
  by (auto simp: idx_ok_def)

lemma idx_ok_del:
  assumes "idx_ok key idx c" "c i = Some it \<or> c i = None" "key it = Some k"
  shows "idx_ok key (idx_del k i idx) (c(i := None))"
proof -
  have "jget (idx_del k i idx) j \<noteq> Some []" for j
    using assms(1) by (auto simp: idx_ok_def idx_del_def Let_def split: option.split)
  moreover have "distinct (ids_at (idx_del k i idx) j)" for j
    using assms(1) by (auto simp: idx_ok_def sdel_def)
  ultimately show ?thesis using assms by (auto simp: idx_ok_def)
qed

lemma idx_ok_skip_del:
  "idx_ok key idx c \<Longrightarrow> c i = Some it \<or> c i = None \<Longrightarrow> key it = None \<Longrightarrow> idx_ok key idx (c(i := None))"
  by (auto simp: idx_ok_def)

definition indexed :: "item_store \<Rightarrow> (item_id \<Rightarrow> stored_item option) \<Rightarrow> bool" where
  "indexed st c \<longleftrightarrow> idx_ok (\<lambda>it. Some (s_type it)) (typeIdx st) c \<and>
     idx_ok (\<lambda>it. truthy (s_layer it)) (layerIdx st) c \<and> idx_ok (\<lambda>it. truthy (s_net it)) (netIdx st) c"

lemma indexed_add:
  "indexed st c \<Longrightarrow> c (s_id it) = None \<Longrightarrow> indexed (index_item it st) (c(s_id it := Some it))"
  by (auto simp: indexed_def index_item_def opt_idx_def intro: idx_ok_add idx_ok_skip_add split: option.split)

lemma indexed_del:
  "indexed st c \<Longrightarrow> c (s_id it) = Some it \<or> c (s_id it) = None \<Longrightarrow>
   indexed (unindex_item it st) (c(s_id it := None))"
  by (auto simp: indexed_def unindex_item_def opt_idx_def intro: idx_ok_del idx_ok_skip_del split: option.split)

section \<open>The invariant of the store\<close>

abbreviation content :: "item_store \<Rightarrow> item_id \<Rightarrow> stored_item option" where
  "content st \<equiv> jget (items st)"

definition store_ok :: "item_store \<Rightarrow> bool" where
  "store_ok st \<longleftrightarrow> distinct (jkeys (items st)) \<and>
     (\<forall>i it. content st i = Some it \<longrightarrow> s_id it = i) \<and> indexed st (content st)"

lemma store_ok_new: "store_ok newItemStore"
  by (simp add: store_ok_def newItemStore_def indexed_def idx_ok_def ids_at_def jkeys_def)

lemma items_unindex [simp]: "items (unindex_id i st) = items st"
  by (simp add: unindex_id_def unindex_item_def split: option.split)

lemma items_fold_unindex [simp]: "items (fold unindex_id is st) = items st"
  by (induction "is" arbitrary: st) auto

lemma unindex_others [simp]:
  "rev_no (unindex_id i st) = rev_no st" "delivered (unindex_id i st) = delivered st"
  by (simp_all add: unindex_id_def unindex_item_def split: option.split)

lemma indexed_cong: "typeIdx st' = typeIdx st \<Longrightarrow> layerIdx st' = layerIdx st \<Longrightarrow> netIdx st' = netIdx st \<Longrightarrow>
  indexed st' c = indexed st c"
  by (simp add: indexed_def)

lemma indexed_fold_unindex:
  assumes "\<forall>i it. content st i = Some it \<longrightarrow> s_id it = i" "indexed st c" "\<forall>i. c i = content st i \<or> c i = None"
    and "set is \<subseteq> {i. content st i \<noteq> None}"
  shows "indexed (fold unindex_id is st) (\<lambda>i. if i \<in> set is then None else c i)"
  using assms
proof (induction "is" arbitrary: st c)
  case (Cons i "is")
  obtain it where it: "content st i = Some it" "s_id it = i" using Cons.prems(1,4) by auto
  have c: "c i = Some it \<or> c i = None" using Cons.prems(3) it(1) by metis
  have u: "indexed (unindex_id i st) (c(i := None))"
    using indexed_del [OF Cons.prems(2), of it] c it by (simp add: unindex_id_def)
  have "indexed (fold unindex_id is (unindex_id i st)) (\<lambda>j. if j \<in> set is then None else (c(i := None)) j)"
  proof (rule Cons.IH [OF _ u])
    show "\<forall>j. (c(i := None)) j = content (unindex_id i st) j \<or> (c(i := None)) j = None"
      using Cons.prems(3) by simp
  qed (use Cons.prems in simp_all)
  moreover have "(\<lambda>j. if j \<in> set is then None else (c(i := None)) j)
      = (\<lambda>j. if j \<in> set (i # is) then None else c j)" by auto
  ultimately show ?case by simp
qed simp

lemma put_item_content: "content (put_item it st) = (content st)(s_id it := Some it)"
  by (auto simp: put_item_def index_item_def Let_def)

lemma put_item_ok: "store_ok st \<Longrightarrow> store_ok (put_item it st)"
proof -
  assume ok: "store_ok st"
  let ?u = "unindex_id (s_id it) st"
  have "indexed ?u ((content st)(s_id it := None))"
  proof (cases "content st (s_id it)")
    case None
    then show ?thesis using ok by (simp add: store_ok_def unindex_id_def fun_upd_idem)
  next
    case (Some p)
    then have "s_id p = s_id it" using ok by (simp add: store_ok_def)
    then show ?thesis using indexed_del [of st "content st" p] ok Some
      by (simp add: store_ok_def unindex_id_def)
  qed
  then have "indexed (?u\<lparr>items := m\<rparr>) ((content st)(s_id it := None))" for m
    by (simp add: indexed_def)
  from indexed_add [OF this, of it] have "indexed (put_item it st) ((content st)(s_id it := Some it))"
    by (simp add: put_item_def Let_def)
  moreover have "distinct (jkeys (items (put_item it st)))"
    using ok by (simp add: put_item_def index_item_def Let_def store_ok_def)
  ultimately show ?thesis using ok
    by (simp add: store_ok_def put_item_content)
qed

lemma put_all_ok: "store_ok st \<Longrightarrow> store_ok (fold put_item its st)"
  by (induction its arbitrary: st) (auto intro: put_item_ok)

text \<open>The last of the items with an id.\<close>

definition last_with :: "item_id \<Rightarrow> stored_item list \<Rightarrow> stored_item option" where
  "last_with i its = find (\<lambda>it. s_id it = i) (rev its)"

lemma last_with_snoc [simp]: "last_with i (its @ [it]) = (if s_id it = i then Some it else last_with i its)"
  by (simp add: last_with_def)

lemma last_with_Nil [simp]: "last_with i [] = None"
  by (simp add: last_with_def)

lemma put_all_content:
  "content (fold put_item its st) i = (case last_with i its of None \<Rightarrow> content st i | Some it \<Rightarrow> Some it)"
  by (induction its rule: rev_induct) (auto simp: put_item_content split: option.split)

lemma fold_others [simp]:
  "rev_no (fold unindex_id is st) = rev_no st" "delivered (fold unindex_id is st) = delivered st"
  "rev_no (fold put_item its st) = rev_no st" "delivered (fold put_item its st) = delivered st"
  by (induction "is" arbitrary: st; simp; fail | induction its arbitrary: st;
      simp add: put_item_def index_item_def Let_def)+

section \<open>What applying a patch does\<close>

definition patch_added :: "store_patch \<Rightarrow> item_store \<Rightarrow> stored_item list" where
  "patch_added p st = filter (\<lambda>it. \<not> jhas (items st) (s_id it)) (p_added p @ p_updated p)"

definition patch_updated :: "store_patch \<Rightarrow> item_store \<Rightarrow> stored_item list" where
  "patch_updated p st = filter (\<lambda>it. jhas (items st) (s_id it)) (p_added p @ p_updated p)"

definition patch_removed :: "store_patch \<Rightarrow> item_store \<Rightarrow> item_id list" where
  "patch_removed p st = filter (jhas (items st)) (p_removed p)"

lemma store_apply_alt:
  "store_apply p st =
     (if patch_added p st = [] \<and> patch_updated p st = [] \<and> patch_removed p st = [] then (None, st)
      else let st1 = fold unindex_id (patch_removed p st) st;
               st2 = st1\<lparr>items := fold jdel (patch_removed p st) (items st)\<rparr>;
               st3 = fold put_item (patch_added p st @ patch_updated p st) st2;
               d = \<lparr>d_added = patch_added p st, d_updated = patch_updated p st,
                    d_removed = patch_removed p st, d_revision = rev_no st + 1\<rparr>
           in (Some d, st3\<lparr>rev_no := rev_no st + 1, delivered := delivered st @ [d]\<rparr>))"
  by (simp add: store_apply_def Let_def patch_added_def patch_updated_def patch_removed_def)

lemma last_with_filter:
  "last_with i (filter P its) = last_with i its" if "\<And>it. s_id it = i \<Longrightarrow> P it"
  using that by (induction its rule: rev_induct) auto

lemma last_with_filter_None:
  "last_with i (filter P its) = None" if "\<And>it. s_id it = i \<Longrightarrow> \<not> P it"
  using that by (induction its rule: rev_induct) auto

lemma last_with_append:
  "last_with i (xs @ ys) = (case last_with i ys of None \<Rightarrow> last_with i xs | Some it \<Rightarrow> Some it)"
  by (induction ys rule: rev_induct) (auto simp flip: append_assoc split: option.split)

lemma last_with_patch:
  "last_with i (patch_added p st @ patch_updated p st) = last_with i (p_added p @ p_updated p)"
proof (cases "jhas (items st) i")
  case True
  then have "last_with i (patch_added p st) = None"
    unfolding patch_added_def by (intro last_with_filter_None) auto
  moreover have "last_with i (patch_updated p st) = last_with i (p_added p @ p_updated p)"
    unfolding patch_updated_def using True by (intro last_with_filter) auto
  ultimately show ?thesis by (simp add: last_with_append split: option.split)
next
  case False
  then have "last_with i (patch_updated p st) = None"
    unfolding patch_updated_def by (intro last_with_filter_None) auto
  moreover have "last_with i (patch_added p st) = last_with i (p_added p @ p_updated p)"
    unfolding patch_added_def using False by (intro last_with_filter) auto
  ultimately show ?thesis by (simp add: last_with_append split: option.split)
qed

lemma patch_middle_ok:
  assumes "store_ok st"
  shows "store_ok ((fold unindex_id (patch_removed p st) st)\<lparr>items := fold jdel (patch_removed p st) (items st)\<rparr>)"
    (is "store_ok ?m")
proof -
  let ?r = "patch_removed p st"
  have "indexed (fold unindex_id ?r st) (\<lambda>i. if i \<in> set ?r then None else content st i)"
    using assms by (intro indexed_fold_unindex) (auto simp: store_ok_def patch_removed_def jhas_def)
  moreover have "content ?m = (\<lambda>i. if i \<in> set ?r then None else content st i)"
    by (simp add: fun_eq_iff jmap.get_del_all)
  ultimately have "indexed ?m (content ?m)" by (simp add: indexed_def)
  moreover have "distinct (jkeys (fold jdel ks m))" if "distinct (jkeys m)" for ks and m :: "(item_id, stored_item) jmap"
    using that by (induction ks arbitrary: m) auto
  ultimately show ?thesis using assms by (auto simp: store_ok_def jmap.get_del_all)
qed

lemma patch_ok: "store_ok st \<Longrightarrow> store_ok (snd (store_apply p st))"
proof -
  assume ok: "store_ok st"
  have upd: "store_ok (t\<lparr>rev_no := r, delivered := d\<rparr>) = store_ok t" for t r d
    by (simp add: store_ok_def indexed_def)
  show ?thesis
    using ok put_all_ok [OF patch_middle_ok [OF ok, of p]] by (simp add: store_apply_alt Let_def upd del: fold_append)
qed

lemma patch_content:
  "content (snd (store_apply p st)) i =
     (case last_with i (p_added p @ p_updated p) of
        Some it \<Rightarrow> Some it
      | None \<Rightarrow> if i \<in> set (p_removed p) then None else content st i)"
proof (cases "patch_added p st = [] \<and> patch_updated p st = [] \<and> patch_removed p st = []")
  case True
  then have "last_with i (p_added p @ p_updated p) = None"
    using last_with_patch [of i p st] by simp
  moreover have "i \<in> set (p_removed p) \<Longrightarrow> content st i = None"
    using True by (auto simp: patch_removed_def filter_empty_conv jhas_def)
  ultimately show ?thesis using True by (simp add: store_apply_alt)
next
  case False
  have "i \<in> set (patch_removed p st) \<longleftrightarrow> i \<in> set (p_removed p) \<and> content st i \<noteq> None"
    by (simp add: patch_removed_def jhas_def conj_commute)
  then show ?thesis using False
    by (auto simp: store_apply_alt Let_def put_all_content last_with_patch jmap.get_del_all
        simp del: fold_append split: option.split)
qed

text \<open>What the queries return.\<close>

lemma set_map_filter: "set (List.map_filter f xs) = {y. \<exists>x \<in> set xs. f x = Some y}"
  by (force simp: List.map_filter_def)

lemma filterIds_ok:
  assumes "idx_ok key idx (content st)"
  shows "set (filterIds st (jget idx k)) = {it. \<exists>i. content st i = Some it \<and> key it = Some k}"
proof -
  have "filterIds st (jget idx k) = List.map_filter (store_get st) (ids_at idx k)"
    by (simp add: filterIds_def ids_at_def List.map_filter_def split: option.split)
  then show ?thesis using assms by (auto simp: set_map_filter store_get_def idx_ok_def)
qed

lemma idx_keys: "idx_ok key idx c \<Longrightarrow> k \<in> set (jkeys idx) \<longleftrightarrow> (\<exists>i it. c i = Some it \<and> key it = Some k)"
proof -
  assume ok: "idx_ok key idx c"
  have "k \<in> set (jkeys idx) \<longleftrightarrow> ids_at idx k \<noteq> []"
    using ok by (auto simp: jkeys_jget ids_at_def idx_ok_def split: option.split)
  also have "\<dots> \<longleftrightarrow> (\<exists>i. i \<in> set (ids_at idx k))" by (cases "ids_at idx k") auto
  also have "\<dots> \<longleftrightarrow> (\<exists>i it. c i = Some it \<and> key it = Some k)" using ok by (simp add: idx_ok_def)
  finally show ?thesis .
qed


definition demo_item :: "string \<Rightarrow> string \<Rightarrow> string option \<Rightarrow> nat \<Rightarrow> stored_item" where
  "demo_item i ty l p = \<lparr>s_id = i, s_type = ty, s_layer = l, s_net = Some '''', s_parent = None, s_proto = p, s_item = None\<rparr>"

definition demo_store :: item_store where
  "demo_store = snd (store_apply \<lparr>p_added = [demo_item ''a'' ''T'' (Some ''F'') 1, demo_item ''b'' ''T'' (Some ''B'') 2],
     p_updated = [], p_removed = []\<rparr> newItemStore)"

definition demo_patch :: store_patch where
  "demo_patch = \<lparr>p_added = [demo_item ''c'' ''T'' None 3], p_updated = [demo_item ''a'' ''U'' (Some ''B'') 4], p_removed = [''b'']\<rparr>"


text \<open>
  What a patch does to the content. An id named in \<open>added\<close> or \<open>updated\<close> ends up with the
  last item given for it, also when it is in \<open>removed\<close>; other ids in \<open>removed\<close> are gone; all
  others are untouched. A patch that changes nothing returns no diff and leaves the store as it
  is; otherwise the revision goes up by one, one diff is delivered, and it names precisely the
  ids that are new, that were present, and that were present and are named as removed.
\<close>

theorem store_apply_effect:
  "(\<forall>i. content (snd (store_apply p st)) i =
      (case last_with i (p_added p @ p_updated p) of
         Some it \<Rightarrow> Some it
       | None \<Rightarrow> if i \<in> set (p_removed p) then None else content st i))
   \<and> (case fst (store_apply p st) of
        None \<Rightarrow> snd (store_apply p st) = st
      | Some d \<Rightarrow>
          rev_no (snd (store_apply p st)) = rev_no st + 1 \<and> d_revision d = rev_no st + 1
          \<and> delivered (snd (store_apply p st)) = delivered st @ [d]
          \<and> (if d_added d @ d_updated d = [] then d_removed d \<noteq> [] else True)
          \<and> set (d_added d) = {it \<in> set (p_added p @ p_updated p). content st (s_id it) = None}
          \<and> set (d_updated d) = {it \<in> set (p_added p @ p_updated p). content st (s_id it) \<noteq> None}
          \<and> set (d_removed d) = {i \<in> set (p_removed p). content st i \<noteq> None})"
proof
  show "\<forall>i. content (snd (store_apply p st)) i =
      (case last_with i (p_added p @ p_updated p) of
         Some it \<Rightarrow> Some it
       | None \<Rightarrow> if i \<in> set (p_removed p) then None else content st i)"
    by (simp add: patch_content)
  have "set (patch_added p st) = {it \<in> set (p_added p @ p_updated p). content st (s_id it) = None}"
    and "set (patch_updated p st) = {it \<in> set (p_added p @ p_updated p). content st (s_id it) \<noteq> None}"
    and "set (patch_removed p st) = {i \<in> set (p_removed p). content st i \<noteq> None}"
    by (auto simp: patch_added_def patch_updated_def patch_removed_def jhas_def)
  then show "case fst (store_apply p st) of
        None \<Rightarrow> snd (store_apply p st) = st
      | Some d \<Rightarrow>
          rev_no (snd (store_apply p st)) = rev_no st + 1 \<and> d_revision d = rev_no st + 1
          \<and> delivered (snd (store_apply p st)) = delivered st @ [d]
          \<and> (if d_added d @ d_updated d = [] then d_removed d \<noteq> [] else True)
          \<and> set (d_added d) = {it \<in> set (p_added p @ p_updated p). content st (s_id it) = None}
          \<and> set (d_updated d) = {it \<in> set (p_added p @ p_updated p). content st (s_id it) \<noteq> None}
          \<and> set (d_removed d) = {i \<in> set (p_removed p). content st i \<noteq> None}"
    unfolding store_apply_alt Let_def by simp
qed

section \<open>Replacing everything\<close>

lemma last_with_None: "last_with i xs = None \<longleftrightarrow> (\<forall>x \<in> set xs. s_id x \<noteq> i)"
  by (auto simp: last_with_def find_None_iff)

lemma last_with_Some: "last_with i xs = Some x \<Longrightarrow> x \<in> set xs \<and> s_id x = i"
  by (induction xs rule: rev_induct) (auto split: if_splits)

lemma last_with_unique:
  assumes "\<And>x. x \<in> set xs \<Longrightarrow> s_id x = i \<Longrightarrow> x = it"
  shows "last_with i xs = (if it \<in> set xs \<and> s_id it = i then Some it else None)"
proof (cases "last_with i xs")
  case None
  then show ?thesis by (auto simp: last_with_None)
next
  case (Some x)
  then show ?thesis using last_with_Some [OF Some] assms by auto
qed

definition next_map :: "stored_item list \<Rightarrow> (item_id, stored_item) jmap" where
  "next_map its = fold (\<lambda>it. jput (s_id it) it) its []"

lemma next_map_get: "jget (next_map its) i = last_with i its"
  by (simp add: next_map_def last_with_def jmap.get_put_all split: option.split)

lemma next_map_values: "it \<in> set (jvalues (next_map its)) \<longleftrightarrow> last_with (s_id it) its = Some it"
proof -
  have "distinct (jkeys (fold (\<lambda>it. jput (s_id it) it) its m))" if "distinct (jkeys m)"
    for m :: "(item_id, stored_item) jmap"
    using that by (induction its arbitrary: m) auto
  then have "distinct (jkeys (next_map its))" by (simp add: next_map_def jkeys_def)
  then show ?thesis
    by (auto simp: jvalues_jget next_map_get dest: last_with_Some)
qed

text \<open>
  After \<open>replaceAll\<close> the store has exactly the ids it was given. Where an id was given more than
  once the last item counts; an item whose message is the very object the store has already is
  left alone, every other one is stored; and loading the same items again changes nothing.
\<close>

theorem store_replaceAll_content:
  "(\<forall>i. content (snd (store_replaceAll its st)) i =
     (case last_with i its of
        None \<Rightarrow> None
      | Some it \<Rightarrow> (case content st i of
            None \<Rightarrow> Some it
          | Some prev \<Rightarrow> if s_proto prev = s_proto it then Some prev else Some it)))
   \<and> fst (store_replaceAll its (snd (store_replaceAll its st))) = None"
proof -
  have main: "content (snd (store_replaceAll its s)) i =
     (case last_with i its of
        None \<Rightarrow> None
      | Some it \<Rightarrow> (case content s i of
            None \<Rightarrow> Some it
          | Some prev \<Rightarrow> if s_proto prev = s_proto it then Some prev else Some it))" for s i
  proof -
    let ?V = "jvalues (next_map its)"
    let ?P = "\<lambda>it. case content s (s_id it) of None \<Rightarrow> False | Some prev \<Rightarrow> s_proto prev \<noteq> s_proto it"
    let ?A = "filter (\<lambda>it. content s (s_id it) = None) ?V @ filter ?P ?V"
    have r: "i \<in> set (filter (\<lambda>j. \<not> jhas (next_map its) j) (jkeys (items s)))
        \<longleftrightarrow> last_with i its = None \<and> content s i \<noteq> None"
      by (auto simp: jkeys_jget jhas_def next_map_get)
    have "last_with i ?A = (case last_with i its of None \<Rightarrow> None | Some it \<Rightarrow>
        if content s i = None \<or> ?P it then Some it else None)"
    proof (cases "last_with i its")
      case None
      then have "\<forall>x \<in> set ?A. s_id x \<noteq> i" by (auto simp: next_map_values)
      then have "last_with i ?A = None" by (simp add: last_with_None)
      then show ?thesis using None by simp
    next
      case (Some it)
      then have "s_id it = i" by (simp add: last_with_Some)
      then show ?thesis using Some
        by (subst last_with_unique [of _ _ it]) (auto simp: next_map_values split: option.splits)
    qed
    then show ?thesis using r last_with_Some [of i its]
      by (auto simp: store_replaceAll_def Let_def patch_content simp flip: next_map_def
          split: option.splits)
  qed
  have idle: "fst (store_replaceAll its s) = None"
    if "filter (\<lambda>j. \<not> jhas (next_map its) j) (jkeys (items s)) = []"
      "filter (\<lambda>it. content s (s_id it) = None) (jvalues (next_map its)) = []"
      "filter (\<lambda>it. case content s (s_id it) of None \<Rightarrow> False | Some prev \<Rightarrow> s_proto prev \<noteq> s_proto it)
         (jvalues (next_map its)) = []" for s
  proof -
    have "store_replaceAll its s = store_apply \<lparr>p_added = [], p_updated = [], p_removed = []\<rparr> s"
      using that by (simp only: store_replaceAll_def Let_def next_map_def)
    then show ?thesis by (simp add: store_apply_def)
  qed
  let ?s = "snd (store_replaceAll its st)"
  have "fst (store_replaceAll its ?s) = None"
  proof -
    let ?V = "jvalues (next_map its)"
    have "filter (\<lambda>j. \<not> jhas (next_map its) j) (jkeys (items ?s)) = []"
      by (auto simp: filter_empty_conv jkeys_jget jhas_def next_map_get main split: option.splits)
    moreover have "filter (\<lambda>it. content ?s (s_id it) = None) ?V = []"
      by (auto simp: filter_empty_conv next_map_values main split: option.splits)
    moreover have "filter (\<lambda>it. case content ?s (s_id it) of None \<Rightarrow> False | Some prev \<Rightarrow> s_proto prev \<noteq> s_proto it) ?V = []"
      by (auto simp: filter_empty_conv next_map_values main split: option.splits)
    ultimately show ?thesis by (rule idle)
  qed
  then show ?thesis by (intro conjI allI main)
qed
end
