(* ===== verification/UndoStack.thy ===== *)
theory UndoStack
  imports ItemStore
begin

text \<open>
  Undo over store patches (\<open>packages/client/src/store/undo.ts\<close>): the inverse of a patch, the
  linear stack of applied patches with its cursor, and \<open>DocumentUndo\<close>, which prefers the
  server's undo when the server has it. What the server answers is an argument of the model.
\<close>

section \<open>Inverse patches\<close>

definition consider_id :: "item_store \<Rightarrow> item_id \<times> bool \<Rightarrow> item_id list \<times> store_patch \<Rightarrow> item_id list \<times> store_patch" where
  "consider_id st iw acc = (case iw of (i, willExist) \<Rightarrow> case acc of (seen, p) \<Rightarrow>
     if i \<in> set seen then (seen, p)
     else (sadd i seen,
       case store_get st i of
         Some prev \<Rightarrow> if willExist then p\<lparr>p_updated := p_updated p @ [prev]\<rparr>
                      else p\<lparr>p_added := p_added p @ [prev]\<rparr>
       | None \<Rightarrow> if willExist then p\<lparr>p_removed := p_removed p @ [i]\<rparr> else p))"

definition inversePatch :: "item_store \<Rightarrow> store_patch \<Rightarrow> store_patch" where
  "inversePatch st patch = snd
     (fold (consider_id st) (map (\<lambda>i. (i, False)) (p_removed patch))
       (fold (consider_id st) (map (\<lambda>it. (s_id it, True)) (p_updated patch))
         (fold (consider_id st) (map (\<lambda>it. (s_id it, True)) (p_added patch))
           ([], \<lparr>p_added = [], p_updated = [], p_removed = []\<rparr>))))"

section \<open>The stack\<close>

record history_entry =
  h_label :: string
  h_forward :: store_patch
  h_inverse :: store_patch
  h_revision :: nat

record undo_stack =
  u_store :: item_store
  u_limit :: nat
  u_entries :: "history_entry list"
  u_cursor :: nat

definition newUndoStack :: "item_store \<Rightarrow> nat \<Rightarrow> undo_stack" where
  "newUndoStack st n = \<lparr>u_store = st, u_limit = n, u_entries = [], u_cursor = 0\<rparr>"

definition undo_apply :: "string \<Rightarrow> store_patch \<Rightarrow> undo_stack \<Rightarrow> history_entry option \<times> undo_stack" where
  "undo_apply label patch u =
     (let inverse = inversePatch (u_store u) patch in
      case store_apply patch (u_store u) of
        (None, st) \<Rightarrow> (None, u\<lparr>u_store := st\<rparr>)
      | (Some d, st) \<Rightarrow>
          let entry = \<lparr>h_label = label, h_forward = patch, h_inverse = inverse, h_revision = d_revision d\<rparr>;
              es = take (u_cursor u) (u_entries u) @ [entry];
              es' = (if length es > u_limit u then tl es else es)
          in (Some entry, u\<lparr>u_store := st, u_entries := es', u_cursor := length es'\<rparr>))"

definition canUndo :: "undo_stack \<Rightarrow> bool" where
  "canUndo u = (u_cursor u > 0)"

definition canRedo :: "undo_stack \<Rightarrow> bool" where
  "canRedo u = (u_cursor u < length (u_entries u))"

definition undo :: "undo_stack \<Rightarrow> history_entry option \<times> undo_stack" where
  "undo u =
     (if \<not> canUndo u then (None, u)
      else let entry = u_entries u ! (u_cursor u - 1)
        in (Some entry, u\<lparr>u_cursor := u_cursor u - 1, u_store := snd (store_apply (h_inverse entry) (u_store u))\<rparr>))"

definition redo :: "undo_stack \<Rightarrow> history_entry option \<times> undo_stack" where
  "redo u =
     (if \<not> canRedo u then (None, u)
      else let entry = u_entries u ! u_cursor u
        in (Some entry, u\<lparr>u_cursor := u_cursor u + 1, u_store := snd (store_apply (h_forward entry) (u_store u))\<rparr>))"

definition undo_history :: "undo_stack \<Rightarrow> history_entry list" where
  "undo_history u = take (u_cursor u) (u_entries u)"

definition undo_clear :: "undo_stack \<Rightarrow> undo_stack" where
  "undo_clear u = u\<lparr>u_entries := [], u_cursor := 0\<rparr>"

section \<open>Choosing between server and client\<close>

text \<open>
  The answer of the server to a question or a command: \<open>None\<close> when the promise rejects. A rejected
  \<open>undo\<close> of the server rejects the caller's promise (\<open>Rejected\<close>).
\<close>

datatype undo_outcome = ViaServer nat | ViaClient history_entry | ViaNone | Rejected

record document_undo =
  du_stack :: undo_stack
  du_document :: bool
  du_serverOk :: "bool option"

definition useServer :: "bool option \<Rightarrow> document_undo \<Rightarrow> bool \<times> document_undo" where
  "useServer probe d =
     (if \<not> du_document d then (False, d)
      else case du_serverOk d of
        Some b \<Rightarrow> (b, d)
      | None \<Rightarrow> let b = (case probe of None \<Rightarrow> False | Some b \<Rightarrow> b) in (b, d\<lparr>du_serverOk := Some b\<rparr>))"

definition document_undo_step ::
  "(undo_stack \<Rightarrow> history_entry option \<times> undo_stack) \<Rightarrow> bool option \<Rightarrow> nat option \<Rightarrow> document_undo
     \<Rightarrow> undo_outcome \<times> document_undo" where
  "document_undo_step local probe answer d =
     (case useServer probe d of
        (True, d') \<Rightarrow> (case answer of None \<Rightarrow> Rejected | Some n \<Rightarrow> ViaServer n, d')
      | (False, d') \<Rightarrow> (case local (du_stack d') of
            (Some entry, u) \<Rightarrow> (ViaClient entry, d'\<lparr>du_stack := u\<rparr>)
          | (None, u) \<Rightarrow> (ViaNone, d'\<lparr>du_stack := u\<rparr>)))"

definition document_undo_undo :: "bool option \<Rightarrow> nat option \<Rightarrow> document_undo \<Rightarrow> undo_outcome \<times> document_undo" where
  "document_undo_undo = document_undo_step undo"

definition document_undo_redo :: "bool option \<Rightarrow> nat option \<Rightarrow> document_undo \<Rightarrow> undo_outcome \<times> document_undo" where
  "document_undo_redo = document_undo_step redo"

section \<open>The inverse restores the content\<close>

text \<open>What a patch does to a content, as \<open>patch_content\<close> says.\<close>

definition patch_fun :: "store_patch \<Rightarrow> (item_id \<Rightarrow> stored_item option) \<Rightarrow> item_id \<Rightarrow> stored_item option" where
  "patch_fun p c i = (case last_with i (p_added p @ p_updated p) of
      Some it \<Rightarrow> Some it | None \<Rightarrow> if i \<in> set (p_removed p) then None else c i)"

lemma apply_content: "content (snd (store_apply p st)) = patch_fun p (content st)"
  by (rule ext) (simp add: patch_content patch_fun_def)

lemma fold_consider_id_True:
  "fold (consider_id st) (map (\<lambda>x. (x, True)) xs) (seen, p) = (seen', p') \<Longrightarrow>
   set seen' = set seen \<union> set xs
   \<and> set (p_updated p') = set (p_updated p) \<union> {it. \<exists>x \<in> set xs. x \<notin> set seen \<and> content st x = Some it}
   \<and> set (p_removed p') = set (p_removed p) \<union> {i \<in> set xs. i \<notin> set seen \<and> content st i = None}
   \<and> p_added p' = p_added p"
proof (induction xs arbitrary: seen p)
  case (Cons x xs)
  obtain s1 p1 where c: "consider_id st (x, True) (seen, p) = (s1, p1)"
    by (cases "consider_id st (x, True) (seen, p)") auto
  have "fold (consider_id st) (map (\<lambda>x. (x, True)) xs) (s1, p1) = (seen', p')"
    using Cons.prems c by simp
  note ih = Cons.IH [OF this]
  have s1: "set s1 = insert x (set seen)" "p_added p1 = p_added p"
    using c by (auto simp: consider_id_def split: if_splits option.splits)
  have u1: "set (p_updated p1) = set (p_updated p) \<union> {it. x \<notin> set seen \<and> content st x = Some it}"
    "set (p_removed p1) = set (p_removed p) \<union> {i. i = x \<and> i \<notin> set seen \<and> content st i = None}"
    using c by (auto simp: consider_id_def store_get_def split: if_splits option.splits)
  show ?case using ih s1 u1 by auto
qed simp

lemma fold_consider_id_False:
  "fold (consider_id st) (map (\<lambda>x. (x, False)) xs) (seen, p) = (seen', p') \<Longrightarrow>
   set (p_added p') = set (p_added p) \<union> {it. \<exists>x \<in> set xs. x \<notin> set seen \<and> content st x = Some it}
   \<and> p_updated p' = p_updated p \<and> p_removed p' = p_removed p"
proof (induction xs arbitrary: seen p)
  case (Cons x xs)
  obtain s1 p1 where c: "consider_id st (x, False) (seen, p) = (s1, p1)"
    by (cases "consider_id st (x, False) (seen, p)") auto
  have "fold (consider_id st) (map (\<lambda>x. (x, False)) xs) (s1, p1) = (seen', p')"
    using Cons.prems c by simp
  note ih = Cons.IH [OF this]
  have "set s1 = insert x (set seen)" "p_updated p1 = p_updated p" "p_removed p1 = p_removed p"
    "set (p_added p1) = set (p_added p) \<union> {it. x \<notin> set seen \<and> content st x = Some it}"
    using c by (auto simp: consider_id_def store_get_def split: if_splits option.splits)
  then show ?case using ih by auto
qed simp

lemma inverse_sets:
  fixes st patch
  defines "A \<equiv> s_id ` set (p_added patch @ p_updated patch)"
  shows "set (p_updated (inversePatch st patch)) = {it. \<exists>i \<in> A. content st i = Some it}"
    and "set (p_removed (inversePatch st patch)) = {i \<in> A. content st i = None}"
    and "set (p_added (inversePatch st patch)) = {it. \<exists>i \<in> set (p_removed patch). i \<notin> A \<and> content st i = Some it}"
proof -
  let ?e = "\<lparr>p_added = [], p_updated = [], p_removed = []\<rparr>"
  let ?l = "map s_id (p_added patch @ p_updated patch)"
  obtain s2 p2 where 2: "fold (consider_id st) (map (\<lambda>i. (i, True)) ?l) ([], ?e) = (s2, p2)"
    by (cases "fold (consider_id st) (map (\<lambda>i. (i, True)) ?l) ([], ?e)") auto
  obtain s3 p3 where 3: "fold (consider_id st) (map (\<lambda>i. (i, False)) (p_removed patch)) (s2, p2) = (s3, p3)"
    by (cases "fold (consider_id st) (map (\<lambda>i. (i, False)) (p_removed patch)) (s2, p2)") auto
  have inv: "inversePatch st patch = p3" using 2 3 by (simp add: inversePatch_def comp_def)
  have A: "A = set ?l" by (simp add: A_def image_Un)
  have t: "set s2 = A" "set (p_updated p2) = {it. \<exists>x \<in> A. content st x = Some it}"
    "set (p_removed p2) = {i \<in> A. content st i = None}" "p_added p2 = []"
    using fold_consider_id_True [OF 2] by (simp_all add: A del: set_append set_map)
  note f = fold_consider_id_False [OF 3]
  show "set (p_updated (inversePatch st patch)) = {it. \<exists>i \<in> A. content st i = Some it}"
    using t(2) f inv by simp
  show "set (p_removed (inversePatch st patch)) = {i \<in> A. content st i = None}"
    using t(3) f inv by simp
  show "set (p_added (inversePatch st patch)) = {it. \<exists>i \<in> set (p_removed patch). i \<notin> A \<and> content st i = Some it}"
    using t(1,4) f inv by simp
qed

lemma inverse_restores:
  assumes "\<And>i it. content st i = Some it \<Longrightarrow> s_id it = i"
  shows "patch_fun (inversePatch st p) (patch_fun p (content st)) = content st"
proof
  fix i
  let ?A = "s_id ` set (p_added p @ p_updated p)"
  let ?v = "inversePatch st p"
  let ?B = "?A \<union> set (p_removed p)"
  have "set (p_added ?v @ p_updated ?v) = {it. \<exists>i \<in> ?B. content st i = Some it}"
    unfolding set_append [of "p_added ?v"] inverse_sets by blast
  also have "\<dots> = {it. s_id it \<in> ?B \<and> content st (s_id it) = Some it}"
    using assms by metis
  finally have memb: "it \<in> set (p_added ?v @ p_updated ?v) \<longleftrightarrow> s_id it \<in> ?B \<and> content st (s_id it) = Some it" for it
    by blast
  have last: "last_with i (p_added ?v @ p_updated ?v) =
      (if i \<in> ?A \<union> set (p_removed p) then content st i else None)"
  proof (cases "content st i")
    case None
    have "last_with i (p_added ?v @ p_updated ?v) = None"
      unfolding last_with_None
    proof
      fix x assume "x \<in> set (p_added ?v @ p_updated ?v)"
      then have "content st (s_id x) = Some x" using memb by blast
      then show "s_id x \<noteq> i" using None by auto
    qed
    then show ?thesis using None by simp
  next
    case (Some it)
    have "last_with i (p_added ?v @ p_updated ?v)
        = (if it \<in> set (p_added ?v @ p_updated ?v) \<and> s_id it = i then Some it else None)"
    proof (rule last_with_unique)
      fix x assume "x \<in> set (p_added ?v @ p_updated ?v)" "s_id x = i"
      then have "content st i = Some x" using memb by metis
      then show "x = it" using Some by simp
    qed
    moreover have "s_id it = i" using Some assms by blast
    moreover have "it \<in> set (p_added ?v @ p_updated ?v) \<longleftrightarrow> i \<in> ?B"
      unfolding memb using Some \<open>s_id it = i\<close> by simp
    ultimately show ?thesis using Some by simp
  qed
  have a: "last_with i (p_added p @ p_updated p) = None \<longleftrightarrow> i \<notin> ?A"
    by (auto simp: last_with_None simp del: set_append)
  have r: "i \<in> set (p_removed ?v) \<longleftrightarrow> i \<in> ?A \<and> content st i = None"
    by (simp add: inverse_sets)
  show "patch_fun ?v (patch_fun p (content st)) i = content st i"
  proof (cases "content st i")
    case None
    then show ?thesis using a r last
      by (cases "i \<in> ?A") (auto simp: patch_fun_def split: option.split simp del: set_append)
  next
    case (Some it)
    then show ?thesis using a r last
      by (cases "i \<in> ?B") (auto simp: patch_fun_def split: option.split simp del: set_append)
  qed
qed

section \<open>The stack and the contents it leads through\<close>

text \<open>
  \<open>linked es cs\<close>: \<open>cs\<close> lists the contents before the first entry, between the entries and after
  the last; each entry leads forward and its inverse back.
\<close>

fun linked :: "history_entry list \<Rightarrow> (item_id \<Rightarrow> stored_item option) list \<Rightarrow> bool" where
  "linked [] [c] = True"
| "linked (e # es) (c # c' # cs) =
     (patch_fun (h_forward e) c = c' \<and> patch_fun (h_inverse e) c' = c \<and> linked es (c' # cs))"
| "linked _ _ = False"

lemma linked_length: "linked es cs \<Longrightarrow> length cs = Suc (length es)"
  by (induction es cs rule: linked.induct) auto

lemma linked_nth:
  "linked es cs \<Longrightarrow> k < length es \<Longrightarrow>
   patch_fun (h_forward (es ! k)) (cs ! k) = cs ! Suc k \<and> patch_fun (h_inverse (es ! k)) (cs ! Suc k) = cs ! k"
proof (induction es cs arbitrary: k rule: linked.induct)
  case (2 e es c c' cs)
  then show ?case by (cases k) auto
qed auto

lemma linked_take: "linked es cs \<Longrightarrow> n \<le> length es \<Longrightarrow> linked (take n es) (take (Suc n) cs)"
proof (induction es cs arbitrary: n rule: linked.induct)
  case (2 e es c c' cs)
  then show ?case by (cases n) auto
qed auto

lemma linked_snoc:
  "linked es cs \<Longrightarrow> patch_fun (h_forward e) (last cs) = c \<Longrightarrow> patch_fun (h_inverse e) c = last cs \<Longrightarrow>
   linked (es @ [e]) (cs @ [c])"
  by (induction es cs rule: linked.induct) auto

lemma linked_tl: "linked es cs \<Longrightarrow> es \<noteq> [] \<Longrightarrow> linked (tl es) (tl cs)"
  by (cases "(es, cs)" rule: linked.cases) auto

definition stack_inv :: "undo_stack \<Rightarrow> bool" where
  "stack_inv u \<longleftrightarrow> store_ok (u_store u) \<and> u_cursor u \<le> length (u_entries u) \<and>
     length (u_entries u) \<le> u_limit u \<and>
     (\<exists>cs. linked (u_entries u) cs \<and> cs ! u_cursor u = content (u_store u))"

lemma stack_inv_new: "store_ok st \<Longrightarrow> stack_inv (newUndoStack st n)"
  by (auto simp: stack_inv_def newUndoStack_def intro!: exI [of _ "[content st]"])

lemma stack_inv_undo: "stack_inv u \<Longrightarrow> stack_inv (snd (undo u))"
proof -
  assume s: "stack_inv u"
  then obtain cs where cs: "linked (u_entries u) cs" "cs ! u_cursor u = content (u_store u)"
    by (auto simp: stack_inv_def)
  show ?thesis
  proof (cases "u_cursor u")
    case (Suc k)
    then have "k < length (u_entries u)" using s by (simp add: stack_inv_def)
    from linked_nth [OF cs(1) this] show ?thesis using s cs Suc
      by (auto simp: undo_def canUndo_def Let_def stack_inv_def patch_ok apply_content)
  qed (use s in \<open>simp add: undo_def canUndo_def\<close>)
qed

lemma stack_inv_redo: "stack_inv u \<Longrightarrow> stack_inv (snd (redo u))"
proof -
  assume s: "stack_inv u"
  then obtain cs where cs: "linked (u_entries u) cs" "cs ! u_cursor u = content (u_store u)"
    by (auto simp: stack_inv_def)
  show ?thesis
  proof (cases "canRedo u")
    case True
    then have "u_cursor u < length (u_entries u)" by (simp add: canRedo_def)
    from linked_nth [OF cs(1) this] show ?thesis using s cs True
      by (auto simp: redo_def canRedo_def Let_def stack_inv_def patch_ok apply_content)
  qed (use s in \<open>simp add: redo_def\<close>)
qed

lemma stack_inv_apply: "stack_inv u \<Longrightarrow> stack_inv (snd (undo_apply l p u))"
proof -
  assume s: "stack_inv u"
  then obtain cs where cs: "linked (u_entries u) cs" "cs ! u_cursor u = content (u_store u)"
    and ok: "store_ok (u_store u)" by (auto simp: stack_inv_def)
  obtain r st where a: "store_apply p (u_store u) = (r, st)" by (cases "store_apply p (u_store u)") auto
  have st: "store_ok st" "content st = patch_fun p (content (u_store u))"
    using patch_ok [OF ok, of p] apply_content [of p "u_store u"] a by simp_all
  show ?thesis
  proof (cases r)
    case None
    then have "st = u_store u" using a by (auto simp: store_apply_alt Let_def split: if_splits)
    then show ?thesis using s a None by (simp add: undo_apply_def)
  next
    case (Some d)
    let ?e = "\<lparr>h_label = l, h_forward = p, h_inverse = inversePatch (u_store u) p, h_revision = d_revision d\<rparr>"
    let ?es = "take (u_cursor u) (u_entries u) @ [?e]"
    let ?cs = "take (Suc (u_cursor u)) cs @ [content st]"
    have n: "u_cursor u \<le> length (u_entries u)" "u_cursor u < length cs"
      using s linked_length [OF cs(1)] by (auto simp: stack_inv_def)
    have "last (take (Suc (u_cursor u)) cs) = content (u_store u)"
      using n cs(2) by (simp add: take_Suc_conv_app_nth)
    moreover have "patch_fun (inversePatch (u_store u) p) (content st) = content (u_store u)"
      unfolding st(2) by (rule inverse_restores) (use ok in \<open>simp add: store_ok_def\<close>)
    ultimately have l: "linked ?es ?cs"
      using linked_take [OF cs(1) n(1)] st(2) by (intro linked_snoc) simp_all
    have len: "length ?cs = Suc (length ?es)" using linked_length [OF l] .
    have cur: "?cs ! length ?es = content st" using n by (simp add: nth_append)
    have lim: "length ?es \<le> Suc (u_limit u)" using s by (simp add: stack_inv_def)
    show ?thesis
    proof (cases "length ?es > u_limit u")
      case True
      have "linked (tl ?es) (tl ?cs)" by (rule linked_tl [OF l]) simp
      moreover have "tl ?cs ! length (tl ?es) = content st"
        using cur len by (simp add: nth_tl)
      ultimately show ?thesis using s a Some st True lim
        by (auto simp: undo_apply_def Let_def stack_inv_def)
    next
      case False
      then show ?thesis using s a Some st l cur
        by (auto simp: undo_apply_def Let_def stack_inv_def)
    qed
  qed
qed

lemma stack_inv_clear: "stack_inv u \<Longrightarrow> stack_inv (undo_clear u)"
  by (auto simp: stack_inv_def undo_clear_def intro!: exI [of _ "[content (u_store u)]"])

text \<open>The calls of the editor.\<close>

datatype undo_call = Apply string store_patch | Undo | Redo | Clear

fun undo_calls :: "undo_call list \<Rightarrow> undo_stack \<Rightarrow> undo_stack" where
  "undo_calls [] u = u"
| "undo_calls (Apply l p # cs) u = undo_calls cs (snd (undo_apply l p u))"
| "undo_calls (Undo # cs) u = undo_calls cs (snd (undo u))"
| "undo_calls (Redo # cs) u = undo_calls cs (snd (redo u))"
| "undo_calls (Clear # cs) u = undo_calls cs (undo_clear u)"

lemma stack_inv_calls: "stack_inv u \<Longrightarrow> stack_inv (undo_calls cs u)"
  by (induction cs u rule: undo_calls.induct)
     (auto intro: stack_inv_apply stack_inv_undo stack_inv_redo stack_inv_clear)

text \<open>Walking along the stack: \<open>undos n\<close> and \<open>redos n\<close>.\<close>

definition undos :: "nat \<Rightarrow> undo_stack \<Rightarrow> undo_stack" where
  "undos n u = ((\<lambda>v. snd (undo v)) ^^ n) u"

definition redos :: "nat \<Rightarrow> undo_stack \<Rightarrow> undo_stack" where
  "redos n u = ((\<lambda>v. snd (redo v)) ^^ n) u"

lemma undos_at:
  assumes "linked (u_entries u) cs" "cs ! u_cursor u = content (u_store u)" "u_cursor u \<le> length (u_entries u)"
  shows "n \<le> u_cursor u \<Longrightarrow> u_entries (undos n u) = u_entries u \<and> u_cursor (undos n u) = u_cursor u - n
     \<and> content (u_store (undos n u)) = cs ! (u_cursor u - n)"
proof (induction n)
  case (Suc n)
  let ?v = "undos n u"
  have v: "u_entries ?v = u_entries u" "u_cursor ?v = u_cursor u - n"
    "content (u_store ?v) = cs ! (u_cursor u - n)" "0 < u_cursor u - n"
    using Suc by simp_all
  have step: "undos (Suc n) u = snd (undo ?v)" by (simp add: undos_def)
  let ?k = "u_cursor u - Suc n"
  have k: "u_cursor u - n = Suc ?k" "?k < length (u_entries u)" using Suc.prems assms(3) by simp_all
  show ?case using linked_nth [OF assms(1) k(2)] v k(1)
    by (simp add: step undo_def canUndo_def Let_def apply_content)
qed (simp add: undos_def assms)

lemma redos_at:
  assumes "linked (u_entries u) cs" "cs ! u_cursor u = content (u_store u)"
  shows "u_cursor u + n \<le> length (u_entries u) \<Longrightarrow> u_entries (redos n u) = u_entries u
     \<and> u_cursor (redos n u) = u_cursor u + n \<and> content (u_store (redos n u)) = cs ! (u_cursor u + n)"
proof (induction n)
  case (Suc n)
  let ?v = "redos n u"
  have v: "u_entries ?v = u_entries u" "u_cursor ?v = u_cursor u + n"
    "content (u_store ?v) = cs ! (u_cursor u + n)" "u_cursor u + n < length (u_entries u)"
    using Suc by simp_all
  have step: "redos (Suc n) u = snd (redo ?v)" by (simp add: redos_def)
  show ?case using linked_nth [OF assms(1) v(4)] v
    by (simp add: step redo_def canRedo_def Let_def apply_content)
qed (simp add: redos_def assms)

text \<open>
  C6: in every sequence of applied patches, undos, redos and clears on a stack over a consistent
  store, the store stays consistent, the stack never exceeds its limit, and going back \<open>n\<close> steps
  and forward again (or forward and back) gives the content one started from.
\<close>

theorem undo_redo_roundtrip:
  assumes "store_ok st"
  shows "let u = undo_calls calls (newUndoStack st limit) in
    store_ok (u_store u) \<and> u_cursor u \<le> length (u_entries u) \<and> length (u_entries u) \<le> limit
    \<and> (n \<le> u_cursor u \<longrightarrow> content (u_store (redos n (undos n u))) = content (u_store u))
    \<and> (u_cursor u + n \<le> length (u_entries u) \<longrightarrow> content (u_store (undos n (redos n u))) = content (u_store u))"
proof -
  let ?u = "undo_calls calls (newUndoStack st limit)"
  have lim: "u_limit ?u = limit"
  proof -
    have "u_limit (undo_calls cs v) = u_limit v" for cs v
      by (induction cs v rule: undo_calls.induct)
        (auto simp: undo_apply_def undo_def redo_def undo_clear_def Let_def split: prod.split option.split)
    then show ?thesis by (simp add: newUndoStack_def)
  qed
  have inv: "stack_inv ?u" by (rule stack_inv_calls [OF stack_inv_new [OF assms]])
  then obtain cs where cs: "linked (u_entries ?u) cs" "cs ! u_cursor ?u = content (u_store ?u)"
    and c: "u_cursor ?u \<le> length (u_entries ?u)" by (auto simp: stack_inv_def)
  have "content (u_store (redos n (undos n ?u))) = content (u_store ?u)" if "n \<le> u_cursor ?u"
  proof -
    note b = undos_at [OF cs c that]
    then show ?thesis using redos_at [of "undos n ?u" cs n] cs c that by simp
  qed
  moreover have "content (u_store (undos n (redos n ?u))) = content (u_store ?u)"
    if "u_cursor ?u + n \<le> length (u_entries ?u)"
  proof -
    note b = redos_at [OF cs that]
    then show ?thesis using undos_at [of "redos n ?u" cs n] cs that by simp
  qed
  ultimately show ?thesis using inv lim by (simp add: Let_def stack_inv_def)
qed

text \<open>
  Applying a patch and then undoing it gives back the content before the patch, whatever the
  patch names: ids that are new, present, absent, repeated, or both updated and removed.
\<close>

theorem undo_after_apply:
  assumes "store_ok (u_store u)" and "0 < u_limit u" and "fst (undo_apply label p u) \<noteq> None"
  shows "content (u_store (snd (undo (snd (undo_apply label p u))))) = content (u_store u)"
proof -
  obtain d st where a: "store_apply p (u_store u) = (Some d, st)"
    using assms(3) by (auto simp: undo_apply_def split: prod.splits option.splits)
  let ?e = "\<lparr>h_label = label, h_forward = p, h_inverse = inversePatch (u_store u) p, h_revision = d_revision d\<rparr>"
  let ?es = "take (u_cursor u) (u_entries u) @ [?e]"
  let ?es' = "if length ?es > u_limit u then tl ?es else ?es"
  define es where "es = ?es'"
  have le: "es \<noteq> [] \<and> last es = ?e"
  proof (cases "length ?es > u_limit u")
    case True
    then have "take (u_cursor u) (u_entries u) \<noteq> []" using assms(2) by auto
    then show ?thesis using True unfolding es_def by (cases "take (u_cursor u) (u_entries u)") auto
  qed (simp add: es_def)
  then have e: "es \<noteq> []" "es ! (length es - 1) = ?e" using last_conv_nth [of es] by simp_all
  have "content st = patch_fun p (content (u_store u))" using apply_content [of p "u_store u"] a by simp
  then have "patch_fun (inversePatch (u_store u) p) (content st) = content (u_store u)"
    using inverse_restores [of "u_store u" p] assms(1) by (simp add: store_ok_def)
  moreover have "snd (undo_apply label p u) = u\<lparr>u_store := st, u_entries := es, u_cursor := length es\<rparr>"
    using a unfolding es_def by (simp only: undo_apply_def Let_def prod.case option.case snd_conv)
  ultimately show ?thesis using e
    by (simp add: undo_def canUndo_def Let_def apply_content)
qed

definition undo_demo :: undo_stack where
  "undo_demo = newUndoStack demo_store 2"

definition undo_demo_calls :: "undo_call list" where
  "undo_demo_calls = [Apply ''move'' demo_patch, Undo, Redo,
     Apply ''drop'' \<lparr>p_added = [], p_updated = [], p_removed = [''a'', ''c'', ''a'']\<rparr>]"

theorem undo_redo_roundtrip_witness:
  "content (u_store (redos 2 (undos 2 (undo_calls undo_demo_calls undo_demo)))) =
     content (u_store (undo_calls undo_demo_calls undo_demo))"
proof -
  have ok: "store_ok demo_store" unfolding demo_store_def by (rule patch_ok [OF store_ok_new])
  have "2 \<le> u_cursor (undo_calls undo_demo_calls undo_demo)" by code_simp
  then show ?thesis
    using undo_redo_roundtrip [OF ok, of undo_demo_calls 2 2] by (simp add: undo_demo_def Let_def)
qed

theorem undo_after_apply_witness:
  "content (u_store (snd (undo (snd (undo_apply ''move'' demo_patch undo_demo))))) = content demo_store"
proof -
  have ok: "store_ok demo_store" unfolding demo_store_def by (rule patch_ok [OF store_ok_new])
  have "fst (undo_apply ''move'' demo_patch undo_demo) \<noteq> None" by code_simp
  then show ?thesis using undo_after_apply [of undo_demo "''move''" demo_patch] ok
    by (simp add: undo_demo_def newUndoStack_def)
qed
end
