(* ===== verification/DocumentSync.thy ===== *)
theory DocumentSync
  imports UndoStack
begin

text \<open>
  \<open>DocumentSync\<close> (\<open>packages/client/src/store/document-sync.ts\<close>): keeps a store in step with a
  document. Every asynchronous method is split at its \<open>await\<close> into what it asks for (a plan) and
  what it does with the answer; answers of the server are arguments.
\<close>

section \<open>Data\<close>

datatype change_kind = Create | Update | Delete
datatype change_phase = Optimistic | Applied | Failed

record document_change =
  c_commitId :: string
  c_kind :: change_kind
  c_phase :: change_phase
  c_items :: "item list"
  c_ids :: "item_id list"

record changed_ids =
  ch_created :: "item_id list"
  ch_updated :: "item_id list"
  ch_deleted :: "item_id list"
  ch_revision :: "nat option"

record items_since =
  is_items :: "item list"
  is_deletedIds :: "item_id list"
  is_full :: bool
  is_revision :: "nat option"

text \<open>\<open>can_since\<close> and \<open>can_byId\<close> say which optional methods the source has.\<close>

record document_sync =
  ds_store :: item_store
  ds_loading :: bool
  ds_loaded :: bool
  ds_rev :: "nat option"
  ds_pending :: "(string, store_patch) jmap"
  can_since :: bool
  can_byId :: bool

definition newDocumentSync :: "bool \<Rightarrow> bool \<Rightarrow> document_sync" where
  "newDocumentSync since byId = \<lparr>ds_store = newItemStore, ds_loading = False, ds_loaded = False,
     ds_rev = None, ds_pending = [], can_since = since, can_byId = byId\<rparr>"

definition stored_items :: "item list \<Rightarrow> stored_item list" where
  "stored_items its = map toStoredItem (filter (\<lambda>i. i_id i \<noteq> '''') its)"

section \<open>Operations\<close>

definition setRevision :: "nat option \<Rightarrow> document_sync \<Rightarrow> document_sync" where
  "setRevision r d =
     (case r of
        None \<Rightarrow> d
      | Some n \<Rightarrow>
          if n = 0 then d
          else if (case ds_rev d of None \<Rightarrow> True | Some m \<Rightarrow> n > m) then d\<lparr>ds_rev := Some n\<rparr> else d)"

definition change_store :: "(item_store \<Rightarrow> store_diff option \<times> item_store) \<Rightarrow> document_sync \<Rightarrow> document_sync" where
  "change_store f d = d\<lparr>ds_store := snd (f (ds_store d))\<rparr>"

text \<open>What a method waits for.\<close>

datatype sync_plan = AwaitLoading | AskAll | AskFull | AskSince nat | AskById "item_id list" "item_id list"

definition load_plan :: "document_sync \<Rightarrow> sync_plan \<times> document_sync" where
  "load_plan d =
     (if ds_loading d then (AwaitLoading, d)
      else (if can_since d then AskFull else AskAll, d\<lparr>ds_loading := True\<rparr>))"

definition load_answer_full :: "items_since \<Rightarrow> document_sync \<Rightarrow> document_sync" where
  "load_answer_full r d =
     (setRevision (is_revision r) (change_store (store_replaceAll (stored_items (is_items r))) d))\<lparr>
        ds_loaded := True, ds_loading := False\<rparr>"

definition load_answer_all :: "item list \<Rightarrow> document_sync \<Rightarrow> document_sync" where
  "load_answer_all its d =
     (change_store (store_replaceAll (stored_items its)) d)\<lparr>ds_loaded := True, ds_loading := False\<rparr>"

definition load_failed :: "document_sync \<Rightarrow> document_sync" where
  "load_failed d = d\<lparr>ds_loading := False\<rparr>"

definition syncSince_plan :: "nat option \<Rightarrow> document_sync \<Rightarrow> sync_plan \<times> document_sync" where
  "syncSince_plan revision d =
     (if ds_loading d then (AwaitLoading, d)
      else case revision of
        None \<Rightarrow> load_plan d
      | Some n \<Rightarrow> if \<not> ds_loaded d \<or> \<not> can_since d then load_plan d else (AskSince n, d))"

text \<open>\<open>incremental\<close> is the cached answer of \<open>supportsIncrementalSync\<close>.\<close>

definition refresh_plan :: "bool \<Rightarrow> document_sync \<Rightarrow> sync_plan \<times> document_sync" where
  "refresh_plan incremental d =
     (if ds_loaded d \<and> ds_rev d \<noteq> None \<and> incremental then syncSince_plan (ds_rev d) d else load_plan d)"

definition syncSince_answer :: "items_since \<Rightarrow> document_sync \<Rightarrow> document_sync" where
  "syncSince_answer r d =
     (let stored = stored_items (is_items r) in
      setRevision (is_revision r)
       (if is_full r then change_store (store_replaceAll stored) d
        else change_store (store_apply \<lparr>p_added = [], p_updated = stored, p_removed = is_deletedIds r\<rparr>) d))"

text \<open>\<open>syncIds\<close>: the loop over the store adds children to the set it tests.\<close>

definition add_child :: "stored_item \<Rightarrow> item_id jset \<Rightarrow> item_id jset" where
  "add_child it wanted =
     (case truthy (s_parent it) of
        Some p \<Rightarrow> if p \<in> set wanted then sadd (s_id it) wanted else wanted
      | None \<Rightarrow> wanted)"

definition wanted_ids :: "changed_ids \<Rightarrow> item_store \<Rightarrow> item_id jset \<times> item_id list" where
  "wanted_ids ids st =
     (let wanted = fold sadd (ch_created ids @ ch_updated ids) [];
          gone = filter (\<lambda>i. i \<notin> set wanted) (ch_deleted ids);
          wanted' = fold add_child (store_all st) wanted
      in (fold sdel gone wanted', gone))"

definition syncIds_plan :: "bool \<Rightarrow> changed_ids \<Rightarrow> document_sync \<Rightarrow> sync_plan \<times> document_sync" where
  "syncIds_plan incremental ids d =
     (if \<not> ds_loaded d \<or> \<not> can_byId d
         \<or> length (ch_created ids) + length (ch_updated ids) + length (ch_deleted ids) = 0
      then refresh_plan incremental d
      else case wanted_ids ids (ds_store d) of (wanted, gone) \<Rightarrow> (AskById wanted gone, d))"

text \<open>With no id wanted nothing is asked and the answer is empty.\<close>

definition syncIds_answer :: "item_id list \<Rightarrow> item_id list \<Rightarrow> item list \<Rightarrow> nat option \<Rightarrow> document_sync \<Rightarrow> document_sync" where
  "syncIds_answer wanted gone its revision d =
     (let stored = stored_items (if wanted = [] then [] else its);
          found = fold sadd (map s_id stored) [];
          removed = gone @ filter (\<lambda>i. i \<notin> set found \<and> store_has (ds_store d) i) wanted
      in setRevision revision
           (change_store (store_apply \<lparr>p_added = [], p_updated = stored, p_removed = removed\<rparr>) d))"

fun kind_name :: "change_kind \<Rightarrow> string" where
  "kind_name Create = ''create''"
| "kind_name Update = ''update''"
| "kind_name Delete = ''delete''"

fun join_comma :: "string list \<Rightarrow> string" where
  "join_comma [] = []"
| "join_comma [x] = x"
| "join_comma (x # xs) = x @ '','' @ join_comma xs"

definition change_key :: "document_change \<Rightarrow> string" where
  "change_key c = c_commitId c @ ''|'' @ kind_name (c_kind c) @ ''|'' @ join_comma (c_ids c)"

definition toPatch :: "document_change \<Rightarrow> store_patch" where
  "toPatch c =
     (case c_kind c of
        Create \<Rightarrow> \<lparr>p_added = stored_items (c_items c), p_updated = [], p_removed = []\<rparr>
      | Update \<Rightarrow> \<lparr>p_added = [], p_updated = stored_items (c_items c), p_removed = []\<rparr>
      | Delete \<Rightarrow> \<lparr>p_added = [], p_updated = [], p_removed = c_ids c\<rparr>)"

definition onChange :: "document_change \<Rightarrow> document_sync \<Rightarrow> document_sync" where
  "onChange c d =
     (if \<not> ds_loaded d then d
      else case c_phase c of
        Optimistic \<Rightarrow> change_store (store_apply (toPatch c))
            (d\<lparr>ds_pending := jput (change_key c) (inversePatch (ds_store d) (toPatch c)) (ds_pending d)\<rparr>)
      | Applied \<Rightarrow> change_store (store_apply (toPatch c)) (d\<lparr>ds_pending := jdel (change_key c) (ds_pending d)\<rparr>)
      | Failed \<Rightarrow>
          let d' = d\<lparr>ds_pending := jdel (change_key c) (ds_pending d)\<rparr>
          in (case jget (ds_pending d) (change_key c) of
                None \<Rightarrow> d'
              | Some undo_patch \<Rightarrow> change_store (store_apply undo_patch) d'))"

section \<open>Correctness\<close>

text \<open>The calls and answers of a session.\<close>

datatype sync_event =
    LoadAsked | LoadFull items_since | LoadAll "item list" | LoadFailed
  | SinceAnswer items_since
  | IdsAnswer "item_id list" "item_id list" "item list" "nat option"
  | Change document_change
  | Revision "nat option"

fun sync_step :: "sync_event \<Rightarrow> document_sync \<Rightarrow> document_sync" where
  "sync_step LoadAsked d = snd (load_plan d)"
| "sync_step (LoadFull r) d = load_answer_full r d"
| "sync_step (LoadAll its) d = load_answer_all its d"
| "sync_step LoadFailed d = load_failed d"
| "sync_step (SinceAnswer r) d = syncSince_answer r d"
| "sync_step (IdsAnswer w g its r) d = syncIds_answer w g its r d"
| "sync_step (Change c) d = onChange c d"
| "sync_step (Revision r) d = setRevision r d"

definition rev_le :: "nat option \<Rightarrow> nat option \<Rightarrow> bool" where
  "rev_le a b = (case a of None \<Rightarrow> True | Some m \<Rightarrow> (case b of None \<Rightarrow> False | Some n \<Rightarrow> m \<le> n))"

lemma rev_le_refl [simp]: "rev_le a a"
  by (simp add: rev_le_def split: option.split)

lemma rev_le_trans: "rev_le a b \<Longrightarrow> rev_le b c \<Longrightarrow> rev_le a c"
  by (auto simp: rev_le_def split: option.splits)

lemma setRevision_mono: "rev_le (ds_rev d) (ds_rev (setRevision r d))"
  by (auto simp: setRevision_def rev_le_def split: option.split)

lemma setRevision_store [simp]: "ds_store (setRevision r d) = ds_store d"
  by (simp add: setRevision_def split: option.split)

lemma change_store_simps [simp]:
  "ds_rev (change_store f d) = ds_rev d" "ds_store (change_store f d) = snd (f (ds_store d))"
  "ds_pending (change_store f d) = ds_pending d" "ds_loaded (change_store f d) = ds_loaded d"
  by (simp_all add: change_store_def)

lemma replaceAll_ok: "store_ok st \<Longrightarrow> store_ok (snd (store_replaceAll its st))"
  by (simp add: store_replaceAll_def Let_def patch_ok)

lemma sync_step_inv:
  assumes "store_ok (ds_store d)"
  shows "store_ok (ds_store (sync_step e d)) \<and> rev_le (ds_rev d) (ds_rev (sync_step e d))"
  using assms setRevision_mono [of d] setRevision_mono [of "change_store f d" for f]
  by (cases e) (auto simp: load_plan_def load_answer_full_def load_answer_all_def load_failed_def
      syncSince_answer_def syncIds_answer_def onChange_def Let_def replaceAll_ok patch_ok
      split: change_phase.split option.split)

text \<open>
  Whatever loads, answers and changes come in, in whatever order, the store stays consistent
  and the revision it reflects never goes back.
\<close>

theorem sync_revision_monotone:
  "store_ok (ds_store (fold sync_step es (newDocumentSync since byId)))
   \<and> rev_le (ds_rev (fold sync_step es (newDocumentSync since byId)))
       (ds_rev (fold sync_step (es @ es') (newDocumentSync since byId)))"
proof -
  have run: "store_ok (ds_store (fold sync_step es d)) \<and> rev_le (ds_rev d) (ds_rev (fold sync_step es d))"
    if "store_ok (ds_store d)" for es d
    using that
  proof (induction es arbitrary: d)
    case (Cons e es)
    have s: "store_ok (ds_store (sync_step e d))" "rev_le (ds_rev d) (ds_rev (sync_step e d))"
      using sync_step_inv [OF Cons.prems, of e] by simp_all
    show ?case using Cons.IH [OF s(1)] rev_le_trans [OF s(2)] by simp
  qed simp
  have 0: "store_ok (ds_store (newDocumentSync since byId))" by (simp add: newDocumentSync_def store_ok_new)
  have 1: "store_ok (ds_store (fold sync_step es (newDocumentSync since byId)))" using run [OF 0] by simp
  show ?thesis using 1 run [OF 1, of es'] by simp
qed

text \<open>
  C17: a change whose request fails is taken back: when the failure of an optimistic change arrives
  before any other change, the store has the content it had before, and nothing stays pending for
  it.
\<close>

theorem sync_failed_rolls_back:
  assumes "store_ok (ds_store d)" and "ds_loaded d" and "c_phase c = Optimistic"
  shows "content (ds_store (onChange (c\<lparr>c_phase := Failed\<rparr>) (onChange c d))) = content (ds_store d)
    \<and> jget (ds_pending (onChange (c\<lparr>c_phase := Failed\<rparr>) (onChange c d))) (change_key c) = None"
proof -
  have k: "change_key (c\<lparr>c_phase := Failed\<rparr>) = change_key c" by (simp add: change_key_def)
  have "patch_fun (inversePatch (ds_store d) (toPatch c)) (patch_fun (toPatch c) (content (ds_store d)))
      = content (ds_store d)"
    by (rule inverse_restores) (use assms(1) in \<open>simp add: store_ok_def\<close>)
  then show ?thesis using assms(2,3) k
    by (simp add: onChange_def apply_content)
qed

text \<open>What the server's items look like in the store.\<close>

definition stored_content :: "item list \<Rightarrow> item_id \<Rightarrow> stored_item option" where
  "stored_content its i = last_with i (stored_items its)"

text \<open>
  \<open>delta_ok r before after\<close>: the answer \<open>r\<close> accounts for every difference between two contents:
  what it lists is what there is now, deleted ids are gone, everything else is the same.
\<close>

definition delta_ok :: "items_since \<Rightarrow> (item_id \<Rightarrow> stored_item option) \<Rightarrow> (item_id \<Rightarrow> stored_item option) \<Rightarrow> bool" where
  "delta_ok r before after \<longleftrightarrow> (\<forall>i. after i =
     (case stored_content (is_items r) i of
        Some it \<Rightarrow> Some it
      | None \<Rightarrow> if \<not> is_full r \<and> i \<notin> set (is_deletedIds r) then before i else None))"

definition same_proto :: "stored_item option \<Rightarrow> stored_item option \<Rightarrow> bool" where
  "same_proto a b = (map_option s_proto a = map_option s_proto b)"

text \<open>
  C4: an incremental sync brings the store to the server's content: if the store has the content
  the answer is relative to and the answer accounts for all differences, then afterwards every id
  is in the store precisely when the server has it, with the server's message; for a full answer
  it does not matter what the store had before. The revision becomes the answer's, if it is newer.
\<close>

theorem syncSince_catches_up:
  assumes "delta_ok r before after" and "content (ds_store d) = before \<or> is_full r"
  shows "(\<forall>i. same_proto (content (ds_store (syncSince_answer r d)) i) (after i))
    \<and> (is_full r \<or> content (ds_store (syncSince_answer r d)) = after)
    \<and> (\<forall>n. is_revision r = Some n \<and> n \<noteq> 0 \<longrightarrow> rev_le (Some n) (ds_rev (syncSince_answer r d)))"
proof -
  have rev: "rev_le (Some n) (ds_rev (syncSince_answer r d))" if "is_revision r = Some n" "n \<noteq> 0" for n
    using that by (auto simp: syncSince_answer_def Let_def setRevision_def rev_le_def split: option.split)
  show ?thesis
  proof (cases "is_full r")
    case True
    then have "same_proto (content (ds_store (syncSince_answer r d)) i) (after i)" for i
      using assms(1) store_replaceAll_content [of "stored_items (is_items r)" "ds_store d"]
      by (auto simp: syncSince_answer_def delta_ok_def stored_content_def same_proto_def split: option.split)
    then show ?thesis using True rev by blast
  next
    case False
    then have "content (ds_store (syncSince_answer r d)) = after"
      using assms by (auto simp: fun_eq_iff syncSince_answer_def delta_ok_def stored_content_def
          apply_content patch_fun_def split: option.split)
    then show ?thesis using rev by (simp add: same_proto_def)
  qed
qed

lemma set_fold_sdel [simp]: "set (fold sdel xs s) = set s - set xs"
  by (induction xs arbitrary: s) auto

lemma add_child_mono: "set w \<subseteq> set (add_child it w)"
  by (auto simp: add_child_def split: option.split)

lemma fold_add_child_mono: "set w \<subseteq> set (fold add_child its w)"
  by (induction its arbitrary: w) (use add_child_mono in fastforce)+

lemma fold_add_child:
  "it \<in> set its \<Longrightarrow> truthy (s_parent it) = Some p \<Longrightarrow> p \<in> set w \<Longrightarrow> s_id it \<in> set (fold add_child its w)"
proof (induction its arbitrary: w)
  case (Cons x its)
  show ?case
  proof (cases "x = it")
    case True
    then have "s_id it \<in> set (add_child x w)" using Cons.prems by (simp add: add_child_def)
    then show ?thesis using fold_add_child_mono [of "add_child x w" its] by auto
  next
    case False
    then show ?thesis using Cons add_child_mono [of w x] by auto
  qed
qed simp

lemma wanted_ids_props:
  assumes "wanted_ids ids st = (wanted, gone)"
  shows "set gone = set (ch_deleted ids) - set (ch_created ids @ ch_updated ids)"
    and "set wanted \<inter> set gone = {}"
    and "set (ch_created ids @ ch_updated ids) \<subseteq> set wanted"
    and "it \<in> set (store_all st) \<Longrightarrow> truthy (s_parent it) = Some p \<Longrightarrow>
      p \<in> set (ch_created ids @ ch_updated ids) \<Longrightarrow> s_id it \<notin> set gone \<Longrightarrow> s_id it \<in> set wanted"
proof -
  let ?w = "fold sadd (ch_created ids @ ch_updated ids) []"
  have w: "set ?w = set (ch_created ids @ ch_updated ids)" by simp
  have g: "gone = filter (\<lambda>i. i \<notin> set ?w) (ch_deleted ids)"
    and wa: "wanted = fold sdel gone (fold add_child (store_all st) ?w)"
    using assms by (auto simp: wanted_ids_def Let_def)
  show gg: "set gone = set (ch_deleted ids) - set (ch_created ids @ ch_updated ids)"
    unfolding g w [symmetric] by auto
  show "set wanted \<inter> set gone = {}" unfolding wa by auto
  show "set (ch_created ids @ ch_updated ids) \<subseteq> set wanted"
    using fold_add_child_mono [of ?w "store_all st"] gg unfolding wa w [symmetric] by auto
  show "s_id it \<in> set wanted"
    if "it \<in> set (store_all st)" "truthy (s_parent it) = Some p"
      "p \<in> set (ch_created ids @ ch_updated ids)" "s_id it \<notin> set gone"
    using fold_add_child [OF that(1,2), of ?w] that(3,4) unfolding wa w [symmetric] by simp
qed

text \<open>
  Re-reading the items a change event names. The ids asked for are the created and updated ones
  and the children the store has for them, never one that is only deleted; and when the server
  answers with its versions of these ids, afterwards they are in the store as the server has them
  (those it no longer has are gone), the deleted ids are gone, and nothing else has changed.
\<close>

theorem syncIds_refreshes:
  assumes "wanted_ids ids (ds_store d) = (wanted, gone)"
    and "\<forall>i. stored_content its i = (if i \<in> set wanted then server i else None)"
  shows "set (ch_created ids @ ch_updated ids) \<subseteq> set wanted
    \<and> set gone = set (ch_deleted ids) - set (ch_created ids @ ch_updated ids)
    \<and> (\<forall>it p. it \<in> set (store_all (ds_store d)) \<and> truthy (s_parent it) = Some p
          \<and> p \<in> set (ch_created ids @ ch_updated ids) \<and> s_id it \<notin> set gone \<longrightarrow> s_id it \<in> set wanted)
    \<and> (\<forall>i. content (ds_store (syncIds_answer wanted gone its r d)) i =
        (if i \<in> set wanted then server i else if i \<in> set gone then None else content (ds_store d) i))"
proof -
  note w = wanted_ids_props [OF assms(1)]
  let ?st = "stored_items (if wanted = [] then [] else its)"
  have st: "last_with i ?st = (if i \<in> set wanted then server i else None)" for i
    using assms(2) by (auto simp: stored_content_def stored_items_def)
  have found: "i \<in> set (fold sadd (map s_id ?st) []) \<longleftrightarrow> last_with i ?st \<noteq> None" for i
    by (auto simp: last_with_None)
  have "content (ds_store (syncIds_answer wanted gone its r d)) i =
      (if i \<in> set wanted then server i else if i \<in> set gone then None else content (ds_store d) i)" for i
  proof -
    let ?p = "\<lparr>p_added = [], p_updated = ?st,
        p_removed = gone @ filter (\<lambda>i. i \<notin> set (fold sadd (map s_id ?st) []) \<and> store_has (ds_store d) i) wanted\<rparr>"
    have c: "content (ds_store (syncIds_answer wanted gone its r d)) = patch_fun ?p (content (ds_store d))"
      by (simp add: syncIds_answer_def Let_def apply_content)
    have rm: "i \<in> set (p_removed ?p) \<longleftrightarrow> i \<in> set gone \<or> i \<in> set wanted \<and> last_with i ?st = None \<and> content (ds_store d) i \<noteq> None"
      unfolding set_append [of gone] store_patch.simps set_filter Un_iff mem_Collect_eq found
      by (auto simp: store_has_def jhas_def)
    show ?thesis unfolding c patch_fun_def rm using st [of i] w(2)
      by (auto split: option.split)
  qed
  then show ?thesis using w by blast
qed

section \<open>Concrete runs\<close>

definition demo_wrapper :: "string \<Rightarrow> string option \<Rightarrow> nat \<Rightarrow> item" where
  "demo_wrapper i p n = \<lparr>i_id = i, i_typeName = ''T'', i_layer = Some ''F'', i_net = None, i_parent = p, i_proto = n\<rparr>"

definition demo_sync :: document_sync where
  "demo_sync = load_answer_full \<lparr>is_items = [demo_wrapper ''fp'' None 1, demo_wrapper ''pad'' (Some ''fp'') 2,
      demo_wrapper ''x'' None 3], is_deletedIds = [], is_full = True, is_revision = Some 4\<rparr> (newDocumentSync True True)"

lemma demo_sync_ok: "store_ok (ds_store demo_sync)"
  unfolding demo_sync_def by (simp add: load_answer_full_def newDocumentSync_def replaceAll_ok store_ok_new)

definition demo_change :: document_change where
  "demo_change = \<lparr>c_commitId = ''c1'', c_kind = Update, c_phase = Optimistic,
     c_items = [demo_wrapper ''x'' None 9, demo_wrapper ''y'' None 10], c_ids = [''x'', ''y'']\<rparr>"

theorem sync_failed_rolls_back_witness:
  "content (ds_store (onChange (demo_change\<lparr>c_phase := Failed\<rparr>) (onChange demo_change demo_sync))) = content (ds_store demo_sync)"
proof -
  have "ds_loaded demo_sync" by code_simp
  then show ?thesis using sync_failed_rolls_back [OF demo_sync_ok, of demo_change] by (simp add: demo_change_def)
qed

definition demo_delta :: items_since where
  "demo_delta = \<lparr>is_items = [demo_wrapper ''fp'' None 7], is_deletedIds = [''x''], is_full = False, is_revision = Some 6\<rparr>"

definition demo_after :: "item_id \<Rightarrow> stored_item option" where
  "demo_after i = (case stored_content (is_items demo_delta) i of
      Some it \<Rightarrow> Some it | None \<Rightarrow> if i \<noteq> ''x'' then content (ds_store demo_sync) i else None)"

theorem syncSince_catches_up_witness:
  "content (ds_store (syncSince_answer demo_delta demo_sync)) = demo_after
   \<and> map_option s_proto (demo_after ''fp'') = Some 7 \<and> demo_after ''x'' = None"
proof -
  have "delta_ok demo_delta (content (ds_store demo_sync)) demo_after"
    by (auto simp: delta_ok_def demo_after_def split: option.split) (simp_all add: demo_delta_def)
  moreover have "\<not> is_full demo_delta" by (simp add: demo_delta_def)
  ultimately have "content (ds_store (syncSince_answer demo_delta demo_sync)) = demo_after"
    using syncSince_catches_up [of demo_delta "content (ds_store demo_sync)" demo_after demo_sync] by simp
  moreover have "map_option s_proto (demo_after ''fp'') = Some 7" "demo_after ''x'' = None" by code_simp+
  ultimately show ?thesis by blast
qed

definition demo_ids :: changed_ids where
  "demo_ids = \<lparr>ch_created = [], ch_updated = [''fp''], ch_deleted = [''fp'', ''x''], ch_revision = Some 5\<rparr>"

definition demo_server :: "item_id \<Rightarrow> stored_item option" where
  "demo_server i = (if i = ''fp'' then Some (toStoredItem (demo_wrapper ''fp'' None 8)) else None)"

theorem syncIds_refreshes_witness:
  "content (ds_store (syncIds_answer [''fp'', ''pad''] [''x''] [demo_wrapper ''fp'' None 8] (Some 5) demo_sync)) ''fp'' = demo_server ''fp''
   \<and> content (ds_store (syncIds_answer [''fp'', ''pad''] [''x''] [demo_wrapper ''fp'' None 8] (Some 5) demo_sync)) ''pad'' = None
   \<and> content (ds_store (syncIds_answer [''fp'', ''pad''] [''x''] [demo_wrapper ''fp'' None 8] (Some 5) demo_sync)) ''x'' = None"
proof -
  have "wanted_ids demo_ids (ds_store demo_sync) = ([''fp'', ''pad''], [''x''])" by code_simp
  moreover have "stored_content [demo_wrapper ''fp'' None 8] i = (if i \<in> set [''fp'', ''pad''] then demo_server i else None)" for i
    by (simp add: stored_content_def stored_items_def demo_server_def demo_wrapper_def toStoredItem_def last_with_def)
  ultimately have "content (ds_store (syncIds_answer [''fp'', ''pad''] [''x''] [demo_wrapper ''fp'' None 8] (Some 5) demo_sync)) i =
        (if i \<in> set [''fp'', ''pad''] then demo_server i else if i \<in> set [''x''] then None else content (ds_store demo_sync) i)" for i
    using syncIds_refreshes [of demo_ids demo_sync "[''fp'', ''pad'']" "[''x'']" "[demo_wrapper ''fp'' None 8]" demo_server "Some 5"]
    by blast
  then show ?thesis by (simp add: demo_server_def)
qed
end
