(* ===== verification/Commit.thy ===== *)
theory Commit
  imports DocumentSync TransportTypes
begin

text \<open>
  \<open>Commit\<close> (\<open>packages/client/src/model/commit.ts\<close>): create, update and delete calls become
  queued operations; a flush loop merges neighbours with the same kind and scope into one request,
  announces the change optimistically, and announces the outcome when the server answers. The loop
  is an event-driven machine: a microtask starts it and each answer moves it on. Ending a commit
  (\<open>push\<close>, \<open>drop\<close>, recovery) is a decision over the server's answers. Protobuf messages are
  opaque objects.
\<close>

section \<open>Operations in the queue\<close>

record item_scope =
  container :: "string option"
  sheetPath :: "string list option"

record op =
  op_kind :: change_kind
  op_scope :: item_scope
  op_key :: string
  op_wrappers :: "item list"
  op_anys :: "nat list"
  op_ids :: "item_id list"
  op_promise :: nat

datatype item_status = StatusOk | StatusBad

text \<open>
  An answer: rejected as a whole (transport, request status), rows for a create or update (with
  whether the status is OK, and the item echoed back, if any: \<open>Some None\<close> is an item that cannot
  be wrapped), or the statuses of deleted ids.
\<close>

datatype answer =
    RequestFailed
  | Rows "(item_status \<times> item option option) list"
  | Deletions "(item_id \<times> item_status) list"

datatype result_row = RItem "item option" | RDelete item_id "item_status option"

record commit =
  cm_id :: string
  cm_scope :: item_scope
  cm_strict :: bool
  cm_created :: "item list"
  cm_updated :: "item list"
  cm_deleted :: "item_id list"
  cm_queue :: "op list"
  cm_scheduled :: bool
  cm_flushing :: "(op list \<times> op) option"
  cm_ended :: bool
  cm_finalizing :: bool
  cm_promises :: nat
  cm_settled :: "(nat \<times> result_row list option) list"
  cm_emitted :: "document_change list"
  cm_sent :: "op list list"

definition newCommit :: "string \<Rightarrow> item_scope \<Rightarrow> bool option \<Rightarrow> commit" where
  "newCommit i sc strict = \<lparr>cm_id = i, cm_scope = sc, cm_strict = (case strict of None \<Rightarrow> True | Some b \<Rightarrow> b),
     cm_created = [], cm_updated = [], cm_deleted = [], cm_queue = [], cm_scheduled = False,
     cm_flushing = None, cm_ended = False, cm_finalizing = False, cm_promises = 0, cm_settled = [],
     cm_emitted = [], cm_sent = []\<rparr>"

definition NEEDS_CONTAINER :: "string list" where
  "NEEDS_CONTAINER = [''KOT_PCB_PAD'', ''KOT_PCB_FIELD'', ''KOT_PCB_TABLECELL'']"

fun join_slash :: "string list \<Rightarrow> string" where
  "join_slash [] = []"
| "join_slash [x] = x"
| "join_slash (x # xs) = x @ ''/'' @ join_slash xs"

definition scopeKey :: "item_scope \<Rightarrow> string" where
  "scopeKey s = (case container s of None \<Rightarrow> [] | Some c \<Rightarrow> c) @ ''|''
     @ (case sheetPath s of None \<Rightarrow> [] | Some p \<Rightarrow> join_slash p)"

text \<open>\<open>{ ...this.scope, ...scope }\<close>: what the call gives wins, field by field.\<close>

definition merge_scope :: "item_scope \<Rightarrow> item_scope option \<Rightarrow> item_scope" where
  "merge_scope base over = (case over of
      None \<Rightarrow> base
    | Some s \<Rightarrow> \<lparr>container = (case container s of None \<Rightarrow> container base | Some c \<Rightarrow> Some c),
                 sheetPath = (case sheetPath s of None \<Rightarrow> sheetPath base | Some p \<Rightarrow> Some p)\<rparr>)"

definition scopeFor :: "commit \<Rightarrow> item option \<Rightarrow> item_scope option \<Rightarrow> item_scope" where
  "scopeFor c w over =
     (let s = merge_scope (cm_scope c) over in
      case w of
        None \<Rightarrow> s
      | Some i \<Rightarrow>
          if truthy (container s) = None \<and> i_typeName i \<in> set NEEDS_CONTAINER \<and> truthy (i_parent i) \<noteq> None
          then s\<lparr>container := i_parent i\<rparr> else s)"

fun kind_key :: "change_kind \<Rightarrow> string" where
  "kind_key Create = ''create''"
| "kind_key Update = ''update''"
| "kind_key Delete = ''delete''"

text \<open>One turn of the loop of \<open>enqueue\<close>: the item goes to the group of its scope.\<close>

definition op_add :: "change_kind \<Rightarrow> item option \<Rightarrow> item_id \<Rightarrow> op \<Rightarrow> op" where
  "op_add kind w i op = op\<lparr>
     op_wrappers := op_wrappers op @ (case w of None \<Rightarrow> [] | Some x \<Rightarrow> [x]),
     op_anys := op_anys op @ (case w of None \<Rightarrow> [] | Some x \<Rightarrow> if kind = Delete then [] else [i_proto x]),
     op_ids := op_ids op @ [i]\<rparr>"

definition group_add ::
  "commit \<Rightarrow> change_kind \<Rightarrow> item_scope option \<Rightarrow> item option \<times> item_id \<Rightarrow> (string, op) jmap \<Rightarrow> (string, op) jmap" where
  "group_add c kind over wi groups =
     (case wi of (w, i) \<Rightarrow>
      let s = scopeFor c w over;
          key = kind_key kind @ ''|'' @ scopeKey s;
          op = (case jget groups key of
                  Some op \<Rightarrow> op
                | None \<Rightarrow> \<lparr>op_kind = kind, op_scope = s, op_key = key, op_wrappers = [], op_anys = [],
                           op_ids = [], op_promise = cm_promises c + length groups\<rparr>)
      in jput key (op_add kind w i op) groups)"

text \<open>
  The list \<open>enqueue\<close> walks over, with the id each entry gets: the wrappers when there are any,
  else the ids; the \<open>i\<close>-th entry gets the \<open>i\<close>-th id when ids were given.
\<close>

definition entries :: "item list \<Rightarrow> item_id list option \<Rightarrow> (item option \<times> item_id) list" where
  "entries wrappers ids =
     (let is = (case ids of None \<Rightarrow> [] | Some is \<Rightarrow> is);
          xs = (if wrappers \<noteq> [] then map Some wrappers else map (\<lambda>_. None) is)
      in case ids of
           Some is \<Rightarrow> zip xs is
         | None \<Rightarrow> map (\<lambda>w. (Some w, i_id w)) wrappers)"

definition scheduleFlush :: "commit \<Rightarrow> commit" where
  "scheduleFlush c = (if cm_scheduled c then c else c\<lparr>cm_scheduled := True\<rparr>)"

text \<open>\<open>None\<close> when the call is rejected, else the promises of its groups, in order.\<close>

definition enqueue ::
  "change_kind \<Rightarrow> item list \<Rightarrow> item_scope option \<Rightarrow> item_id list option \<Rightarrow> commit \<Rightarrow> nat list option \<times> commit" where
  "enqueue kind wrappers over ids c =
     (if cm_ended c \<or> cm_finalizing c then (None, c)
      else
        let groups = fold (group_add c kind over) (entries wrappers ids) [];
            ops = jvalues groups
        in (Some (map op_promise ops),
            scheduleFlush (c\<lparr>cm_queue := cm_queue c @ ops, cm_promises := cm_promises c + length ops\<rparr>)))"

text \<open>The calls. \<open>fresh\<close> is the id \<open>crypto.randomUUID\<close> gives to the \<open>n\<close>-th item without one.\<close>

datatype delete_input = ByItem item | ById item_id

definition fill_ids :: "(nat \<Rightarrow> item_id) \<Rightarrow> (item \<Rightarrow> bool) \<Rightarrow> item list \<Rightarrow> item list" where
  "fill_ids fresh has_id its =
     map (\<lambda>(n, w). if i_id w = '''' \<and> has_id w then w\<lparr>i_id := fresh n\<rparr> else w) (enumerate 0 its)"

definition commit_create ::
  "(nat \<Rightarrow> item_id) \<Rightarrow> (item \<Rightarrow> bool) \<Rightarrow> item list \<Rightarrow> item_scope option \<Rightarrow> commit \<Rightarrow> nat list option \<times> commit" where
  "commit_create fresh has_id its over = enqueue Create (fill_ids fresh has_id its) over None"

definition commit_update :: "item list \<Rightarrow> item_scope option \<Rightarrow> commit \<Rightarrow> nat list option \<times> commit" where
  "commit_update its over = enqueue Update its over None"

fun input_id :: "delete_input \<Rightarrow> item_id" where
  "input_id (ByItem i) = i_id i"
| "input_id (ById i) = i"

fun input_item :: "delete_input \<Rightarrow> item option" where
  "input_item (ByItem i) = Some i"
| "input_item (ById i) = None"

definition commit_delete :: "delete_input list \<Rightarrow> item_scope option \<Rightarrow> commit \<Rightarrow> nat list option \<times> commit" where
  "commit_delete ins over = enqueue Delete (List.map_filter input_item ins) over (Some (map input_id ins))"

section \<open>The flush loop\<close>

definition merge_ops :: "op list \<Rightarrow> op" where
  "merge_ops batch = (hd batch)\<lparr>op_wrappers := concat (map op_wrappers batch),
     op_anys := concat (map op_anys batch), op_ids := concat (map op_ids batch)\<rparr>"

definition emit_change :: "change_phase \<Rightarrow> op \<Rightarrow> item list \<Rightarrow> item_id list \<Rightarrow> commit \<Rightarrow> commit" where
  "emit_change phase op its ids c = c\<lparr>cm_emitted := cm_emitted c @
     [\<lparr>c_commitId = cm_id c, c_kind = op_kind op, c_phase = phase, c_items = its, c_ids = ids\<rparr>]\<rparr>"

text \<open>Take the next batch and send it, or leave the loop.\<close>

definition flush_next :: "commit \<Rightarrow> commit" where
  "flush_next c =
     (case cm_queue c of
        [] \<Rightarrow> c\<lparr>cm_flushing := None\<rparr>
      | first # rest \<Rightarrow>
          let batch = first # takeWhile (\<lambda>o'. op_key o' = op_key first) rest;
              merged = merge_ops batch
          in emit_change Optimistic merged (op_wrappers merged) (op_ids merged)
               (c\<lparr>cm_queue := dropWhile (\<lambda>o'. op_key o' = op_key first) rest,
                  cm_flushing := Some (batch, merged), cm_sent := cm_sent c @ [batch]\<rparr>))"

definition microtask :: "commit \<Rightarrow> commit" where
  "microtask c =
     (let c' = c\<lparr>cm_scheduled := False\<rparr>
      in if cm_flushing c' \<noteq> None then c' else flush_next c')"

text \<open>The rows of a create or update: the canonical items, \<open>None\<close> where the server refused.\<close>

definition canonical_rows :: "op \<Rightarrow> (item_status \<times> item option option) list \<Rightarrow> item option list" where
  "canonical_rows op rows = map (\<lambda>(n, code, it).
     if code = StatusOk then
       (case it of
          None \<Rightarrow> None
        | Some (Some w) \<Rightarrow> Some w
        | Some None \<Rightarrow> if n < length (op_wrappers op) then Some (op_wrappers op ! n) else None)
     else None) (enumerate 0 rows)"

definition row_failures :: "(item_status \<times> item option option) list \<Rightarrow> nat" where
  "row_failures rows = length (filter (\<lambda>(code, it). \<not> (code = StatusOk \<and> it \<noteq> None)) rows)"

text \<open>\<open>execute\<close> after the answer: the results, or a failure.\<close>

definition execute_answer :: "op \<Rightarrow> answer \<Rightarrow> commit \<Rightarrow> result_row list option \<times> commit" where
  "execute_answer op a c =
     (let failed = (None, emit_change Failed op (op_wrappers op) (op_ids op) c) in
      case a of
        RequestFailed \<Rightarrow> failed
      | Deletions sts \<Rightarrow>
          if op_kind op \<noteq> Delete then failed
          else
            let byId = fold (\<lambda>(i, s). jput i s) sts [];
                results = map (\<lambda>i. (i, jget byId i)) (op_ids op);
                ok = filter (\<lambda>(i, s). s = Some StatusOk) results
            in if length ok \<noteq> length results \<and> cm_strict c then failed
               else (Some (map (\<lambda>(i, s). RDelete i s) results),
                     emit_change Applied op [] (map fst ok) (c\<lparr>cm_deleted := cm_deleted c @ map fst ok\<rparr>))
      | Rows rows \<Rightarrow>
          if op_kind op = Delete then failed
          else
            let canonical = canonical_rows op rows;
                ok = List.map_filter (\<lambda>x. x) canonical
            in if row_failures rows > 0 \<and> cm_strict c then failed
               else (Some (map RItem canonical),
                     emit_change Applied op ok (map i_id ok)
                       (if op_kind op = Create then c\<lparr>cm_created := cm_created c @ ok\<rparr>
                        else c\<lparr>cm_updated := cm_updated c @ ok\<rparr>)))"

text \<open>The results are handed out in the order of the batch, each operation taking as many as it
  has ids.\<close>

fun slices :: "op list \<Rightarrow> 'r list \<Rightarrow> (nat \<times> 'r list) list" where
  "slices [] rs = []"
| "slices (b # bs) rs = (op_promise b, take (length (op_ids b)) rs) # slices bs (drop (length (op_ids b)) rs)"

definition onAnswer :: "answer \<Rightarrow> commit \<Rightarrow> commit" where
  "onAnswer a c =
     (case cm_flushing c of
        None \<Rightarrow> c
      | Some (batch, merged) \<Rightarrow>
          (case execute_answer merged a c of
             (Some rs, c') \<Rightarrow> flush_next (c'\<lparr>cm_settled := cm_settled c' @ map (\<lambda>(p, r). (p, Some r)) (slices batch rs)\<rparr>)
           | (None, c') \<Rightarrow> flush_next (c'\<lparr>cm_settled := cm_settled c' @ map (\<lambda>b. (op_promise b, None)) batch\<rparr>)))"

section \<open>Ending a commit\<close>

text \<open>
  What the server says when it is asked: whether \<open>EndCommit\<close> with commit and with drop succeeds,
  the commit id of the newest undo entry (\<open>None\<close> when the request fails, \<open>Some None\<close> when there is
  no entry), and how many entries \<open>Undo\<close> reverted.
\<close>

record end_server =
  commit_ok :: bool
  drop_ok :: bool
  undo_top :: "string option option"
  undo_applied :: "nat option"

datatype end_request = EndCommitReq | DropReq | GetUndoStackReq | UndoReq

datatype end_outcome = Pushed | DroppedError | UndoneError | RecoveryError | AlreadyEnded | FinalizingError | DropDone

definition failAndRecover :: "end_server \<Rightarrow> commit \<Rightarrow> end_request list \<times> end_outcome \<times> commit" where
  "failAndRecover sv c =
     (if cm_id c = '''' then ([], RecoveryError, c\<lparr>cm_ended := True\<rparr>)
      else if drop_ok sv then ([DropReq], DroppedError, c\<lparr>cm_ended := True\<rparr>)
      else case undo_top sv of
        Some (Some newest) \<Rightarrow>
          if newest \<noteq> cm_id c then ([DropReq, GetUndoStackReq], RecoveryError, c\<lparr>cm_ended := True\<rparr>)
          else ([DropReq, GetUndoStackReq, UndoReq],
                if undo_applied sv = Some 1 then UndoneError else RecoveryError, c\<lparr>cm_ended := True\<rparr>)
      | _ \<Rightarrow> ([DropReq, GetUndoStackReq], RecoveryError, c\<lparr>cm_ended := True\<rparr>))"

text \<open>\<open>push\<close> once the queue is drained.\<close>

definition commit_push :: "end_server \<Rightarrow> commit \<Rightarrow> end_request list \<times> end_outcome \<times> commit" where
  "commit_push sv c =
     (if cm_ended c then ([], AlreadyEnded, c)
      else if cm_finalizing c then ([], FinalizingError, c)
      else
        let c1 = c\<lparr>cm_finalizing := True\<rparr> in
        if cm_id c = '''' then ([], Pushed, c1\<lparr>cm_ended := True, cm_finalizing := False\<rparr>)
        else if commit_ok sv then ([EndCommitReq], Pushed, c1\<lparr>cm_ended := True, cm_finalizing := False\<rparr>)
        else case failAndRecover sv c1 of (reqs, out, c2) \<Rightarrow>
               (EndCommitReq # reqs, out, c2\<lparr>cm_finalizing := False\<rparr>))"

definition commit_drop :: "commit \<Rightarrow> end_request list \<times> end_outcome \<times> commit" where
  "commit_drop c =
     (if cm_ended c then ([], AlreadyEnded, c)
      else (if cm_id c = '''' then [] else [DropReq], DropDone, c\<lparr>cm_ended := True\<rparr>))"

text \<open>\<open>run\<close>: \<open>fn_ok\<close> says whether the callback (and the drain after it) succeeded.\<close>

definition commit_run :: "bool \<Rightarrow> end_server \<Rightarrow> commit \<Rightarrow> end_request list \<times> end_outcome \<times> commit" where
  "commit_run fn_ok sv c = (if fn_ok then commit_push sv c else failAndRecover sv c)"

text \<open>\<open>undo\<close> of a commit that was pushed: whether \<open>Undo\<close> is requested.\<close>

definition commit_undo :: "string option \<Rightarrow> commit \<Rightarrow> bool" where
  "commit_undo newest c =
     (cm_ended c \<and> (cm_id c = '''' \<or> (case truthy newest of None \<Rightarrow> True | Some t \<Rightarrow> t = cm_id c)))"

section \<open>The machine\<close>

datatype commit_event =
    Enqueue change_kind "item list" "item_scope option" "item_id list option"
  | Microtask
  | Answered answer
  | Finish "end_server"
  | Drop

fun commit_step :: "commit_event \<Rightarrow> commit \<Rightarrow> commit" where
  "commit_step (Enqueue k ws sc is) c = snd (enqueue k ws sc is c)"
| "commit_step Microtask c = microtask c"
| "commit_step (Answered a) c = onAnswer a c"
| "commit_step (Finish sv) c = snd (snd (commit_push sv c))"
| "commit_step Drop c = snd (snd (commit_drop c))"

text \<open>
  A microtask runs when it was scheduled, an answer comes for a request, of its kind, and a
  commit is ended when its queue is drained.
\<close>

fun commit_allowed :: "commit_event \<Rightarrow> commit \<Rightarrow> bool" where
  "commit_allowed (Enqueue k ws sc is) c = True"
| "commit_allowed Microtask c = cm_scheduled c"
| "commit_allowed (Answered a) c = (case cm_flushing c of
      None \<Rightarrow> False
    | Some (batch, m) \<Rightarrow> (case a of RequestFailed \<Rightarrow> True | Rows _ \<Rightarrow> op_kind m \<noteq> Delete | Deletions _ \<Rightarrow> op_kind m = Delete))"
| "commit_allowed (Finish sv) c = (cm_queue c = [] \<and> cm_flushing c = None)"
| "commit_allowed Drop c = (cm_queue c = [] \<and> cm_flushing c = None)"

definition in_flight :: "commit \<Rightarrow> op list" where
  "in_flight c = (case cm_flushing c of None \<Rightarrow> [] | Some (batch, _) \<Rightarrow> batch)"

definition one_key :: "op list \<Rightarrow> bool" where
  "one_key batch \<longleftrightarrow> batch \<noteq> [] \<and> (\<forall>o' \<in> set batch. op_key o' = op_key (hd batch))"

text \<open>
  The invariant: what was sent and what is queued is every operation made, in order; a queued
  operation will be looked at; the request in flight is the last batch sent; and each promise is
  accounted for.
\<close>

definition flush_inv :: "commit \<Rightarrow> bool" where
  "flush_inv c \<longleftrightarrow>
     map op_promise (concat (cm_sent c) @ cm_queue c) = [0..<cm_promises c] \<and>
     (\<forall>b \<in> set (cm_sent c). one_key b) \<and>
     (cm_queue c \<noteq> [] \<longrightarrow> cm_scheduled c \<or> cm_flushing c \<noteq> None) \<and>
     (\<forall>batch m. cm_flushing c = Some (batch, m) \<longrightarrow> m = merge_ops batch \<and> one_key batch) \<and>
     accounted (cm_promises c) (map op_promise (in_flight c @ cm_queue c)) (map fst (cm_settled c))"

lemma jput_new: "jget g k = None \<Longrightarrow> jput k v g = g @ [(k, v)]"
  by (induction k v g rule: jput.induct) (auto simp: jget_def split: if_splits)

lemma jput_old:
  "jget g k = Some v \<Longrightarrow> f v' = f v \<Longrightarrow>
   map f (jvalues (jput k v' g)) = map f (jvalues g) \<and> length (jput k v' g) = length g"
  by (induction k v' g rule: jput.induct) (auto simp: jget_def jvalues_def split: if_splits)

lemma op_add_promise [simp]: "op_promise (op_add k w i op) = op_promise op"
  by (simp add: op_add_def)

lemma group_add_promises:
  assumes "map op_promise (jvalues groups) = [cm_promises c..<cm_promises c + length groups]"
  shows "map op_promise (jvalues (group_add c k over wi groups))
    = [cm_promises c..<cm_promises c + length (group_add c k over wi groups)]"
proof -
  obtain w i where wi: "wi = (w, i)" by (cases wi)
  define key where "key = kind_key k @ ''|'' @ scopeKey (scopeFor c w over)"
  show ?thesis
  proof (cases "jget groups key")
    case None
    then show ?thesis using assms
      unfolding group_add_def Let_def wi prod.case key_def [symmetric]
      by (simp add: jput_new jvalues_def)
  next
    case (Some op)
    then show ?thesis using assms jput_old [OF Some, of op_promise "op_add k w i op"]
      unfolding group_add_def Let_def wi prod.case key_def [symmetric] by simp
  qed
qed

lemma group_promises:
  "map op_promise (jvalues (fold (group_add c k over) es []))
    = [cm_promises c..<cm_promises c + length (fold (group_add c k over) es [])]"
proof -
  have "map op_promise (jvalues (fold (group_add c k over) es g))
    = [cm_promises c..<cm_promises c + length (fold (group_add c k over) es g)]"
    if "map op_promise (jvalues g) = [cm_promises c..<cm_promises c + length g]" for g
    using that by (induction es arbitrary: g) (simp_all add: group_add_promises)
  from this [of "[]"] show ?thesis by (simp add: jvalues_def)
qed

lemma length_jvalues [simp]: "length (jvalues m) = length m"
  by (simp add: jvalues_def)

lemma enqueue_inv: "flush_inv c \<Longrightarrow> flush_inv (snd (enqueue k ws sc is c))"
proof -
  assume inv: "flush_inv c"
  show ?thesis
  proof (cases "cm_ended c \<or> cm_finalizing c")
    case True
    then show ?thesis using inv by (simp add: enqueue_def)
  next
    case False
    define ops where "ops = jvalues (fold (group_add c k sc) (entries ws is) [])"
    have p: "map op_promise ops = [cm_promises c..<cm_promises c + length ops]"
      using group_promises [of c k sc "entries ws is"] by (simp add: ops_def)
    have e: "snd (enqueue k ws sc is c) = c\<lparr>cm_queue := cm_queue c @ ops,
        cm_promises := cm_promises c + length ops, cm_scheduled := True\<rparr>"
      using False by (simp add: enqueue_def Let_def scheduleFlush_def ops_def)
    have r: "[0..<cm_promises c + length ops] = [0..<cm_promises c] @ map op_promise ops"
      unfolding p by (rule upt_add_eq_append) simp
    have f: "in_flight (snd (enqueue k ws sc is c)) = in_flight c" by (simp add: e in_flight_def)
    have "accounted (cm_promises c + length ops) (map op_promise (in_flight c @ cm_queue c @ ops)) (map fst (cm_settled c))"
    proof -
      have "accounted (cm_promises c) (map op_promise (in_flight c @ cm_queue c)) (map fst (cm_settled c))"
        using inv unfolding flush_inv_def by blast
      from accounted_extend [OF this r] show ?thesis by (simp only: map_append append_assoc)
    qed
    moreover have "map op_promise (concat (cm_sent c) @ cm_queue c @ ops) = [0..<cm_promises c + length ops]"
      using inv unfolding flush_inv_def r by simp
    ultimately show ?thesis using inv unfolding flush_inv_def f by (simp add: e)
  qed
qed

lemma flush_next_inv:
  assumes "map op_promise (concat (cm_sent c) @ cm_queue c) = [0..<cm_promises c]"
    and "\<forall>b \<in> set (cm_sent c). one_key b"
    and "accounted (cm_promises c) (map op_promise (cm_queue c)) (map fst (cm_settled c))"
  shows "flush_inv (flush_next c)"
proof (cases "cm_queue c")
  case Nil
  then show ?thesis using assms by (simp add: flush_next_def flush_inv_def in_flight_def)
next
  case (Cons first rest)
  let ?t = "takeWhile (\<lambda>o'. op_key o' = op_key first) rest"
  have k: "one_key (first # ?t)" by (auto simp: one_key_def dest: set_takeWhileD)
  have "map op_promise ?t @ map op_promise (dropWhile (\<lambda>o'. op_key o' = op_key first) rest) = map op_promise rest"
    by (simp flip: map_append)
  then show ?thesis using assms Cons k
    by (simp add: flush_next_def Let_def emit_change_def flush_inv_def in_flight_def)
qed

lemma emit_change_simps [simp]:
  "cm_sent (emit_change p op its is c) = cm_sent c" "cm_queue (emit_change p op its is c) = cm_queue c"
  "cm_promises (emit_change p op its is c) = cm_promises c"
  "cm_settled (emit_change p op its is c) = cm_settled c"
  "cm_scheduled (emit_change p op its is c) = cm_scheduled c"
  "cm_flushing (emit_change p op its is c) = cm_flushing c"
  by (simp_all add: emit_change_def)

lemma execute_keeps:
  "execute_answer op a c = (r, c') \<Longrightarrow> cm_sent c' = cm_sent c \<and> cm_queue c' = cm_queue c
   \<and> cm_promises c' = cm_promises c \<and> cm_settled c' = cm_settled c"
  by (auto simp: execute_answer_def Let_def split: answer.splits if_splits)

lemma fst_slices: "map fst (slices bs rs) = map op_promise bs"
  by (induction bs rs rule: slices.induct) auto

lemma fst_tagged: "map fst (map (\<lambda>(p, r). (p, Some r)) (slices bs rs)) = map op_promise bs"
  by (induction bs rs rule: slices.induct) auto

lemma onAnswer_inv: "flush_inv c \<Longrightarrow> flush_inv (onAnswer a c)"
proof -
  assume inv: "flush_inv c"
  show ?thesis
  proof (cases "cm_flushing c")
    case None
    then show ?thesis using inv by (simp add: onAnswer_def)
  next
    case (Some bm)
    obtain batch m where bm: "bm = (batch, m)" by (cases bm)
    obtain r c' where e: "execute_answer m a c = (r, c')" by (cases "execute_answer m a c") auto
    note k = execute_keeps [OF e]
    have acc: "accounted (cm_promises c) (map op_promise (cm_queue c)) (map fst (cm_settled c) @ map op_promise batch)"
      using inv Some bm by (auto simp: flush_inv_def in_flight_def accounted_def ac_simps)
    show ?thesis
    proof (cases r)
      case None
      have "onAnswer a c = flush_next (c'\<lparr>cm_settled := cm_settled c' @ map (\<lambda>b. (op_promise b, None)) batch\<rparr>)"
        using Some bm e None by (simp add: onAnswer_def)
      also have "flush_inv \<dots>"
        by (rule flush_next_inv) (use k inv acc in \<open>auto simp: flush_inv_def comp_def\<close>)
      finally show ?thesis .
    next
      case S: (Some rs)
      have "onAnswer a c = flush_next (c'\<lparr>cm_settled := cm_settled c' @ map (\<lambda>(p, r). (p, Some r)) (slices batch rs)\<rparr>)"
        using Some bm e S by (simp add: onAnswer_def)
      also have "flush_inv \<dots>"
        by (rule flush_next_inv) (use k inv acc fst_tagged [of batch rs] in \<open>auto simp: flush_inv_def\<close>)
      finally show ?thesis .
    qed
  qed
qed

lemma microtask_inv: "flush_inv c \<Longrightarrow> flush_inv (microtask c)"
proof -
  assume inv: "flush_inv c"
  show ?thesis
  proof (cases "cm_flushing c")
    case None
    then have "microtask c = flush_next (c\<lparr>cm_scheduled := False\<rparr>)" by (simp add: microtask_def)
    also have "flush_inv \<dots>"
      by (rule flush_next_inv) (use inv None in \<open>auto simp: flush_inv_def in_flight_def\<close>)
    finally show ?thesis .
  next
    case (Some x)
    then show ?thesis using inv by (simp add: microtask_def flush_inv_def in_flight_def)
  qed
qed

lemma flush_inv_update [simp]:
  "flush_inv (c\<lparr>cm_ended := b\<rparr>) = flush_inv c" "flush_inv (c\<lparr>cm_finalizing := b\<rparr>) = flush_inv c"
  by (simp_all add: flush_inv_def in_flight_def)

lemma failAndRecover_ends: "snd (snd (failAndRecover sv c)) = c\<lparr>cm_ended := True\<rparr>"
  by (simp add: failAndRecover_def split: option.split)

lemma commit_step_inv: "flush_inv c \<Longrightarrow> flush_inv (commit_step e c)"
proof (cases e)
  case (Finish sv)
  assume "flush_inv c"
  then show ?thesis using Finish failAndRecover_ends [of sv "c\<lparr>cm_finalizing := True\<rparr>"]
    by (cases "failAndRecover sv (c\<lparr>cm_finalizing := True\<rparr>)") (auto simp: commit_push_def Let_def)
next
  case Drop
  assume "flush_inv c"
  then show ?thesis using Drop by (simp add: commit_drop_def)
qed (simp_all add: enqueue_inv microtask_inv onAnswer_inv)

lemma flush_inv_new: "flush_inv (newCommit i sc st)"
  by (simp add: newCommit_def flush_inv_def in_flight_def)

lemma commit_runs_inv: "flush_inv c \<Longrightarrow> flush_inv (run commit_step es c)"
  by (induction es arbitrary: c) (simp_all add: commit_step_inv)

text \<open>
  C7: in every run the operations reach the server in the order in which they were made, none lost
  or repeated; one request only carries operations of the same kind and scope; each promise is
  settled at most once and waits until it is settled; and a waiting operation is in a request or
  the flush loop is about to look at it.
\<close>

theorem commit_requests_in_order:
  "let c = run commit_step es (newCommit i sc strict) in
    map op_promise (concat (cm_sent c) @ cm_queue c) = [0..<cm_promises c]
    \<and> (\<forall>b \<in> set (cm_sent c). \<forall>o1 \<in> set b. \<forall>o2 \<in> set b. op_key o1 = op_key o2)
    \<and> distinct (map fst (cm_settled c))
    \<and> (\<forall>p. p < cm_promises c \<and> p \<notin> set (map fst (cm_settled c))
         \<longleftrightarrow> p \<in> set (map op_promise (in_flight c @ cm_queue c)))
    \<and> (if cm_queue c \<noteq> [] then cm_scheduled c \<or> cm_flushing c \<noteq> None else True)"
proof -
  define c where "c = run commit_step es (newCommit i sc strict)"
  have inv: "flush_inv c" unfolding c_def by (rule commit_runs_inv [OF flush_inv_new])
  have acc: "accounted (cm_promises c) (map op_promise (in_flight c @ cm_queue c)) (map fst (cm_settled c))"
    using inv unfolding flush_inv_def by blast
  have d: "distinct (map fst (cm_settled c))"
    using accounted_distinct(1) [OF acc] by simp
  have s: "p < cm_promises c \<and> p \<notin> set (map fst (cm_settled c))
         \<longleftrightarrow> p \<in> set (map op_promise (in_flight c @ cm_queue c))" for p
    using accounted_distinct [OF acc] by (auto simp: set_eq_iff distinct_append simp del: set_map)
  have k: "\<forall>b \<in> set (cm_sent c). \<forall>o1 \<in> set b. \<forall>o2 \<in> set b. op_key o1 = op_key o2"
    using inv by (metis flush_inv_def one_key_def)
  have o: "map op_promise (concat (cm_sent c) @ cm_queue c) = [0..<cm_promises c]"
    and q: "if cm_queue c \<noteq> [] then cm_scheduled c \<or> cm_flushing c \<noteq> None else True"
    using inv unfolding flush_inv_def by simp_all
  show ?thesis unfolding c_def [symmetric] Let_def by (intro conjI allI o k d s q)
qed

section \<open>Results\<close>

lemma concat_slices:
  "length rs = length (concat (map op_ids bs)) \<Longrightarrow>
   concat (map snd (slices bs rs)) = rs \<and> list_all2 (\<lambda>b (p, r). p = op_promise b \<and> length r = length (op_ids b)) bs (slices bs rs)"
proof (induction bs rs rule: slices.induct)
  case (2 b bs rs)
  then have "length (drop (length (op_ids b)) rs) = length (concat (map op_ids bs))" by simp
  with 2 show ?case by simp
qed simp

lemma slices_map_ids:
  "slices bs (map f (concat (map op_ids bs))) = map (\<lambda>b. (op_promise b, map f (op_ids b))) bs"
  by (induction bs) simp_all

lemma merge_ids: "op_ids (merge_ops bs) = concat (map op_ids bs)"
  by (simp add: merge_ops_def)

text \<open>
  When a merged request succeeds, every operation in it gets the results for its own items:
  for a delete the status of each of its ids, in its order; for a create or update with a row
  per item, as many results as it has items, and together they are the rows in order.
\<close>

theorem commit_results_split:
  assumes "cm_flushing c = Some (batch, merge_ops batch)"
    and "execute_answer (merge_ops batch) a c = (Some rs, c')"
  shows "(\<forall>sts. a = Deletions sts \<longrightarrow> slices batch rs = map (\<lambda>b. (op_promise b,
            map (\<lambda>i. RDelete i (jget (fold (\<lambda>(i, s). jput i s) sts []) i)) (op_ids b))) batch)
    \<and> (\<forall>rows. a = Rows rows \<and> length rows = length (concat (map op_ids batch)) \<longrightarrow>
          concat (map snd (slices batch rs)) = map RItem (canonical_rows (merge_ops batch) rows)
          \<and> list_all2 (\<lambda>b (p, r). p = op_promise b \<and> length r = length (op_ids b)) batch (slices batch rs))
    \<and> cm_settled c' = cm_settled c"
proof -
  have "slices batch rs = map (\<lambda>b. (op_promise b,
            map (\<lambda>i. RDelete i (jget (fold (\<lambda>(i, s). jput i s) sts []) i)) (op_ids b))) batch"
    if "a = Deletions sts" for sts
  proof -
    have "rs = map (\<lambda>i. RDelete i (jget (fold (\<lambda>(i, s). jput i s) sts []) i)) (concat (map op_ids batch))"
      using assms(2) that by (auto simp: execute_answer_def Let_def merge_ids split: if_splits)
    then show ?thesis by (simp only: slices_map_ids)
  qed
  moreover have "concat (map snd (slices batch rs)) = map RItem (canonical_rows (merge_ops batch) rows)
          \<and> list_all2 (\<lambda>b (p, r). p = op_promise b \<and> length r = length (op_ids b)) batch (slices batch rs)"
    if "a = Rows rows" "length rows = length (concat (map op_ids batch))" for rows
  proof -
    have r: "rs = map RItem (canonical_rows (merge_ops batch) rows)"
      using assms(2) that(1) by (auto simp: execute_answer_def Let_def split: if_splits)
    have "length rs = length (concat (map op_ids batch))" using that(2) by (simp add: r canonical_rows_def)
    from concat_slices [OF this] show ?thesis unfolding r by simp
  qed
  ultimately show ?thesis using execute_keeps [OF assms(2)] by simp
qed

section \<open>Announcements\<close>

text \<open>
  The announcements of a commit come in pairs, an optimistic one and its outcome, which for a
  failure names the same items and ids; while a request is out the last one is optimistic.
\<close>

definition outcome_of :: "document_change \<Rightarrow> document_change \<Rightarrow> bool" where
  "outcome_of o1 o2 \<longleftrightarrow> c_phase o1 = Optimistic \<and> c_phase o2 \<noteq> Optimistic
      \<and> c_commitId o2 = c_commitId o1 \<and> c_kind o2 = c_kind o1
      \<and> (c_phase o2 = Failed \<longrightarrow> o2 = o1\<lparr>c_phase := Failed\<rparr>)"

fun paired :: "document_change list \<Rightarrow> op option \<Rightarrow> bool" where
  "paired [] m = (m = None)"
| "paired [o1] m = (case m of None \<Rightarrow> False | Some op \<Rightarrow> c_phase o1 = Optimistic \<and> c_kind o1 = op_kind op
      \<and> c_items o1 = op_wrappers op \<and> c_ids o1 = op_ids op)"
| "paired (o1 # o2 # cs) m = (outcome_of o1 o2 \<and> paired cs m)"

lemma paired_open: "paired cs None \<Longrightarrow> c_phase o1 = Optimistic \<Longrightarrow> c_kind o1 = op_kind op \<Longrightarrow>
  c_items o1 = op_wrappers op \<Longrightarrow> c_ids o1 = op_ids op \<Longrightarrow> paired (cs @ [o1]) (Some op)"
  by (induction cs "None :: op option" rule: paired.induct) auto

lemma failed_of:
  "c_commitId x = c_commitId y \<Longrightarrow> c_kind x = c_kind y \<Longrightarrow> c_items x = c_items y \<Longrightarrow> c_ids x = c_ids y \<Longrightarrow>
   c_phase x = Failed \<Longrightarrow> x = y\<lparr>c_phase := Failed\<rparr>" for x y :: document_change
  by (cases x; cases y) simp

lemma outcome_close:
  assumes "c_phase o1 = Optimistic" "c_kind o1 = op_kind op" "c_items o1 = op_wrappers op" "c_ids o1 = op_ids op"
    and "c_phase x \<noteq> Optimistic" "c_commitId x = c_commitId o1" "c_kind x = op_kind op"
    and "c_phase x = Failed \<Longrightarrow> c_items x = op_wrappers op \<and> c_ids x = op_ids op"
  shows "outcome_of o1 x"
proof -
  have "c_phase x = Failed \<Longrightarrow> x = o1\<lparr>c_phase := Failed\<rparr>"
    by (rule failed_of) (use assms in simp_all)
  then show ?thesis unfolding outcome_of_def using assms(1,2,5,6,7) by (intro conjI) simp_all
qed

lemma paired_close:
  assumes "paired cs m" and "m = Some op" and "\<forall>o1 \<in> set cs. c_commitId o1 = c_commitId x"
    and "c_phase x \<noteq> Optimistic" "c_kind x = op_kind op"
    and "c_phase x = Failed \<Longrightarrow> c_items x = op_wrappers op \<and> c_ids x = op_ids op"
  shows "paired (cs @ [x]) None"
  using assms(1-3)
proof (induction cs m rule: paired.induct)
  case (2 o1 m)
  have "outcome_of o1 x"
    by (rule outcome_close [OF _ _ _ _ assms(4) _ assms(5,6)]) (use 2 in simp_all)
  then show ?case by simp
qed (simp_all only: paired.simps append_Cons append_Nil option.distinct set_simps ball_simps simp_thms, blast)

definition announced :: "commit \<Rightarrow> bool" where
  "announced c \<longleftrightarrow> paired (cm_emitted c) (map_option snd (cm_flushing c)) \<and>
     (\<forall>x \<in> set (cm_emitted c). c_commitId x = cm_id c)"

lemma announced_flush_next: "paired (cm_emitted c) None \<Longrightarrow> \<forall>x \<in> set (cm_emitted c). c_commitId x = cm_id c \<Longrightarrow>
  announced (flush_next c)"
  by (cases "cm_queue c") (auto simp: flush_next_def announced_def emit_change_def Let_def intro!: paired_open)

lemma execute_emits:
  assumes "execute_answer op a c = (r, c')"
  shows "\<exists>o2. cm_emitted c' = cm_emitted c @ [o2] \<and> c_phase o2 \<noteq> Optimistic \<and> c_commitId o2 = cm_id c
    \<and> c_kind o2 = op_kind op \<and> (c_phase o2 = Failed \<longrightarrow> c_items o2 = op_wrappers op \<and> c_ids o2 = op_ids op)
    \<and> cm_id c' = cm_id c"
  using assms by (auto simp: execute_answer_def Let_def emit_change_def split: answer.splits if_splits)

lemma announced_step: "announced c \<Longrightarrow> announced (commit_step e c)"
proof (cases e)
  case (Enqueue k ws sc "is")
  assume "announced c"
  then show ?thesis using Enqueue by (simp add: enqueue_def Let_def scheduleFlush_def announced_def)
next
  case Microtask
  assume an: "announced c"
  show ?thesis
  proof (cases "cm_flushing c")
    case None
    then have "commit_step e c = flush_next (c\<lparr>cm_scheduled := False\<rparr>)"
      using Microtask by (simp add: microtask_def)
    moreover have "announced (flush_next (c\<lparr>cm_scheduled := False\<rparr>))"
      by (rule announced_flush_next) (use an None in \<open>simp_all add: announced_def\<close>)
    ultimately show ?thesis by simp
  next
    case (Some x)
    then show ?thesis using Microtask an by (simp add: microtask_def announced_def)
  qed
next
  case (Answered a)
  assume an: "announced c"
  show ?thesis
  proof (cases "cm_flushing c")
    case None
    then show ?thesis using an Answered by (simp add: onAnswer_def)
  next
    case (Some bm)
    obtain batch m where bm: "bm = (batch, m)" by (cases bm)
    obtain r c' where x: "execute_answer m a c = (r, c')" by (cases "execute_answer m a c") auto
    obtain o2 where o2: "cm_emitted c' = cm_emitted c @ [o2]" "c_phase o2 \<noteq> Optimistic" "c_commitId o2 = cm_id c"
      "c_kind o2 = op_kind m" "c_phase o2 = Failed \<longrightarrow> c_items o2 = op_wrappers m \<and> c_ids o2 = op_ids m" "cm_id c' = cm_id c"
      using execute_emits [OF x] by blast
    have "paired (cm_emitted c') None" unfolding o2(1)
      by (rule paired_close) (use an Some bm o2 in \<open>auto simp: announced_def\<close>)
    moreover have "\<forall>x \<in> set (cm_emitted c'). c_commitId x = cm_id c'"
      using an o2 by (auto simp: announced_def)
    ultimately show ?thesis using Answered Some bm x
      by (cases r) (auto simp: onAnswer_def intro!: announced_flush_next)
  qed
next
  case (Finish sv)
  assume "announced c"
  then show ?thesis using Finish failAndRecover_ends [of sv "c\<lparr>cm_finalizing := True\<rparr>"]
    by (cases "failAndRecover sv (c\<lparr>cm_finalizing := True\<rparr>)") (auto simp: commit_push_def Let_def announced_def)
next
  case Drop
  assume "announced c"
  then show ?thesis using Drop by (simp add: commit_drop_def announced_def)
qed

lemma announced_run: "announced c \<Longrightarrow> announced (run commit_step es c)"
  by (induction es arbitrary: c) (simp_all add: announced_step)

text \<open>A store that follows pairs of announcements that all failed ends up where it was.\<close>

lemma rollback_pair:
  assumes "store_ok (ds_store d)" "ds_loaded d" "c_phase o1 = Optimistic"
  shows "content (ds_store (onChange (o1\<lparr>c_phase := Failed\<rparr>) (onChange o1 d))) = content (ds_store d)"
proof -
  have k: "change_key (o1\<lparr>c_phase := Failed\<rparr>) = change_key o1" by (simp add: change_key_def)
  have "patch_fun (inversePatch (ds_store d) (toPatch o1)) (patch_fun (toPatch o1) (content (ds_store d)))
      = content (ds_store d)"
    by (rule inverse_restores) (use assms(1) in \<open>simp add: store_ok_def\<close>)
  then show ?thesis using assms(2,3) k by (simp add: onChange_def apply_content)
qed

lemma onChange_keeps:
  "store_ok (ds_store d) \<Longrightarrow> store_ok (ds_store (onChange x d))" "ds_loaded (onChange x d) = ds_loaded d"
  using sync_step_inv [of d "Change x"]
  by (auto simp: onChange_def Let_def split: change_phase.split option.split)

lemma rollback_pairs:
  "paired cs None \<Longrightarrow> \<forall>x \<in> set cs. c_phase x \<noteq> Applied \<Longrightarrow> store_ok (ds_store d) \<Longrightarrow> ds_loaded d \<Longrightarrow>
   content (ds_store (fold onChange cs d)) = content (ds_store d)"
proof (induction cs "None :: op option" arbitrary: d rule: paired.induct)
  case (3 o1 o2 cs)
  then have oo: "outcome_of o1 o2" and "c_phase o2 \<noteq> Applied" by simp_all
  moreover have "c_phase o2 \<noteq> Optimistic" using oo unfolding outcome_of_def by blast
  ultimately have "c_phase o2 = Failed" by (cases "c_phase o2") simp_all
  with oo have o2: "o2 = o1\<lparr>c_phase := Failed\<rparr>" and o1: "c_phase o1 = Optimistic"
    unfolding outcome_of_def by blast+
  let ?d = "onChange o2 (onChange o1 d)"
  have "content (ds_store (fold onChange cs ?d)) = content (ds_store ?d)"
    using 3 by (intro "3.hyps") (auto intro!: onChange_keeps simp: onChange_keeps(2))
  also have "\<dots> = content (ds_store d)" unfolding o2 using 3 o1 by (intro rollback_pair) auto
  finally show ?case by simp
qed auto

text \<open>
  C16: a store that mirrors the document through a commit none of whose requests succeeds is, once
  no request is out, back at the content it had before the commit, whatever was created, updated
  and deleted optimistically in between.
\<close>

theorem commit_failures_leave_store:
  assumes "store_ok (ds_store d)" and "ds_loaded d"
    and "cm_flushing (run commit_step es (newCommit i sc strict)) = None"
    and "\<forall>x \<in> set (cm_emitted (run commit_step es (newCommit i sc strict))). c_phase x \<noteq> Applied"
  shows "content (ds_store (fold onChange (cm_emitted (run commit_step es (newCommit i sc strict))) d))
    = content (ds_store d)"
proof (rule rollback_pairs [OF _ assms(4,1,2)])
  have "announced (run commit_step es (newCommit i sc strict))"
    by (rule announced_run) (simp add: newCommit_def announced_def)
  then show "paired (cm_emitted (run commit_step es (newCommit i sc strict))) None"
    using assms(3) by (simp add: announced_def)
qed

section \<open>Ending\<close>

text \<open>
  C15: ending a commit. Whatever the server answers, a commit that \<open>push\<close> or \<open>run\<close> worked on has
  ended and takes no more operations; \<open>EndCommit\<close> with commit is asked for at most once and only
  by \<open>push\<close>; \<open>Undo\<close> is asked for only after the drop failed and only while the newest undo entry
  is this commit's; and the caller is told that the work is committed only if the server confirmed
  it (or there was no native commit), and that it was reverted only if the server confirmed that.
\<close>

theorem commit_finish_safe:
  assumes "\<not> cm_ended c" and "\<not> cm_finalizing c" and "commit_run fn_ok sv c = (reqs, out, c')"
  shows "cm_ended c' \<and> \<not> cm_finalizing c' \<and> fst (enqueue k ws sc is c') = None
    \<and> (EndCommitReq \<in> set reqs \<longrightarrow> fn_ok) \<and> distinct reqs
    \<and> (UndoReq \<in> set reqs \<longrightarrow> \<not> drop_ok sv \<and> undo_top sv = Some (Some (cm_id c)))
    \<and> (out = Pushed \<longrightarrow> fn_ok \<and> (cm_id c = '''' \<or> commit_ok sv))
    \<and> (out = DroppedError \<longrightarrow> drop_ok sv)
    \<and> (out = UndoneError \<longrightarrow> undo_applied sv = Some 1 \<and> undo_top sv = Some (Some (cm_id c)))"
  using assms
  by (auto simp: commit_run_def commit_push_def failAndRecover_def Let_def enqueue_def
      split: if_splits option.splits)

section \<open>Deleting items and ids together\<close>

lemma entries_ids: "entries [] (Some is) = map (\<lambda>i. (None, i)) is"
  by (induction "is") (simp_all add: entries_def)

lemma entries_items: "map_option length ids = Some (length ws) \<Longrightarrow> ws \<noteq> [] \<Longrightarrow>
  map snd (entries ws ids) = the ids"
  by (cases ids) (simp_all add: entries_def)

text \<open>
  A delete that is given items and plain ids together loses deletions: for an id followed by an
  item only the id is queued, so the item is not deleted at all, although the caller's promise
  resolves; given on their own, both kinds work.
\<close>

theorem commit_mixed_delete_loses_items:
  assumes "i_id w \<noteq> k"
  shows "concat (map op_ids (cm_queue (snd (commit_delete [ById k, ByItem w] None (newCommit i sc strict))))) = [k]
    \<and> concat (map op_ids (cm_queue (snd (commit_delete [ById k, ById (i_id w)] None (newCommit i sc strict))))) = [k, i_id w]
    \<and> fst (commit_delete [ById k, ByItem w] None (newCommit i sc strict)) = Some [0]"
  by (simp add: commit_delete_def enqueue_def newCommit_def List.map_filter_def entries_def
      group_add_def Let_def jget_def op_add_def scheduleFlush_def jvalues_def scopeFor_def merge_scope_def)

theorem commit_mixed_delete_loses_items_witness:
  "concat (map op_ids (cm_queue (snd (commit_delete [ById ''k'', ByItem (demo_wrapper ''w'' None 1)] None
      (newCommit ''c'' \<lparr>container = None, sheetPath = None\<rparr> None))))) = [''k'']"
  using commit_mixed_delete_loses_items [of "demo_wrapper ''w'' None 1" "''k''"] by (simp add: demo_wrapper_def)

section \<open>Refused items in a commit that is not strict\<close>

definition lenient_commit :: commit where
  "lenient_commit = run commit_step
     [Enqueue Update [demo_wrapper ''x'' None 9, demo_wrapper ''fp'' None 8] None None, Microtask,
      Answered (Rows [(StatusBad, None), (StatusOk, Some (Some (demo_wrapper ''fp'' None 18)))])]
     (newCommit ''c'' \<lparr>container = None, sheetPath = None\<rparr> (Some False))"

text \<open>
  In a commit that is not strict, an item the server refuses keeps its optimistic version in the
  store that follows the document (the server still has version 3), and the undo patch stays
  pending: the outcome is announced under the ids of the accepted items only, so it does not meet
  its optimistic announcement.
\<close>

theorem lenient_commit_keeps_refused_item:
  "cm_flushing lenient_commit = None
   \<and> map c_phase (cm_emitted lenient_commit) = [Optimistic, Applied]
   \<and> map_option s_proto (content (ds_store demo_sync) ''x'') = Some 3
   \<and> map_option s_proto (content (ds_store (fold onChange (cm_emitted lenient_commit) demo_sync)) ''x'') = Some 9
   \<and> map_option s_proto (content (ds_store (fold onChange (cm_emitted lenient_commit) demo_sync)) ''fp'') = Some 18
   \<and> length (ds_pending (fold onChange (cm_emitted lenient_commit) demo_sync)) = 1"
  by (intro conjI) code_simp+

section \<open>Concrete runs\<close>

definition demo_commit_events :: "commit_event list" where
  "demo_commit_events = [Enqueue Update [demo_wrapper ''x'' None 9] None None,
     Enqueue Update [demo_wrapper ''fp'' None 8] None None, Enqueue Delete [] None (Some [''pad'']),
     Microtask, Answered RequestFailed, Answered RequestFailed]"

theorem commit_requests_in_order_witness:
  "let c = run commit_step demo_commit_events (newCommit ''c'' \<lparr>container = None, sheetPath = None\<rparr> None) in
     cm_promises c = 3 \<and> map op_promise (concat (cm_sent c) @ cm_queue c) = [0..<3] \<and> distinct (map fst (cm_settled c))"
proof -
  have "cm_promises (run commit_step demo_commit_events (newCommit ''c'' \<lparr>container = None, sheetPath = None\<rparr> None)) = 3"
    by code_simp
  then show ?thesis
    using commit_requests_in_order [of demo_commit_events "''c''" "\<lparr>container = None, sheetPath = None\<rparr>" None]
    unfolding Let_def by (metis (no_types, lifting))
qed

theorem commit_failures_leave_store_witness:
  "length (cm_sent (run commit_step demo_commit_events (newCommit ''c'' \<lparr>container = None, sheetPath = None\<rparr> None))) = 2
   \<and> content (ds_store (fold onChange (cm_emitted (run commit_step demo_commit_events
        (newCommit ''c'' \<lparr>container = None, sheetPath = None\<rparr> None))) demo_sync)) = content (ds_store demo_sync)"
proof
  show "length (cm_sent (run commit_step demo_commit_events (newCommit ''c'' \<lparr>container = None, sheetPath = None\<rparr> None))) = 2"
    by code_simp
  show "content (ds_store (fold onChange (cm_emitted (run commit_step demo_commit_events
        (newCommit ''c'' \<lparr>container = None, sheetPath = None\<rparr> None))) demo_sync)) = content (ds_store demo_sync)"
    by (rule commit_failures_leave_store [OF demo_sync_ok]) code_simp+
qed

definition demo_batch :: "op list" where
  "demo_batch = [\<lparr>op_kind = Delete, op_scope = \<lparr>container = None, sheetPath = None\<rparr>, op_key = ''k'', op_wrappers = [],
      op_anys = [], op_ids = [''a'', ''b''], op_promise = 0\<rparr>,
    \<lparr>op_kind = Delete, op_scope = \<lparr>container = None, sheetPath = None\<rparr>, op_key = ''k'', op_wrappers = [],
      op_anys = [], op_ids = [''c''], op_promise = 1\<rparr>]"

definition demo_deleting :: commit where
  "demo_deleting = (newCommit ''c'' \<lparr>container = None, sheetPath = None\<rparr> None)\<lparr>
     cm_flushing := Some (demo_batch, merge_ops demo_batch)\<rparr>"

definition demo_deletions :: "(item_id \<times> item_status) list" where
  "demo_deletions = [(''c'', StatusOk), (''b'', StatusOk), (''a'', StatusOk)]"

theorem commit_results_split_witness:
  "slices demo_batch (the (fst (execute_answer (merge_ops demo_batch) (Deletions demo_deletions) demo_deleting)))
    = [(0, [RDelete ''a'' (Some StatusOk), RDelete ''b'' (Some StatusOk)]), (1, [RDelete ''c'' (Some StatusOk)])]"
proof -
  have f: "cm_flushing demo_deleting = Some (demo_batch, merge_ops demo_batch)" by (simp add: demo_deleting_def)
  have "fst (execute_answer (merge_ops demo_batch) (Deletions demo_deletions) demo_deleting) \<noteq> None" by code_simp
  then obtain rs c' where x: "execute_answer (merge_ops demo_batch) (Deletions demo_deletions) demo_deleting = (Some rs, c')"
    by (cases "execute_answer (merge_ops demo_batch) (Deletions demo_deletions) demo_deleting") auto
  have "slices demo_batch rs = map (\<lambda>b. (op_promise b,
            map (\<lambda>i. RDelete i (jget (fold (\<lambda>(i, s). jput i s) demo_deletions []) i)) (op_ids b))) demo_batch"
    using commit_results_split [OF f x] by blast
  also have "\<dots> = [(0, [RDelete ''a'' (Some StatusOk), RDelete ''b'' (Some StatusOk)]), (1, [RDelete ''c'' (Some StatusOk)])]"
    by code_simp
  finally show ?thesis using x by simp
qed

theorem commit_finish_safe_witness:
  "commit_run True \<lparr>commit_ok = False, drop_ok = False, undo_top = Some (Some ''c''), undo_applied = Some 1\<rparr>
     (newCommit ''c'' \<lparr>container = None, sheetPath = None\<rparr> None)
   = ([EndCommitReq, DropReq, GetUndoStackReq, UndoReq], UndoneError,
      (newCommit ''c'' \<lparr>container = None, sheetPath = None\<rparr> None)\<lparr>cm_ended := True\<rparr>)
   \<and> fst (enqueue Update [] None None ((newCommit ''c'' \<lparr>container = None, sheetPath = None\<rparr> None)\<lparr>cm_ended := True\<rparr>)) = None"
proof -
  let ?c = "newCommit ''c'' \<lparr>container = None, sheetPath = None\<rparr> None"
  have r: "commit_run True \<lparr>commit_ok = False, drop_ok = False, undo_top = Some (Some ''c''), undo_applied = Some 1\<rparr> ?c
   = ([EndCommitReq, DropReq, GetUndoStackReq, UndoReq], UndoneError, ?c\<lparr>cm_ended := True\<rparr>)"
    by (simp add: commit_run_def commit_push_def failAndRecover_def Let_def newCommit_def)
  have "\<not> cm_ended ?c" "\<not> cm_finalizing ?c" by (simp_all add: newCommit_def)
  from commit_finish_safe [OF this r] r show ?thesis by blast
qed
end
