(* ===== verification/SExpr.thy ===== *)
theory SExpr
  imports Prelude
begin

text \<open>
  The s-expression reader and writers of the Specctra files (\<open>src/packages/router/src/specctra/\<close>
  \<open>sexpr.ts\<close>, and the \<open>emit\<close> of \<open>session-filter.ts\<close>).

  Text is a list of 8-bit characters: the code works on UTF-16 units, of which the reader
  distinguishes the ones below and the white space beyond Latin-1, which behaves like the
  non-breaking space here. The reader's main loop is a \<open>partial_function\<close>: its value is \<open>None\<close> when
  the loop never ends, which is not excluded by the code (see the last section). A list that is
  being read lives on the stack until its parenthesis closes and is then appended to the list
  below it; the code appends it first and fills it later, which nothing can observe in between.
\<close>

section \<open>Data\<close>

datatype sexpr = Atom string | SList "sexpr list"

datatype syntax_error =
    UnbalancedClose nat
  | UnterminatedString nat
  | MissingClose

section \<open>Characters\<close>

definition chr_in :: "nat list \<Rightarrow> char \<Rightarrow> bool" where
  "chr_in ns c \<longleftrightarrow> (of_char c :: nat) \<in> set ns"

definition is_space :: "char \<Rightarrow> bool" where
  "is_space = chr_in [9, 10, 11, 12, 13, 32, 160]"

text \<open>\<open>String.prototype.trim\<close>\<close>

definition trim :: "string \<Rightarrow> string" where
  "trim s = rev (dropWhile is_space (rev (dropWhile is_space s)))"

definition skipped :: "char \<Rightarrow> bool" where
  "skipped = chr_in [32, 9, 10, 13]"

definition newline :: char where
  "newline = CHR 0x0A"

definition is_delim :: "char \<Rightarrow> bool" where
  "is_delim c \<longleftrightarrow> is_space c \<or> c = CHR ''('' \<or> c = CHR '')'' \<or> c = CHR 0x22"

section \<open>The reader\<close>

definition bare_quote :: "string \<Rightarrow> bool" where
  "bare_quote s = (case dropWhile is_space (take 3 s) of [] \<Rightarrow> False | c # _ \<Rightarrow> c = CHR '')'')"

fun read_quoted :: "string \<Rightarrow> (string \<times> nat) option" where
  "read_quoted [] = None"
| "read_quoted (c # cs) =
    (if c = CHR 0x22 then Some ([], 1)
     else if c = CHR 0x5C \<and> cs \<noteq> [] then
       map_option (\<lambda>(out, k). (hd cs # out, k + 2)) (read_quoted (tl cs))
     else map_option (\<lambda>(out, k). (c # out, k + 1)) (read_quoted cs))"

type_synonym stack = "sexpr list \<times> sexpr list list"

definition add_item :: "sexpr \<Rightarrow> stack \<Rightarrow> stack" where
  "add_item x st = (fst st @ [x], snd st)"

definition parse_step :: "string \<Rightarrow> nat \<Rightarrow> stack \<Rightarrow> syntax_error + nat \<times> stack" where
  "parse_step text i st =
    (let ch = text ! i; after = drop (i + 1) text in
     if ch = CHR ''('' then Inr (i + 1, ([], fst st # snd st))
     else if ch = CHR '')'' then
       (case snd st of
          [] \<Rightarrow> Inl (UnbalancedClose i)
        | below # rest \<Rightarrow> Inr (i + 1, (below @ [SList (fst st)], rest)))
     else if ch = CHR 0x22 \<and> bare_quote after then Inr (i + 1, add_item (Atom [CHR 0x22]) st)
     else if ch = CHR 0x22 then
       (case read_quoted after of
          None \<Rightarrow> Inl (UnterminatedString i)
        | Some (out, k) \<Rightarrow> Inr (i + 1 + k, add_item (Atom out) st))
     else if ch = CHR ''#'' \<and> (i = 0 \<or> text ! (i - 1) = newline) then
       Inr (i + length (takeWhile (\<lambda>c. c \<noteq> newline) (drop i text)), st)
     else if skipped ch then Inr (i + 1, st)
     else
       (let tok = takeWhile (\<lambda>c. \<not> is_delim c) (drop i text) in
        Inr (i + length tok, add_item (Atom tok) st)))"

partial_function (option) parse_loop :: "string \<Rightarrow> nat \<Rightarrow> stack \<Rightarrow> (syntax_error + sexpr list) option" where
  "parse_loop text i st =
    (if i < length text then
       (case parse_step text i st of
          Inl e \<Rightarrow> Some (Inl e)
        | Inr (i', st') \<Rightarrow> parse_loop text i' st')
     else if snd st \<noteq> [] then Some (Inl MissingClose)
     else Some (Inr (fst st)))"

definition parseSExpr :: "string \<Rightarrow> (syntax_error + sexpr list) option" where
  "parseSExpr text = parse_loop text 0 ([], [])"

section \<open>Accessors\<close>

fun isList :: "sexpr \<Rightarrow> bool" where
  "isList (SList _) = True"
| "isList (Atom _) = False"

fun head :: "sexpr \<Rightarrow> string option" where
  "head (SList (Atom s # _)) = Some s"
| "head _ = None"

fun is_form :: "string \<Rightarrow> sexpr \<Rightarrow> bool" where
  "is_form name (SList (Atom s # _)) \<longleftrightarrow> s = name"
| "is_form name _ \<longleftrightarrow> False"

fun elements :: "sexpr \<Rightarrow> sexpr list" where
  "elements (SList xs) = xs"
| "elements (Atom _) = []"

definition children :: "sexpr list option \<Rightarrow> string \<Rightarrow> sexpr list list" where
  "children xs name = (case xs of None \<Rightarrow> [] | Some xs \<Rightarrow> map elements (filter (is_form name) xs))"

definition child :: "sexpr list option \<Rightarrow> string \<Rightarrow> sexpr list option" where
  "child xs name = (case children xs name of [] \<Rightarrow> None | c # _ \<Rightarrow> Some c)"

definition atoms :: "sexpr list option \<Rightarrow> string list" where
  "atoms xs = List.map_filter (\<lambda>x. case x of Atom s \<Rightarrow> Some s | SList _ \<Rightarrow> None)
     (drop 1 (case xs of None \<Rightarrow> [] | Some xs \<Rightarrow> xs))"

section \<open>Writers\<close>

definition quote :: "string \<Rightarrow> string" where
  "quote s =
    (if s = [] then [CHR 0x22, CHR 0x22]
     else if list_ex is_delim s \<or> CHR 0x27 \<in> set s \<or> CHR '';'' \<in> set s then
       CHR 0x22 # map (\<lambda>c. if c = CHR 0x22 then CHR 0x27 else c) s @ [CHR 0x22]
     else s)"

definition hex_digit :: "nat \<Rightarrow> char" where
  "hex_digit n = ''0123456789abcdef'' ! n"

definition json_char :: "char \<Rightarrow> string" where
  "json_char c =
    (let n = of_char c :: nat in
     if n = 0x22 then [CHR 0x5C, CHR 0x22]
     else if n = 0x5C then [CHR 0x5C, CHR 0x5C]
     else if n = 8 then CHR 0x5C # ''b''
     else if n = 9 then CHR 0x5C # ''t''
     else if n = 10 then CHR 0x5C # ''n''
     else if n = 12 then CHR 0x5C # ''f''
     else if n = 13 then CHR 0x5C # ''r''
     else if n < 32 then CHR 0x5C # ''u00'' @ [hex_digit (n div 16), hex_digit (n mod 16)]
     else [c])"

definition json_string :: "string \<Rightarrow> string" where
  "json_string s = CHR 0x22 # concat (map json_char s) @ [CHR 0x22]"

definition is_plain :: "string \<Rightarrow> bool" where
  "is_plain s \<longleftrightarrow> s \<noteq> [] \<and> list_all (\<lambda>c. \<not> is_delim c \<and> c \<noteq> CHR 0x5C) s"

fun join_with :: "char \<Rightarrow> string list \<Rightarrow> string" where
  "join_with _ [] = []"
| "join_with _ [s] = s"
| "join_with c (s # t # ss) = s @ c # join_with c (t # ss)"

fun emit_sexpr :: "sexpr \<Rightarrow> string" where
  "emit_sexpr (Atom s) = (if is_plain s then s else json_string s)"
| "emit_sexpr (SList xs) = CHR ''('' # join_with (CHR '' '') (map emit_sexpr xs) @ [CHR '')'']"

definition emit_file :: "sexpr list \<Rightarrow> string" where
  "emit_file ts = join_with newline (map emit_sexpr ts) @ [newline]"
section \<open>What one token does\<close>

text \<open>
  \<open>consumes pre s post st st'\<close>: with \<open>s\<close> ahead of it, between \<open>pre\<close> and \<open>post\<close>, the reader goes
  over \<open>s\<close> and on, and its stack goes from \<open>st\<close> to \<open>st'\<close>.
\<close>

definition consumes :: "string \<Rightarrow> string \<Rightarrow> string \<Rightarrow> stack \<Rightarrow> stack \<Rightarrow> bool" where
  "consumes pre s post st st' \<longleftrightarrow>
    parse_loop (pre @ s @ post) (length pre) st = parse_loop (pre @ s @ post) (length pre + length s) st'"

lemma consumes_empty: "consumes pre [] post st st"
  by (simp add: consumes_def)

lemma consumes_append:
  "consumes pre s (t @ post) st st1 \<Longrightarrow> consumes (pre @ s) t post st1 st2 \<Longrightarrow> consumes pre (s @ t) post st st2"
  by (simp add: consumes_def add.assoc)

lemma consumes_step:
  assumes "s \<noteq> []" and "parse_step (pre @ s @ post) (length pre) st = Inr (length pre + length s, st')"
  shows "consumes pre s post st st'"
  unfolding consumes_def using assms by (subst parse_loop.simps) simp

lemma of_char_lit: "(of_char c :: nat) = of_char d \<longleftrightarrow> c = d"
  by simp

lemma skipped_alt: "skipped c \<longleftrightarrow> c = CHR '' '' \<or> c = CHR 0x09 \<or> c = CHR 0x0A \<or> c = CHR 0x0D"
  using of_char_lit [of c "CHR '' ''"] of_char_lit [of c "CHR 0x09"] of_char_lit [of c "CHR 0x0A"]
    of_char_lit [of c "CHR 0x0D"] by (simp add: skipped_def chr_in_def)

lemma consumes_chars:
  "consumes pre ''('' post st ([], fst st # snd st)"
  "consumes pre '')'' post (cur, below # rest) (below @ [SList cur], rest)"
  "skipped c \<Longrightarrow> consumes pre [c] post st st"
  by (rule consumes_step; auto simp: parse_step_def Let_def skipped_alt newline_def)+

lemma newline_skipped: "skipped newline" "skipped (CHR '' '')" "is_delim newline" "is_delim (CHR '' '')" "is_delim (CHR '')'')"
  by (simp_all add: skipped_def chr_in_def newline_def is_delim_def is_space_def)

lemma skipped_delim: "skipped c \<Longrightarrow> is_delim c"
  by (auto simp: skipped_def is_delim_def is_space_def chr_in_def)

definition starts_delim :: "string \<Rightarrow> bool" where
  "starts_delim post \<longleftrightarrow> (case post of [] \<Rightarrow> True | c # _ \<Rightarrow> is_delim c)"

lemma take_token:
  "list_all (\<lambda>c. \<not> is_delim c) s \<Longrightarrow> starts_delim post \<Longrightarrow> takeWhile (\<lambda>c. \<not> is_delim c) (s @ post) = s"
  by (induction s) (auto simp: starts_delim_def split: list.splits)

definition no_comment :: "string \<Rightarrow> string \<Rightarrow> bool" where
  "no_comment pre s \<longleftrightarrow> (hd s = CHR ''#'' \<longrightarrow> pre \<noteq> [] \<and> last pre \<noteq> newline)"

lemma consumes_bare:
  assumes s: "s \<noteq> []" "list_all (\<lambda>c. \<not> is_delim c) s" and p: "starts_delim post" "no_comment pre s"
  shows "consumes pre s post st (add_item (Atom s) st)"
proof (rule consumes_step [OF s(1)])
  obtain c cs where c: "s = c # cs" using s(1) by (cases s) auto
  have d: "\<not> is_delim c" using s(2) c by simp
  have h: "\<not> (c = CHR ''#'' \<and> (pre = [] \<or> (pre @ s @ post) ! (length pre - 1) = newline))"
  proof (cases pre rule: rev_cases)
    case Nil
    then show ?thesis using p(2) c by (simp add: no_comment_def)
  next
    case (snoc ys y)
    then have "(pre @ s @ post) ! (length pre - 1) = y" by (simp add: nth_append)
    then show ?thesis using p(2) c snoc by (simp add: no_comment_def)
  qed
  have n: "(pre @ s @ post) ! length pre = c" by (simp add: c nth_append)
  have t: "takeWhile (\<lambda>c. \<not> is_delim c) (drop (length pre) (pre @ s @ post)) = s"
    using take_token [OF s(2) p(1)] by simp
  show "parse_step (pre @ s @ post) (length pre) st = Inr (length pre + length s, add_item (Atom s) st)"
    using d h skipped_delim [of c] unfolding parse_step_def n t Let_def
    by (auto simp: is_delim_def)
qed

section \<open>Strings in quotes\<close>

fun bare_quote_in :: "nat \<Rightarrow> string \<Rightarrow> bool" where
  "bare_quote_in 0 _ = False"
| "bare_quote_in (Suc k) [] = False"
| "bare_quote_in (Suc k) (c # cs) = (if is_space c then bare_quote_in k cs else c = CHR '')'')"

lemma bare_quote_in: "(case dropWhile is_space (take k s) of [] \<Rightarrow> False | c # _ \<Rightarrow> c = CHR '')'') = bare_quote_in k s"
  by (induction k s rule: bare_quote_in.induct) auto

lemma bare_quote_alt: "bare_quote s = bare_quote_in 3 s"
  by (simp only: bare_quote_def bare_quote_in)

definition printable :: "string \<Rightarrow> bool" where
  "printable s \<longleftrightarrow> list_all (\<lambda>c. 32 \<le> (of_char c :: nat)) s"

lemma json_plain:
  assumes "32 \<le> (of_char c :: nat)"
  shows "json_char c = (if c = CHR 0x22 \<or> c = CHR 0x5C then [CHR 0x5C, c] else [c])"
proof -
  have "(of_char c :: nat) = 0x22 \<longleftrightarrow> c = CHR 0x22" and "(of_char c :: nat) = 0x5C \<longleftrightarrow> c = CHR 0x5C"
    using of_char_lit [of c "CHR 0x22"] of_char_lit [of c "CHR 0x5C"] by simp_all
  then show ?thesis using assms by (auto simp: json_char_def Let_def)
qed
lemma json_bare_quote:
  "printable s \<Longrightarrow> bare_quote_in k (concat (map json_char s) @ CHR 0x22 # post) = bare_quote_in k s"
proof (induction k s rule: bare_quote_in.induct)
  case (2 k)
  then show ?case by (simp add: is_space_def chr_in_def)
next
  case (3 k c cs)
  then have c: "json_char c = (if c = CHR 0x22 \<or> c = CHR 0x5C then [CHR 0x5C, c] else [c])"
    by (intro json_plain) (simp add: printable_def)
  have "\<not> is_space (CHR 0x5C)" "\<not> is_space (CHR 0x22)" by (simp_all add: is_space_def chr_in_def)
  then show ?case using 3 by (auto simp: c printable_def)
qed simp

lemma read_quoted_json:
  "printable s \<Longrightarrow> read_quoted (concat (map json_char s) @ CHR 0x22 # post)
     = Some (s, length (concat (map json_char s)) + 1)"
proof (induction s)
  case (Cons c cs)
  then have c: "json_char c = (if c = CHR 0x22 \<or> c = CHR 0x5C then [CHR 0x5C, c] else [c])"
    by (intro json_plain) (simp add: printable_def)
  from Cons show ?case by (auto simp: c printable_def)
qed simp

lemma consumes_json:
  assumes "printable s" "\<not> bare_quote s"
  shows "consumes pre (json_string s) post st (add_item (Atom s) st)"
proof (rule consumes_step)
  have n: "(pre @ json_string s @ post) ! length pre = CHR 0x22" by (simp add: json_string_def nth_append)
  have d: "drop (length pre + 1) (pre @ json_string s @ post) = concat (map json_char s) @ CHR 0x22 # post"
    by (simp add: json_string_def)
  have b: "\<not> bare_quote (concat (map json_char s) @ CHR 0x22 # post)"
    using assms by (simp add: bare_quote_alt json_bare_quote)
  show "parse_step (pre @ json_string s @ post) (length pre) st
      = Inr (length pre + length (json_string s), add_item (Atom s) st)"
    unfolding parse_step_def n d Let_def using b assms(1)
    by (simp add: read_quoted_json json_string_def)
qed (simp add: json_string_def)

section \<open>Reading back what was written\<close>

text \<open>
  \<open>readable t\<close>: the atoms of \<open>t\<close> survive being written and read: an atom that has to be quoted
  holds no control characters, and does not begin, after at most two spaces, with a closing
  parenthesis.
\<close>

fun readable :: "sexpr \<Rightarrow> bool" where
  "readable (Atom s) = (is_plain s \<or> printable s \<and> \<not> bare_quote s)"
| "readable (SList xs) = list_all readable xs"

fun not_comment :: "sexpr \<Rightarrow> bool" where
  "not_comment (Atom s) = (s = [] \<or> hd s \<noteq> CHR ''#'')"
| "not_comment (SList xs) = True"

lemma emit_nonempty: "emit_sexpr t \<noteq> []"
  by (cases t) (auto simp: json_string_def is_plain_def)

lemma consumes_atom:
  assumes "readable (Atom s)" "starts_delim post" "hd s = CHR ''#'' \<longrightarrow> pre \<noteq> [] \<and> last pre \<noteq> newline"
  shows "consumes pre (emit_sexpr (Atom s)) post st (add_item (Atom s) st)"
proof (cases "is_plain s")
  case True
  then have "s \<noteq> []" "list_all (\<lambda>c. \<not> is_delim c) s" by (auto simp: is_plain_def list.pred_set)
  from consumes_bare [OF this assms(2)] assms(3) True show ?thesis by (simp add: no_comment_def)
next
  case False
  then show ?thesis using assms(1) by (simp add: consumes_json)
qed

lemma consumes_elements:
  assumes "\<And>x pre post cur. x \<in> set xs \<Longrightarrow> starts_delim post \<Longrightarrow> pre \<noteq> [] \<Longrightarrow> last pre \<noteq> newline \<Longrightarrow>
      consumes pre (emit_sexpr x) post (cur, below) (cur @ [x], below)"
    and "pre \<noteq> []" "last pre \<noteq> newline" "starts_delim post"
  shows "consumes pre (join_with (CHR '' '') (map emit_sexpr xs)) post (cur, below) (cur @ xs, below)"
  using assms
proof (induction xs arbitrary: pre cur)
  case Nil
  then show ?case by (simp add: consumes_empty)
next
  case (Cons x ys)
  show ?case
  proof (cases ys)
    case Nil
    then show ?thesis using Cons.prems by simp
  next
    case (Cons y zs)
    have j: "join_with (CHR '' '') (map emit_sexpr (x # ys))
        = emit_sexpr x @ [CHR '' ''] @ join_with (CHR '' '') (map emit_sexpr ys)"
      by (simp add: Cons)
    have "consumes ((pre @ emit_sexpr x) @ [CHR '' '']) (join_with (CHR '' '') (map emit_sexpr ys)) post
        (cur @ [x], below) ((cur @ [x]) @ ys, below)"
      by (rule Cons.IH) (use Cons.prems in \<open>auto simp: newline_def\<close>)
    then have "consumes (pre @ emit_sexpr x) ([CHR '' ''] @ join_with (CHR '' '') (map emit_sexpr ys)) post
        (cur @ [x], below) (cur @ x # ys, below)"
      by (intro consumes_append [OF consumes_chars(3)] newline_skipped) simp
    moreover have "consumes pre (emit_sexpr x) (([CHR '' ''] @ join_with (CHR '' '') (map emit_sexpr ys)) @ post)
        (cur, below) (cur @ [x], below)"
      using Cons.prems by (auto simp: starts_delim_def newline_skipped)
    ultimately show ?thesis unfolding j by (rule consumes_append [rotated])
  qed
qed

lemma consumes_sexpr:
  assumes "readable t" "starts_delim post" "not_comment t \<or> pre \<noteq> [] \<and> last pre \<noteq> newline"
  shows "consumes pre (emit_sexpr t) post (cur, below) (cur @ [t], below)"
  using assms
proof (induction t arbitrary: pre post cur below)
  case (Atom s)
  show ?case
  proof (cases "s = []")
    case True
    then have "emit_sexpr (Atom s) = json_string s" "printable s" "\<not> bare_quote s"
      by (simp_all add: is_plain_def printable_def bare_quote_def)
    then show ?thesis using consumes_json [of s pre post "(cur, below)"] by (simp add: add_item_def)
  next
    case False
    then show ?thesis using consumes_atom [of s post pre "(cur, below)"] Atom by (auto simp: add_item_def)
  qed
next
  case (SList xs)
  let ?in = "join_with (CHR '' '') (map emit_sexpr xs)"
  have el: "consumes (pre @ ''('') ?in ('')'' @ post) ([], cur # below) ([] @ xs, cur # below)"
    by (rule consumes_elements) (use SList in \<open>auto simp: list.pred_set starts_delim_def newline_skipped newline_def\<close>)
  have "consumes ((pre @ ''('') @ ?in) '')'' post (xs, cur # below) (cur @ [SList xs], below)"
    by (rule consumes_chars)
  with el have "consumes (pre @ ''('') (?in @ '')'') post ([], cur # below) (cur @ [SList xs], below)"
    by (intro consumes_append) simp_all
  then have "consumes pre (''('' @ ?in @ '')'') post (cur, below) (cur @ [SList xs], below)"
    by (intro consumes_append [OF consumes_chars(1)]) simp
  then show ?case by simp
qed

lemma consumes_file:
  assumes "list_all readable ts" "list_all not_comment ts"
  shows "consumes pre (emit_file ts) post (cur, []) (cur @ ts, [])"
  using assms
proof (induction ts arbitrary: pre cur)
  case Nil
  then show ?case by (simp add: emit_file_def consumes_chars newline_skipped)
next
  case (Cons t us)
  have "emit_file (t # us) = emit_sexpr t @ [newline] @ (if us = [] then [] else emit_file us)"
    by (cases us) (simp_all add: emit_file_def)
  moreover have "consumes pre (emit_sexpr t) (([newline] @ (if us = [] then [] else emit_file us)) @ post)
      (cur, []) (cur @ [t], [])"
    by (rule consumes_sexpr) (use Cons.prems in \<open>auto simp: starts_delim_def newline_skipped\<close>)
  moreover have "consumes ((pre @ emit_sexpr t) @ [newline]) (if us = [] then [] else emit_file us) post
      (cur @ [t], []) (cur @ t # us, [])"
    using Cons.IH [of "(pre @ emit_sexpr t) @ [newline]" "cur @ [t]"] Cons.prems by (auto simp: consumes_empty)
  then have "consumes (pre @ emit_sexpr t) ([newline] @ (if us = [] then [] else emit_file us)) post
      (cur @ [t], []) (cur @ t # us, [])"
    by (intro consumes_append [OF consumes_chars(3)] newline_skipped)
  ultimately show ?case by (simp only: consumes_append)
qed
lemma parse_end: "parse_loop text (length text) (cur, []) = Some (Inr cur)"
  by (subst parse_loop.simps) simp

text \<open>
  C37: what the session filter writes, the reader reads back: for forms whose atoms hold no control
  characters and are not mistaken for the bare quote of \<open>string_quote\<close>, reading the written file
  gives the same forms, so names with spaces, parentheses, quotes and backslashes survive the
  filter.
\<close>

theorem sexpr_roundtrip:
  assumes "list_all readable ts" "list_all not_comment ts"
  shows "parseSExpr (emit_file ts) = Some (Inr ts)"
  using consumes_file [OF assms, of "[]" "[]" "[]"] parse_end [of "emit_file ts"]
  by (simp add: parseSExpr_def consumes_def)

theorem sexpr_roundtrip_witness:
  "parseSExpr (emit_file [SList [Atom ''session'', Atom ''a (b'', SList [Atom [], Atom [CHR 0x22, CHR 0x5C, CHR '';'']]], Atom ''x''])
    = Some (Inr [SList [Atom ''session'', Atom ''a (b'', SList [Atom [], Atom [CHR 0x22, CHR 0x5C, CHR '';'']]], Atom ''x''])"
  by (rule sexpr_roundtrip) (simp_all add: is_plain_def is_delim_def is_space_def chr_in_def printable_def bare_quote_def)

declare parse_loop.simps [code]

section \<open>Tokens of the DSN writers\<close>

definition quoted :: "string \<Rightarrow> bool" where
  "quoted s \<longleftrightarrow> s = [] \<or> list_ex is_delim s \<or> CHR 0x27 \<in> set s \<or> CHR '';'' \<in> set s"

definition no_double :: "string \<Rightarrow> string" where
  "no_double = map (\<lambda>c. if c = CHR 0x22 then CHR 0x27 else c)"

lemma read_quoted_plain:
  "CHR 0x22 \<notin> set s \<Longrightarrow> CHR 0x5C \<notin> set s \<Longrightarrow> read_quoted (s @ CHR 0x22 # post) = Some (s, length s + 1)"
  by (induction s) auto

lemma no_double_set: "CHR 0x22 \<notin> set (no_double s)" "CHR 0x5C \<in> set (no_double s) \<longleftrightarrow> CHR 0x5C \<in> set s"
  by (auto simp: no_double_def)

lemma no_double_bare: "bare_quote_in k (no_double s @ CHR 0x22 # post) = bare_quote_in k s"
proof (induction k s rule: bare_quote_in.induct)
  case (2 k)
  then show ?case by (simp add: no_double_def is_space_def chr_in_def)
next
  case (3 k c cs)
  have "\<not> is_space (CHR 0x27)" "\<not> is_space (CHR 0x22)" by (simp_all add: is_space_def chr_in_def)
  then show ?case using 3 by (auto simp: no_double_def)
qed simp

lemma consumes_quote:
  assumes "quoted s \<longrightarrow> CHR 0x5C \<notin> set s \<and> \<not> bare_quote s" and "starts_delim post"
    and "hd s = CHR ''#'' \<longrightarrow> pre \<noteq> [] \<and> last pre \<noteq> newline"
  shows "consumes pre (quote s) post st (add_item (Atom (no_double s)) st)"
proof (cases "quoted s")
  case True
  have q: "quote s = CHR 0x22 # no_double s @ [CHR 0x22]"
    using True by (auto simp: quote_def quoted_def no_double_def)
  show ?thesis
  proof (rule consumes_step)
    have n: "(pre @ quote s @ post) ! length pre = CHR 0x22" by (simp add: q nth_append)
    have d: "drop (length pre + 1) (pre @ quote s @ post) = no_double s @ CHR 0x22 # post" by (simp add: q)
    have b: "\<not> bare_quote (no_double s @ CHR 0x22 # post)"
      using assms(1) True by (simp add: bare_quote_alt no_double_bare)
    show "parse_step (pre @ quote s @ post) (length pre) st
        = Inr (length pre + length (quote s), add_item (Atom (no_double s)) st)"
      unfolding parse_step_def n d Let_def using b assms(1) True no_double_set [of s]
      by (simp add: read_quoted_plain q)
  qed (simp add: q)
next
  case False
  then have s: "s \<noteq> []" "list_all (\<lambda>c. \<not> is_delim c) s" "quote s = s"
    by (simp_all add: quoted_def quote_def list.pred_set list_ex_iff)
  have nd: "no_double s = s" unfolding no_double_def
    by (rule map_idI) (use s(2) in \<open>auto simp: list.pred_set is_delim_def\<close>)
  have "no_comment pre s" unfolding no_comment_def by (rule assms(3))
  from consumes_bare [OF s(1,2) assms(2) this] show ?thesis unfolding nd s(3) .
qed

text \<open>
  A form of names written with \<open>quote\<close>, as the DSN writers write it, is read back as the same
  names, with every double quote turned into an apostrophe, when no name that needs quotes holds a
  backslash or begins like the bare quote.
\<close>

theorem quoted_names_roundtrip:
  assumes "\<forall>s \<in> set names. quoted s \<longrightarrow> CHR 0x5C \<notin> set s \<and> \<not> bare_quote s"
  shows "parseSExpr (''('' @ join_with (CHR '' '') (map quote names) @ '')'')
    = Some (Inr [SList (map (\<lambda>s. Atom (no_double s)) names)])"
proof -
  let ?in = "join_with (CHR '' '') (map quote names)"
  have names: "consumes pre (join_with (CHR '' '') (map quote ns)) post (cur, below)
      (cur @ map (\<lambda>s. Atom (no_double s)) ns, below)"
    if "\<forall>s \<in> set ns. quoted s \<longrightarrow> CHR 0x5C \<notin> set s \<and> \<not> bare_quote s"
      "starts_delim post" "pre \<noteq> []" "last pre \<noteq> newline" for ns pre post cur below
    using that
  proof (induction ns arbitrary: pre cur)
    case (Cons s ns)
    show ?case
    proof (cases ns)
      case Nil
      then show ?thesis using consumes_quote [of s post pre "(cur, below)"] Cons.prems by (simp add: add_item_def)
    next
      case (Cons t ts)
      have j: "join_with (CHR '' '') (map quote (s # ns)) = quote s @ [CHR '' ''] @ join_with (CHR '' '') (map quote ns)"
        by (simp add: Cons)
      have "consumes ((pre @ quote s) @ [CHR '' '']) (join_with (CHR '' '') (map quote ns)) post
          (cur @ [Atom (no_double s)], below) ((cur @ [Atom (no_double s)]) @ map (\<lambda>s. Atom (no_double s)) ns, below)"
        by (rule Cons.IH) (use Cons.prems in \<open>auto simp: newline_def\<close>)
      then have a: "consumes (pre @ quote s) ([CHR '' ''] @ join_with (CHR '' '') (map quote ns)) post
          (cur @ [Atom (no_double s)], below) (cur @ map (\<lambda>s. Atom (no_double s)) (s # ns), below)"
        by (intro consumes_append [OF consumes_chars(3)] newline_skipped) simp
      have "consumes pre (quote s) (([CHR '' ''] @ join_with (CHR '' '') (map quote ns)) @ post)
          (cur, below) (cur @ [Atom (no_double s)], below)"
        using consumes_quote [of s _ pre "(cur, below)"] Cons.prems
        by (simp add: add_item_def starts_delim_def newline_skipped)
      from consumes_append [OF this a] show ?thesis unfolding j .
    qed
  qed (simp add: consumes_empty)
  let ?atoms = "map (\<lambda>s. Atom (no_double s)) names"
  have 1: "consumes ([] @ ''('') ?in ('')'' @ []) ([], [[]]) ([] @ ?atoms, [[]])"
    by (rule names) (use assms in \<open>auto simp: starts_delim_def newline_skipped newline_def\<close>)
  have 2: "consumes (([] @ ''('') @ ?in) '')'' [] ([] @ ?atoms, [[]]) ([] @ [SList ([] @ ?atoms)], [])"
    by (rule consumes_chars)
  have 3: "consumes [] ''('' ((?in @ '')'') @ []) ([], []) ([], [[]])"
    using consumes_chars(1) [of "[]" "(?in @ '')'') @ []" "([], [])"] by simp
  have "consumes [] (''('' @ ?in @ '')'') [] ([], []) ([SList ?atoms], [])"
    using consumes_append [OF 3 consumes_append [OF 1 2]] by simp
  then show ?thesis using parse_end [of "''('' @ ?in @ '')''"] by (simp add: parseSExpr_def consumes_def)
qed

theorem quoted_names_roundtrip_witness:
  "parseSExpr (''('' @ join_with (CHR '' '') (map quote [''net'', ''+5 V'', [CHR 0x22], [], ''#1'']) @ '')'')
    = Some (Inr [SList (map (\<lambda>s. Atom (no_double s)) [''net'', ''+5 V'', [CHR 0x22], [], ''#1''])])"
  by (rule quoted_names_roundtrip) code_simp

text \<open>A backslash in a name that needs quotes is lost: the writer does not escape it.\<close>

lemma quote_loses_backslash:
  "parseSExpr (''('' @ quote [CHR ''a'', CHR 0x5C, CHR '' '', CHR ''b''] @ '')'') = Some (Inr [SList [Atom ''a b'']])"
  by code_simp

section \<open>Termination\<close>

text \<open>The white space the tokens stop at and the loop does not skip.\<close>

definition stuck_char :: "char \<Rightarrow> bool" where
  "stuck_char c \<longleftrightarrow> is_space c \<and> \<not> skipped c"

lemma step_progress:
  assumes "i < length text" "\<not> stuck_char (text ! i)" "parse_step text i st = Inr (i', st')"
  shows "i < i'"
proof -
  have d: "drop i text = text ! i # drop (i + 1) text" using assms(1) by (simp add: Cons_nth_drop_Suc)
  have t: "0 < length (takeWhile (\<lambda>c. \<not> is_delim c) (drop i text))"
    if "\<not> skipped (text ! i)" "text ! i \<noteq> CHR ''(''" "text ! i \<noteq> CHR '')''" "text ! i \<noteq> CHR 0x22"
    using that assms(2) by (simp add: d stuck_char_def is_delim_def)
  have c: "0 < length (takeWhile (\<lambda>c. c \<noteq> newline) (drop i text))" if "text ! i = CHR ''#''"
    using that by (simp add: d newline_def)
  show ?thesis using assms(3) t c
    by (auto simp: parse_step_def Let_def split: if_splits list.splits option.splits)
qed

lemma loop_ends:
  "list_all (\<lambda>c. \<not> stuck_char c) text \<Longrightarrow> \<exists>r. parse_loop text i st = Some r"
proof (induction "length text - i" arbitrary: i st rule: less_induct)
  case less
  show ?case
  proof (cases "i < length text")
    case True
    show ?thesis
    proof (cases "parse_step text i st")
      case (Inl e)
      then show ?thesis using True by (subst parse_loop.simps) simp
    next
      case (Inr q)
      obtain i' st' where q: "q = (i', st')" by (cases q)
      have "\<not> stuck_char (text ! i)" using True less.prems by (auto simp: list.pred_set)
      then have "i < i'" using step_progress [OF True _ Inr [unfolded q]] by blast
      then have "\<exists>r. parse_loop text i' st' = Some r"
        using True by (intro less.hyps less.prems) simp
      then show ?thesis using True Inr q by (subst parse_loop.simps) simp
    qed
  next
    case False
    then show ?thesis by (subst parse_loop.simps) auto
  qed
qed

lemma loop_stuck:
  assumes "parse_loop text i st = Some r" and "i < length text" and "stuck_char (text ! i)"
  shows False
proof -
  have "i < length text \<longrightarrow> \<not> stuck_char (text ! i)"
  proof (rule parse_loop.raw_induct [where P = "\<lambda>text i st r. i < length text \<longrightarrow> \<not> stuck_char (text ! i)", OF _ assms(1)])
    fix f :: "string \<Rightarrow> nat \<Rightarrow> stack \<Rightarrow> (syntax_error + sexpr list) option" and "text" i st r
    assume ih: "\<And>text i st r. f text i st = Some r \<Longrightarrow> i < length text \<longrightarrow> \<not> stuck_char (text ! i)"
      and b: "(if i < length text then
                 case parse_step text i st of Inl e \<Rightarrow> Some (Inl e) | Inr (i', st') \<Rightarrow> f text i' st'
               else if snd st \<noteq> [] then Some (Inl MissingClose) else Some (Inr (fst st))) = Some r"
    show "i < length text \<longrightarrow> \<not> stuck_char (text ! i)"
    proof (intro impI notI)
      assume i: "i < length text" and s: "stuck_char (text ! i)"
      have "parse_step text i st = Inr (i, add_item (Atom []) st)"
        using s i by (auto simp: parse_step_def Let_def stuck_char_def is_delim_def is_space_def chr_in_def
          skipped_def newline_def Cons_nth_drop_Suc [symmetric])
      then have "f text i (add_item (Atom []) st) = Some r" using b i by simp
      then show False using ih i s by blast
    qed
  qed
  then show False using assms by blast
qed

text \<open>
  C40: the reader ends on every text without the white space characters its tokens stop at but its
  loop does not skip (vertical tab, form feed, no-break space), whatever the parentheses and quotes
  are; with such a character after forms it has read, it never ends.
\<close>

theorem sexpr_reader_ends:
  "(if list_all (\<lambda>c. \<not> stuck_char c) text then \<exists>r. parseSExpr text = Some r else True)
   \<and> (if list_all readable ts \<and> list_all not_comment ts \<and> stuck_char c
      then parseSExpr (emit_file ts @ c # post) = None else True)"
proof -
  have "parseSExpr (emit_file ts @ c # post) = None"
    if "list_all readable ts" "list_all not_comment ts" "stuck_char c"
  proof -
    have "parseSExpr (emit_file ts @ c # post) = parse_loop (emit_file ts @ c # post) (length (emit_file ts)) (ts, [])"
      using consumes_file [OF that(1,2), of "[]" "c # post" "[]"] by (simp add: consumes_def parseSExpr_def)
    moreover have "parse_loop (emit_file ts @ c # post) (length (emit_file ts)) (ts, []) = None"
      using loop_stuck [of "emit_file ts @ c # post" "length (emit_file ts)" "(ts, [])"] that(3)
      by (cases "parse_loop (emit_file ts @ c # post) (length (emit_file ts)) (ts, [])") auto
    ultimately show ?thesis by simp
  qed
  then show ?thesis using loop_ends [of "text" 0 "([], [])"] by (simp add: parseSExpr_def)
qed
end
