(* ===== verification/RouteTypes.thy ===== *)
theory RouteTypes
  imports JsonValues
begin

text \<open>
  The router's data (\<open>src/packages/router/src/types.ts\<close>): what is read from a board, what a router
  is asked for and what it returns, as the interfaces of the source have them.

  Numbers are the rationals: the code computes with doubles, whose rounding is not modelled, and
  nearly all of its numbers are whole nanometres far below \<open>2 ^ 53\<close>. Where the code looks at whether
  a number is finite, it is a \<open>js_number\<close>. A board layer is its number in the enumeration.
\<close>

section \<open>Numbers\<close>

text \<open>\<open>Math.round\<close>: to the nearest integer, halves up.\<close>

definition round_half_up :: "num \<Rightarrow> num" where
  "round_half_up x = of_int (floor (x + 1 / 2))"

fun js_round :: "js_number \<Rightarrow> js_number" where
  "js_round (Fin x) = Fin (round_half_up x)"
| "js_round v = v"

fun js_neg :: "js_number \<Rightarrow> js_number" where
  "js_neg (Fin x) = Fin (- x)"
| "js_neg (Infinite pos) = Infinite (\<not> pos)"
| "js_neg NaN = NaN"

fun js_mul :: "js_number \<Rightarrow> js_number \<Rightarrow> js_number" where
  "js_mul NaN v = NaN"
| "js_mul v NaN = NaN"
| "js_mul (Fin x) (Fin y) = Fin (x * y)"
| "js_mul (Infinite p) (Fin y) = (if y = 0 then NaN else Infinite (p = (0 < y)))"
| "js_mul (Fin x) (Infinite q) = (if x = 0 then NaN else Infinite ((0 < x) = q))"
| "js_mul (Infinite p) (Infinite q) = Infinite (p = q)"

fun js_eq :: "js_number \<Rightarrow> js_number \<Rightarrow> bool" where
  "js_eq NaN v = False"
| "js_eq v w = (v = w)"

text \<open>\<open>v || w\<close>: zero and NaN are falsy.\<close>

definition js_or :: "js_number \<Rightarrow> js_number \<Rightarrow> js_number" where
  "js_or v w = (if v = Fin 0 \<or> v = NaN then w else v)"

text \<open>\<open>Math.abs(v - w) <= tol\<close>\<close>

fun js_near :: "num \<Rightarrow> js_number \<Rightarrow> js_number \<Rightarrow> bool" where
  "js_near tol (Fin x) (Fin y) = (\<bar>x - y\<bar> \<le> tol)"
| "js_near tol v w = False"

lemma round_half_up_int: "round_half_up (of_int n) = of_int n"
proof -
  have "floor (of_int n + 1 / 2 :: num) = n" by linarith
  then show ?thesis by (simp add: round_half_up_def)
qed

lemma round_half_up_ge: "of_int n \<le> x \<Longrightarrow> of_int n \<le> round_half_up x"
  unfolding round_half_up_def by (simp add: le_floor_iff)

lemma round_half_up_near: "\<bar>round_half_up x - x\<bar> \<le> 1 / 2"
  unfolding round_half_up_def by linarith

lemma within_sym: "js_near tol v w = js_near tol w v"
  by (cases v; cases w) (simp_all add: abs_minus_commute)

section \<open>Geometry\<close>

record 'a vec2 =
  vx :: 'a
  vy :: 'a

record box =
  bx :: num
  by' :: num
  bw :: num
  bh :: num

type_synonym layer = nat
type_synonym polygon = "num vec2 list"

section \<open>The board\<close>

record route_layer =
  rl_id :: layer
  rl_name :: string
  rl_userName :: string
  rl_index :: nat

record route_net =
  rn_name :: string
  rn_code :: nat
  rn_netClass :: string

datatype pad_shape = Circle | Rect | Oval | Roundrect | Trapezoid | Chamferedrect | Custom

record route_pad =
  rp_id :: string
  rp_footprint :: string
  rp_number :: string
  rp_net :: string
  rp_netCode :: nat
  rp_position :: "num vec2"
  rp_size :: "num vec2"
  rp_shape :: pad_shape
  rp_rotation :: num
  rp_layers :: "layer list"
  rp_through :: bool
  rp_nonPlated :: bool
  rp_drillSize :: "num vec2 option"
  rp_drill :: num
  rp_clearance :: "num option"
  rp_bounds :: "box option"
  rp_cornerRadius :: "num option"
  rp_unsupported :: bool

record route_track =
  rt_unsupported :: bool
  rt_id :: string
  rt_net :: string
  rt_netCode :: nat
  rt_start :: "num vec2"
  rt_end :: "num vec2"
  rt_width :: num
  rt_layer :: layer

record route_via =
  rv_id :: string
  rv_net :: string
  rv_netCode :: nat
  rv_position :: "num vec2"
  rv_diameter :: num
  rv_drill :: num
  rv_layers :: "layer list"

record route_keepout =
  rk_id :: string
  rk_name :: string
  rk_layers :: "layer list"
  rk_polygon :: polygon
  rk_tracks :: bool
  rk_vias :: bool
  rk_copper :: bool

record route_zone =
  rz_id :: string
  rz_name :: string
  rz_net :: string
  rz_netCode :: nat
  rz_layers :: "layer list"
  rz_polygon :: polygon
  rz_fills :: "(layer \<times> polygon list) list"

datatype obstacle_kind = TextCopper | ShapeCopper | OtherCopper

record route_obstacle =
  ro_id :: string
  ro_kind :: obstacle_kind
  ro_layers :: "layer list"
  ro_bounds :: box
  ro_net :: string

record route_endpoint =
  re_itemId :: string
  re_position :: "num vec2"
  re_layers :: "layer list"

record route_connection =
  rc_net :: string
  rc_netCode :: nat
  rc_from :: route_endpoint
  rc_to :: route_endpoint
  rc_length :: num

record net_rules =
  nr_netClass :: string
  nr_clearance :: num
  nr_trackWidth :: num
  nr_viaDiameter :: num
  nr_viaDrill :: num

record route_rules =
  rr_minClearance :: num
  rr_minTrackWidth :: num
  rr_minViaDiameter :: num
  rr_minViaDrill :: num
  rr_edgeClearance :: num
  rr_holeToHole :: num
  rr_holeClearance :: "num option"
  rr_minViaAnnularWidth :: "num option"
  rr_default :: net_rules
  rr_perNet :: "(string, net_rules) jmap"

record differential_pair =
  dp_p :: string
  dp_n :: string
  dp_widthMm :: "js_number option"
  dp_gapMm :: "js_number option"
  dp_skewToleranceMm :: "js_number option"

record route_input =
  ri_boardName :: string
  ri_outline :: "polygon list"
  ri_bounds :: box
  ri_copperLayers :: "route_layer list"
  ri_nets :: "route_net list"
  ri_pads :: "route_pad list"
  ri_tracks :: "route_track list"
  ri_vias :: "route_via list"
  ri_keepouts :: "route_keepout list"
  ri_zones :: "route_zone list"
  ri_obstacles :: "route_obstacle list"
  ri_connections :: "route_connection list"
  ri_rules :: route_rules
  ri_differentialPairs :: "differential_pair list option"

definition rulesForNet :: "route_input \<Rightarrow> string \<Rightarrow> net_rules" where
  "rulesForNet input net =
    (case jget (rr_perNet (ri_rules input)) net of
       Some r \<Rightarrow> r
     | None \<Rightarrow> rr_default (ri_rules input))"

section \<open>Requests and results\<close>

record net_request =
  nq_net :: string
  nq_widthMm :: "js_number option"
  nq_viaDiameterMm :: "js_number option"
  nq_viaDrillMm :: "js_number option"

text \<open>The options that bear on the rules; the others only steer a router.\<close>

record rule_options =
  qo_trackWidthMm :: "js_number option"
  qo_clearanceMm :: "js_number option"
  qo_viaDiameterMm :: "js_number option"
  qo_viaDrillMm :: "js_number option"
  qo_viaDiameterNm :: "js_number option"
  qo_viaDrillNm :: "js_number option"
  qo_perNet :: "net_request list option"
  qo_differentialPairs :: "differential_pair list option"

record new_track =
  nt_net :: string
  nt_netCode :: nat
  nt_start :: "js_number vec2"
  nt_end :: "js_number vec2"
  nt_width :: js_number
  nt_layer :: layer

record new_via =
  nv_net :: string
  nv_netCode :: nat
  nv_position :: "js_number vec2"
  nv_diameter :: js_number
  nv_drill :: js_number
  nv_layers :: "layer list"

end
