(* ===== verification/RouteRules.thy ===== *)
theory RouteRules
  imports RouteTypes
begin

text \<open>
  Routing rules (\<open>request-rules.ts\<close>, \<open>pairs.ts\<close> and \<open>specctra/board-rule-floors.ts\<close> of
  \<open>src/packages/router/src\<close>): the overlay a routing request lays over the net rules of the board,
  the differential pairs recognised by net name, and the floors Freerouting's rules are raised to.

  \<open>applyRequestRules\<close> works on the input it is given: its model returns the input as it is left,
  also when it throws. Log lines are values that hold what the line reports.
\<close>

section \<open>Request overlays\<close>

datatype rule_error =
    UnknownNets "string list"
  | DuplicateRules
  | InvalidPair string string
  | ConflictingWidth string
  | InvalidPairDimensions string string
  | InvalidDimensions string
  | InvalidClearance
  | DrillNotSmaller string

datatype rule_key = TrackWidth | ViaDiameter | ViaDrill | Clearance

datatype rule_log =
    Raised string rule_key num num
  | Effective string net_rules
  | PairLog differential_pair bool

definition js_neq :: "js_number \<Rightarrow> js_number \<Rightarrow> bool" where
  "js_neq a b \<longleftrightarrow> a = NaN \<or> b = NaN \<or> a \<noteq> b"

fun is_positive :: "js_number option \<Rightarrow> bool" where
  "is_positive None = True"
| "is_positive (Some (Fin v)) = (0 < v)"
| "is_positive (Some _) = False"

fun not_negative :: "js_number option \<Rightarrow> bool" where
  "not_negative None = True"
| "not_negative (Some (Fin v)) = (0 \<le> v)"
| "not_negative (Some _) = False"

fun js_scale :: "num \<Rightarrow> js_number \<Rightarrow> js_number" where
  "js_scale k (Fin v) = Fin (k * v)"
| "js_scale k v = v"

fun fin_value :: "js_number \<Rightarrow> num" where
  "fin_value (Fin v) = v"
| "fin_value _ = 0"

fun or_else :: "'a option \<Rightarrow> 'a option \<Rightarrow> 'a option" where
  "or_else (Some x) _ = Some x"
| "or_else None y = y"

text \<open>A pair and whether the request named it (the code asks by identity).\<close>

type_synonym pair = "differential_pair \<times> bool"

definition request_pairs :: "route_input \<Rightarrow> rule_options \<Rightarrow> pair list" where
  "request_pairs input opts =
    (let ex = (case qo_differentialPairs opts of None \<Rightarrow> [] | Some ps \<Rightarrow> ps);
         used = concat (map (\<lambda>p. [dp_p p, dp_n p]) ex);
         native = (case ri_differentialPairs input of None \<Rightarrow> [] | Some ps \<Rightarrow> ps) in
     map (\<lambda>p. (p, True)) ex
     @ map (\<lambda>p. (p, False)) (filter (\<lambda>p. dp_p p \<notin> set used \<and> dp_n p \<notin> set used) native))"

definition net_request_of :: "net_request list \<Rightarrow> string \<Rightarrow> net_request option" where
  "net_request_of rs n = find (\<lambda>r. nq_net r = n) rs"

definition width_conflict :: "net_request list \<Rightarrow> pair \<Rightarrow> string \<Rightarrow> bool" where
  "width_conflict rs p n =
    (snd p \<and> (case (Option.bind (net_request_of rs n) nq_widthMm, dp_widthMm (fst p)) of
       (Some w, Some w') \<Rightarrow> js_neq w w'
     | _ \<Rightarrow> False))"

fun check_pairs :: "net_request list \<Rightarrow> pair list \<Rightarrow> string list \<Rightarrow> rule_error option" where
  "check_pairs rs [] members = None"
| "check_pairs rs (p # ps) members =
    (let a = dp_p (fst p); b = dp_n (fst p) in
     if a = b \<or> a \<in> set members \<or> b \<in> set members then Some (InvalidPair a b)
     else if width_conflict rs p a then Some (ConflictingWidth a)
     else if width_conflict rs p b then Some (ConflictingWidth b)
     else if \<not> not_negative (dp_gapMm (fst p)) \<or> \<not> not_negative (dp_skewToleranceMm (fst p)) then
       Some (InvalidPairDimensions a b)
     else check_pairs rs ps (a # b # members))"

definition pair_of :: "pair list \<Rightarrow> string \<Rightarrow> pair option" where
  "pair_of ps n = find (\<lambda>p. dp_p (fst p) = n \<or> dp_n (fst p) = n) ps"

definition width_request :: "rule_options \<Rightarrow> net_request list \<Rightarrow> pair list \<Rightarrow> string \<Rightarrow> js_number option" where
  "width_request opts rs ps n =
    or_else (Option.bind (net_request_of rs n) nq_widthMm)
      (case pair_of ps n of
         None \<Rightarrow> qo_trackWidthMm opts
       | Some (p, ex) \<Rightarrow> if ex then or_else (dp_widthMm p) (qo_trackWidthMm opts)
                        else or_else (qo_trackWidthMm opts) (dp_widthMm p))"

definition diameter_request :: "rule_options \<Rightarrow> net_request list \<Rightarrow> string \<Rightarrow> js_number option" where
  "diameter_request opts rs n =
    or_else (Option.bind (net_request_of rs n) nq_viaDiameterMm)
      (or_else (qo_viaDiameterMm opts) (map_option (js_scale (1 / 10 ^ 6)) (qo_viaDiameterNm opts)))"

definition drill_request :: "rule_options \<Rightarrow> net_request list \<Rightarrow> string \<Rightarrow> js_number option" where
  "drill_request opts rs n =
    or_else (Option.bind (net_request_of rs n) nq_viaDrillMm)
      (or_else (qo_viaDrillMm opts) (map_option (js_scale (1 / 10 ^ 6)) (qo_viaDrillNm opts)))"

text \<open>The inner \<open>set\<close>: the rule's new value, if one is asked for, and the log line when it was raised.\<close>

definition set_rule :: "string \<Rightarrow> rule_key \<Rightarrow> js_number option \<Rightarrow> num \<Rightarrow> num \<Rightarrow> num \<times> rule_log list" where
  "set_rule name key v least old =
    (case v of
       None \<Rightarrow> (old, [])
     | Some w \<Rightarrow>
         (let requested = round_half_up (fin_value w * 10 ^ 6); effective = max requested least in
          (effective, if effective \<noteq> requested then [Raised name key requested effective] else [])))"

definition rule_net ::
  "rule_options \<Rightarrow> net_request list \<Rightarrow> pair list \<Rightarrow> route_net \<Rightarrow> route_input \<times> rule_log list \<Rightarrow>
    rule_error + route_input \<times> rule_log list" where
  "rule_net opts rs ps n st =
    (let (input, logs) = st; name = rn_name n; rules = ri_rules input;
         width = width_request opts rs ps name;
         diameter = diameter_request opts rs name;
         drill = drill_request opts rs name in
     if \<not> (is_positive width \<and> is_positive diameter \<and> is_positive drill) then Inl (InvalidDimensions name)
     else if \<not> not_negative (qo_clearanceMm opts) then Inl InvalidClearance
     else if width = None \<and> diameter = None \<and> drill = None \<and> qo_clearanceMm opts = None then Inr st
     else
       (let old = rulesForNet input name;
            (w, l1) = set_rule name TrackWidth width (rr_minTrackWidth rules) (nr_trackWidth old);
            (d, l2) = set_rule name ViaDiameter diameter (rr_minViaDiameter rules) (nr_viaDiameter old);
            (h, l3) = set_rule name ViaDrill drill (rr_minViaDrill rules) (nr_viaDrill old);
            (c, l4) = set_rule name Clearance (qo_clearanceMm opts) (rr_minClearance rules) (nr_clearance old);
            r = \<lparr>nr_netClass = ''fabdesk_net_'' @ digits (rn_code n), nr_clearance = c, nr_trackWidth = w,
                 nr_viaDiameter = d, nr_viaDrill = h\<rparr> in
        if d \<le> h then Inl (DrillNotSmaller name)
        else Inr (input\<lparr>ri_rules := rules\<lparr>rr_perNet := jput name r (rr_perNet rules)\<rparr>\<rparr>,
                  logs @ l1 @ l2 @ l3 @ l4 @ [Effective name r])))"

fun rule_nets ::
  "rule_options \<Rightarrow> net_request list \<Rightarrow> pair list \<Rightarrow> route_net list \<Rightarrow> route_input \<times> rule_log list \<Rightarrow>
    rule_error option \<times> route_input \<times> rule_log list" where
  "rule_nets opts rs ps [] st = (None, st)"
| "rule_nets opts rs ps (n # ns) st =
    (case rule_net opts rs ps n st of
       Inl e \<Rightarrow> (Some e, st)
     | Inr st' \<Rightarrow> rule_nets opts rs ps ns st')"

definition nothing_requested :: "route_input \<Rightarrow> rule_options \<Rightarrow> bool" where
  "nothing_requested input opts \<longleftrightarrow>
    (ri_differentialPairs input = None \<or> ri_differentialPairs input = Some [])
    \<and> (qo_perNet opts = None \<or> qo_perNet opts = Some [])
    \<and> (qo_differentialPairs opts = None \<or> qo_differentialPairs opts = Some [])
    \<and> qo_trackWidthMm opts = None \<and> qo_clearanceMm opts = None \<and> qo_viaDiameterMm opts = None
    \<and> qo_viaDrillMm opts = None \<and> qo_viaDiameterNm opts = None \<and> qo_viaDrillNm opts = None"

definition applyRequestRules :: "route_input \<Rightarrow> rule_options \<Rightarrow> (rule_error + rule_log list) \<times> route_input" where
  "applyRequestRules input opts =
    (if nothing_requested input opts then (Inr [], input)
     else
       (let known = map rn_name (ri_nets input);
            rs = (case qo_perNet opts of None \<Rightarrow> [] | Some rs \<Rightarrow> rs);
            ps = request_pairs input opts;
            bad = filter (\<lambda>n. n \<notin> set known) (map nq_net rs @ concat (map (\<lambda>p. [dp_p (fst p), dp_n (fst p)]) ps)) in
        if bad \<noteq> [] then (Inl (UnknownNets (remdups bad)), input)
        else if \<not> distinct (map nq_net rs) then (Inl DuplicateRules, input)
        else
          (case check_pairs rs ps [] of
             Some e \<Rightarrow> (Inl e, input)
           | None \<Rightarrow>
               (case rule_nets opts rs ps (ri_nets input) (input, []) of
                  (Some e, input', logs) \<Rightarrow> (Inl e, input')
                | (None, input', logs) \<Rightarrow>
                    (Inr (logs @ map (\<lambda>(p, ex). PairLog p ex) ps),
                     input'\<lparr>ri_differentialPairs := Some (map fst ps)\<rparr>)))))"

section \<open>Pairs recognised by name\<close>

text \<open>What the recogniser reads of a net class: its name and, in nanometres, its pair width and gap.\<close>

record pair_class =
  pc_name :: string
  pc_width :: "num option"
  pc_gap :: "num option"

definition lower :: "char \<Rightarrow> char" where
  "lower c = (if (of_char c :: nat) \<in> {65..90} then char_of ((of_char c :: nat) + 32) else c)"

definition is_letter :: "char \<Rightarrow> bool" where
  "is_letter c \<longleftrightarrow> (let n = of_char c :: nat in (65 \<le> n \<and> n \<le> 90) \<or> (97 \<le> n \<and> n \<le> 122))"

definition alnum_key :: "string \<Rightarrow> string" where
  "alnum_key s = filter (\<lambda>c. let n = of_char c :: nat in (97 \<le> n \<and> n \<le> 122) \<or> (48 \<le> n \<and> n \<le> 57)) (map lower s)"

fun is_prefix :: "string \<Rightarrow> string \<Rightarrow> bool" where
  "is_prefix [] _ = True"
| "is_prefix (a # as) [] = False"
| "is_prefix (a # as) (b # bs) = (a = b \<and> is_prefix as bs)"

fun js_includes :: "string \<Rightarrow> string \<Rightarrow> bool" where
  "js_includes [] p = (p = [])"
| "js_includes (c # cs) p = (is_prefix p (c # cs) \<or> js_includes cs p)"

definition ends_with :: "string \<Rightarrow> string \<Rightarrow> bool" where
  "ends_with s suffix \<longleftrightarrow> is_prefix (rev suffix) (rev s)"

text \<open>\<open>/(?:^|[^a-z])(?:diff(?:erential)?|pairs?)(?:$|[^a-z])/i\<close>\<close>

definition word_here :: "string \<Rightarrow> bool" where
  "word_here s = list_ex (\<lambda>w. is_prefix w (map lower s) \<and>
      (case drop (length w) s of [] \<Rightarrow> True | c # _ \<Rightarrow> \<not> is_letter c))
    [''differential'', ''diff'', ''pairs'', ''pair'']"

fun word_after :: "string \<Rightarrow> bool" where
  "word_after [] = False"
| "word_after (c # cs) = ((\<not> is_letter c \<and> word_here cs) \<or> word_after cs)"

definition names_pairs :: "string \<Rightarrow> bool" where
  "names_pairs s = (word_here s \<or> word_after s)"

fun last_segment :: "string \<Rightarrow> string \<Rightarrow> string" where
  "last_segment acc [] = acc"
| "last_segment acc (c # cs) = (if c = CHR ''/'' then last_segment [] cs else last_segment (acc @ [c]) cs)"

definition chop :: "nat \<Rightarrow> string \<Rightarrow> string" where
  "chop k s = take (length s - k) s"

definition pair_stem :: "string \<Rightarrow> string" where
  "pair_stem p =
    (let s = last_segment [] p in
     alnum_key (if ends_with s ''_P'' then chop 2 s
                else if ends_with s ''+'' \<or> ends_with s ''P'' then chop 1 s else s))"

definition pairClass :: "(string, pair_class) jmap \<Rightarrow> string \<Rightarrow> string \<Rightarrow> pair_class option" where
  "pairClass classes p net =
    (case jget classes net of
       None \<Rightarrow> None
     | Some c \<Rightarrow>
         (let key = alnum_key (pc_name c) in
          if names_pairs (pc_name c)
            \<or> key \<notin> set [''default'', ''power'', ''signal'', ''signals''] \<and> 2 \<le> length key \<and> js_includes (pair_stem p) key
          then Some c else None))"

definition to_mm :: "num \<Rightarrow> js_number option" where
  "to_mm v = Some (Fin (v / 10 ^ 6))"

definition native_pair :: "(string, pair_class) jmap \<Rightarrow> string \<Rightarrow> string \<Rightarrow> differential_pair" where
  "native_pair classes p n =
    (let pc = pairClass classes p p; nc = pairClass classes p n;
         width = or_else (Option.bind pc pc_width) (Option.bind nc pc_width);
         gap = or_else (Option.bind pc pc_gap) (Option.bind nc pc_gap) in
     \<lparr>dp_p = p, dp_n = n,
      dp_widthMm = (case width of Some w \<Rightarrow> if 0 < w then to_mm w else None | None \<Rightarrow> None),
      dp_gapMm = (case gap of Some g \<Rightarrow> to_mm g | None \<Rightarrow> None),
      dp_skewToleranceMm = None\<rparr>)"

definition pair_suffixes :: "(string \<times> string) list" where
  "pair_suffixes = [(''_P'', ''_N''), (''+'', ''-''), (''DP'', ''DN'')]"

definition negative_of :: "string list \<Rightarrow> string list \<Rightarrow> string \<Rightarrow> string option" where
  "negative_of known used p =
    (case List.map_filter (\<lambda>(pos, neg).
        let n = chop (length pos) p @ neg in
        if ends_with p pos \<and> n \<in> set known \<and> n \<notin> set used then Some n else None) pair_suffixes of
       [] \<Rightarrow> None
     | n # _ \<Rightarrow> Some n)"

fun detect_loop ::
  "string list \<Rightarrow> (string, pair_class) jmap \<Rightarrow> string list \<Rightarrow> string list \<Rightarrow> differential_pair list" where
  "detect_loop known classes used [] = []"
| "detect_loop known classes used (p # ps) =
    (if p \<in> set used then detect_loop known classes used ps
     else
       (case negative_of known used p of
          None \<Rightarrow> detect_loop known classes used ps
        | Some n \<Rightarrow> native_pair classes p n # detect_loop known classes (p # n # used) ps))"

definition detectDifferentialPairs :: "string list \<Rightarrow> (string, pair_class) jmap \<Rightarrow> differential_pair list" where
  "detectDifferentialPairs names classes = detect_loop names classes [] names"

section \<open>Floors for Freerouting\<close>

definition floor_rules :: "route_rules \<Rightarrow> net_rules \<Rightarrow> net_rules" where
  "floor_rules m r =
    (let viaDrill = max (nr_viaDrill r) (rr_minViaDrill m);
         ring = (case rr_minViaAnnularWidth m of None \<Rightarrow> 0 | Some a \<Rightarrow> a) in
     r\<lparr>nr_clearance := max (nr_clearance r) (rr_minClearance m),
       nr_trackWidth := max (nr_trackWidth r) (rr_minTrackWidth m),
       nr_viaDrill := viaDrill,
       nr_viaDiameter := max (max (nr_viaDiameter r) (rr_minViaDiameter m)) (viaDrill + 2 * ring)\<rparr>)"

definition freeroutingRuleInput :: "route_input \<Rightarrow> route_input" where
  "freeroutingRuleInput input =
    (let m = ri_rules input in
     input\<lparr>ri_rules := m\<lparr>rr_default := floor_rules m (rr_default m),
       rr_perNet := map (\<lambda>(n, r). (n, floor_rules m r)) (rr_perNet m)\<rparr>\<rparr>)"

section \<open>What an accepted request does\<close>

definition requested :: "rule_options \<Rightarrow> net_request list \<Rightarrow> pair list \<Rightarrow> string \<Rightarrow> bool" where
  "requested opts rs ps n \<longleftrightarrow> width_request opts rs ps n \<noteq> None \<or> diameter_request opts rs n \<noteq> None
    \<or> drill_request opts rs n \<noteq> None \<or> qo_clearanceMm opts \<noteq> None"

definition overlay :: "js_number option \<Rightarrow> num \<Rightarrow> num \<Rightarrow> num" where
  "overlay v least old = (case v of None \<Rightarrow> old | Some w \<Rightarrow> max (round_half_up (fin_value w * 10 ^ 6)) least)"

lemma set_rule_value: "fst (set_rule name key v least old) = overlay v least old"
  by (simp add: set_rule_def overlay_def Let_def split: option.split)

definition overlaid :: "rule_options \<Rightarrow> net_request list \<Rightarrow> pair list \<Rightarrow> route_rules \<Rightarrow> string \<Rightarrow> net_rules \<Rightarrow> net_rules \<Rightarrow> bool" where
  "overlaid opts rs ps m n old new \<longleftrightarrow>
    nr_trackWidth new = overlay (width_request opts rs ps n) (rr_minTrackWidth m) (nr_trackWidth old)
    \<and> nr_viaDiameter new = overlay (diameter_request opts rs n) (rr_minViaDiameter m) (nr_viaDiameter old)
    \<and> nr_viaDrill new = overlay (drill_request opts rs n) (rr_minViaDrill m) (nr_viaDrill old)
    \<and> nr_clearance new = overlay (qo_clearanceMm opts) (rr_minClearance m) (nr_clearance old)
    \<and> nr_viaDrill new < nr_viaDiameter new"

definition net_done :: "rule_options \<Rightarrow> net_request list \<Rightarrow> pair list \<Rightarrow> route_input \<Rightarrow> route_input \<Rightarrow> route_net \<Rightarrow> bool" where
  "net_done opts rs ps input input' n \<longleftrightarrow>
    (if requested opts rs ps (rn_name n)
     then overlaid opts rs ps (ri_rules input) (rn_name n) (rulesForNet input (rn_name n)) (rulesForNet input' (rn_name n))
     else rulesForNet input' (rn_name n) = rulesForNet input (rn_name n))"

text \<open>The part of the input the overlay never touches.\<close>

definition bare_input :: "route_input \<Rightarrow> route_input" where
  "bare_input input = input\<lparr>ri_rules := (ri_rules input)\<lparr>rr_perNet := []\<rparr>\<rparr>"

lemma bare_rules:
  assumes "bare_input a = bare_input b"
  shows "rr_minTrackWidth (ri_rules a) = rr_minTrackWidth (ri_rules b)"
    "rr_minViaDiameter (ri_rules a) = rr_minViaDiameter (ri_rules b)"
    "rr_minViaDrill (ri_rules a) = rr_minViaDrill (ri_rules b)"
    "rr_minClearance (ri_rules a) = rr_minClearance (ri_rules b)"
proof -
  have r: "(ri_rules a)\<lparr>rr_perNet := []\<rparr> = (ri_rules b)\<lparr>rr_perNet := []\<rparr>"
    using arg_cong [OF assms, of ri_rules] by (simp add: bare_input_def)
  show "rr_minTrackWidth (ri_rules a) = rr_minTrackWidth (ri_rules b)"
    "rr_minViaDiameter (ri_rules a) = rr_minViaDiameter (ri_rules b)"
    "rr_minViaDrill (ri_rules a) = rr_minViaDrill (ri_rules b)"
    "rr_minClearance (ri_rules a) = rr_minClearance (ri_rules b)"
    using arg_cong [OF r, of rr_minTrackWidth] arg_cong [OF r, of rr_minViaDiameter]
      arg_cong [OF r, of rr_minViaDrill] arg_cong [OF r, of rr_minClearance] by simp_all
qed

definition overlay_rules :: "rule_options \<Rightarrow> net_request list \<Rightarrow> pair list \<Rightarrow> route_input \<Rightarrow> route_net \<Rightarrow> net_rules" where
  "overlay_rules opts rs ps input n =
    (let old = rulesForNet input (rn_name n); m = ri_rules input in
     \<lparr>nr_netClass = ''fabdesk_net_'' @ digits (rn_code n),
      nr_clearance = overlay (qo_clearanceMm opts) (rr_minClearance m) (nr_clearance old),
      nr_trackWidth = overlay (width_request opts rs ps (rn_name n)) (rr_minTrackWidth m) (nr_trackWidth old),
      nr_viaDiameter = overlay (diameter_request opts rs (rn_name n)) (rr_minViaDiameter m) (nr_viaDiameter old),
      nr_viaDrill = overlay (drill_request opts rs (rn_name n)) (rr_minViaDrill m) (nr_viaDrill old)\<rparr>)"

lemma rule_net_result:
  assumes "rule_net opts rs ps n (input, logs) = Inr (input', logs')"
  shows "is_positive (width_request opts rs ps (rn_name n)) \<and> is_positive (diameter_request opts rs (rn_name n))
    \<and> is_positive (drill_request opts rs (rn_name n)) \<and> not_negative (qo_clearanceMm opts)
    \<and> (if requested opts rs ps (rn_name n)
       then overlaid opts rs ps (ri_rules input) (rn_name n) (rulesForNet input (rn_name n)) (overlay_rules opts rs ps input n)
         \<and> input' = input\<lparr>ri_rules := (ri_rules input)\<lparr>rr_perNet :=
              jput (rn_name n) (overlay_rules opts rs ps input n) (rr_perNet (ri_rules input))\<rparr>\<rparr>
       else input' = input)"
proof (cases "requested opts rs ps (rn_name n)")
  case True
  then have r: "(width_request opts rs ps (rn_name n) = None \<and> diameter_request opts rs (rn_name n) = None
      \<and> drill_request opts rs (rn_name n) = None \<and> qo_clearanceMm opts = None) = False"
    by (auto simp: requested_def)
  show ?thesis using assms True
    unfolding rule_net_def Let_def case_prod_beta fst_conv snd_conv r if_False set_rule_value
    by (simp add: overlaid_def overlay_rules_def Let_def not_le split: if_splits)
next
  case False
  then have r: "(width_request opts rs ps (rn_name n) = None \<and> diameter_request opts rs (rn_name n) = None
      \<and> drill_request opts rs (rn_name n) = None \<and> qo_clearanceMm opts = None) = True"
    by (auto simp: requested_def)
  show ?thesis using assms False
    unfolding rule_net_def Let_def case_prod_beta fst_conv snd_conv r if_True
    by (simp split: if_splits)
qed

lemma rulesForNet_put:
  "rulesForNet (input\<lparr>ri_rules := (ri_rules input)\<lparr>rr_perNet := jput k r (rr_perNet (ri_rules input))\<rparr>\<rparr>) m
    = (if m = k then r else rulesForNet input m)"
  by (simp add: rulesForNet_def split: option.split)

lemma rule_net_effect:
  assumes "rule_net opts rs ps n (input, logs) = Inr (input', logs')"
  shows "net_done opts rs ps input input' n"
    and "m \<noteq> rn_name n \<Longrightarrow> rulesForNet input' m = rulesForNet input m"
    and "bare_input input' = bare_input input"
proof -
  consider (same) "\<not> requested opts rs ps (rn_name n)" "input' = input"
    | (put) r where "requested opts rs ps (rn_name n)"
        "overlaid opts rs ps (ri_rules input) (rn_name n) (rulesForNet input (rn_name n)) r"
        "input' = input\<lparr>ri_rules := (ri_rules input)\<lparr>rr_perNet := jput (rn_name n) r (rr_perNet (ri_rules input))\<rparr>\<rparr>"
    using rule_net_result [OF assms] by (metis (no_types))
  note cases = this
  show "net_done opts rs ps input input' n"
    by (rule cases) (simp_all add: net_done_def rulesForNet_put)
  show "rulesForNet input' m = rulesForNet input m" if "m \<noteq> rn_name n"
    by (rule cases) (use that in \<open>simp_all add: rulesForNet_put\<close>)
  show "bare_input input' = bare_input input"
    by (rule cases) (simp_all add: bare_input_def)
qed

lemma net_done_from:
  "bare_input i1 = bare_input i0 \<Longrightarrow> rulesForNet i1 (rn_name n) = rulesForNet i0 (rn_name n) \<Longrightarrow>
   net_done opts rs ps i1 i2 n \<Longrightarrow> net_done opts rs ps i0 i2 n"
  by (auto simp: net_done_def overlaid_def dest: bare_rules)

lemma net_done_to:
  "rulesForNet i2 (rn_name n) = rulesForNet i1 (rn_name n) \<Longrightarrow> net_done opts rs ps i0 i1 n \<Longrightarrow> net_done opts rs ps i0 i2 n"
  by (simp add: net_done_def)

lemma rule_nets_effect:
  assumes "rule_nets opts rs ps ns (input, logs) = (None, input', logs')" and "distinct (map rn_name ns)"
  shows "(\<forall>n \<in> set ns. net_done opts rs ps input input' n)
    \<and> (\<forall>m. m \<notin> set (map rn_name ns) \<longrightarrow> rulesForNet input' m = rulesForNet input m)
    \<and> bare_input input' = bare_input input"
  using assms
proof (induction ns arbitrary: input logs)
  case (Cons n ns)
  obtain st1 where st1: "rule_net opts rs ps n (input, logs) = Inr st1"
    using Cons.prems(1) by (auto split: sum.splits)
  obtain i1 l1 where q: "st1 = (i1, l1)" by (cases st1)
  note e = rule_net_effect [OF st1 [unfolded q]]
  have ih: "(\<forall>n \<in> set ns. net_done opts rs ps i1 input' n)
      \<and> (\<forall>m. m \<notin> set (map rn_name ns) \<longrightarrow> rulesForNet input' m = rulesForNet i1 m)
      \<and> bare_input input' = bare_input i1"
    by (rule Cons.IH [of i1 l1]) (use Cons.prems st1 q in simp_all)
  have "net_done opts rs ps input input' x" if x: "x \<in> set (n # ns)" for x
  proof (cases "x = n")
    case True
    then show ?thesis using e(1) ih Cons.prems(2) by (auto intro: net_done_to)
  next
    case False
    then have "x \<in> set ns" using x by simp
    moreover have "rn_name x \<noteq> rn_name n"
      using Cons.prems(2) imageI [OF calculation, of rn_name] by (metis distinct.simps(2) list.simps(9) list.set_map)
    ultimately have xs: "x \<in> set ns" "rn_name x \<noteq> rn_name n" by blast+
    show ?thesis by (rule net_done_from [OF e(3) e(2) [OF xs(2)]]) (use ih xs(1) in blast)
  qed
  moreover have "rulesForNet input' m = rulesForNet input m" if "m \<notin> set (map rn_name (n # ns))" for m
    using ih e(2) [of m] that by auto
  ultimately show ?case using ih e(3) by auto
qed simp

lemma rulesForNet_pairs [simp]: "rulesForNet (input\<lparr>ri_differentialPairs := x\<rparr>) m = rulesForNet input m"
  by (simp add: rulesForNet_def split: option.split)

text \<open>
  C36: an accepted routing request. For every net of the board, each dimension somebody asked for is
  the request in whole nanometres, raised to the board's minimum, and each other dimension is what
  it was; where anything was asked for, the via drill ends up smaller than the via; rules of names
  that are no net of the board, and everything else of the input but its pairs, stay as they were.
\<close>

theorem request_rules_effect:
  assumes "applyRequestRules input opts = (Inr logs, input')" and "\<not> nothing_requested input opts"
    and "distinct (map rn_name (ri_nets input))"
    and "rs = (case qo_perNet opts of None \<Rightarrow> [] | Some rs \<Rightarrow> rs)" and "ps = request_pairs input opts"
  shows "(\<forall>n \<in> set (ri_nets input).
      if requested opts rs ps (rn_name n)
      then overlaid opts rs ps (ri_rules input) (rn_name n) (rulesForNet input (rn_name n)) (rulesForNet input' (rn_name n))
      else rulesForNet input' (rn_name n) = rulesForNet input (rn_name n))
    \<and> (\<forall>m. m \<notin> set (map rn_name (ri_nets input)) \<longrightarrow> rulesForNet input' m = rulesForNet input m)
    \<and> bare_input (input'\<lparr>ri_differentialPairs := None\<rparr>) = bare_input (input\<lparr>ri_differentialPairs := None\<rparr>)
    \<and> ri_differentialPairs input' = Some (map fst ps)"
proof -
  obtain i1 l1 where r: "rule_nets opts rs ps (ri_nets input) (input, []) = (None, i1, l1)"
    and i': "input' = i1\<lparr>ri_differentialPairs := Some (map fst ps)\<rparr>"
    using assms(1,2) unfolding applyRequestRules_def assms(4) [symmetric] assms(5) [symmetric] Let_def
    by (auto split: if_splits option.splits prod.splits)
  note e = rule_nets_effect [OF r assms(3)]
  have "bare_input (x\<lparr>ri_differentialPairs := d\<rparr>) = (bare_input x)\<lparr>ri_differentialPairs := d\<rparr>" for x d
    by (simp add: bare_input_def)
  then have b: "bare_input (input'\<lparr>ri_differentialPairs := None\<rparr>) = bare_input (input\<lparr>ri_differentialPairs := None\<rparr>)"
    using e unfolding i' by simp
  have n: "\<forall>n \<in> set (ri_nets input). net_done opts rs ps input input' n"
    and m: "\<forall>m. m \<notin> set (map rn_name (ri_nets input)) \<longrightarrow> rulesForNet input' m = rulesForNet input m"
    using e unfolding i' net_done_def rulesForNet_pairs by blast+
  show ?thesis by (intro conjI n [unfolded net_done_def] m b) (simp add: i')
qed

section \<open>Recognised pairs\<close>

definition pair_members :: "differential_pair list \<Rightarrow> string list" where
  "pair_members ps = concat (map (\<lambda>p. [dp_p p, dp_n p]) ps)"

lemma chop_suffix: "ends_with p s \<Longrightarrow> chop (length s) p @ s = p"
proof -
  have "is_prefix a b \<Longrightarrow> a @ drop (length a) b = b" for a b
    by (induction a b rule: is_prefix.induct) auto
  moreover assume "ends_with p s"
  ultimately have "rev s @ drop (length s) (rev p) = rev p" unfolding ends_with_def by (metis length_rev)
  then have "rev (rev s @ drop (length s) (rev p)) = p" by simp
  then show ?thesis by (simp add: chop_def rev_drop)
qed

lemma negative_of_some:
  assumes "negative_of known used p = Some n"
  shows "n \<in> set known" "n \<notin> set used" "n \<noteq> p"
    "\<exists>base. \<exists>(pos, neg) \<in> set pair_suffixes. p = base @ pos \<and> n = base @ neg"
proof -
  have "List.map_filter f xs = n # ys \<Longrightarrow> \<exists>x \<in> set xs. f x = Some n"
    for f :: "string \<times> string \<Rightarrow> string option" and xs ys
    by (induction xs) (auto simp: List.map_filter_simps split: option.splits)
  moreover obtain ys where "List.map_filter (\<lambda>(pos, neg).
        let n = chop (length pos) p @ neg in
        if ends_with p pos \<and> n \<in> set known \<and> n \<notin> set used then Some n else None) pair_suffixes = n # ys"
    using assms unfolding negative_of_def by (auto split: list.splits)
  ultimately obtain x where "x \<in> set pair_suffixes" "(\<lambda>(pos, neg).
        let n = chop (length pos) p @ neg in
        if ends_with p pos \<and> n \<in> set known \<and> n \<notin> set used then Some n else None) x = Some n"
    by blast
  then obtain pos neg where s: "(pos, neg) \<in> set pair_suffixes" "ends_with p pos" "n = chop (length pos) p @ neg"
    "n \<in> set known" "n \<notin> set used"
    by (auto simp: Let_def split: if_splits prod.splits)
  then show "n \<in> set known" "n \<notin> set used" by blast+
  have p: "chop (length pos) p @ pos = p" by (rule chop_suffix [OF s(2)])
  have "pos \<noteq> neg" using s(1) by (auto simp: pair_suffixes_def)
  then show "n \<noteq> p" using p s(3) by (metis same_append_eq)
  show "\<exists>base. \<exists>(pos, neg) \<in> set pair_suffixes. p = base @ pos \<and> n = base @ neg"
    by (rule exI [of _ "chop (length pos) p"], rule bexI [of _ "(pos, neg)"])
      (unfold case_prod_conv, metis p s(3), rule s(1))
qed
lemma native_pair_fields [simp]: "dp_p (native_pair classes p n) = p" "dp_n (native_pair classes p n) = n"
    "dp_skewToleranceMm (native_pair classes p n) = None"
  by (simp_all add: native_pair_def Let_def)

lemma detect_loop_members:
  "set (pair_members (detect_loop known classes used ps)) \<subseteq> set ps \<union> set known
   \<and> set (pair_members (detect_loop known classes used ps)) \<inter> set used = {}
   \<and> distinct (pair_members (detect_loop known classes used ps))"
proof (induction ps arbitrary: used)
  case (Cons p ps)
  show ?case
  proof (cases "p \<in> set used \<or> negative_of known used p = None")
    case True
    then show ?thesis using Cons.IH [of used] by auto
  next
    case False
    then obtain n where n: "negative_of known used p = Some n" by auto
    note f = negative_of_some [OF n]
    show ?thesis using Cons.IH [of "p # n # used"] False n f by (auto simp: pair_members_def)
  qed
qed (simp add: pair_members_def)

lemma detect_loop_pairs:
  "x \<in> set (detect_loop known classes used ps) \<Longrightarrow>
     dp_skewToleranceMm x = None \<and> (\<exists>base. \<exists>(pos, neg) \<in> set pair_suffixes. dp_p x = base @ pos \<and> dp_n x = base @ neg)
     \<and> x = native_pair classes (dp_p x) (dp_n x)"
proof (induction ps arbitrary: used)
  case (Cons p ps)
  show ?case
  proof (cases "p \<in> set used \<or> negative_of known used p = None")
    case True
    then have "detect_loop known classes used (p # ps) = detect_loop known classes used ps" by auto
    then show ?thesis using Cons.IH [of used] Cons.prems by metis
  next
    case False
    then obtain n where n: "negative_of known used p = Some n" by auto
    show ?thesis
    proof (cases "x = native_pair classes p n")
      case True
      then show ?thesis using negative_of_some(4) [OF n] by simp
    next
      case neq: False
      then have "x \<in> set (detect_loop known classes (p # n # used) ps)" using Cons.prems False n by simp
      then show ?thesis by (rule Cons.IH)
    qed
  qed
qed simp

lemma check_native_pairs:
  "distinct (pair_members ps) \<Longrightarrow> set (pair_members ps) \<inter> set members = {} \<Longrightarrow>
   \<forall>p \<in> set ps. not_negative (dp_gapMm p) \<and> dp_skewToleranceMm p = None \<Longrightarrow>
   check_pairs rs (map (\<lambda>p. (p, False)) ps) members = None"
  by (induction ps arbitrary: members)
    (auto simp: pair_members_def Let_def width_conflict_def)

lemma native_gap:
  "\<forall>net c g. jget classes net = Some c \<and> pc_gap c = Some g \<longrightarrow> 0 \<le> g \<Longrightarrow> not_negative (dp_gapMm (native_pair classes p n))"
proof -
  assume a: "\<forall>net c g. jget classes net = Some c \<and> pc_gap c = Some g \<longrightarrow> 0 \<le> g"
  have g: "0 \<le> g" if "Option.bind (pairClass classes p q) pc_gap = Some g" for q g
  proof -
    note h = that
    obtain c where c: "pairClass classes p q = Some c" "pc_gap c = Some g"
      using h by (cases "pairClass classes p q") simp_all
    then have "jget classes q = Some c"
      unfolding pairClass_def Let_def by (simp split: option.splits if_splits)
    then show ?thesis using a c(2) by blast
  qed
  have "0 \<le> g" if "or_else (Option.bind (pairClass classes p p) pc_gap) (Option.bind (pairClass classes p n) pc_gap) = Some g" for g
    using that g by (cases "Option.bind (pairClass classes p p) pc_gap") auto
  then show ?thesis
    by (cases "or_else (Option.bind (pairClass classes p p) pc_gap) (Option.bind (pairClass classes p n) pc_gap)")
      (simp_all add: native_pair_def Let_def to_mm_def)
qed

text \<open>
  The pairs recognised by name. Each consists of two nets of the board whose names differ only
  in a known pair of suffixes, no net is in two pairs, and a request that names no nets of its own
  never fails because of them: any refusal is about a dimension it asks for.
\<close>

theorem detected_pairs_accepted:
  assumes "ri_differentialPairs input = Some (detectDifferentialPairs (map rn_name (ri_nets input)) classes)"
    and "\<forall>net c g. jget classes net = Some c \<and> pc_gap c = Some g \<longrightarrow> 0 \<le> g"
    and "qo_perNet opts = None" and "qo_differentialPairs opts = None"
    and "applyRequestRules input opts = (res, input')"
  shows "(\<forall>x \<in> set (detectDifferentialPairs (map rn_name (ri_nets input)) classes).
        {dp_p x, dp_n x} \<subseteq> set (map rn_name (ri_nets input))
        \<and> (\<exists>base. \<exists>(pos, neg) \<in> set pair_suffixes. dp_p x = base @ pos \<and> dp_n x = base @ neg))
    \<and> distinct (pair_members (detectDifferentialPairs (map rn_name (ri_nets input)) classes))
    \<and> (case res of Inl e \<Rightarrow> e = InvalidClearance \<or> (\<exists>n. e = InvalidDimensions n \<or> e = DrillNotSmaller n) | Inr _ \<Rightarrow> True)"
proof -
  let ?names = "map rn_name (ri_nets input)"
  let ?ps = "detectDifferentialPairs ?names classes"
  have m: "set (pair_members ?ps) \<subseteq> set ?names" "distinct (pair_members ?ps)"
    using detect_loop_members [of ?names classes "[]" ?names] by (auto simp: detectDifferentialPairs_def)
  have p: "dp_skewToleranceMm x = None" "not_negative (dp_gapMm x)"
      "\<exists>base. \<exists>(pos, neg) \<in> set pair_suffixes. dp_p x = base @ pos \<and> dp_n x = base @ neg"
    if "x \<in> set ?ps" for x
  proof -
    note f = detect_loop_pairs [OF that [unfolded detectDifferentialPairs_def]]
    show "dp_skewToleranceMm x = None"
      "\<exists>base. \<exists>(pos, neg) \<in> set pair_suffixes. dp_p x = base @ pos \<and> dp_n x = base @ neg" using f by blast+
    show "not_negative (dp_gapMm x)" using f native_gap [OF assms(2)] by metis
  qed
  have rp: "request_pairs input opts = map (\<lambda>p. (p, False)) ?ps"
    by (simp add: request_pairs_def assms(1,4) Let_def)
  have c: "check_pairs [] (request_pairs input opts) [] = None"
    unfolding rp by (rule check_native_pairs) (use m p in auto)
  have bad: "filter (\<lambda>n. n \<notin> set ?names)
      (map nq_net [] @ concat (map (\<lambda>p. [dp_p (fst p), dp_n (fst p)]) (request_pairs input opts))) = []"
    using m(1) unfolding rp by (auto simp: pair_members_def filter_empty_conv)
  have nets: "\<exists>n. e = InvalidDimensions n \<or> e = DrillNotSmaller n \<or> e = InvalidClearance"
    if "rule_nets opts [] (request_pairs input opts) ns st = (Some e, st')" for ns st st' e
    using that by (induction ns arbitrary: st) (auto simp: rule_net_def Let_def split: sum.splits if_splits prod.splits)
  have "case res of Inl e \<Rightarrow> e = InvalidClearance \<or> (\<exists>n. e = InvalidDimensions n \<or> e = DrillNotSmaller n) | Inr _ \<Rightarrow> True"
    using assms(5) nets unfolding applyRequestRules_def assms(3) Let_def option.case bad c
    by (auto split: if_splits option.splits prod.splits) blast
  moreover have "{dp_p x, dp_n x} \<subseteq> set ?names" if "x \<in> set ?ps" for x
    using m(1) that by (auto simp: pair_members_def)
  ultimately show ?thesis using m(2) p(3) by blast
qed

section \<open>Floors\<close>

lemma jget_map: "jget (map (\<lambda>(n, r). (n, f r)) m) k = map_option f (jget m k)"
  by (induction m) (auto simp: jget_def)

lemma rules_floored: "rulesForNet (freeroutingRuleInput input) n = floor_rules (ri_rules input) (rulesForNet input n)"
  by (simp add: rulesForNet_def freeroutingRuleInput_def Let_def jget_map split: option.split)

lemma floor_rules_twice: "floor_rules (m\<lparr>rr_default := d, rr_perNet := q\<rparr>) (floor_rules m r) = floor_rules m r"
  by (cases r) (simp add: floor_rules_def Let_def max_def split: option.split)

text \<open>
  The rules Freerouting is given, for any net: no dimension is below the board's minimum or the
  rule's own, a via leaves the required copper ring around its drill, the net class name and rules
  that respect the minimums are kept, and raising twice is raising once.
\<close>

theorem freerouting_floors:
  "let r = rulesForNet input n; f = rulesForNet (freeroutingRuleInput input) n; m = ri_rules input in
    max (nr_clearance r) (rr_minClearance m) = nr_clearance f
    \<and> max (nr_trackWidth r) (rr_minTrackWidth m) = nr_trackWidth f
    \<and> max (nr_viaDrill r) (rr_minViaDrill m) = nr_viaDrill f
    \<and> max (nr_viaDiameter r) (rr_minViaDiameter m) \<le> nr_viaDiameter f
    \<and> 2 * (case rr_minViaAnnularWidth m of None \<Rightarrow> 0 | Some a \<Rightarrow> a) \<le> nr_viaDiameter f - nr_viaDrill f
    \<and> nr_netClass f = nr_netClass r
    \<and> rulesForNet (freeroutingRuleInput (freeroutingRuleInput input)) n = f"
proof -
  have t: "ri_rules (freeroutingRuleInput input) = (ri_rules input)\<lparr>rr_default := floor_rules (ri_rules input) (rr_default (ri_rules input)),
       rr_perNet := map (\<lambda>(n, r). (n, floor_rules (ri_rules input) r)) (rr_perNet (ri_rules input))\<rparr>"
    by (simp add: freeroutingRuleInput_def Let_def)
  have "rulesForNet (freeroutingRuleInput (freeroutingRuleInput input)) n = rulesForNet (freeroutingRuleInput input) n"
    unfolding rules_floored t by (rule floor_rules_twice)
  then show ?thesis unfolding rules_floored Let_def by (simp add: floor_rules_def Let_def)
qed
section \<open>A small board\<close>

definition demo_rules :: net_rules where
  "demo_rules = \<lparr>nr_netClass = ''Default'', nr_clearance = 200000, nr_trackWidth = 250000,
     nr_viaDiameter = 600000, nr_viaDrill = 300000\<rparr>"

definition demo_classes :: "(string, pair_class) jmap" where
  "demo_classes = [(''USB_P'', \<lparr>pc_name = ''USB pair'', pc_width = Some 180000, pc_gap = Some 150000\<rparr>)]"

definition demo_net :: "string \<Rightarrow> nat \<Rightarrow> route_net" where
  "demo_net name c = \<lparr>rn_name = name, rn_code = c, rn_netClass = ''Default''\<rparr>"

definition demo_board :: route_input where
  "demo_board = \<lparr>ri_boardName = ''demo'', ri_outline = [], ri_bounds = \<lparr>bx = 0, by' = 0, bw = 0, bh = 0\<rparr>,
     ri_copperLayers = [\<lparr>rl_id = 3, rl_name = ''BL_F_Cu'', rl_userName = ''F.Cu'', rl_index = 0\<rparr>,
       \<lparr>rl_id = 34, rl_name = ''BL_B_Cu'', rl_userName = ''B.Cu'', rl_index = 1\<rparr>],
     ri_nets = [demo_net ''GND'' 1, demo_net ''USB_P'' 2, demo_net ''USB_N'' 3],
     ri_pads = [], ri_tracks = [], ri_vias = [], ri_keepouts = [], ri_zones = [], ri_obstacles = [], ri_connections = [],
     ri_rules = \<lparr>rr_minClearance = 150000, rr_minTrackWidth = 200000, rr_minViaDiameter = 500000, rr_minViaDrill = 250000,
       rr_edgeClearance = 500000, rr_holeToHole = 250000, rr_holeClearance = None, rr_minViaAnnularWidth = Some 100000,
       rr_default = demo_rules, rr_perNet = []\<rparr>,
     ri_differentialPairs = Some (detectDifferentialPairs [''GND'', ''USB_P'', ''USB_N''] demo_classes)\<rparr>"

definition demo_options :: rule_options where
  "demo_options = \<lparr>qo_trackWidthMm = None, qo_clearanceMm = Some (Fin (1 / 10)), qo_viaDiameterMm = Some (Fin (8 / 10)),
     qo_viaDrillMm = None, qo_viaDiameterNm = None, qo_viaDrillNm = None, qo_perNet = None, qo_differentialPairs = None\<rparr>"

lemma demo_pairs: "detectDifferentialPairs [''GND'', ''USB_P'', ''USB_N''] demo_classes
    = [\<lparr>dp_p = ''USB_P'', dp_n = ''USB_N'', dp_widthMm = Some (Fin (18 / 100)), dp_gapMm = Some (Fin (15 / 100)),
        dp_skewToleranceMm = None\<rparr>]"
  by code_simp

theorem request_rules_effect_witness:
  "case applyRequestRules demo_board demo_options of
     (Inr logs, input') \<Rightarrow>
       nr_trackWidth (rulesForNet input' ''USB_P'') = 200000 \<and> nr_trackWidth (rulesForNet input' ''GND'') = 250000
       \<and> nr_clearance (rulesForNet input' ''GND'') = 150000 \<and> nr_viaDiameter (rulesForNet input' ''GND'') = 800000
       \<and> nr_viaDrill (rulesForNet input' ''GND'') < nr_viaDiameter (rulesForNet input' ''GND'')
   | (Inl e, input') \<Rightarrow> False"
proof -
  let ?r = "applyRequestRules demo_board demo_options"
  have ok: "(case fst ?r of Inl e \<Rightarrow> False | Inr l \<Rightarrow> True)"
    and v: "nr_trackWidth (rulesForNet (snd ?r) ''USB_P'') = 200000" "nr_trackWidth (rulesForNet (snd ?r) ''GND'') = 250000"
      "nr_clearance (rulesForNet (snd ?r) ''GND'') = 150000" "nr_viaDiameter (rulesForNet (snd ?r) ''GND'') = 800000"
    by code_simp+
  then obtain logs input' where r: "?r = (Inr logs, input')" by (cases ?r) (auto split: sum.splits)
  have "\<not> nothing_requested demo_board demo_options" "distinct (map rn_name (ri_nets demo_board))"
    "requested demo_options [] (request_pairs demo_board demo_options) ''GND''"
    by code_simp+
  from request_rules_effect [OF r this(1,2), of "[]" "request_pairs demo_board demo_options"] this(3)
  have "nr_viaDrill (rulesForNet input' ''GND'') < nr_viaDiameter (rulesForNet input' ''GND'')"
    by (simp add: demo_board_def demo_net_def demo_options_def overlaid_def)
  then show ?thesis using v r by simp
qed

theorem detected_pairs_accepted_witness:
  "pair_members (detectDifferentialPairs (map rn_name (ri_nets demo_board)) demo_classes) = [''USB_P'', ''USB_N'']
   \<and> (case fst (applyRequestRules demo_board demo_options) of
       Inl e \<Rightarrow> e = InvalidClearance \<or> (\<exists>n. e = InvalidDimensions n \<or> e = DrillNotSmaller n) | Inr _ \<Rightarrow> True)
   \<and> distinct (pair_members (detectDifferentialPairs (map rn_name (ri_nets demo_board)) demo_classes))"
proof -
  obtain res input' where r: "applyRequestRules demo_board demo_options = (res, input')"
    by (cases "applyRequestRules demo_board demo_options")
  have a: "ri_differentialPairs demo_board = Some (detectDifferentialPairs (map rn_name (ri_nets demo_board)) demo_classes)"
    "qo_perNet demo_options = None" "qo_differentialPairs demo_options = None"
    by (simp_all add: demo_board_def demo_net_def demo_options_def)
  have g: "\<forall>net c g. jget demo_classes net = Some c \<and> pc_gap c = Some g \<longrightarrow> 0 \<le> g"
    by (auto simp: demo_classes_def jget_def)
  have "pair_members (detectDifferentialPairs (map rn_name (ri_nets demo_board)) demo_classes) = [''USB_P'', ''USB_N'']"
    by code_simp
  then show ?thesis using detected_pairs_accepted [OF a(1) g a(2,3) r] r by simp
qed
end
