(* ===== verification/Ses.thy ===== *)
theory Ses
  imports SExpr RouteRules
begin

text \<open>
  Specctra sessions (\<open>src/packages/router/src/specctra/ses.ts\<close> and \<open>session-filter.ts\<close>): reading
  the wires and vias a router wrote, turning them into new items for the board without doubling the
  copper the session echoes, and cutting a session down to its new copper.

  Coordinates and sizes are \<open>js_number\<close>s: an atom that is no number is read as NaN and goes on as
  NaN. A map keyed by \<open>layer\0net\<close> is keyed by the pair.
\<close>

section \<open>Number(text)\<close>

definition digit_of :: "char \<Rightarrow> nat option" where
  "digit_of c = (let n = of_char c :: nat in if 48 \<le> n \<and> n \<le> 57 then Some (n - 48) else None)"

definition is_digit :: "char \<Rightarrow> bool" where
  "is_digit c \<longleftrightarrow> digit_of c \<noteq> None"

fun nat_of_digits :: "nat \<Rightarrow> string \<Rightarrow> nat" where
  "nat_of_digits acc [] = acc"
| "nat_of_digits acc (c # cs) = nat_of_digits (10 * acc + (case digit_of c of None \<Rightarrow> 0 | Some d \<Rightarrow> d)) cs"

fun signed :: "string \<Rightarrow> bool \<times> string" where
  "signed [] = (False, [])"
| "signed (c # cs) = (if c = CHR ''-'' then (True, cs) else if c = CHR ''+'' then (False, cs) else (False, c # cs))"

text \<open>The exponent part of a decimal literal: its value, or nothing when it is malformed.\<close>

definition exponent_of :: "string \<Rightarrow> int option" where
  "exponent_of s =
    (case s of
       [] \<Rightarrow> Some 0
     | c # cs \<Rightarrow>
         if c = CHR ''e'' \<or> c = CHR ''E'' then
           (let (neg, ds) = signed cs in
            if ds = [] \<or> \<not> list_all is_digit ds then None
            else Some (if neg then - int (nat_of_digits 0 ds) else int (nat_of_digits 0 ds)))
         else None)"

definition scale10 :: "num \<Rightarrow> int \<Rightarrow> num" where
  "scale10 x e = (if 0 \<le> e then x * 10 ^ nat e else x / 10 ^ nat (- e))"

definition decimal :: "string \<Rightarrow> js_number" where
  "decimal s =
    (let whole = takeWhile is_digit s; r1 = dropWhile is_digit s;
         (frac, r2) = (case r1 of
            c # cs \<Rightarrow> if c = CHR ''.'' then (takeWhile is_digit cs, dropWhile is_digit cs) else ([], r1)
          | [] \<Rightarrow> ([], [])) in
     if whole = [] \<and> frac = [] then NaN
     else
       (case exponent_of r2 of
          None \<Rightarrow> NaN
        | Some e \<Rightarrow> Fin (scale10 (of_nat (nat_of_digits 0 (whole @ frac))) (e - int (length frac)))))"

text \<open>The literals with a radix prefix are left out; no Specctra file has them.\<close>

definition js_Number :: "string \<Rightarrow> js_number" where
  "js_Number s =
    (let t = trim s in
     if t = [] then Fin 0
     else
       (let (neg, u) = signed t;
            v = (if u = ''Infinity'' then Infinite True else decimal u) in
        if neg then js_neg v else v))"

text \<open>\<open>Number\<close> of an element: a list is converted by joining its elements with commas.\<close>

fun element_text :: "sexpr \<Rightarrow> string" where
  "element_text (Atom s) = s"
| "element_text (SList xs) = join_with (CHR '','') (map element_text xs)"

definition element_number :: "sexpr option \<Rightarrow> js_number" where
  "element_number x = (case x of None \<Rightarrow> NaN | Some e \<Rightarrow> js_Number (element_text e))"

definition elem_at :: "nat \<Rightarrow> 'a list \<Rightarrow> 'a option" where
  "elem_at i xs = (if i < length xs then Some (xs ! i) else None)"

section \<open>Sessions\<close>

record ses_via =
  sv_net :: string
  sv_padstack :: string
  sv_x :: js_number
  sv_y :: js_number

record ses_wire =
  sw_net :: string
  sw_layer :: string
  sw_width :: js_number
  sw_points :: "js_number vec2 list"

record ses_padstack =
  sp_name :: string
  sp_layers :: "string list"
  sp_diameter :: js_number

record ses_placement =
  sl_component :: string
  sl_reference :: string
  sl_x :: js_number
  sl_y :: js_number
  sl_side :: string
  sl_rotation :: js_number

record session =
  se_nmPerUnit :: js_number
  se_padstacks :: "(string, ses_padstack) jmap"
  se_wires :: "ses_wire list"
  se_vias :: "ses_via list"
  se_nets :: "string list"
  se_placements :: "ses_placement list"

definition UNIT_NM :: "(string, num) jmap" where
  "UNIT_NM = [(''um'', 1000), (''mm'', 1000000), (''cm'', 10000000), (''inch'', 25400000), (''mil'', 25400)]"

definition resolutionToNm :: "sexpr list option \<Rightarrow> js_number" where
  "resolutionToNm res =
    (let as = atoms res;
         unit = (case elem_at 0 as of None \<Rightarrow> ''um'' | Some u \<Rightarrow> u);
         perUnit = (case jget UNIT_NM unit of None \<Rightarrow> 1000 | Some k \<Rightarrow> k);
         n = js_or (js_Number (case elem_at 1 as of None \<Rightarrow> ''1'' | Some c \<Rightarrow> c)) (Fin 1) in
     case n of Fin v \<Rightarrow> Fin (perUnit / v) | Infinite _ \<Rightarrow> Fin 0 | NaN \<Rightarrow> NaN)"

definition atom_at :: "nat \<Rightarrow> sexpr list \<Rightarrow> string option" where
  "atom_at i xs = (case elem_at i xs of Some (Atom s) \<Rightarrow> Some s | _ \<Rightarrow> None)"

definition to_nm :: "js_number \<Rightarrow> js_number \<Rightarrow> js_number" where
  "to_nm k v = js_round (js_mul v k)"

fun point_pairs :: "js_number \<Rightarrow> js_number list \<Rightarrow> js_number vec2 list" where
  "point_pairs k (x # y # ns) = \<lparr>vx = to_nm k x, vy = to_nm k (js_neg y)\<rparr> # point_pairs k ns"
| "point_pairs k _ = []"

definition pathOf :: "sexpr list \<Rightarrow> js_number \<Rightarrow> (string \<times> js_number \<times> js_number vec2 list) option" where
  "pathOf path k =
    (case atom_at 1 path of
       None \<Rightarrow> None
     | Some layer \<Rightarrow>
         (let nums = map js_Number (atoms (Some (drop 1 path))) in
          Some (layer, to_nm k (case nums of [] \<Rightarrow> Fin 0 | w # _ \<Rightarrow> w), point_pairs k (drop 1 nums))))"

definition or_empty :: "string option \<Rightarrow> string" where
  "or_empty s = (case s of None \<Rightarrow> [] | Some x \<Rightarrow> x)"

definition padstack_shape :: "js_number \<Rightarrow> sexpr list \<Rightarrow> string list \<times> js_number \<Rightarrow> string list \<times> js_number" where
  "padstack_shape k shape st =
    (case elem_at 1 shape of
       Some (SList geom) \<Rightarrow>
         ((case atom_at 1 geom of None \<Rightarrow> fst st | Some l \<Rightarrow> fst st @ [l]),
          (if atom_at 0 geom = Some ''circle'' then to_nm k (js_or (element_number (elem_at 2 geom)) (Fin 0)) else snd st))
     | _ \<Rightarrow> st)"

definition parse_padstack :: "js_number \<Rightarrow> sexpr list \<Rightarrow> ses_padstack" where
  "parse_padstack k ps =
    (let (layers, diameter) = fold (padstack_shape k) (children (Some ps) ''shape'') ([], Fin 0) in
     \<lparr>sp_name = or_empty (atom_at 1 ps), sp_layers = layers, sp_diameter = diameter\<rparr>)"

definition parse_wire :: "js_number \<Rightarrow> string \<Rightarrow> sexpr list \<Rightarrow> ses_wire option" where
  "parse_wire k net w =
    (case child (Some w) ''path'' of
       None \<Rightarrow> None
     | Some path \<Rightarrow>
         (case pathOf path k of
            Some (layer, width, points) \<Rightarrow>
              if 2 \<le> length points
              then Some \<lparr>sw_net = net, sw_layer = layer, sw_width = width, sw_points = points\<rparr> else None
          | None \<Rightarrow> None))"

definition parse_via :: "js_number \<Rightarrow> string \<Rightarrow> sexpr list \<Rightarrow> ses_via option" where
  "parse_via k net v =
    (case atoms (Some v) of
       padstack # x # y # _ \<Rightarrow>
         if padstack = [] then None
         else Some \<lparr>sv_net = net, sv_padstack = padstack, sv_x = to_nm k (js_Number x), sv_y = to_nm k (js_neg (js_Number y))\<rparr>
     | _ \<Rightarrow> None)"

definition parse_place :: "js_number \<Rightarrow> string \<Rightarrow> sexpr list \<Rightarrow> ses_placement option" where
  "parse_place k component place =
    (let as = atoms (Some place);
         num_at = (\<lambda>i. case elem_at i as of None \<Rightarrow> NaN | Some t \<Rightarrow> js_Number t) in
     case elem_at 0 as of
       None \<Rightarrow> None
     | Some ref \<Rightarrow>
         if ref = [] then None
         else Some \<lparr>sl_component = component, sl_reference = ref,
           sl_x = to_nm k (num_at 1), sl_y = to_nm k (js_neg (num_at 2)),
           sl_side = (case elem_at 3 as of None \<Rightarrow> ''front'' | Some s \<Rightarrow> s),
           sl_rotation = (case elem_at 4 as of None \<Rightarrow> Fin 0 | Some t \<Rightarrow> js_Number t)\<rparr>)"

datatype ses_error = Syntax syntax_error | NotASession

definition net_name :: "sexpr list \<Rightarrow> string" where
  "net_name net = or_empty (atom_at 1 net)"

definition or_list :: "'a option \<Rightarrow> 'a option \<Rightarrow> 'a option" where
  "or_list a b = (case a of None \<Rightarrow> b | Some x \<Rightarrow> Some x)"

definition find_session :: "sexpr list \<Rightarrow> sexpr list option" where
  "find_session forms = map_option elements (find (\<lambda>x. head x = Some ''session'') forms)"

text \<open>Reading the forms of a session.\<close>

definition read_session :: "sexpr list \<Rightarrow> session" where
  "read_session ses =
    (let routes = child (Some ses) ''routes'';
         placement = child (Some ses) ''placement'';
         k = resolutionToNm (or_list (child routes ''resolution'') (child placement ''resolution''));
         nets = children (child routes ''network_out'') ''net'';
         placeNm = resolutionToNm (or_list (child placement ''resolution'') (child routes ''resolution'')) in
     \<lparr>se_nmPerUnit = k,
      se_padstacks = fold (\<lambda>ps m. let p = parse_padstack k ps in jput (sp_name p) p m)
        (children (child routes ''library_out'') ''padstack'') [],
      se_wires = concat (map (\<lambda>net. List.map_filter (parse_wire k (net_name net)) (children (Some net) ''wire'')) nets),
      se_vias = concat (map (\<lambda>net. List.map_filter (parse_via k (net_name net)) (children (Some net) ''via'')) nets),
      se_nets = map net_name nets,
      se_placements = concat (map (\<lambda>comp.
          List.map_filter (parse_place placeNm (or_empty (atom_at 1 comp))) (children (Some comp) ''place''))
        (children placement ''component''))\<rparr>)"

definition session_of :: "sexpr list \<Rightarrow> ses_error + session" where
  "session_of forms = (case find_session forms of None \<Rightarrow> Inl NotASession | Some ses \<Rightarrow> Inr (read_session ses))"

definition parseSes :: "string \<Rightarrow> (ses_error + session) option" where
  "parseSes text =
    (case parseSExpr text of
       None \<Rightarrow> None
     | Some (Inl e) \<Rightarrow> Some (Inl (Syntax e))
     | Some (Inr forms) \<Rightarrow> Some (session_of forms))"

section \<open>New items\<close>

datatype ses_warning = UnknownLayer string | UnknownPadstack string | NotCreatedAgain nat nat

record ses_items =
  si_tracks :: "new_track list"
  si_vias :: "new_via list"
  si_warnings :: "ses_warning list"
  si_routedNets :: "string jset"
  si_echoedTracks :: nat
  si_echoedVias :: nat

definition ECHO_TOLERANCE :: num where
  "ECHO_TOLERANCE = 100"

definition NAME_SIZE_TOLERANCE :: num where
  "NAME_SIZE_TOLERANCE = 500"

definition warnOnce :: "ses_warning \<Rightarrow> ses_items \<Rightarrow> ses_items" where
  "warnOnce m st = (if m \<in> set (si_warnings st) then st else st\<lparr>si_warnings := si_warnings st @ [m]\<rparr>)"

definition layerByName :: "route_input \<Rightarrow> (string, layer) jmap" where
  "layerByName input =
    fold (\<lambda>l m. jput (rl_name l) (rl_id l) (jput (rl_userName l) (rl_id l) m)) (ri_copperLayers input) []"

definition net_codes :: "route_input \<Rightarrow> (string, nat) jmap" where
  "net_codes input = fold (\<lambda>n m. jput (rn_name n) (rn_code n) m) (ri_nets input) []"

definition code_of :: "route_input \<Rightarrow> string \<Rightarrow> nat" where
  "code_of input net = (case jget (net_codes input) net of None \<Rightarrow> 0 | Some c \<Rightarrow> c)"

definition near_pt :: "num vec2 \<Rightarrow> js_number vec2 \<Rightarrow> bool" where
  "near_pt a b \<longleftrightarrow> js_near ECHO_TOLERANCE (Fin (vx a)) (vx b) \<and> js_near ECHO_TOLERANCE (Fin (vy a)) (vy b)"

definition add_existing :: "route_track \<Rightarrow> (layer \<times> string, route_track list) jmap \<Rightarrow> (layer \<times> string, route_track list) jmap" where
  "add_existing t m =
    (let key = (rt_layer t, rt_net t); ts = (case jget m key of None \<Rightarrow> [] | Some ts \<Rightarrow> ts) in
     jput key (if rt_unsupported t then ts else ts @ [t]) m)"

definition existingTracks :: "route_input \<Rightarrow> (layer \<times> string, route_track list) jmap" where
  "existingTracks input = fold add_existing (ri_tracks input) []"

definition same_track :: "route_track \<Rightarrow> js_number vec2 \<Rightarrow> js_number vec2 \<Rightarrow> js_number \<Rightarrow> bool" where
  "same_track t s e width \<longleftrightarrow> js_near ECHO_TOLERANCE (Fin (rt_width t)) width
    \<and> ((near_pt (rt_start t) s \<and> near_pt (rt_end t) e) \<or> (near_pt (rt_start t) e \<and> near_pt (rt_end t) s))"

definition isEchoedTrack :: "route_input \<Rightarrow> layer \<Rightarrow> string \<Rightarrow> js_number vec2 \<Rightarrow> js_number vec2 \<Rightarrow> js_number \<Rightarrow> bool" where
  "isEchoedTrack input layer net s e width =
    list_ex (\<lambda>t. same_track t s e width)
      (case jget (existingTracks input) (layer, net) of None \<Rightarrow> [] | Some ts \<Rightarrow> ts)"

definition isEchoedVia ::
  "route_input \<Rightarrow> string \<Rightarrow> js_number vec2 \<Rightarrow> js_number \<Rightarrow> js_number \<Rightarrow> layer list \<Rightarrow> num \<times> num \<Rightarrow> bool" where
  "isEchoedVia input net position diameter drill layers tol =
    list_ex (\<lambda>v. rv_net v = net \<and> near_pt (rv_position v) position
        \<and> js_near (fst tol) (Fin (rv_diameter v)) diameter \<and> js_near (snd tol) (Fin (rv_drill v)) drill
        \<and> length (rv_layers v) = length layers \<and> list_all (\<lambda>l. l \<in> set layers) (rv_layers v))
      (ri_vias input)"

definition segment_step ::
  "route_input \<Rightarrow> ses_wire \<Rightarrow> layer \<Rightarrow> js_number vec2 \<times> js_number vec2 \<Rightarrow> ses_items \<Rightarrow> ses_items" where
  "segment_step input w layer seg st =
    (let (s, e) = seg; net = sw_net w;
         width = js_or (sw_width w) (Fin (nr_trackWidth (rulesForNet input net))) in
     if js_eq (vx s) (vx e) \<and> js_eq (vy s) (vy e) then st
     else if isEchoedTrack input layer net s e width then st\<lparr>si_echoedTracks := si_echoedTracks st + 1\<rparr>
     else st\<lparr>si_tracks := si_tracks st @ [\<lparr>nt_net = net, nt_netCode = code_of input net, nt_start = s, nt_end = e,
                nt_width = width, nt_layer = layer\<rparr>],
             si_routedNets := sadd net (si_routedNets st)\<rparr>)"

definition segments :: "ses_wire \<Rightarrow> (js_number vec2 \<times> js_number vec2) list" where
  "segments w = zip (sw_points w) (tl (sw_points w))"

definition wire_step :: "route_input \<Rightarrow> ses_wire \<Rightarrow> ses_items \<Rightarrow> ses_items" where
  "wire_step input w st =
    (case jget (layerByName input) (sw_layer w) of
       None \<Rightarrow> warnOnce (UnknownLayer (sw_layer w)) st
     | Some layer \<Rightarrow> fold (segment_step input w layer) (segments w) st)"

text \<open>\<open>/_(\d+):(\d+)_um$/\<close>: the two numbers at the end of a via padstack's name.\<close>

definition size_in_name :: "string \<Rightarrow> (nat \<times> nat) option" where
  "size_in_name s =
    (let r = rev s in
     if take 3 r \<noteq> ''mu_'' then None
     else
       (let r1 = drop 3 r; drill = takeWhile is_digit r1; r2 = dropWhile is_digit r1 in
        case r2 of
          [] \<Rightarrow> None
        | c # r3 \<Rightarrow>
            (let dia = takeWhile is_digit r3; r4 = dropWhile is_digit r3 in
             if c = CHR '':'' \<and> drill \<noteq> [] \<and> dia \<noteq> [] \<and> r4 \<noteq> [] \<and> hd r4 = CHR ''_''
             then Some (nat_of_digits 0 (rev dia), nat_of_digits 0 (rev drill)) else None)))"

definition allLayers :: "route_input \<Rightarrow> layer list" where
  "allLayers input = map rl_id (ri_copperLayers input)"

definition via_size :: "session \<Rightarrow> route_input \<Rightarrow> ses_via \<Rightarrow> js_number \<times> js_number \<times> num \<times> num" where
  "via_size ses input v =
    (let ps = jget (se_padstacks ses) (sv_padstack v); rules = rulesForNet input (sv_net v);
         m = size_in_name (sv_padstack v);
         own = (case ps of None \<Rightarrow> NaN | Some p \<Rightarrow> sp_diameter p);
         named = (own = NaN \<or> own = Fin 0) \<and> m \<noteq> None in
     (js_or own (case m of None \<Rightarrow> Fin (nr_viaDiameter rules) | Some (d, _) \<Rightarrow> Fin (of_nat d * 1000)),
      (case m of None \<Rightarrow> Fin (nr_viaDrill rules) | Some (_, h) \<Rightarrow> Fin (of_nat h * 1000)),
      (if named then NAME_SIZE_TOLERANCE else ECHO_TOLERANCE),
      (if m \<noteq> None then NAME_SIZE_TOLERANCE else ECHO_TOLERANCE)))"

definition via_layers :: "session \<Rightarrow> route_input \<Rightarrow> ses_via \<Rightarrow> layer list" where
  "via_layers ses input v =
    (let ls = List.map_filter (jget (layerByName input))
           (case jget (se_padstacks ses) (sv_padstack v) of None \<Rightarrow> [] | Some p \<Rightarrow> sp_layers p) in
     if length ls < 2 then allLayers input else ls)"

definition via_step :: "session \<Rightarrow> route_input \<Rightarrow> ses_via \<Rightarrow> ses_items \<Rightarrow> ses_items" where
  "via_step ses input v st =
    (let (diameter, drill, tol) = via_size ses input v; layers = via_layers ses input v;
         position = \<lparr>vx = sv_x v, vy = sv_y v\<rparr>; net = sv_net v in
     if isEchoedVia input net position diameter drill layers tol then st\<lparr>si_echoedVias := si_echoedVias st + 1\<rparr>
     else
       (let st = (if jget (se_padstacks ses) (sv_padstack v) = None
                  then warnOnce (UnknownPadstack (sv_padstack v)) st else st) in
        st\<lparr>si_vias := si_vias st @ [\<lparr>nv_net = net, nv_netCode = code_of input net, nv_position = position,
               nv_diameter = diameter, nv_drill = drill, nv_layers = layers\<rparr>],
           si_routedNets := sadd net (si_routedNets st)\<rparr>))"

definition no_items :: ses_items where
  "no_items = \<lparr>si_tracks = [], si_vias = [], si_warnings = [], si_routedNets = [], si_echoedTracks = 0, si_echoedVias = 0\<rparr>"

definition sesToItems :: "session \<Rightarrow> route_input \<Rightarrow> ses_items" where
  "sesToItems ses input =
    (let st = fold (via_step ses input) (se_vias ses) (fold (wire_step input) (se_wires ses) no_items) in
     if si_echoedTracks st \<noteq> 0 \<or> si_echoedVias st \<noteq> 0
     then st\<lparr>si_warnings := si_warnings st @ [NotCreatedAgain (si_echoedTracks st) (si_echoedVias st)]\<rparr>
     else st)"

section \<open>Cutting a session down to its new copper\<close>

datatype filter_error = NoNetworkOut | UnsupportedWire | WireNotDecoded | UnknownWireLayer "ses_warning list" | ViaNotDecoded

fun remove_first :: "('a \<Rightarrow> bool) \<Rightarrow> 'a list \<Rightarrow> 'a list" where
  "remove_first P [] = []"
| "remove_first P (x # xs) = (if P x then xs else x # remove_first P xs)"

fun replace_first :: "('a \<Rightarrow> bool) \<Rightarrow> ('a \<Rightarrow> 'a) \<Rightarrow> 'a list \<Rightarrow> 'a list" where
  "replace_first P f [] = []"
| "replace_first P f (x # xs) = (if P x then f x # xs else x # replace_first P f xs)"

fun is_unknown_layer :: "ses_warning \<Rightarrow> bool" where
  "is_unknown_layer (UnknownLayer _) = True"
| "is_unknown_layer _ = False"

text \<open>
  \<open>String(n / scale)\<close> is the parameter \<open>coord\<close>: how a number is printed is not modelled.
\<close>

definition wire_forms :: "(js_number \<Rightarrow> string) \<Rightarrow> ses_wire \<Rightarrow> sexpr list \<Rightarrow> new_track list \<Rightarrow> sexpr list" where
  "wire_forms coord w wire ts =
    map (\<lambda>t. SList ([Atom ''wire'', SList [Atom ''path'', Atom (sw_layer w), Atom (coord (nt_width t)),
        Atom (coord (vx (nt_start t))), Atom (coord (js_neg (vy (nt_start t)))),
        Atom (coord (vx (nt_end t))), Atom (coord (js_neg (vy (nt_end t))))]]
      @ remove_first (is_form ''path'') (drop 1 wire))) ts"

fun filter_wires ::
  "(js_number \<Rightarrow> string) \<Rightarrow> session \<Rightarrow> route_input \<Rightarrow> ses_wire list \<Rightarrow> nat \<Rightarrow> sexpr list list \<Rightarrow> filter_error + sexpr list" where
  "filter_wires coord parsed input wires i [] = Inr []"
| "filter_wires coord parsed input wires i (wire # rest) =
    (if child (Some wire) ''path'' = None then
       (if child (Some wire) ''polygon'' \<noteq> None \<or> child (Some wire) ''poly'' \<noteq> None
        then filter_wires coord parsed input wires i rest else Inl UnsupportedWire)
     else
       (case elem_at i wires of
          None \<Rightarrow> Inl WireNotDecoded
        | Some w \<Rightarrow>
            (let items = sesToItems (parsed\<lparr>se_wires := [w], se_vias := []\<rparr>) input in
             if list_ex is_unknown_layer (si_warnings items) then Inl (UnknownWireLayer (si_warnings items))
             else
               (case filter_wires coord parsed input wires (i + 1) rest of
                  Inl e \<Rightarrow> Inl e
                | Inr out \<Rightarrow> Inr (wire_forms coord w wire (si_tracks items) @ out)))))"

fun filter_vias :: "session \<Rightarrow> route_input \<Rightarrow> ses_via list \<Rightarrow> nat \<Rightarrow> sexpr list list \<Rightarrow> filter_error + sexpr list" where
  "filter_vias parsed input vias i [] = Inr []"
| "filter_vias parsed input vias i (via # rest) =
    (case elem_at i vias of
       None \<Rightarrow> Inl ViaNotDecoded
     | Some v \<Rightarrow>
         (case filter_vias parsed input vias (i + 1) rest of
            Inl e \<Rightarrow> Inl e
          | Inr out \<Rightarrow>
              Inr (if si_vias (sesToItems (parsed\<lparr>se_wires := [], se_vias := [v]\<rparr>) input) \<noteq> []
                   then SList via # out else out)))"

definition net_text :: "sexpr list \<Rightarrow> string" where
  "net_text net = (case elem_at 1 net of None \<Rightarrow> ''undefined'' | Some x \<Rightarrow> element_text x)"

definition filter_net ::
  "(js_number \<Rightarrow> string) \<Rightarrow> session \<Rightarrow> route_input \<Rightarrow> sexpr list \<Rightarrow> filter_error + sexpr list" where
  "filter_net coord parsed input net =
    (let name = net_text net in
     case filter_wires coord parsed input (filter (\<lambda>w. sw_net w = name) (se_wires parsed)) 0 (children (Some net) ''wire'') of
       Inl e \<Rightarrow> Inl e
     | Inr ws \<Rightarrow>
         (case filter_vias parsed input (filter (\<lambda>v. sv_net v = name) (se_vias parsed)) 0 (children (Some net) ''via'') of
            Inl e \<Rightarrow> Inl e
          | Inr vs \<Rightarrow>
              Inr (if ws @ vs = [] then [] else [SList ([Atom ''net'', Atom name] @ ws @ vs)])))"

fun filter_nets ::
  "(js_number \<Rightarrow> string) \<Rightarrow> session \<Rightarrow> route_input \<Rightarrow> string list option \<Rightarrow> sexpr list list \<Rightarrow> filter_error + sexpr list" where
  "filter_nets coord parsed input wanted [] = Inr []"
| "filter_nets coord parsed input wanted (net # rest) =
    (if (case wanted of Some ns \<Rightarrow> ns \<noteq> [] \<and> net_text net \<notin> set ns | None \<Rightarrow> False)
     then filter_nets coord parsed input wanted rest
     else
       (case filter_net coord parsed input net of
          Inl e \<Rightarrow> Inl e
        | Inr out \<Rightarrow>
            (case filter_nets coord parsed input wanted rest of
               Inl e \<Rightarrow> Inl e
             | Inr outs \<Rightarrow> Inr (out @ outs))))"

definition filter_forms ::
  "(js_number \<Rightarrow> js_number \<Rightarrow> string) \<Rightarrow> sexpr list \<Rightarrow> route_input \<Rightarrow> string list option \<Rightarrow> filter_error + sexpr list" where
  "filter_forms coord tree input nets =
    (case find_session tree of
       None \<Rightarrow> Inl NoNetworkOut
     | Some ses \<Rightarrow>
         (case child (child (Some ses) ''routes'') ''network_out'' of
            None \<Rightarrow> Inl NoNetworkOut
          | Some network \<Rightarrow>
              (let parsed = read_session ses in
               case filter_nets (coord (se_nmPerUnit parsed)) parsed input nets (children (Some network) ''net'') of
                 Inl e \<Rightarrow> Inl e
               | Inr out \<Rightarrow>
                   (let filtered = SList (Atom ''network_out'' # out);
                        new_routes = (\<lambda>r. SList (replace_first (is_form ''network_out'') (\<lambda>_. filtered) (elements r)));
                        new_session = (\<lambda>s. SList (remove_first (is_form ''placement'')
                          (replace_first (is_form ''routes'') new_routes (elements s)))) in
                    Inr (replace_first (\<lambda>x. head x = Some ''session'') new_session tree)))))"

definition filterSessionCopper ::
  "(js_number \<Rightarrow> js_number \<Rightarrow> string) \<Rightarrow> string \<Rightarrow> route_input \<Rightarrow> string list option \<Rightarrow>
    ((syntax_error + filter_error) + string) option" where
  "filterSessionCopper coord text input nets =
    (case parseSExpr text of
       None \<Rightarrow> None
     | Some (Inl e) \<Rightarrow> Some (Inl (Inl e))
     | Some (Inr tree) \<Rightarrow>
         (case filter_forms coord tree input nets of
            Inl e \<Rightarrow> Some (Inl (Inr e))
          | Inr out \<Rightarrow> Some (Inr (emit_file out))))"

section \<open>The items, declaratively\<close>

definition zero_length :: "js_number vec2 \<times> js_number vec2 \<Rightarrow> bool" where
  "zero_length seg \<longleftrightarrow> js_eq (vx (fst seg)) (vx (snd seg)) \<and> js_eq (vy (fst seg)) (vy (snd seg))"

definition wire_width :: "route_input \<Rightarrow> ses_wire \<Rightarrow> js_number" where
  "wire_width input w = js_or (sw_width w) (Fin (nr_trackWidth (rulesForNet input (sw_net w))))"

definition echo_of :: "route_input \<Rightarrow> ses_wire \<Rightarrow> layer \<Rightarrow> js_number vec2 \<times> js_number vec2 \<Rightarrow> bool" where
  "echo_of input w layer seg \<longleftrightarrow>
    (\<exists>t \<in> set (ri_tracks input). rt_layer t = layer \<and> rt_net t = sw_net w \<and> \<not> rt_unsupported t
      \<and> same_track t (fst seg) (snd seg) (wire_width input w))"

definition track_of :: "route_input \<Rightarrow> ses_wire \<Rightarrow> layer \<Rightarrow> js_number vec2 \<times> js_number vec2 \<Rightarrow> new_track" where
  "track_of input w layer seg = \<lparr>nt_net = sw_net w, nt_netCode = code_of input (sw_net w), nt_start = fst seg,
     nt_end = snd seg, nt_width = wire_width input w, nt_layer = layer\<rparr>"

definition new_segments :: "route_input \<Rightarrow> ses_wire \<Rightarrow> layer \<Rightarrow> (js_number vec2 \<times> js_number vec2) list" where
  "new_segments input w layer = filter (\<lambda>s. \<not> zero_length s \<and> \<not> echo_of input w layer s) (segments w)"

definition echo_segments :: "route_input \<Rightarrow> ses_wire \<Rightarrow> layer \<Rightarrow> (js_number vec2 \<times> js_number vec2) list" where
  "echo_segments input w layer = filter (\<lambda>s. \<not> zero_length s \<and> echo_of input w layer s) (segments w)"

definition wire_tracks :: "route_input \<Rightarrow> ses_wire \<Rightarrow> new_track list" where
  "wire_tracks input w =
    (case jget (layerByName input) (sw_layer w) of
       None \<Rightarrow> []
     | Some layer \<Rightarrow> map (track_of input w layer) (new_segments input w layer))"

definition wire_echoes :: "route_input \<Rightarrow> ses_wire \<Rightarrow> nat" where
  "wire_echoes input w =
    (case jget (layerByName input) (sw_layer w) of None \<Rightarrow> 0 | Some layer \<Rightarrow> length (echo_segments input w layer))"

definition tracks_at :: "(layer \<times> string, route_track list) jmap \<Rightarrow> layer \<times> string \<Rightarrow> route_track list" where
  "tracks_at m k = (case jget m k of None \<Rightarrow> [] | Some ts \<Rightarrow> ts)"

lemma add_existing_at:
  "tracks_at (add_existing t m) (l, n)
    = tracks_at m (l, n) @ (if rt_layer t = l \<and> rt_net t = n \<and> \<not> rt_unsupported t then [t] else [])"
  by (simp add: tracks_at_def add_existing_def Let_def)

lemma existing_at:
  "tracks_at (fold add_existing ts m) (l, n)
    = tracks_at m (l, n) @ filter (\<lambda>t. rt_layer t = l \<and> rt_net t = n \<and> \<not> rt_unsupported t) ts"
  by (induction ts arbitrary: m) (simp_all add: add_existing_at)

lemma isEchoedTrack_alt:
  "isEchoedTrack input layer (sw_net w) s e (wire_width input w) = echo_of input w layer (s, e)"
  using existing_at [of "ri_tracks input" "[]" layer "sw_net w"]
  by (auto simp: isEchoedTrack_def existingTracks_def echo_of_def list_ex_iff tracks_at_def)

lemma segment_step_alt:
  "segment_step input w layer seg st =
    (if zero_length seg then st
     else if echo_of input w layer seg then st\<lparr>si_echoedTracks := si_echoedTracks st + 1\<rparr>
     else st\<lparr>si_tracks := si_tracks st @ [track_of input w layer seg], si_routedNets := sadd (sw_net w) (si_routedNets st)\<rparr>)"
  unfolding segment_step_def Let_def case_prod_beta wire_width_def [symmetric] isEchoedTrack_alt
  by (simp add: zero_length_def track_of_def)

lemma segments_fold:
  defines "new \<equiv> \<lambda>input w layer. filter (\<lambda>s. \<not> zero_length s \<and> \<not> echo_of input w layer s)"
  shows "si_tracks (fold (segment_step input w layer) segs st) = si_tracks st @ map (track_of input w layer) (new input w layer segs)"
    and "si_vias (fold (segment_step input w layer) segs st) = si_vias st"
    and "si_warnings (fold (segment_step input w layer) segs st) = si_warnings st"
    and "si_echoedVias (fold (segment_step input w layer) segs st) = si_echoedVias st"
    and "si_echoedTracks (fold (segment_step input w layer) segs st)
      = si_echoedTracks st + length (filter (\<lambda>s. \<not> zero_length s \<and> echo_of input w layer s) segs)"
    and "set (si_routedNets (fold (segment_step input w layer) segs st))
      = set (si_routedNets st) \<union> nt_net ` set (map (track_of input w layer) (new input w layer segs))"
  unfolding new_def by (induction segs arbitrary: st) (auto simp: segment_step_alt track_of_def)

definition add_warning :: "ses_warning list \<Rightarrow> ses_warning \<Rightarrow> ses_warning list" where
  "add_warning ws m = (if m \<in> set ws then ws else ws @ [m])"

lemma wire_step_fields:
  shows "si_tracks (wire_step input w st) = si_tracks st @ wire_tracks input w"
    and "si_vias (wire_step input w st) = si_vias st"
    and "si_echoedVias (wire_step input w st) = si_echoedVias st"
    and "si_echoedTracks (wire_step input w st) = si_echoedTracks st + wire_echoes input w"
    and "set (si_routedNets (wire_step input w st)) = set (si_routedNets st) \<union> nt_net ` set (wire_tracks input w)"
    and "set (si_warnings (wire_step input w st)) = set (si_warnings st)
      \<union> (if jget (layerByName input) (sw_layer w) = None then {UnknownLayer (sw_layer w)} else {})"
  by (auto simp: wire_step_def wire_tracks_def wire_echoes_def new_segments_def echo_segments_def segments_fold warnOnce_def
      split: option.split)

lemma wires_fold:
  shows "si_tracks (fold (wire_step input) ws st) = si_tracks st @ concat (map (wire_tracks input) ws)"
    and "si_vias (fold (wire_step input) ws st) = si_vias st"
    and "si_echoedVias (fold (wire_step input) ws st) = si_echoedVias st"
    and "si_echoedTracks (fold (wire_step input) ws st) = si_echoedTracks st + sum_list (map (wire_echoes input) ws)"
    and "set (si_routedNets (fold (wire_step input) ws st)) = set (si_routedNets st) \<union> nt_net ` set (concat (map (wire_tracks input) ws))"
    and "set (si_warnings (fold (wire_step input) ws st)) = set (si_warnings st)
      \<union> UnknownLayer ` {l. \<exists>w \<in> set ws. sw_layer w = l \<and> jget (layerByName input) l = None}"
  by (induction ws arbitrary: st) (auto simp: wire_step_fields)

definition echoed_via :: "session \<Rightarrow> route_input \<Rightarrow> ses_via \<Rightarrow> bool" where
  "echoed_via ses input v =
    (let (diameter, drill, tol) = via_size ses input v in
     isEchoedVia input (sv_net v) \<lparr>vx = sv_x v, vy = sv_y v\<rparr> diameter drill (via_layers ses input v) tol)"

definition via_of :: "session \<Rightarrow> route_input \<Rightarrow> ses_via \<Rightarrow> new_via" where
  "via_of ses input v =
    (let (diameter, drill, tol) = via_size ses input v in
     \<lparr>nv_net = sv_net v, nv_netCode = code_of input (sv_net v), nv_position = \<lparr>vx = sv_x v, vy = sv_y v\<rparr>,
      nv_diameter = diameter, nv_drill = drill, nv_layers = via_layers ses input v\<rparr>)"

lemma via_step_fields:
  shows "si_tracks (via_step ses input v st) = si_tracks st"
    and "si_vias (via_step ses input v st) = si_vias st @ (if echoed_via ses input v then [] else [via_of ses input v])"
    and "si_echoedTracks (via_step ses input v st) = si_echoedTracks st"
    and "si_echoedVias (via_step ses input v st) = si_echoedVias st + (if echoed_via ses input v then 1 else 0)"
    and "set (si_routedNets (via_step ses input v st))
      = set (si_routedNets st) \<union> (if echoed_via ses input v then {} else {sv_net v})"
  by (simp_all add: via_step_def echoed_via_def via_of_def warnOnce_def Let_def case_prod_beta)

lemma vias_fold:
  shows "si_tracks (fold (via_step ses input) vs st) = si_tracks st"
    and "si_vias (fold (via_step ses input) vs st)
      = si_vias st @ map (via_of ses input) (filter (\<lambda>v. \<not> echoed_via ses input v) vs)"
    and "si_echoedTracks (fold (via_step ses input) vs st) = si_echoedTracks st"
    and "si_echoedVias (fold (via_step ses input) vs st) = si_echoedVias st + length (filter (echoed_via ses input) vs)"
    and "set (si_routedNets (fold (via_step ses input) vs st))
      = set (si_routedNets st) \<union> sv_net ` {v \<in> set vs. \<not> echoed_via ses input v}"
  by (induction vs arbitrary: st) (auto simp: via_step_fields)

lemma via_of_net: "nv_net (via_of ses input v) = sv_net v"
  by (simp add: via_of_def Let_def case_prod_beta)

lemma items_fields:
  shows "si_tracks (sesToItems ses input) = concat (map (wire_tracks input) (se_wires ses))"
    and "si_vias (sesToItems ses input) = map (via_of ses input) (filter (\<lambda>v. \<not> echoed_via ses input v) (se_vias ses))"
    and "si_echoedTracks (sesToItems ses input) = sum_list (map (wire_echoes input) (se_wires ses))"
    and "si_echoedVias (sesToItems ses input) = length (filter (echoed_via ses input) (se_vias ses))"
    and "set (si_routedNets (sesToItems ses input)) = nt_net ` set (si_tracks (sesToItems ses input))
      \<union> nv_net ` set (si_vias (sesToItems ses input))"
  by (auto simp: sesToItems_def Let_def vias_fold wires_fold no_items_def image_image via_of_net)

text \<open>
  Turning a session into items creates, in order, a track for every segment of a wire on a known
  layer that has a length and does not repeat a track of the board, and a via for every via that
  does not repeat one; it counts the ones it left out as repeats, and names as routed exactly the
  nets that got an item. The loops with their maps and counters compute these comprehensions.
\<close>

theorem session_items_are:
  "let items = sesToItems ses input in
     si_tracks items = concat (map (wire_tracks input) (se_wires ses))
     \<and> si_vias items = map (via_of ses input) (filter (\<lambda>v. \<not> echoed_via ses input v) (se_vias ses))
     \<and> si_echoedTracks items = sum_list (map (wire_echoes input) (se_wires ses))
     \<and> length (si_vias items) + si_echoedVias items = length (se_vias ses)
     \<and> set (si_routedNets items) = nt_net ` set (si_tracks items) \<union> nv_net ` set (si_vias items)"
  unfolding Let_def items_fields using sum_length_filter_compl [of "echoed_via ses input" "se_vias ses"]
  by (auto simp: items_fields(5) [unfolded items_fields(1,2)])

definition board_layer :: "route_input \<Rightarrow> layer \<Rightarrow> bool" where
  "board_layer input l \<longleftrightarrow> l \<in> set (allLayers input)"

lemma layer_by_name: "jget (layerByName input) s = Some l \<Longrightarrow> board_layer input l"
proof -
  have "jget (fold (\<lambda>l m. jput (rl_name l) (rl_id l) (jput (rl_userName l) (rl_id l) m)) ls m) s = Some l \<Longrightarrow>
      l \<in> rl_id ` set ls \<or> jget m s = Some l" for ls m
    by (induction ls arbitrary: m) (fastforce split: if_splits)+
  then show "jget (layerByName input) s = Some l \<Longrightarrow> board_layer input l"
    by (fastforce simp: layerByName_def board_layer_def allLayers_def)
qed

lemma map_filter_in: "x \<in> set (List.map_filter f xs) \<longleftrightarrow> (\<exists>y \<in> set xs. f y = Some x)"
  by (induction xs) (auto simp: List.map_filter_simps split: option.split)

text \<open>
  No copper is doubled and none is put beside the board: a created track has a length, lies on a
  copper layer of the board and is none of the board's measured tracks of its layer and net (the
  same ends, either way round, and width, within the tolerance); a created via spans copper layers
  of the board and is none of its vias.
\<close>

theorem session_no_doubling:
  "(\<forall>t \<in> set (si_tracks (sesToItems ses input)).
      board_layer input (nt_layer t) \<and> \<not> zero_length (nt_start t, nt_end t)
      \<and> (\<forall>e \<in> set (ri_tracks input). rt_unsupported e \<or> rt_layer e \<noteq> nt_layer t \<or> rt_net e \<noteq> nt_net t
         \<or> \<not> same_track e (nt_start t) (nt_end t) (nt_width t)))
   \<and> (\<forall>v \<in> set (si_vias (sesToItems ses input)).
      list_all (board_layer input) (nv_layers v)
      \<and> (\<forall>x \<in> set (ri_vias input). rv_net x \<noteq> nv_net v \<or> \<not> near_pt (rv_position x) (nv_position v)
         \<or> \<not> js_near ECHO_TOLERANCE (Fin (rv_diameter x)) (nv_diameter v)
         \<or> \<not> js_near ECHO_TOLERANCE (Fin (rv_drill x)) (nv_drill v)
         \<or> length (rv_layers x) \<noteq> length (nv_layers v) \<or> \<not> list_all (\<lambda>l. l \<in> set (nv_layers v)) (rv_layers x)))"
proof (intro conjI ballI)
  fix t assume "t \<in> set (si_tracks (sesToItems ses input))"
  then obtain w where w: "t \<in> set (wire_tracks input w)" by (auto simp: items_fields)
  then obtain layer where l: "jget (layerByName input) (sw_layer w) = Some layer"
    by (cases "jget (layerByName input) (sw_layer w)") (simp_all add: wire_tracks_def)
  with w obtain seg where s: "t = track_of input w layer seg" "\<not> zero_length seg" "\<not> echo_of input w layer seg"
    unfolding wire_tracks_def new_segments_def by auto
  show "board_layer input (nt_layer t)" "\<not> zero_length (nt_start t, nt_end t)"
    using layer_by_name [OF l] s by (simp_all add: track_of_def)
  show "rt_unsupported e \<or> rt_layer e \<noteq> nt_layer t \<or> rt_net e \<noteq> nt_net t
       \<or> \<not> same_track e (nt_start t) (nt_end t) (nt_width t)" if "e \<in> set (ri_tracks input)" for e
    using s that by (auto simp: track_of_def echo_of_def)
next
  fix v assume "v \<in> set (si_vias (sesToItems ses input))"
  then obtain u where u: "v = via_of ses input u" "\<not> echoed_via ses input u" by (auto simp: items_fields)
  obtain d h a b where z: "via_size ses input u = (d, h, a, b)" by (cases "via_size ses input u")
  have tol: "ECHO_TOLERANCE \<le> a" "ECHO_TOLERANCE \<le> b"
    using z by (auto simp: via_size_def Let_def ECHO_TOLERANCE_def NAME_SIZE_TOLERANCE_def split: if_splits)
  have widen: "js_near ECHO_TOLERANCE p q \<Longrightarrow> js_near c p q" if "ECHO_TOLERANCE \<le> c" for c p q
    using that by (cases p; cases q) auto
  show "list_all (board_layer input) (nv_layers v)"
    unfolding u(1) list.pred_set
    by (auto simp: via_of_def z via_layers_def Let_def map_filter_in board_layer_def dest: layer_by_name [unfolded board_layer_def])
  show "rv_net x \<noteq> nv_net v \<or> \<not> near_pt (rv_position x) (nv_position v)
       \<or> \<not> js_near ECHO_TOLERANCE (Fin (rv_diameter x)) (nv_diameter v)
       \<or> \<not> js_near ECHO_TOLERANCE (Fin (rv_drill x)) (nv_drill v)
       \<or> length (rv_layers x) \<noteq> length (nv_layers v) \<or> \<not> list_all (\<lambda>l. l \<in> set (nv_layers v)) (rv_layers x)"
    if "x \<in> set (ri_vias input)" for x
    using u that widen [OF tol(1)] widen [OF tol(2)]
    by (auto simp: echoed_via_def via_of_def z isEchoedVia_def list_ex_iff)
qed
section \<open>Concrete sessions\<close>

definition demo_track :: route_track where
  "demo_track = \<lparr>rt_unsupported = False, rt_id = ''t1'', rt_net = ''GND'', rt_netCode = 1, rt_start = \<lparr>vx = 0, vy = 0\<rparr>,
     rt_end = \<lparr>vx = 1000, vy = 0\<rparr>, rt_width = 250000, rt_layer = 3\<rparr>"

definition demo_routed :: route_input where
  "demo_routed = demo_board\<lparr>ri_tracks := [demo_track]\<rparr>"

definition demo_session :: session where
  "demo_session = \<lparr>se_nmPerUnit = Fin 100, se_padstacks = [],
     se_wires = [\<lparr>sw_net = ''GND'', sw_layer = ''F.Cu'', sw_width = Fin 250000,
       sw_points = [\<lparr>vx = Fin 1000, vy = Fin 0\<rparr>, \<lparr>vx = Fin 0, vy = Fin 0\<rparr>, \<lparr>vx = Fin 0, vy = Fin 0\<rparr>, \<lparr>vx = Fin 0, vy = Fin 700\<rparr>]\<rparr>],
     se_vias = [\<lparr>sv_net = ''USB_P'', sv_padstack = ''Via[0-1]_800:400_um'', sv_x = Fin 5, sv_y = Fin 5\<rparr>],
     se_nets = [''GND'', ''USB_P''], se_placements = []\<rparr>"

theorem session_no_doubling_witness:
  "let items = sesToItems demo_session demo_routed in
     length (si_tracks items) = 1 \<and> si_echoedTracks items = 1 \<and> length (si_vias items) = 1
     \<and> nv_drill (hd (si_vias items)) = Fin 400000
     \<and> \<not> same_track demo_track (nt_start (hd (si_tracks items))) (nt_end (hd (si_tracks items))) (nt_width (hd (si_tracks items)))"
proof -
  let ?items = "sesToItems demo_session demo_routed"
  have n: "length (si_tracks ?items) = 1" "si_echoedTracks ?items = 1" "length (si_vias ?items) = 1"
    "nv_drill (hd (si_vias ?items)) = Fin 400000" "rt_net demo_track = nt_net (hd (si_tracks ?items))"
    "rt_layer demo_track = nt_layer (hd (si_tracks ?items))" "demo_track \<in> set (ri_tracks demo_routed)"
    "\<not> rt_unsupported demo_track"
    by code_simp+
  have "hd (si_tracks ?items) \<in> set (si_tracks ?items)" using n(1) by (cases "si_tracks ?items") auto
  then have "\<not> same_track demo_track (nt_start (hd (si_tracks ?items))) (nt_end (hd (si_tracks ?items))) (nt_width (hd (si_tracks ?items)))"
    using session_no_doubling [of demo_session demo_routed] n by metis
  then show ?thesis using n by (simp only: Let_def simp_thms)
qed

definition path_form :: "string list \<Rightarrow> sexpr" where
  "path_form as = SList [Atom ''wire'', SList (map Atom (''path'' # ''F.Cu'' # as))]"

definition demo_forms :: "sexpr list \<Rightarrow> sexpr list" where
  "demo_forms nets = [SList [Atom ''session'', Atom ''demo'',
     SList [Atom ''routes'', SList [Atom ''resolution'', Atom ''um'', Atom ''10''], SList (Atom ''network_out'' # nets)]]]"

definition net_forms :: "sexpr list \<Rightarrow> sexpr list list" where
  "net_forms tree = children (child (child (find_session tree) ''routes'') ''network_out'') ''net''"

definition twice_named :: "sexpr list" where
  "twice_named = demo_forms [SList [Atom ''net'', Atom ''GND'', path_form [''2500'', ''0'', ''0'', ''100'', ''0'']],
     SList [Atom ''net'', Atom ''GND'', path_form [''2500'', ''0'', ''0'', ''0'', ''700'']]]"

definition short_wire :: "sexpr list" where
  "short_wire = demo_forms [SList [Atom ''net'', Atom ''GND'', path_form [''2500'', ''0'', ''0''],
     path_form [''2500'', ''0'', ''0'', ''0'', ''700'']]]"

text \<open>
  The session filter counts the wires of a net from its own form although it looks them up among
  all read wires of that name. In a session that names a net twice, the second form's copper is
  replaced by the first's, which then is created twice; and a wire of a single point, which reading
  drops, makes the filter refuse the whole session, although its other wire is fine.
\<close>

theorem filter_miscounts_wires:
  "(case filter_forms coord twice_named demo_board None of
      Inl e \<Rightarrow> False
    | Inr tree \<Rightarrow> length (net_forms tree) = 2 \<and> net_forms tree ! 0 = net_forms tree ! 1)
   \<and> net_forms twice_named ! 0 \<noteq> net_forms twice_named ! 1
   \<and> filter_forms coord short_wire demo_board None = Inl WireNotDecoded
   \<and> length (si_tracks (sesToItems (read_session (the (find_session short_wire))) demo_board)) = 1"
  by (intro conjI) code_simp+
end
