(* ===== verification/RouteJob.thy ===== *)
theory RouteJob
  imports Ses
begin

text \<open>
  A routing job (\<open>src/packages/router/src/bridge-job.ts\<close>, with \<open>apply.ts\<close>): prepare the board, route,
  apply the result in one commit, clean up the copper KiCad finds dangling, save and measure again.

  The board, the router and the extraction are other programs: their answers are the fields of an
  environment record, one answer per call (those of a cleanup pass depend on what it applied), so a run of the job is a function of its request and its
  environment. A job keeps the sequence of its calls to the board, each with the state the job
  showed at that moment (a client may poll it during every call). Log lines are left out, but for
  those of the router, which decide how an empty result is explained.
\<close>

section \<open>Data\<close>

datatype job_router = JsSlot | Freerouting

datatype job_state = Queued | Saving | Filling | Extracting | Routing | Applying | JobDone | JobFailed | JobCancelled

record route_result =
  rs_router :: string
  rs_tracks :: "new_track list"
  rs_vias :: "new_via list"
  rs_claimedVias :: "string list"
  rs_unrouted :: "route_connection list"
  rs_totalConnections :: nat
  rs_timedOut :: bool
  rs_log :: "string list"
  rs_diagnostics :: "string option"
  rs_applied :: "(nat \<times> nat) option"

record job_request =
  jq_router :: job_router
  jq_options :: rule_options
  jq_nets :: "string list option"
  jq_message :: "string option"
  jq_refillZones :: "bool option"

datatype empty_reason =
    DiagnosticsText string
  | TimedOutWith "string option"
  | RoutedNothing string
  | NoItems

datatype job_error =
    NoTransport
  | FreeroutingUnavailable
  | BoardFailed
  | NoBoard
  | Cancelled
  | RefillFailed
  | SaveFailed
  | TracksFailed
  | ExtractFailed
  | RulesRefused rule_error
  | RouterFailed
  | NothingRouted empty_reason
  | ApplyFailed
  | DrcFailed
  | RatsnestFailed
  | UndoFailed
  | CouldNotRelabel
  | CouldNotUndo
  | NotMapped
  | NotConverged
  | PersistFailed

text \<open>A call to the board; \<open>ApplyCommit\<close> and \<open>UndoOne\<close> carry whether, and how often, they took effect.\<close>

datatype board_op =
    OpenBoard
  | RefillZones
  | SaveBoard
  | GetTracks
  | ApplyCommit string "new_track list" "new_via list" "string list" bool
  | RunDrc
  | Ratsnest
  | UndoOne nat

record job_summary =
  jm_tracks :: nat
  jm_vias :: nat
  jm_claimedVias :: nat
  jm_routed :: nat
  jm_routerRouted :: int
  jm_total :: nat
  jm_message :: string
  jm_removed :: "(string, string) jmap"
  jm_retained :: "(string \<times> string) list"

record job =
  jb_state :: job_state
  jb_refillBefore :: bool
  jb_refillAfter :: bool
  jb_refillError :: bool
  jb_error :: "job_error option"
  jb_summary :: "job_summary option"
  jb_ops :: "(job_state \<times> bool \<times> board_op) list"

definition newJob :: job where
  "newJob = \<lparr>jb_state = Queued, jb_refillBefore = False, jb_refillAfter = False, jb_refillError = False,
     jb_error = None, jb_summary = None, jb_ops = []\<rparr>"

text \<open>An item of copper on the board before the job, and a marker of a DRC run.\<close>

record copper =
  cp_id :: string
  cp_locked :: bool
  cp_net :: string

record drc_marker =
  mk_dangling :: bool
  mk_items :: "string list"

datatype checkpoint = AfterOpen | AfterRefill | AfterSave | AfterExtract | AfterRoute

record pass_answers =
  pa_apply :: "string list option"
  pa_drc :: "drc_marker list option"
  pa_ratsnest :: "nat option"
  pa_relabelUndo :: "nat option"
  pa_reapply :: "string list option"
  pa_undo :: "nat option"

record job_env =
  ev_transport :: bool
  ev_freerouting :: bool
  ev_board :: "bool option"
  ev_refill :: bool
  ev_save :: bool
  ev_tracks :: "copper list option"
  ev_extract :: "route_input option"
  ev_route :: "route_input \<Rightarrow> bool + route_result"
  ev_pass :: "nat \<Rightarrow> route_result \<Rightarrow> pass_answers"
  ev_refillAfter :: bool
  ev_saveAfter :: bool
  ev_ratsnestAfter :: "nat option"
  ev_tracksAfter :: bool
  ev_aborted :: "checkpoint \<Rightarrow> bool"
  ev_abortedAtEnd :: bool

section \<open>Parts\<close>

definition zero_track :: "new_track \<Rightarrow> bool" where
  "zero_track t \<longleftrightarrow> js_eq (js_round (vx (nt_start t))) (js_round (vx (nt_end t)))
    \<and> js_eq (js_round (vy (nt_start t))) (js_round (vy (nt_end t)))"

datatype new_item = TrackItem new_track | ViaItem new_via

definition itemsFor :: "new_track list \<Rightarrow> new_via list \<Rightarrow> new_item list" where
  "itemsFor tracks vias = map TrackItem (filter (\<lambda>t. \<not> zero_track t) tracks) @ map ViaItem vias"

text \<open>\<open>created[createdIndex++]?.id ?? ""\<close>, filtering as the code's callbacks do, in order.\<close>

definition id_at :: "string list \<Rightarrow> nat \<Rightarrow> string" where
  "id_at created i = (if i < length created then created ! i else [])"

fun keep_tracks :: "string list \<Rightarrow> string list \<Rightarrow> nat \<Rightarrow> new_track list \<Rightarrow> new_track list \<times> nat" where
  "keep_tracks created rejected i [] = ([], i)"
| "keep_tracks created rejected i (t # ts) =
    (if zero_track t then keep_tracks created rejected i ts
     else
       (let (rest, j) = keep_tracks created rejected (i + 1) ts in
        (if id_at created i \<in> set rejected then rest else t # rest, j)))"

fun keep_vias :: "string list \<Rightarrow> string list \<Rightarrow> nat \<Rightarrow> new_via list \<Rightarrow> new_via list" where
  "keep_vias created rejected i [] = []"
| "keep_vias created rejected i (v # vs) =
    (let rest = keep_vias created rejected (i + 1) vs in
     if id_at created i \<in> set rejected then rest else v # rest)"

definition withoutRejectedCreatedCopper :: "route_result \<Rightarrow> string list \<Rightarrow> string list \<Rightarrow> route_result" where
  "withoutRejectedCreatedCopper r created rejected =
    (let (ts, i) = keep_tracks created rejected 0 (rs_tracks r) in
     r\<lparr>rs_tracks := ts, rs_vias := keep_vias created rejected i (rs_vias r)\<rparr>)"

definition failure_words :: "string list" where
  "failure_words = map (map lower) [''solver failed'', ''precheck'', ''timed out'', ''exited with'', ''no session'',
     ''ran out of'', ''blockedPads'', ''padstack-unknown'']"

definition failure_line :: "string \<Rightarrow> bool" where
  "failure_line l = list_ex (js_includes (map lower l)) failure_words"

definition emptyResultReason :: "route_result \<Rightarrow> empty_reason option" where
  "emptyResultReason r =
    (if rs_totalConnections r = 0 \<or> rs_tracks r \<noteq> [] \<or> rs_vias r \<noteq> []
        \<or> length (rs_unrouted r) < rs_totalConnections r then None
     else
       (case rs_diagnostics r of
          Some text \<Rightarrow> Some (DiagnosticsText text)
        | None \<Rightarrow>
            (let why = find failure_line (rev (rs_log r)) in
             if rs_timedOut r then Some (TimedOutWith why)
             else Some (case why of Some w \<Rightarrow> RoutedNothing w | None \<Rightarrow> NoItems))))"

definition autorouteMessage :: "job_router \<Rightarrow> int \<Rightarrow> string" where
  "autorouteMessage router routed =
    ''Autoroute ('' @ (case router of JsSlot \<Rightarrow> ''js'' | Freerouting \<Rightarrow> ''freerouting'') @ ''): ''
      @ show_int routed @ '' connection'' @ (if routed = 1 then [] else ''s'')"

definition alreadyApplied :: "route_result \<Rightarrow> bool" where
  "alreadyApplied r \<longleftrightarrow> rs_router r = ''freerouting-kicad''"

section \<open>Sequencing\<close>

text \<open>A part of the job: it works on the job and throws or returns.\<close>

type_synonym 'a part = "job \<Rightarrow> job \<times> (job_error + 'a)"

definition andThen :: "'a part \<Rightarrow> ('a \<Rightarrow> 'b part) \<Rightarrow> 'b part" where
  "andThen m f j = (case m j of (j', Inl e) \<Rightarrow> (j', Inl e) | (j', Inr x) \<Rightarrow> f x j')"

definition finish :: "'a \<Rightarrow> 'a part" where
  "finish x j = (j, Inr x)"

definition throw :: "job_error \<Rightarrow> 'a part" where
  "throw e j = (j, Inl e)"

definition require :: "bool \<Rightarrow> job_error \<Rightarrow> unit part" where
  "require b e = (if b then finish () else throw e)"

definition note_op :: "board_op \<Rightarrow> unit part" where
  "note_op x j = (j\<lparr>jb_ops := jb_ops j @ [(jb_state j, jb_summary j \<noteq> None, x)]\<rparr>, Inr ())"

definition call :: "board_op \<Rightarrow> job_error \<Rightarrow> 'a option \<Rightarrow> 'a part" where
  "call x e answer = andThen (note_op x) (\<lambda>_. case answer of None \<Rightarrow> throw e | Some a \<Rightarrow> finish a)"

definition ok :: "bool \<Rightarrow> unit option" where
  "ok b = (if b then Some () else None)"

definition setState :: "job_state \<Rightarrow> unit part" where
  "setState s j = (j\<lparr>jb_state := s\<rparr>, Inr ())"

definition checkCancelled :: "job_env \<Rightarrow> checkpoint \<Rightarrow> unit part" where
  "checkCancelled env cp = require (\<not> ev_aborted env cp) Cancelled"

definition wants_refill :: "job_request \<Rightarrow> bool" where
  "wants_refill req = (case jq_refillZones req of None \<Rightarrow> True | Some b \<Rightarrow> b)"

section \<open>Preparing and routing\<close>

definition open_part :: "job_env \<Rightarrow> job_request \<Rightarrow> unit part" where
  "open_part env req =
    andThen (require (ev_transport env) NoTransport) (\<lambda>_.
    andThen (require (jq_router req \<noteq> Freerouting \<or> ev_freerouting env) FreeroutingUnavailable) (\<lambda>_.
    andThen (call OpenBoard BoardFailed (ev_board env)) (\<lambda>board.
    andThen (require board NoBoard) (\<lambda>_. checkCancelled env AfterOpen))))"

definition mark_before :: "unit part" where
  "mark_before j = (j\<lparr>jb_refillBefore := True\<rparr>, Inr ())"

definition refill_part :: "job_env \<Rightarrow> job_request \<Rightarrow> unit part" where
  "refill_part env req =
    (if wants_refill req then
       andThen (setState Filling) (\<lambda>_.
       andThen (call RefillZones RefillFailed (ok (ev_refill env))) (\<lambda>_.
       andThen mark_before (\<lambda>_. checkCancelled env AfterRefill)))
     else finish ())"

definition extract_part :: "job_env \<Rightarrow> job_request \<Rightarrow> (copper list \<times> route_input) part" where
  "extract_part env req =
    andThen (setState Saving) (\<lambda>_.
    andThen (call SaveBoard SaveFailed (ok (ev_save env))) (\<lambda>_.
    andThen (checkCancelled env AfterSave) (\<lambda>_.
    andThen (setState Extracting) (\<lambda>_.
    andThen (call GetTracks TracksFailed (ev_tracks env)) (\<lambda>original.
    andThen (case ev_extract env of None \<Rightarrow> throw ExtractFailed | Some i \<Rightarrow> finish i) (\<lambda>extracted.
    andThen (case applyRequestRules extracted (jq_options req) of
               (Inl e, _) \<Rightarrow> throw (RulesRefused e) | (Inr _, i) \<Rightarrow> finish i) (\<lambda>input.
    andThen (checkCancelled env AfterExtract) (\<lambda>_. finish (original, input)))))))))"

definition route_part :: "job_env \<Rightarrow> route_input \<Rightarrow> route_result part" where
  "route_part env input =
    andThen (setState Routing) (\<lambda>_.
    andThen (case ev_route env input of
               Inl cancelled \<Rightarrow> throw (if cancelled then Cancelled else RouterFailed)
             | Inr r \<Rightarrow> finish r) (\<lambda>r.
    andThen (checkCancelled env AfterRoute) (\<lambda>_.
     case emptyResultReason r of
       Some why \<Rightarrow> if rs_diagnostics r = None then throw (NothingRouted why) else finish r
     | None \<Rightarrow> finish r)))"

section \<open>Applying and cleaning up\<close>

definition danglingIds :: "drc_marker list \<Rightarrow> string list" where
  "danglingIds ms = remdups (concat (map mk_items (filter mk_dangling ms)))"

definition repairNets :: "job_request \<Rightarrow> route_input \<Rightarrow> string list" where
  "repairNets req input = (case jq_nets req of Some ns \<Rightarrow> ns | None \<Rightarrow> map rc_net (ri_connections input))"

definition removableExisting :: "job_request \<Rightarrow> route_input \<Rightarrow> copper list \<Rightarrow> (string, string) jmap" where
  "removableExisting req input original =
    fold (\<lambda>c m. jput (cp_id c) (cp_net c) m)
      (filter (\<lambda>c. \<not> cp_locked c \<and> cp_net c \<noteq> [] \<and> cp_net c \<in> set (repairNets req input)) original) []"

definition retained :: "job_request \<Rightarrow> route_input \<Rightarrow> copper list \<Rightarrow> string list \<Rightarrow> (string \<times> string) list" where
  "retained req input original dangling =
    map (\<lambda>c. (cp_id c, cp_net c))
      (filter (\<lambda>c. cp_locked c \<and> cp_net c \<noteq> [] \<and> cp_net c \<in> set (repairNets req input) \<and> cp_id c \<in> set dangling) original)"

definition apply_call ::
  "string \<Rightarrow> route_result \<Rightarrow> (string, string) jmap \<Rightarrow> string list option \<Rightarrow> string list part" where
  "apply_call message r removed answer =
    call (ApplyCommit message (rs_tracks r) (rs_vias r) (jkeys removed) (answer \<noteq> None)) ApplyFailed answer"

definition undo_call :: "nat option \<Rightarrow> nat part" where
  "undo_call answer = call (UndoOne (case answer of None \<Rightarrow> 0 | Some k \<Rightarrow> k)) UndoFailed answer"

definition has_items :: "route_result \<Rightarrow> bool" where
  "has_items r \<longleftrightarrow> rs_tracks r \<noteq> [] \<or> rs_vias r \<noteq> [] \<or> rs_claimedVias r \<noteq> []"

record applied_state =
  as_applied :: bool
  as_result :: route_result
  as_message :: string
  as_removed :: "(string, string) jmap"
  as_retained :: "(string \<times> string) list"

definition relabel_part ::
  "job_request \<Rightarrow> pass_answers \<Rightarrow> route_result \<Rightarrow> (string, string) jmap \<Rightarrow> string \<Rightarrow> string part" where
  "relabel_part req pa r removed message =
    (if jq_message req \<noteq> None then finish message
     else
       andThen (call Ratsnest RatsnestFailed (pa_ratsnest pa)) (\<lambda>native_open.
        let native = autorouteMessage (jq_router req) (int (rs_totalConnections r - native_open)) in
        if native = message then finish message
        else
          andThen (undo_call (pa_relabelUndo pa)) (\<lambda>undone.
          andThen (require (undone = 1) CouldNotRelabel) (\<lambda>_.
          andThen (apply_call native r removed (pa_reapply pa)) (\<lambda>_. finish native)))))"

primrec cleanup ::
  "nat \<Rightarrow> job_env \<Rightarrow> job_request \<Rightarrow> route_input \<Rightarrow> copper list \<Rightarrow> nat \<Rightarrow> route_result \<Rightarrow> (string, string) jmap \<Rightarrow>
    string \<Rightarrow> applied_state part" where
  "cleanup 0 env req input original i r removed message =
    finish \<lparr>as_applied = False, as_result = r, as_message = message, as_removed = removed, as_retained = []\<rparr>"
| "cleanup (Suc left) env req input original i r removed message =
    (let pa = ev_pass env i r; removable = removableExisting req input original in
     andThen (apply_call message r removed (pa_apply pa)) (\<lambda>created.
     if rs_router r \<noteq> ''fab-router''
     then finish \<lparr>as_applied = True, as_result = r, as_message = message, as_removed = removed, as_retained = []\<rparr>
     else
       andThen (call RunDrc DrcFailed (pa_drc pa)) (\<lambda>markers.
        let dangling = danglingIds markers;
            rejected = filter (\<lambda>x. x \<in> set created) dangling;
            existing = filter (\<lambda>x. jhas removable x \<and> \<not> jhas removed x) dangling in
        if rejected = [] \<and> existing = [] then
          andThen (relabel_part req pa r removed message) (\<lambda>message'.
           finish \<lparr>as_applied = True, as_result = r, as_message = message', as_removed = removed,
             as_retained = retained req input original dangling\<rparr>)
        else
          andThen (undo_call (pa_undo pa)) (\<lambda>undone.
          andThen (require (undone = 1) CouldNotUndo) (\<lambda>_.
           let removed' = fold (\<lambda>x m. jput x (the (jget removable x)) m) existing removed;
               r' = withoutRejectedCreatedCopper r created rejected;
               gone = (length (rs_tracks r) + length (rs_vias r)) - length (rs_tracks r') - length (rs_vias r') in
           if gone = 0 \<and> existing = [] then throw NotMapped
           else if \<not> has_items r' \<and> removed' = [] then
             finish \<lparr>as_applied = False, as_result = r', as_message = message, as_removed = removed', as_retained = []\<rparr>
           else if left = 0 then throw NotConverged
           else cleanup left env req input original (i + 1) r' removed' message)))))"

definition maxCleanupPasses :: "route_result \<Rightarrow> (string, string) jmap \<Rightarrow> nat" where
  "maxCleanupPasses r removable = length (rs_tracks r) + length (rs_vias r) + length removable + 1"

definition apply_part ::
  "job_env \<Rightarrow> job_request \<Rightarrow> route_input \<Rightarrow> copper list \<Rightarrow> route_result \<Rightarrow> applied_state part" where
  "apply_part env req input original r =
    (let routed = int (rs_totalConnections r) - int (length (rs_unrouted r));
         message = (case jq_message req of Some m \<Rightarrow> m | None \<Rightarrow> autorouteMessage (jq_router req) routed) in
     andThen (setState Applying) (\<lambda>_.
     if \<not> alreadyApplied r \<and> has_items r
     then cleanup (maxCleanupPasses r (removableExisting req input original)) env req input original 0 r [] message
     else finish \<lparr>as_applied = False, as_result = r, as_message = message, as_removed = [], as_retained = []\<rparr>))"

section \<open>Saving and measuring\<close>

definition refill_after :: "job_env \<Rightarrow> unit part" where
  "refill_after env =
    andThen (setState Filling) (\<lambda>_.
    andThen (note_op RefillZones) (\<lambda>_ j.
     (if ev_refillAfter env then j\<lparr>jb_refillAfter := True\<rparr> else j\<lparr>jb_refillError := True\<rparr>, Inr ())))"

definition persist_part :: "job_env \<Rightarrow> job_request \<Rightarrow> applied_state \<Rightarrow> unit part" where
  "persist_part env req a =
    (if as_applied a \<or> rs_applied (as_result a) \<noteq> None then
       andThen (if wants_refill req then refill_after env else finish ()) (\<lambda>_.
       andThen (setState Saving) (\<lambda>_. call SaveBoard PersistFailed (ok (ev_saveAfter env))))
     else finish ())"

definition summary_of :: "job_env \<Rightarrow> applied_state \<Rightarrow> int \<Rightarrow> job_summary" where
  "summary_of env a routed =
    (let r = as_result a in
     \<lparr>jm_tracks = (case rs_applied r of None \<Rightarrow> length (rs_tracks r) | Some (t, _) \<Rightarrow> t),
      jm_vias = (case rs_applied r of None \<Rightarrow> length (rs_vias r) | Some (_, v) \<Rightarrow> v),
      jm_claimedVias = length (rs_claimedVias r),
      jm_routed = (case ev_ratsnestAfter env of Some k \<Rightarrow> rs_totalConnections r - k | None \<Rightarrow> nat routed),
      jm_routerRouted = routed,
      jm_total = rs_totalConnections r,
      jm_message = (case rs_diagnostics r of
          Some text \<Rightarrow>
            if \<not> (as_applied a \<or> rs_applied r \<noteq> None)
              \<or> 0 < (case ev_ratsnestAfter env of Some k \<Rightarrow> k | None \<Rightarrow> length (rs_unrouted r)) then text else as_message a
        | None \<Rightarrow> if as_applied a \<or> rs_applied r \<noteq> None then as_message a else []),
      jm_removed = as_removed a,
      jm_retained = as_retained a\<rparr>)"

definition set_summary :: "job_summary \<Rightarrow> unit part" where
  "set_summary s j = (j\<lparr>jb_summary := Some s\<rparr>, Inr ())"

definition report_part :: "job_env \<Rightarrow> applied_state \<Rightarrow> int \<Rightarrow> unit part" where
  "report_part env a routed =
    andThen (note_op Ratsnest) (\<lambda>_.
    andThen (setState JobDone) (\<lambda>_.
    andThen (call GetTracks TracksFailed (ok (ev_tracksAfter env))) (\<lambda>_. set_summary (summary_of env a routed))))"

section \<open>The job\<close>

definition job_front :: "job_env \<Rightarrow> job_request \<Rightarrow> (applied_state \<times> int) part" where
  "job_front env req =
    andThen (open_part env req) (\<lambda>_.
    andThen (refill_part env req) (\<lambda>_.
    andThen (extract_part env req) (\<lambda>(original, input).
    andThen (route_part env input) (\<lambda>r.
    andThen (apply_part env req input original r) (\<lambda>a.
    andThen (persist_part env req a) (\<lambda>_.
     finish (a, int (rs_totalConnections r) - int (length (rs_unrouted r)))))))))"

definition job_body :: "job_env \<Rightarrow> job_request \<Rightarrow> unit part" where
  "job_body env req = andThen (job_front env req) (\<lambda>(a, routed). report_part env a routed)"

definition run_job :: "job_env \<Rightarrow> job_request \<Rightarrow> job" where
  "run_job env req =
    (case job_body env req newJob of
       (j, Inr _) \<Rightarrow> j
     | (j, Inl e) \<Rightarrow>
         j\<lparr>jb_state := (if ev_abortedAtEnd env \<or> e = Cancelled then JobCancelled else JobFailed), jb_error := Some e\<rparr>)"

definition finished :: "job_state \<Rightarrow> bool" where
  "finished s \<longleftrightarrow> s = JobDone \<or> s = JobFailed \<or> s = JobCancelled"

section \<open>Weakest preconditions\<close>

text \<open>\<open>wp m Q E j\<close>: run on \<open>j\<close>, the part \<open>m\<close> returns in \<open>Q\<close> or throws in \<open>E\<close>.\<close>

named_theorems wp_simps \<open>weakest preconditions of the parts of a job\<close>

definition wp :: "'a part \<Rightarrow> ('a \<Rightarrow> job \<Rightarrow> bool) \<Rightarrow> (job_error \<Rightarrow> job \<Rightarrow> bool) \<Rightarrow> job \<Rightarrow> bool" where
  "wp m Q E j = (case m j of (j', Inr x) \<Rightarrow> Q x j' | (j', Inl e) \<Rightarrow> E e j')"

definition with_op :: "board_op \<Rightarrow> job \<Rightarrow> job" where
  "with_op x j = j\<lparr>jb_ops := jb_ops j @ [(jb_state j, jb_summary j \<noteq> None, x)]\<rparr>"

lemma wp_andThen [wp_simps]: "wp (andThen m f) Q E j = wp m (\<lambda>x. wp (f x) Q E) E j"
  by (simp add: wp_def andThen_def split: prod.split sum.split)

lemma wp_basic [wp_simps]:
  "wp (finish a) Qa E j = Qa a j"
  "wp (throw e) Qb E j = E e j"
  "wp (require b e) Q E j = (if b then Q () j else E e j)"
  "wp (note_op x) Q E j = Q () (with_op x j)"
  "wp (setState s) Q E j = Q () (j\<lparr>jb_state := s\<rparr>)"
  "wp mark_before Q E j = Q () (j\<lparr>jb_refillBefore := True\<rparr>)"
  "wp (set_summary u) Q E j = Q () (j\<lparr>jb_summary := Some u\<rparr>)"
  "wp (checkCancelled env cp) Q E j = (if ev_aborted env cp then E Cancelled j else Q () j)"
  by (simp_all add: wp_def finish_def throw_def require_def note_op_def with_op_def setState_def mark_before_def
      set_summary_def checkCancelled_def)

lemma wp_call [wp_simps]:
  "wp (call x e answer) Q E j = (case answer of None \<Rightarrow> E e (with_op x j) | Some a \<Rightarrow> Q a (with_op x j))"
  by (simp add: call_def wp_simps split: option.split)

lemma wp_case [wp_simps]:
  "wp (case x of None \<Rightarrow> m | Some a \<Rightarrow> f a) Q E j = (case x of None \<Rightarrow> wp m Q E j | Some a \<Rightarrow> wp (f a) Q E j)"
  "wp (case y of Inl e \<Rightarrow> g e | Inr b \<Rightarrow> h b) Q E j = (case y of Inl e \<Rightarrow> wp (g e) Q E j | Inr b \<Rightarrow> wp (h b) Q E j)"
  "wp (case z of (c, d) \<Rightarrow> k c d) Q E j = (case z of (c, d) \<Rightarrow> wp (k c d) Q E j)"
  by (simp_all split: option.split sum.split prod.split)

lemma wp_if [wp_simps]: "wp (if b then m else n) Q E j = (if b then wp m Q E j else wp n Q E j)"
  by simp

lemma wp_refill_after [wp_simps]:
  "wp (refill_after env) Q E j =
    (let j' = with_op RefillZones (j\<lparr>jb_state := Filling\<rparr>) in
     Q () (if ev_refillAfter env then j'\<lparr>jb_refillAfter := True\<rparr> else j'\<lparr>jb_refillError := True\<rparr>))"
  unfolding refill_after_def wp_simps by (simp add: wp_def)

lemma wp_mono:
  "wp m Q E j \<Longrightarrow> (\<And>x j'. Q x j' \<Longrightarrow> Q' x j') \<Longrightarrow> (\<And>e j'. E e j' \<Longrightarrow> E' e j') \<Longrightarrow> wp m Q' E' j"
  by (auto simp: wp_def split: prod.splits sum.splits)

section \<open>What is left on the board\<close>

fun commit_delta :: "board_op \<Rightarrow> int" where
  "commit_delta (ApplyCommit _ _ _ _ applied) = (if applied then 1 else 0)"
| "commit_delta (UndoOne k) = - int k"
| "commit_delta _ = 0"

definition outstanding :: "job \<Rightarrow> int" where
  "outstanding j = sum_list (map (\<lambda>(_, _, x). commit_delta x) (jb_ops j))"

fun touches :: "board_op \<Rightarrow> bool" where
  "touches (ApplyCommit _ _ _ _ _) = True"
| "touches (UndoOne _) = True"
| "touches _ = False"

definition touched :: "job \<Rightarrow> bool" where
  "touched j = list_ex (\<lambda>(_, _, x). touches x) (jb_ops j)"

text \<open>The last call that changed or saved the board saved it.\<close>

definition saved :: "job \<Rightarrow> bool" where
  "saved j = (case filter (\<lambda>(_, _, x). touches x \<or> x = SaveBoard) (rev (jb_ops j)) of
     [] \<Rightarrow> True | (_, _, x) # _ \<Rightarrow> x = SaveBoard)"

lemma job_measures [simp]:
  "outstanding (j\<lparr>jb_state := s\<rparr>) = outstanding j"
  "outstanding (j\<lparr>jb_refillBefore := b\<rparr>) = outstanding j"
  "outstanding (j\<lparr>jb_refillAfter := b\<rparr>) = outstanding j"
  "outstanding (j\<lparr>jb_refillError := b\<rparr>) = outstanding j"
  "outstanding (j\<lparr>jb_summary := u\<rparr>) = outstanding j"
  "outstanding (j\<lparr>jb_error := u'\<rparr>) = outstanding j"
  "touched (j\<lparr>jb_state := s\<rparr>) = touched j"
  "touched (j\<lparr>jb_refillBefore := b\<rparr>) = touched j"
  "touched (j\<lparr>jb_refillAfter := b\<rparr>) = touched j"
  "touched (j\<lparr>jb_refillError := b\<rparr>) = touched j"
  "touched (j\<lparr>jb_summary := u\<rparr>) = touched j"
  "touched (j\<lparr>jb_error := u'\<rparr>) = touched j"
  "saved (j\<lparr>jb_state := s\<rparr>) = saved j"
  "saved (j\<lparr>jb_refillBefore := b\<rparr>) = saved j"
  "saved (j\<lparr>jb_refillAfter := b\<rparr>) = saved j"
  "saved (j\<lparr>jb_refillError := b\<rparr>) = saved j"
  "saved (j\<lparr>jb_summary := u\<rparr>) = saved j"
  "saved (j\<lparr>jb_error := u'\<rparr>) = saved j"
  by (simp_all add: outstanding_def touched_def saved_def)

lemma measures_with_op [simp]:
  "outstanding (with_op x j) = outstanding j + commit_delta x"
  "touched (with_op x j) = (touched j \<or> touches x)"
  "saved (with_op x j) = (if touches x then False else x = SaveBoard \<or> saved j)"
  "jb_state (with_op x j) = jb_state j"
  "jb_summary (with_op x j) = jb_summary j"
  by (cases x; simp add: outstanding_def touched_def saved_def with_op_def)+

definition undo_answers_ok :: "job_env \<Rightarrow> bool" where
  "undo_answers_ok env \<longleftrightarrow> (\<forall>i r k. pa_undo (ev_pass env i r) = Some k \<or> pa_relabelUndo (ev_pass env i r) = Some k \<longrightarrow> k \<le> 1)"

definition may_leave_commit :: "job_error \<Rightarrow> bool" where
  "may_leave_commit e \<longleftrightarrow> e \<in> set [DrcFailed, RatsnestFailed, UndoFailed, CouldNotUndo, CouldNotRelabel, PersistFailed, TracksFailed]"

definition failed_clean :: "job_error \<Rightarrow> job \<Rightarrow> bool" where
  "failed_clean e j \<longleftrightarrow> jb_summary j = None \<and> (outstanding j = 0 \<or> outstanding j = 1 \<and> may_leave_commit e)"

lemma wp_apply_call [wp_simps]:
  "wp (apply_call message r removed answer) Q E j =
    (case answer of
       None \<Rightarrow> E ApplyFailed (with_op (ApplyCommit message (rs_tracks r) (rs_vias r) (jkeys removed) False) j)
     | Some a \<Rightarrow> Q a (with_op (ApplyCommit message (rs_tracks r) (rs_vias r) (jkeys removed) True) j))"
  by (simp add: apply_call_def wp_simps split: option.split)

lemma wp_undo_call [wp_simps]:
  "wp (undo_call answer) Q E j =
    (case answer of None \<Rightarrow> E UndoFailed (with_op (UndoOne 0) j) | Some k \<Rightarrow> Q k (with_op (UndoOne k) j))"
  by (simp add: undo_call_def wp_simps split: option.split)

lemma relabel_clean:
  assumes "\<And>k. pa_relabelUndo pa = Some k \<Longrightarrow> k \<le> 1" and "outstanding j = 1" and "jb_summary j = None"
    and "\<And>m j'. outstanding j' = 1 \<Longrightarrow> jb_summary j' = None \<Longrightarrow> Q m j'"
  shows "wp (relabel_part req pa r removed message) Q failed_clean j"
  using assms
  by (auto simp: relabel_part_def wp_simps failed_clean_def may_leave_commit_def Let_def le_Suc_eq split: option.split)

definition applied_clean :: "applied_state \<Rightarrow> job \<Rightarrow> bool" where
  "applied_clean a j \<longleftrightarrow> jb_summary j = None \<and> outstanding j = (if as_applied a then 1 else 0)"

lemma cleanup_clean:
  assumes "undo_answers_ok env"
  shows "outstanding j = 0 \<Longrightarrow> jb_summary j = None \<Longrightarrow> wp (cleanup n env req input original i r removed message) applied_clean failed_clean j"
proof (induction n arbitrary: i r removed j)
  case 0
  then show ?case by (simp add: wp_simps applied_clean_def)
next
  case (Suc left)
  have u: "pa_undo (ev_pass env i r) = Some k \<Longrightarrow> k = 0 \<or> k = 1" "pa_relabelUndo (ev_pass env i r) = Some k \<Longrightarrow> k \<le> 1" for k
    using assms by (auto simp: undo_answers_ok_def le_Suc_eq)
  show ?case
    unfolding cleanup.simps Let_def wp_simps
    using Suc.prems u
    by (auto simp: failed_clean_def applied_clean_def may_leave_commit_def split: option.split
        intro!: Suc.IH relabel_clean)
qed
lemma apply_clean:
  assumes "undo_answers_ok env" "outstanding j = 0" "jb_summary j = None"
  shows "wp (apply_part env req input original r) applied_clean failed_clean j"
  using assms by (auto simp: apply_part_def wp_simps Let_def applied_clean_def intro!: cleanup_clean)

text \<open>
  The result the job sets out to apply: nothing went wrong, nobody cancelled at a checkpoint, and
  the router did not come back empty-handed.
\<close>

definition routed_result :: "job_env \<Rightarrow> job_request \<Rightarrow> route_result option" where
  "routed_result env req =
    (if ev_transport env \<and> (jq_router req \<noteq> Freerouting \<or> ev_freerouting env) \<and> ev_board env = Some True
       \<and> \<not> ev_aborted env AfterOpen \<and> (if wants_refill req then ev_refill env \<and> \<not> ev_aborted env AfterRefill else True)
       \<and> ev_save env \<and> \<not> ev_aborted env AfterSave \<and> ev_tracks env \<noteq> None then
       (case ev_extract env of
          None \<Rightarrow> None
        | Some extracted \<Rightarrow>
            (case applyRequestRules extracted (jq_options req) of
               (Inl _, _) \<Rightarrow> None
             | (Inr _, input) \<Rightarrow>
                 if ev_aborted env AfterExtract then None
                 else
                   (case ev_route env input of
                      Inl _ \<Rightarrow> None
                    | Inr r \<Rightarrow>
                        if ev_aborted env AfterRoute \<or> (emptyResultReason r \<noteq> None \<and> rs_diagnostics r = None)
                        then None else Some r)))
     else None)"

definition body_failed :: "job_env \<Rightarrow> job_request \<Rightarrow> job_error \<Rightarrow> job \<Rightarrow> bool" where
  "body_failed env req e j \<longleftrightarrow> failed_clean e j \<and> (routed_result env req = None \<longrightarrow> \<not> touched j)"

definition body_done :: "job_env \<Rightarrow> job_request \<Rightarrow> unit \<Rightarrow> job \<Rightarrow> bool" where
  "body_done env req _ j \<longleftrightarrow> routed_result env req \<noteq> None \<and> jb_state j = JobDone \<and> jb_summary j \<noteq> None
    \<and> (outstanding j = 0 \<or> outstanding j = 1 \<and> saved j)"

lemma tail_ok:
  assumes "undo_answers_ok env" "outstanding j = 0" "jb_summary j = None" "routed_result env req \<noteq> None"
  shows "wp (apply_part env req input original r)
      (\<lambda>a. wp (persist_part env req a) (\<lambda>_. wp (report_part env a n) (body_done env req) (body_failed env req)) (body_failed env req))
      (body_failed env req) j"
proof (rule wp_mono [OF apply_clean [OF assms(1-3), where req = req and input = input and original = original and r = r]])
  show "failed_clean e j' \<Longrightarrow> body_failed env req e j'" for e j'
    using assms(4) by (auto simp: body_failed_def)
  show "wp (persist_part env req a) (\<lambda>_. wp (report_part env a n) (body_done env req) (body_failed env req)) (body_failed env req) j'"
    if "applied_clean a j'" for a j'
    using that assms(4)
    by (auto simp: wp_simps persist_part_def report_part_def Let_def body_done_def body_failed_def failed_clean_def
        applied_clean_def may_leave_commit_def ok_def)
qed

lemma newJob_measures [simp]: "outstanding newJob = 0" "jb_summary newJob = None" "\<not> touched newJob"
  by (simp_all add: newJob_def outstanding_def touched_def)

lemma early_fail: "outstanding j = 0 \<Longrightarrow> jb_summary j = None \<Longrightarrow> \<not> touched j \<Longrightarrow> body_failed env req e j"
  by (simp add: body_failed_def failed_clean_def)

lemma body_ok:
  assumes "undo_answers_ok env"
  shows "wp (job_body env req) (body_done env req) (body_failed env req) newJob"
proof -
  have t: "wp (apply_part env req input original r)
      (\<lambda>a. wp (persist_part env req a)
        (\<lambda>_. wp (report_part env a (int (rs_totalConnections r) - int (length (rs_unrouted r)))) (body_done env req) (body_failed env req))
        (body_failed env req))
      (body_failed env req) j"
    if "outstanding j = 0" "jb_summary j = None" "routed_result env req = Some r" for input original r j
    using tail_ok [OF assms that(1,2)] that(3) by auto
  show ?thesis
    unfolding job_body_def job_front_def open_part_def refill_part_def extract_part_def route_part_def wp_simps
    by (auto simp: early_fail ok_def routed_result_def intro!: t split: option.split sum.split prod.split)
qed

text \<open>No part before the report touches the error and the summary.\<close>

definition keeps_error :: "'a part \<Rightarrow> bool" where
  "keeps_error m \<longleftrightarrow> (\<forall>j. jb_error (fst (m j)) = jb_error j \<and> jb_summary (fst (m j)) = jb_summary j)"

lemma keeps_error_andThen:
  assumes m: "keeps_error m" and f: "\<And>x. keeps_error (f x)"
  shows "keeps_error (andThen m f)"
  unfolding keeps_error_def
proof
  fix j
  obtain j' res where mj: "m j = (j', res)" by fastforce
  have "jb_error j' = jb_error j \<and> jb_summary j' = jb_summary j" using m mj unfolding keeps_error_def by (metis fst_conv)
  then show "jb_error (fst (andThen m f j)) = jb_error j \<and> jb_summary (fst (andThen m f j)) = jb_summary j"
    using f mj unfolding keeps_error_def andThen_def by (cases res) simp_all
qed

lemma keeps_error_basic:
  "keeps_error (finish a)" "keeps_error (throw e)" "keeps_error (note_op x)" "keeps_error (setState s)"
  "keeps_error mark_before"
  "keeps_error (\<lambda>j. (if b then j\<lparr>jb_refillAfter := True\<rparr> else j\<lparr>jb_refillError := True\<rparr>, Inr ()))"
  by (simp_all add: keeps_error_def finish_def throw_def note_op_def setState_def mark_before_def)

lemma keeps_error_cases:
  "keeps_error m \<Longrightarrow> keeps_error m' \<Longrightarrow> keeps_error (if b then m else m')"
  "keeps_error n \<Longrightarrow> (\<And>a. keeps_error (f a)) \<Longrightarrow> keeps_error (case x of None \<Rightarrow> n | Some a \<Rightarrow> f a)"
  "(\<And>c. keeps_error (g c)) \<Longrightarrow> (\<And>d. keeps_error (h d)) \<Longrightarrow> keeps_error (case y of Inl c \<Rightarrow> g c | Inr d \<Rightarrow> h d)"
  "(\<And>c d. keeps_error (k c d)) \<Longrightarrow> keeps_error (case z of (c, d) \<Rightarrow> k c d)"
  by (simp_all split: option.split sum.split prod.split)

lemmas keeps_error_intros = keeps_error_andThen keeps_error_basic keeps_error_cases

lemma keeps_error_calls:
  "keeps_error (require b e)" "keeps_error (call x e answer)" "keeps_error (checkCancelled env cp)"
  "keeps_error (apply_call message r removed answer')" "keeps_error (undo_call answer'')"
  unfolding require_def call_def checkCancelled_def apply_call_def undo_call_def require_def
  by (intro keeps_error_intros)+

lemma keeps_error_relabel: "keeps_error (relabel_part req pa r removed message)"
  unfolding relabel_part_def Let_def by (intro keeps_error_intros keeps_error_calls)

lemma keeps_error_cleanup: "keeps_error (cleanup n env req input original i r removed message)"
proof (induction n arbitrary: i r removed)
  case 0
  then show ?case by (simp add: keeps_error_basic)
next
  case (Suc n)
  show ?case unfolding cleanup.simps Let_def
    by (intro keeps_error_intros keeps_error_calls keeps_error_relabel Suc.IH)
qed

lemma keeps_error_front: "keeps_error (job_front env req)"
  unfolding job_front_def open_part_def refill_part_def extract_part_def route_part_def apply_part_def persist_part_def
    refill_after_def Let_def
  by (intro keeps_error_intros keeps_error_calls keeps_error_cleanup)

lemma report_part_result:
  "report_part env a n j =
    (let j' = with_op GetTracks ((with_op Ratsnest j)\<lparr>jb_state := JobDone\<rparr>) in
     if ev_tracksAfter env then (j'\<lparr>jb_summary := Some (summary_of env a n)\<rparr>, Inr ()) else (j', Inl TracksFailed))"
  by (simp add: report_part_def andThen_def note_op_def setState_def call_def throw_def finish_def set_summary_def ok_def
      with_op_def Let_def)

lemma body_keeps_error:
  assumes "job_body env req j = (j', res)"
  shows "jb_error j' = jb_error j"
proof -
  obtain jf rf where f: "job_front env req j = (jf, rf)" by fastforce
  have "jb_error jf = jb_error j" using keeps_error_front f unfolding keeps_error_def by (metis fst_conv)
  then show ?thesis using assms f
    by (cases rf) (auto simp: job_body_def andThen_def report_part_result Let_def with_op_def split: if_splits)
qed

section \<open>The cleanup converges\<close>

text \<open>
  A board that does its work: it creates the items it is given, in order, runs its checks, undoes
  what it is told to undo and answers queries. Which items it finds dangling is up to it.
\<close>

definition board_works :: "job_env \<Rightarrow> bool" where
  "board_works env \<longleftrightarrow> (\<forall>i r.
    (\<exists>created. pa_apply (ev_pass env i r) = Some created \<and> length created = length (itemsFor (rs_tracks r) (rs_vias r)))
    \<and> pa_drc (ev_pass env i r) \<noteq> None \<and> pa_ratsnest (ev_pass env i r) \<noteq> None
    \<and> pa_relabelUndo (ev_pass env i r) = Some 1 \<and> pa_reapply (ev_pass env i r) \<noteq> None \<and> pa_undo (ev_pass env i r) = Some 1)"

lemma keep_tracks_end: "snd (keep_tracks created rejected i ts) = i + length (filter (\<lambda>t. \<not> zero_track t) ts)"
  by (induction ts arbitrary: i) (simp_all add: Let_def case_prod_beta)

lemma keep_tracks_length: "length (fst (keep_tracks created rejected i ts)) \<le> length ts"
  by (induction ts arbitrary: i) (auto simp: Let_def case_prod_beta le_SucI)

lemma keep_tracks_less:
  "i \<le> k \<Longrightarrow> k < i + length (filter (\<lambda>t. \<not> zero_track t) ts) \<Longrightarrow> id_at created k \<in> set rejected \<Longrightarrow>
   length (fst (keep_tracks created rejected i ts)) < length ts"
proof (induction ts arbitrary: i)
  case (Cons t ts)
  show ?case
  proof (cases "zero_track t")
    case True
    then show ?thesis using keep_tracks_length [of created rejected i ts] by simp
  next
    case nz: False
    show ?thesis
    proof (cases "k = i")
      case True
      then show ?thesis using nz Cons.prems keep_tracks_length [of created rejected "i + 1" ts]
        by (simp add: Let_def case_prod_beta)
    next
      case False
      then have "length (fst (keep_tracks created rejected (i + 1) ts)) < length ts"
        using Cons.IH [of "i + 1"] Cons.prems nz by simp
      then show ?thesis using nz by (simp add: Let_def case_prod_beta)
    qed
  qed
qed simp

lemma keep_vias_length: "length (keep_vias created rejected i vs) \<le> length vs"
  by (induction vs arbitrary: i) (auto simp: Let_def le_SucI)

lemma keep_vias_less:
  "i \<le> k \<Longrightarrow> k < i + length vs \<Longrightarrow> id_at created k \<in> set rejected \<Longrightarrow> length (keep_vias created rejected i vs) < length vs"
proof (induction vs arbitrary: i)
  case (Cons v vs)
  show ?case
  proof (cases "k = i")
    case True
    then show ?thesis using Cons.prems keep_vias_length [of created rejected "i + 1" vs] by (simp add: Let_def)
  next
    case False
    then have "length (keep_vias created rejected (i + 1) vs) < length vs" using Cons.IH [of "i + 1"] Cons.prems by simp
    then show ?thesis by (simp add: Let_def)
  qed
qed simp

definition items_left :: "route_result \<Rightarrow> nat" where
  "items_left r = length (rs_tracks r) + length (rs_vias r)"

lemma without_length: "items_left (withoutRejectedCreatedCopper r created rejected) \<le> items_left r"
  using keep_tracks_length [of created rejected 0 "rs_tracks r"] keep_vias_length [of created rejected _ "rs_vias r"]
  by (simp add: items_left_def withoutRejectedCreatedCopper_def case_prod_beta add_mono)

lemma without_less:
  assumes "length created = length (itemsFor (rs_tracks r) (rs_vias r))" "x \<in> set created" "x \<in> set rejected"
  shows "items_left (withoutRejectedCreatedCopper r created rejected) < items_left r"
proof -
  let ?nz = "length (filter (\<lambda>t. \<not> zero_track t) (rs_tracks r))"
  obtain k where k: "k < length created" "created ! k = x" using assms(2) by (auto simp: in_set_conv_nth)
  have id: "id_at created k \<in> set rejected" using k assms(3) by (simp add: id_at_def)
  have len: "length created = ?nz + length (rs_vias r)" using assms(1) by (simp add: itemsFor_def)
  have e: "snd (keep_tracks created rejected 0 (rs_tracks r)) = ?nz" using keep_tracks_end [of created rejected 0 "rs_tracks r"] by simp
  have a: "length (fst (keep_tracks created rejected 0 (rs_tracks r))) \<le> length (rs_tracks r)"
    and b: "length (keep_vias created rejected ?nz (rs_vias r)) \<le> length (rs_vias r)"
    by (rule keep_tracks_length, rule keep_vias_length)
  have "length (fst (keep_tracks created rejected 0 (rs_tracks r))) < length (rs_tracks r)
      \<or> length (keep_vias created rejected ?nz (rs_vias r)) < length (rs_vias r)"
  proof (cases "k < ?nz")
    case True
    then show ?thesis using keep_tracks_less [of 0 k "rs_tracks r" created rejected] id by simp
  next
    case False
    then show ?thesis using keep_vias_less [of ?nz k "rs_vias r" created rejected] id k len by simp
  qed
  then show ?thesis using a b
    by (auto simp: items_left_def withoutRejectedCreatedCopper_def case_prod_beta e)
qed

definition unremoved :: "(string, string) jmap \<Rightarrow> (string, string) jmap \<Rightarrow> nat" where
  "unremoved removable removed = length (filter (\<lambda>k. \<not> jhas removed k) (jkeys removable))"

lemma jhas_put [simp]: "jhas (jput k v m) j = (j = k \<or> jhas m j)"
  by (simp add: jhas_def)

lemma jhas_fold_put: "jhas (fold (\<lambda>x m. jput x (f x) m) xs m) j = (j \<in> set xs \<or> jhas m j)"
  by (induction xs arbitrary: m) auto

lemma unremoved_less:
  assumes "x \<in> set existing" "jhas removable x" "\<not> jhas removed x"
  shows "unremoved removable (fold (\<lambda>x m. jput x (f x) m) existing removed) < unremoved removable removed"
proof -
  have "x \<in> set (jkeys removable)" using assms(2) by (simp add: jkeys_jget jhas_def)
  moreover have "filter (\<lambda>k. \<not> jhas (fold (\<lambda>x m. jput x (f x) m) existing removed) k) (jkeys removable)
      = filter (\<lambda>k. k \<notin> set existing) (filter (\<lambda>k. \<not> jhas removed k) (jkeys removable))"
    by (auto simp: jhas_fold_put intro!: filter_cong)
  ultimately show ?thesis unfolding unremoved_def using assms
    by (simp only:) (rule length_filter_less [where x = x], auto)
qed

lemma unremoved_le: "unremoved removable (fold (\<lambda>x m. jput x (f x) m) existing removed) \<le> unremoved removable removed"
proof -
  have "filter (\<lambda>k. \<not> jhas (fold (\<lambda>x m. jput x (f x) m) existing removed) k) (jkeys removable)
      = filter (\<lambda>k. k \<notin> set existing) (filter (\<lambda>k. \<not> jhas removed k) (jkeys removable))"
    by (auto simp: jhas_fold_put intro!: filter_cong)
  then show ?thesis unfolding unremoved_def by (simp only: length_filter_le)
qed

lemma relabel_ok:
  assumes "pa_ratsnest pa \<noteq> None" "pa_relabelUndo pa = Some 1" "pa_reapply pa \<noteq> None"
  shows "wp (relabel_part req pa r removed message) (\<lambda>_ _. True) (\<lambda>_ _. False) j"
  using assms by (auto simp: relabel_part_def wp_simps Let_def)

lemma cleanup_converges:
  assumes "board_works env"
  shows "items_left r + unremoved (removableExisting req input original) removed \<le> left \<Longrightarrow>
    wp (cleanup (Suc left) env req input original i r removed message) (\<lambda>_ _. True) (\<lambda>_ _. False) j"
proof (induction left arbitrary: i r removed j rule: less_induct)
  case (less left i r removed j)
  let ?removable = "removableExisting req input original" and ?pa = "ev_pass env i r"
  note le = less.prems
  obtain created markers where w: "pa_apply ?pa = Some created" "length created = length (itemsFor (rs_tracks r) (rs_vias r))"
      "pa_drc ?pa = Some markers" "pa_ratsnest ?pa \<noteq> None" "pa_relabelUndo ?pa = Some 1" "pa_reapply ?pa \<noteq> None"
      "pa_undo ?pa = Some 1"
    using assms unfolding board_works_def by blast
  define rejected where "rejected = filter (\<lambda>x. x \<in> set created) (danglingIds markers)"
  define existing where "existing = filter (\<lambda>x. jhas ?removable x \<and> \<not> jhas removed x) (danglingIds markers)"
  define r' where "r' = withoutRejectedCreatedCopper r created rejected"
  define removed' where "removed' = fold (\<lambda>x m. jput x (the (jget ?removable x)) m) existing removed"
  have r'le: "items_left r' \<le> items_left r" unfolding r'_def by (rule without_length)
  have rle: "unremoved ?removable removed' \<le> unremoved ?removable removed" unfolding removed'_def by (rule unremoved_le)
  have rej: "items_left r' < items_left r" if "rejected \<noteq> []"
  proof -
    have "\<exists>x. x \<in> set rejected" using that by (cases rejected) auto
    then obtain x where x: "x \<in> set rejected" by blast
    then have "x \<in> set created" by (simp add: rejected_def)
    from without_less [OF w(2) this x] show ?thesis by (simp add: r'_def)
  qed
  have exi: "unremoved ?removable removed' < unremoved ?removable removed" if "existing \<noteq> []"
  proof -
    have "\<exists>x. x \<in> set existing" using that by (cases existing) auto
    then obtain x where x: "x \<in> set existing" by blast
    then have "jhas ?removable x" "\<not> jhas removed x" by (simp_all add: existing_def)
    from unremoved_less [OF x this] show ?thesis unfolding removed'_def .
  qed
  have smaller: "items_left r' + unremoved ?removable removed' < items_left r + unremoved ?removable removed"
    if "rejected \<noteq> [] \<or> existing \<noteq> []" using that rej exi r'le rle by (meson add_le_less_mono add_less_le_mono)
  have gone: "\<not> (length (rs_tracks r) + length (rs_vias r) - length (rs_tracks r') - length (rs_vias r') = 0 \<and> existing = [])"
    if "rejected \<noteq> [] \<or> existing \<noteq> []"
    using that rej by (auto simp: items_left_def)
  show ?case
  proof (cases "rejected = [] \<and> existing = []")
    case True
    then show ?thesis unfolding cleanup.simps(2) Let_def wp_simps w(1,3) option.case
      by (auto simp: rejected_def [symmetric] existing_def [symmetric] wp_simps intro!: relabel_ok w)
  next
    case False
    then obtain l where l: "left = Suc l" using smaller le by (cases left) auto
    have "wp (cleanup left env req input original (i + 1) r' removed' message) (\<lambda>_ _. True) (\<lambda>_ _. False) j'" for j'
      unfolding l by (rule less.IH) (use smaller False le l in auto)
    then show ?thesis using False gone l
      unfolding cleanup.simps(2) Let_def wp_simps w(1,3,7) option.case
      unfolding rejected_def [symmetric] existing_def [symmetric]
      unfolding r'_def [symmetric] removed'_def [symmetric]
      by (auto simp: wp_simps)
  qed
qed
text \<open>
  C38: cleaning up dangling copper converges. On a board that does its work, whichever items of the
  result and of the board's unlocked copper on the repaired nets it reports as dangling in each
  pass, the bound of the loop is enough: applying a result that has items never ends in \<open>did not
  converge\<close>, \<open>could not be mapped back\<close> or any other error, since every pass that goes on removes
  an item of the result or takes one more existing item off the board.
\<close>

theorem job_cleanup_converges:
  assumes "board_works env" and "has_items r"
  shows "case apply_part env req input original r j of
      (j', Inl e) \<Rightarrow> False
    | (j', Inr a) \<Rightarrow> as_applied a \<or> alreadyApplied r \<or> (\<not> has_items (as_result a) \<and> as_removed a = [])"
proof -
  let ?bound = "maxCleanupPasses r (removableExisting req input original)"
  have b: "?bound = Suc (length (rs_tracks r) + length (rs_vias r) + length (removableExisting req input original))"
    by (simp add: maxCleanupPasses_def)
  have "items_left r + unremoved (removableExisting req input original) []
      \<le> length (rs_tracks r) + length (rs_vias r) + length (removableExisting req input original)"
    using length_filter_le [of _ "jkeys (removableExisting req input original)"]
    by (simp add: items_left_def unremoved_def jkeys_def)
  from cleanup_converges [OF assms(1) this]
  have c: "wp (cleanup ?bound env req input original 0 r [] message) (\<lambda>_ _. True) (\<lambda>_ _. False) j" for message j
    unfolding b by blast
  have "wp (cleanup n env req input original i r' removed message)
      (\<lambda>a _. as_applied a \<or> n = 0 \<or> (\<not> has_items (as_result a) \<and> as_removed a = [])) (\<lambda>_ _. True) j" for n i r' removed message j
  proof (induction n arbitrary: i r' removed j)
    case (Suc n)
    have n: "wp (cleanup n env req input original i r' removed message)
        (\<lambda>a _. as_applied a \<or> (\<not> has_items (as_result a) \<and> as_removed a = [])) (\<lambda>_ _. True) j" if "n \<noteq> 0" for i r' removed j
      using Suc.IH [of i r' removed j] that by simp
    have rl: "wp (relabel_part req pa r' removed message) Q (\<lambda>_ _. True) j" if "\<And>x j'. Q x j'" for pa Q j r' removed
      using that by (auto simp: relabel_part_def wp_simps Let_def split: option.split)
    show ?case unfolding cleanup.simps Let_def wp_simps
      by (auto intro!: n rl split: option.split)
  qed (simp add: wp_simps)
  from this [of ?bound] have d: "wp (cleanup ?bound env req input original 0 r [] message)
      (\<lambda>a _. as_applied a \<or> (\<not> has_items (as_result a) \<and> as_removed a = [])) (\<lambda>_ _. True) j" for message j
    unfolding b by simp
  have both: "wp m Q (\<lambda>_ _. False) j" if "wp m (\<lambda>_ _. True) (\<lambda>_ _. False) j" "wp m Q (\<lambda>_ _. True) j" for m :: "applied_state part" and Q j
    using that by (auto simp: wp_def split: prod.splits sum.splits)
  have "wp (apply_part env req input original r)
      (\<lambda>a _. as_applied a \<or> alreadyApplied r \<or> (\<not> has_items (as_result a) \<and> as_removed a = [])) (\<lambda>_ _. False) j"
  proof (cases "alreadyApplied r")
    case True
    then show ?thesis by (simp add: apply_part_def Let_def wp_simps)
  next
    case False
    then show ?thesis using both [OF c d] assms(2) by (simp add: apply_part_def Let_def wp_simps)
  qed
  then show ?thesis by (auto simp: wp_def split: prod.splits sum.splits)
qed

text \<open>
  A job shows itself as done before it has a summary, and may still fail then: the call that
  reads the board's copper for the summary is made in the state \<open>done\<close> without one, and when it
  throws, the job that was done has failed.
\<close>

theorem job_done_without_summary:
  "case job_front env req newJob of
     (_, Inl _) \<Rightarrow> True
   | (_, Inr _) \<Rightarrow>
       last (jb_ops (run_job env req)) = (JobDone, False, GetTracks)
       \<and> (if ev_tracksAfter env then jb_state (run_job env req) = JobDone
          else jb_state (run_job env req) = (if ev_abortedAtEnd env then JobCancelled else JobFailed))"
proof -
  obtain j res where f: "job_front env req newJob = (j, res)" by fastforce
  have s: "jb_summary j = None"
    using keeps_error_front [of env req] f unfolding keeps_error_def by (metis fst_conv newJob_measures(2))
  show ?thesis
  proof (cases res)
    case (Inl e)
    then show ?thesis using f by simp
  next
    case (Inr an)
    obtain a n where an: "an = (a, n)" by (cases an)
    have "job_body env req newJob = report_part env a n j" using f Inr an by (simp add: job_body_def andThen_def)
    then show ?thesis using f Inr s by (simp add: run_job_def report_part_result Let_def with_op_def)
  qed
qed

section \<open>A concrete job\<close>

text \<open>
  A board with one track to route: the router returns two tracks, of which the first pass finds the
  second dangling, together with an old track of the same net; the second pass is clean.
\<close>

definition demo_new_track :: "num \<Rightarrow> new_track" where
  "demo_new_track y = \<lparr>nt_net = ''GND'', nt_netCode = 1, nt_start = \<lparr>vx = Fin 0, vy = Fin y\<rparr>,
     nt_end = \<lparr>vx = Fin 500, vy = Fin y\<rparr>, nt_width = Fin 250000, nt_layer = 3\<rparr>"

definition demo_result :: route_result where
  "demo_result = \<lparr>rs_router = ''fab-router'', rs_tracks = [demo_new_track 0, demo_new_track 9], rs_vias = [],
     rs_claimedVias = [], rs_unrouted = [], rs_totalConnections = 1, rs_timedOut = False, rs_log = [],
     rs_diagnostics = None, rs_applied = None\<rparr>"

definition demo_request :: job_request where
  "demo_request = \<lparr>jq_router = JsSlot, jq_options = demo_options, jq_nets = Some [''GND''], jq_message = None,
     jq_refillZones = None\<rparr>"

definition demo_pass :: "nat \<Rightarrow> route_result \<Rightarrow> pass_answers" where
  "demo_pass i r = \<lparr>pa_apply = Some (replicate (length (itemsFor (rs_tracks r) (rs_vias r)) - 1) ''a'' @
       (if itemsFor (rs_tracks r) (rs_vias r) = [] then [] else [''b''])),
     pa_drc = Some (if i = 0 then [\<lparr>mk_dangling = True, mk_items = [''b'', ''old'']\<rparr>, \<lparr>mk_dangling = False, mk_items = [''a'']\<rparr>] else []),
     pa_ratsnest = Some 0, pa_relabelUndo = Some 1, pa_reapply = Some [], pa_undo = Some 1\<rparr>"

definition demo_env :: job_env where
  "demo_env = \<lparr>ev_transport = True, ev_freerouting = False, ev_board = Some True, ev_refill = True, ev_save = True,
     ev_tracks = Some [\<lparr>cp_id = ''old'', cp_locked = False, cp_net = ''GND''\<rparr>], ev_extract = Some demo_board,
     ev_route = (\<lambda>_. Inr demo_result), ev_pass = demo_pass, ev_refillAfter = False, ev_saveAfter = True,
     ev_ratsnestAfter = Some 0, ev_tracksAfter = True, ev_aborted = (\<lambda>_. False), ev_abortedAtEnd = False\<rparr>"

lemma demo_undo_ok: "undo_answers_ok env" if "ev_pass env = demo_pass"
  using that by (auto simp: undo_answers_ok_def demo_pass_def)

lemma demo_board_works: "board_works demo_env"
  by (auto simp: board_works_def demo_env_def demo_pass_def itemsFor_def)


theorem job_cleanup_converges_witness:
  "case apply_part demo_env demo_request demo_board [\<lparr>cp_id = ''old'', cp_locked = False, cp_net = ''GND''\<rparr>] demo_result newJob of
     (j', Inl e) \<Rightarrow> False
   | (j', Inr a) \<Rightarrow> as_applied a \<or> (\<not> has_items (as_result a) \<and> as_removed a = [])"
proof -
  have h: "has_items demo_result" "\<not> alreadyApplied demo_result" by code_simp+
  show ?thesis
    using job_cleanup_converges [OF demo_board_works h(1), of demo_request demo_board
      "[\<lparr>cp_id = ''old'', cp_locked = False, cp_net = ''GND''\<rparr>]" newJob] h(2)
    by (simp split: prod.splits sum.splits)
qed
end
