(* ===== verification/WsProtocol.thy ===== *)
theory WsProtocol
  imports TransportTypes JsonValues
begin

text \<open>
  The framing between a WebSocket client and the bridge
  (\<open>packages/client/src/transport/ws-bridge-protocol.ts\<close>): binary frames with a correlation id,
  and JSON control messages. A control frame comes in as what \<open>JSON.parse\<close> makes of its text
  (\<open>None\<close> when it throws).
\<close>

section \<open>Binary frames\<close>

definition WS_FRAME_ID_LENGTH :: nat where
  "WS_FRAME_ID_LENGTH = 4"

definition WS_EVENT_FRAME_ID :: nat where
  "WS_EVENT_FRAME_ID = 0xffffffff"

definition WS_MAX_REQUEST_ID :: nat where
  "WS_MAX_REQUEST_ID = WS_EVENT_FRAME_ID - 1"

text \<open>\<open>id >>> 0\<close> takes an integer modulo \<open>2 ^ 32\<close>.\<close>

definition encodeWsFrame :: "int \<Rightarrow> bytes \<Rightarrow> bytes" where
  "encodeWsFrame rid payload =
     be_bytes WS_FRAME_ID_LENGTH (unat (word_of_int rid :: 32 word)) @ payload"

definition decodeWsFrame :: "bytes \<Rightarrow> transport_error + nat \<times> bytes" where
  "decodeWsFrame bs =
     (if length bs < WS_FRAME_ID_LENGTH then Inl ProtocolError
      else Inr (be_val (take WS_FRAME_ID_LENGTH bs), drop WS_FRAME_ID_LENGTH bs))"

definition encodeEventFrame :: "bytes \<Rightarrow> bytes" where
  "encodeEventFrame event = encodeWsFrame (int WS_EVENT_FRAME_ID) event"

definition isEventFrame :: "nat \<Rightarrow> bool" where
  "isEventFrame rid \<longleftrightarrow> rid = WS_EVENT_FRAME_ID"

lemma decode_encode [simp]: "decodeWsFrame (encodeWsFrame rid p) = Inr (nat (rid mod 2 ^ 32), p)"
proof -
  have "unat (word_of_int rid :: 32 word) < 256 ^ 4"
    using unsigned_less [of "word_of_int rid :: 32 word", where ?'a = nat] by simp
  moreover have "unat (word_of_int rid :: 32 word) = nat (rid mod 2 ^ 32)"
    by (simp add: unsigned_of_int take_bit_eq_mod)
  ultimately show ?thesis
    by (simp add: decodeWsFrame_def encodeWsFrame_def WS_FRAME_ID_LENGTH_def be_val_be_bytes_id)
qed

lemma decode_encode_nat [simp]:
  "n < 2 ^ 32 \<Longrightarrow> decodeWsFrame (encodeWsFrame (int n) p) = Inr (n, p)"
  by (simp add: nat_mod_as_int [symmetric] nat_mod_distrib)

lemma encode_decode:
  assumes "decodeWsFrame bs = Inr (rid, p)"
  shows "encodeWsFrame (int rid) p = bs" and "rid < 2 ^ 32"
proof -
  have l: "4 \<le> length bs" and r: "rid = be_val (take 4 bs)" and p: "p = drop 4 bs"
    using assms by (auto simp: decodeWsFrame_def WS_FRAME_ID_LENGTH_def split: if_splits)
  show lt: "rid < 2 ^ 32" using be_val_lt [of "take 4 bs"] l r by simp
  have "unat (word_of_int (int rid) :: 32 word) = rid"
    using lt by (simp add: unat_of_nat)
  moreover have "be_bytes 4 rid = take 4 bs" using be_bytes_be_val [of "take 4 bs"] l r by simp
  ultimately show "encodeWsFrame (int rid) p = bs"
    by (simp add: encodeWsFrame_def WS_FRAME_ID_LENGTH_def p)
qed

section \<open>Control messages\<close>

definition CONTROL_TYPES :: "string list" where
  "CONTROL_TYPES = [''hello'', ''error'', ''server-state'', ''events'', ''ping'', ''pong'']"

definition SERVER_STATES :: "string list" where
  "SERVER_STATES = [''starting'', ''running'', ''exited'', ''failed'']"

definition EVENTS_STATES :: "string list" where
  "EVENTS_STATES = [''connected'', ''disconnected'']"

definition isControlMessage :: "json \<Rightarrow> bool" where
  "isControlMessage x \<longleftrightarrow> one_of CONTROL_TYPES (jprop x ''type'')"

text \<open>The checks of \<open>parseControl\<close>, one per kind of message.\<close>

definition well_formed :: "json \<Rightarrow> bool" where
  "well_formed m \<longleftrightarrow>
     (if jprop m ''type'' = Some (JStr ''hello'') then
        is_string (jprop m ''sessionId'') \<and> is_number (jprop m ''protocolVersion'') \<and>
        (jprop m ''kicadToken'' = Some JNull \<or> is_string (jprop m ''kicadToken'')) \<and>
        one_of SERVER_STATES (jprop m ''serverState'') \<and>
        (jprop m ''eventsState'' = None \<or> one_of EVENTS_STATES (jprop m ''eventsState''))
      else if jprop m ''type'' = Some (JStr ''error'') then
        is_string (jprop m ''code'') \<and> is_string (jprop m ''message'') \<and>
        (jprop m ''id'' = Some JNull \<or> is_number (jprop m ''id''))
      else if jprop m ''type'' = Some (JStr ''server-state'') then
        is_string (jprop m ''sessionId'') \<and> one_of SERVER_STATES (jprop m ''state'')
      else if jprop m ''type'' = Some (JStr ''events'') then
        is_string (jprop m ''sessionId'') \<and> one_of EVENTS_STATES (jprop m ''state'')
      else True)"

definition parseControl :: "json option \<Rightarrow> transport_error + json" where
  "parseControl parsed =
     (case parsed of
        None \<Rightarrow> Inl ProtocolError
      | Some x \<Rightarrow>
          if \<not> isControlMessage x then Inl ProtocolError
          else if \<not> well_formed x then Inl ProtocolError
          else Inr x)"

text \<open>The messages the interfaces of the source allow, and what \<open>JSON.stringify\<close> makes of them.\<close>

datatype server_state = Starting | Running | Exited | Failed
datatype events_state = Connected | Disconnected

fun server_state_name :: "server_state \<Rightarrow> string" where
  "server_state_name Starting = ''starting''"
| "server_state_name Running = ''running''"
| "server_state_name Exited = ''exited''"
| "server_state_name Failed = ''failed''"

fun events_state_name :: "events_state \<Rightarrow> string" where
  "events_state_name Connected = ''connected''"
| "events_state_name Disconnected = ''disconnected''"

datatype bridge_error_code = FromTransport transport_error | BadRequest | NoSession | Internal

fun transport_code_name :: "transport_error \<Rightarrow> string" where
  "transport_code_name TimeoutError = ''timeout''"
| "transport_code_name ClosedError = ''closed''"
| "transport_code_name ProtocolError = ''protocol''"
| "transport_code_name ConnectError = ''connect''"

fun bridge_code_name :: "bridge_error_code \<Rightarrow> string" where
  "bridge_code_name (FromTransport e) = transport_code_name e"
| "bridge_code_name BadRequest = ''bad-request''"
| "bridge_code_name NoSession = ''no-session''"
| "bridge_code_name Internal = ''internal''"

record bridge_hello =
  h_protocolVersion :: rat
  h_sessionId :: string
  h_kicadToken :: "string option"
  h_serverState :: server_state
  h_eventsState :: "events_state option"

record bridge_error =
  e_id :: "nat option"
  e_code :: bridge_error_code
  e_message :: string

text \<open>An optional field that may also be null: \<open>None\<close> when absent, \<open>Some None\<close> for null.\<close>

record bridge_server_state =
  s_sessionId :: string
  s_state :: server_state
  s_kicadToken :: "string option option"
  s_exitCode :: "int option option"
  s_signal :: "string option option"
  s_message :: "string option"

record bridge_events =
  v_sessionId :: string
  v_state :: events_state
  v_message :: "string option"

datatype control_message =
    Hello bridge_hello
  | BridgeError bridge_error
  | ServerState bridge_server_state
  | BridgeEvents bridge_events
  | Ping "rat option"
  | Pong "rat option"

definition nullable :: "('a \<Rightarrow> json) \<Rightarrow> 'a option \<Rightarrow> json" where
  "nullable f v = (case v of None \<Rightarrow> JNull | Some x \<Rightarrow> f x)"

definition optional_field :: "string \<Rightarrow> ('a \<Rightarrow> json) \<Rightarrow> 'a option \<Rightarrow> (string \<times> json) list" where
  "optional_field k f v = (case v of None \<Rightarrow> [] | Some x \<Rightarrow> [(k, f x)])"

fun encodeControl :: "control_message \<Rightarrow> json" where
  "encodeControl (Hello h) = JObj ([(''type'', JStr ''hello''),
     (''protocolVersion'', jnum (h_protocolVersion h)), (''sessionId'', JStr (h_sessionId h)),
     (''kicadToken'', nullable JStr (h_kicadToken h)),
     (''serverState'', JStr (server_state_name (h_serverState h)))]
     @ optional_field ''eventsState'' (JStr \<circ> events_state_name) (h_eventsState h))"
| "encodeControl (BridgeError e) = JObj [(''type'', JStr ''error''),
     (''id'', nullable (jnum \<circ> of_nat) (e_id e)), (''code'', JStr (bridge_code_name (e_code e))),
     (''message'', JStr (e_message e))]"
| "encodeControl (ServerState s) = JObj ([(''type'', JStr ''server-state''),
     (''sessionId'', JStr (s_sessionId s)), (''state'', JStr (server_state_name (s_state s)))]
     @ optional_field ''kicadToken'' (nullable JStr) (s_kicadToken s)
     @ optional_field ''exitCode'' (nullable (jnum \<circ> of_int)) (s_exitCode s)
     @ optional_field ''signal'' (nullable JStr) (s_signal s)
     @ optional_field ''message'' JStr (s_message s))"
| "encodeControl (BridgeEvents v) = JObj ([(''type'', JStr ''events''),
     (''sessionId'', JStr (v_sessionId v)), (''state'', JStr (events_state_name (v_state v)))]
     @ optional_field ''message'' JStr (v_message v))"
| "encodeControl (Ping t) = JObj ((''type'', JStr ''ping'') # optional_field ''t'' jnum t)"
| "encodeControl (Pong t) = JObj ((''type'', JStr ''pong'') # optional_field ''t'' jnum t)"

lemma control_names [simp]:
  "server_state_name s \<in> set SERVER_STATES" "events_state_name v \<in> set EVENTS_STATES"
  by (cases s; simp add: SERVER_STATES_def) (cases v; simp add: EVENTS_STATES_def)

lemma nullable_string [simp]: "nullable JStr v = JNull \<or> is_string (Some (nullable JStr v))"
  by (cases v) (simp_all add: nullable_def)

lemma nullable_number [simp]:
  "nullable (jnum \<circ> f) v = JNull \<or> is_number (Some (nullable (jnum \<circ> f) v))"
  by (cases v) (simp_all add: nullable_def)

lemma optional_field_other [simp]: "k \<noteq> j \<Longrightarrow> map_of (optional_field k f v @ fs) j = map_of fs j"
  by (cases v) (simp_all add: optional_field_def)

lemma optional_field_none [simp]: "k \<noteq> j \<Longrightarrow> map_of (optional_field k f v) j = None"
  by (cases v) (simp_all add: optional_field_def)

lemma optional_field_this [simp]: "map_of (optional_field k f v) k = map_option f v"
  by (cases v) (simp_all add: optional_field_def)

lemma encodeControl_accepted: "parseControl (Some (encodeControl m)) = Inr (encodeControl m)"
proof (cases m)
  case (Hello h)
  then show ?thesis
    by (cases "h_eventsState h")
       (simp_all add: parseControl_def isControlMessage_def CONTROL_TYPES_def well_formed_def)
qed (simp_all add: parseControl_def isControlMessage_def CONTROL_TYPES_def well_formed_def)

text \<open>What the fields of an accepted message hold.\<close>

lemma accepted_hello:
  assumes "parseControl x = Inr m" and "jprop m ''type'' = Some (JStr ''hello'')"
  shows "\<exists>s. jprop m ''sessionId'' = Some (JStr s)"
    and "\<exists>v \<in> set SERVER_STATES. jprop m ''serverState'' = Some (JStr v)"
    and "jprop m ''kicadToken'' = Some JNull \<or> (\<exists>s. jprop m ''kicadToken'' = Some (JStr s))"
    and "jprop m ''eventsState'' = None \<or>
      (\<exists>v \<in> set EVENTS_STATES. jprop m ''eventsState'' = Some (JStr v))"
proof -
  have w: "well_formed m" using assms(1)
    by (auto simp: parseControl_def split: option.splits if_splits)
  have str: "\<exists>s. v = Some (JStr s)" if "is_string v" for v using that by (cases v rule: is_string.cases) auto
  have one: "\<exists>s \<in> set ns. v = Some (JStr s)" if "one_of ns v" for v ns
    using that by (cases "(ns, v)" rule: one_of.cases) auto
  show "\<exists>s. jprop m ''sessionId'' = Some (JStr s)"
    and "\<exists>v \<in> set SERVER_STATES. jprop m ''serverState'' = Some (JStr v)"
    and "jprop m ''kicadToken'' = Some JNull \<or> (\<exists>s. jprop m ''kicadToken'' = Some (JStr s))"
    and "jprop m ''eventsState'' = None \<or>
      (\<exists>v \<in> set EVENTS_STATES. jprop m ''eventsState'' = Some (JStr v))"
    using w assms(2) str one by (auto simp: well_formed_def)
qed

lemma accepted_state:
  assumes "parseControl x = Inr m"
  shows "jprop m ''type'' = Some (JStr ''server-state'') \<Longrightarrow>
      \<exists>v \<in> set SERVER_STATES. jprop m ''state'' = Some (JStr v)"
    and "jprop m ''type'' = Some (JStr ''events'') \<Longrightarrow>
      \<exists>v \<in> set EVENTS_STATES. jprop m ''state'' = Some (JStr v)"
proof -
  have w: "well_formed m" using assms(1)
    by (auto simp: parseControl_def split: option.splits if_splits)
  have one: "\<exists>s \<in> set ns. v = Some (JStr s)" if "one_of ns v" for v ns
    using that by (cases "(ns, v)" rule: one_of.cases) auto
  show "jprop m ''type'' = Some (JStr ''server-state'') \<Longrightarrow>
      \<exists>v \<in> set SERVER_STATES. jprop m ''state'' = Some (JStr v)"
    and "jprop m ''type'' = Some (JStr ''events'') \<Longrightarrow>
      \<exists>v \<in> set EVENTS_STATES. jprop m ''state'' = Some (JStr v)"
    using w one by (auto simp: well_formed_def)
qed

text \<open>
  The wire format loses nothing: a frame carries its id modulo \<open>2 ^ 32\<close> and its payload, every
  frame of at least four bytes is the encoding of what it decodes to, a relayed event is
  recognised as one and a request id never is, and every control message the interfaces allow
  passes the checks of \<open>parseControl\<close>.
\<close>

theorem ws_frames_roundtrip:
  "decodeWsFrame (encodeWsFrame rid p) = Inr (nat (rid mod 2 ^ 32), p) \<and>
   (case decodeWsFrame bs of
      Inl e \<Rightarrow> length bs < WS_FRAME_ID_LENGTH \<and> e = ProtocolError
    | Inr (i, q) \<Rightarrow> encodeWsFrame (int i) q = bs \<and> i < 2 ^ 32) \<and>
   (case decodeWsFrame (encodeEventFrame p) of Inl e \<Rightarrow> False | Inr (i, q) \<Rightarrow> isEventFrame i \<and> q = p) \<and>
   (if i \<le> WS_MAX_REQUEST_ID then decodeWsFrame (encodeWsFrame (int i) p) = Inr (i, p) \<and> \<not> isEventFrame i
    else True) \<and>
   parseControl (Some (encodeControl m)) = Inr (encodeControl m)"
proof (intro conjI)
  show "case decodeWsFrame bs of
      Inl e \<Rightarrow> length bs < WS_FRAME_ID_LENGTH \<and> e = ProtocolError
    | Inr (i, q) \<Rightarrow> encodeWsFrame (int i) q = bs \<and> i < 2 ^ 32"
    using encode_decode [of bs]
    by (auto simp: decodeWsFrame_def split: sum.split prod.split if_splits)
  show "case decodeWsFrame (encodeEventFrame p) of Inl e \<Rightarrow> False | Inr (i, q) \<Rightarrow> isEventFrame i \<and> q = p"
    using decode_encode_nat [of WS_EVENT_FRAME_ID p]
    by (simp add: encodeEventFrame_def isEventFrame_def WS_EVENT_FRAME_ID_def)
  show "if i \<le> WS_MAX_REQUEST_ID
    then decodeWsFrame (encodeWsFrame (int i) p) = Inr (i, p) \<and> \<not> isEventFrame i else True"
    using decode_encode_nat [of i p]
    by (simp add: isEventFrame_def WS_MAX_REQUEST_ID_def WS_EVENT_FRAME_ID_def)
qed (simp_all add: encodeControl_accepted)

end
