(* ===== verification/WebSocketTransport.thy ===== *)
theory WebSocketTransport
  imports WsProtocol
begin

text \<open>
  \<open>WebSocketTransport\<close> (\<open>packages/client/src/transport/websocket.ts\<close>): a client of the bridge.
  Many requests are in flight at once, each under a correlation id of its own; control messages
  and relayed events come in between. The transport is an event-driven machine. Logging is left
  out; listeners are taken not to call back into the transport before they return.
\<close>

section \<open>State\<close>

record ws_pending =
  p_tok :: nat
  p_timer :: bool

text \<open>A \<open>send\<close> that waits for \<open>ready()\<close>, or whose continuation is due.\<close>

record ws_call =
  c_tok :: nat
  c_request :: bytes
  c_timeoutMs :: millis

text \<open>
  \<open>sock\<close> is the state of the socket and \<open>send_throws\<close> whether its \<open>send\<close> throws. \<open>awaiting\<close>
  are the calls that wait for \<open>ready()\<close>, \<open>resuming\<close> those it has resolved. \<open>connectTimer\<close> and
  \<open>keepaliveTimer\<close> say which timers run. \<open>hung\<close> is set when the search for an id never ends,
  \<open>texts\<close> are the control frames sent and \<open>controls\<close> the messages given to control listeners.
  What the bridge announces is kept as the values of its messages.
\<close>

datatype socket_state = SockConnecting | SockOpen | SockClosing | SockClosed

record ws_transport =
  ws_state :: transport_state
  pending :: "(nat, ws_pending) jmap"
  nextId :: nat
  lastError :: "transport_error option"
  closedByUser :: bool
  socketOpen :: bool
  keepaliveTimer :: bool
  connectTimer :: bool
  sessionId :: json
  kicadToken :: json
  serverState :: json
  eventsState :: json
  defaultTimeoutMs :: millis
  sock :: socket_state
  send_throws :: bool
  awaiting :: "ws_call list"
  resuming :: "ws_call list"
  hung :: bool
  texts :: "json list"
  controls :: "json list"
  issued :: nat
  trace :: "effect list"

definition emit :: "effect list \<Rightarrow> ws_transport \<Rightarrow> ws_transport" where
  "emit es t = t\<lparr>trace := trace t @ es\<rparr>"

definition waiting :: "ws_transport \<Rightarrow> nat list" where
  "waiting t = map c_tok (awaiting t) @ map c_tok (resuming t) @ map p_tok (jvalues (pending t))"

definition disconnected :: json where
  "disconnected = JStr ''disconnected''"

section \<open>Operations\<close>

definition newWebSocketTransport :: "millis option \<Rightarrow> int option \<Rightarrow> ws_transport" where
  "newWebSocketTransport dflt keepaliveMs =
     \<lparr>ws_state = Connecting, pending = [], nextId = 1, lastError = None, closedByUser = False,
      socketOpen = False,
      keepaliveTimer = ((case keepaliveMs of None \<Rightarrow> 30000 | Some n \<Rightarrow> n) > 0),
      connectTimer = True, sessionId = JNull, kicadToken = JNull, serverState = JNull,
      eventsState = disconnected,
      defaultTimeoutMs = (case dflt of None \<Rightarrow> Ms 60000 | Some d \<Rightarrow> d),
      sock = SockConnecting, send_throws = False, awaiting = [], resuming = [], hung = False,
      texts = [], controls = [], issued = 0, trace = []\<rparr>"

definition closed_error :: "ws_transport \<Rightarrow> transport_error" where
  "closed_error t = (case lastError t of None \<Rightarrow> ClosedError | Some e \<Rightarrow> e)"

text \<open>
  \<open>setState\<close> with its listeners: the constructor's clears the connect timer, those of \<open>ready()\<close>
  resolve or reject the calls that wait.
\<close>

definition setState :: "transport_state \<Rightarrow> ws_transport \<Rightarrow> ws_transport" where
  "setState s t =
     (if ws_state t = s then t
      else
        let t1 = emit [Notify s] (t\<lparr>ws_state := s\<rparr>) in
        case s of
          Connecting \<Rightarrow> t1
        | Open \<Rightarrow> t1\<lparr>connectTimer := False, resuming := resuming t @ awaiting t, awaiting := []\<rparr>
        | ClosedState \<Rightarrow>
            emit (map (\<lambda>c. Reject (c_tok c) (closed_error t)) (awaiting t))
              (t1\<lparr>connectTimer := False, awaiting := []\<rparr>))"

definition finish :: "ws_transport \<Rightarrow> ws_transport" where
  "finish t =
     setState ClosedState
       (emit (map (\<lambda>p. Reject (p_tok p) (closed_error t)) (jvalues (pending t)))
         (t\<lparr>keepaliveTimer := False, pending := [], eventsState := disconnected\<rparr>))"

text \<open>The search for an id that no request in flight has.\<close>

partial_function (option) alloc_loop :: "nat list \<Rightarrow> nat \<Rightarrow> (nat \<times> nat) option" where
  "alloc_loop used next =
     (let next' = (if next \<ge> WS_MAX_REQUEST_ID then 1 else next + 1) in
      if List.member used next then alloc_loop used next' else Some (next, next'))"

declare alloc_loop.simps [code]

text \<open>\<open>send()\<close> from \<open>allocId()\<close> on.\<close>

definition send_now :: "ws_call \<Rightarrow> ws_transport \<Rightarrow> ws_transport" where
  "send_now c t =
     (case alloc_loop (jkeys (pending t)) (nextId t) of
        None \<Rightarrow> t\<lparr>hung := True, resuming := c # resuming t\<rparr>
      | Some (rid, next') \<Rightarrow>
          let p = \<lparr>p_tok = c_tok c, p_timer = arms_timer (c_timeoutMs c)\<rparr>;
              t1 = t\<lparr>nextId := next', pending := jput rid p (pending t)\<rparr>
          in if send_throws t
             then emit [Reject (c_tok c) ClosedError] (t1\<lparr>pending := jdel rid (pending t1)\<rparr>)
             else emit [Wire (c_tok c) (encodeWsFrame (int rid) (c_request c))] t1)"

definition send_open :: "ws_call \<Rightarrow> ws_transport \<Rightarrow> ws_transport" where
  "send_open c t =
     (if ws_state t \<noteq> Open then emit [Reject (c_tok c) (closed_error t)] t else send_now c t)"

definition send :: "bytes \<Rightarrow> millis option \<Rightarrow> ws_transport \<Rightarrow> ws_transport" where
  "send request timeoutMs t =
     (let c = \<lparr>c_tok = issued t, c_request = request,
               c_timeoutMs = (case timeoutMs of None \<Rightarrow> defaultTimeoutMs t | Some m \<Rightarrow> m)\<rparr>;
          t1 = t\<lparr>issued := issued t + 1\<rparr>
      in if ws_state t = Connecting then t1\<lparr>awaiting := awaiting t @ [c]\<rparr> else send_open c t1)"

text \<open>The continuation of a call that waited for \<open>ready()\<close>.\<close>

definition onResume :: "ws_transport \<Rightarrow> ws_transport" where
  "onResume t = (case resuming t of [] \<Rightarrow> t | c # cs \<Rightarrow> send_open c (t\<lparr>resuming := cs\<rparr>))"

definition onRequestTimeout :: "nat \<Rightarrow> ws_transport \<Rightarrow> ws_transport" where
  "onRequestTimeout rid t =
     (case jget (pending t) rid of
        None \<Rightarrow> t
      | Some p \<Rightarrow> emit [Reject (p_tok p) TimeoutError] (t\<lparr>pending := jdel rid (pending t)\<rparr>))"

definition close :: "ws_transport \<Rightarrow> ws_transport" where
  "close t =
     (if closedByUser t then t
      else finish (t\<lparr>closedByUser := True, lastError := Some ClosedError,
             sock := (if sock t = SockClosed then SockClosed else SockClosing)\<rparr>))"

definition onConnectTimer :: "ws_transport \<Rightarrow> ws_transport" where
  "onConnectTimer t =
     (if ws_state t = Connecting
      then finish (t\<lparr>connectTimer := False, lastError := Some ConnectError, sock := SockClosing\<rparr>)
      else t\<lparr>connectTimer := False\<rparr>)"

definition onSocketOpen :: "ws_transport \<Rightarrow> ws_transport" where
  "onSocketOpen t = t\<lparr>sock := SockOpen, socketOpen := True\<rparr>"

definition connect_or_closed :: "ws_transport \<Rightarrow> transport_error" where
  "connect_or_closed t = (if ws_state t = Connecting then ConnectError else ClosedError)"

definition onSocketError :: "ws_transport \<Rightarrow> ws_transport" where
  "onSocketError t = t\<lparr>lastError := Some (connect_or_closed t)\<rparr>"

definition onSocketClose :: "ws_transport \<Rightarrow> ws_transport" where
  "onSocketClose t =
     finish (t\<lparr>sock := SockClosed, connectTimer := False,
       lastError := (if lastError t = None \<or> ws_state t = Open
                     then Some (connect_or_closed t) else lastError t)\<rparr>)"

text \<open>A control frame is handed to the socket; that its \<open>send\<close> throws is ignored.\<close>

definition send_text :: "json \<Rightarrow> ws_transport \<Rightarrow> ws_transport" where
  "send_text m t = (if send_throws t then t else t\<lparr>texts := texts t @ [m]\<rparr>)"

definition onKeepalive :: "rat \<Rightarrow> ws_transport \<Rightarrow> ws_transport" where
  "onKeepalive now t =
     (if ws_state t = Open then send_text (encodeControl (Ping (Some now))) t else t)"

definition mapErrorCode :: "string \<Rightarrow> transport_error" where
  "mapErrorCode code =
     (if code = ''timeout'' then TimeoutError
      else if code = ''closed'' then ClosedError
      else if code = ''connect'' then ConnectError
      else ProtocolError)"

text \<open>The id of an error message as a key of \<open>pending\<close>, whose keys are natural numbers.\<close>

fun id_key :: "json option \<Rightarrow> nat option" where
  "id_key (Some (JNum (Fin r))) = (if r = of_nat (nat \<lfloor>r\<rfloor>) then Some (nat \<lfloor>r\<rfloor>) else None)"
| "id_key _ = None"

fun json_string :: "json option \<Rightarrow> string" where
  "json_string (Some (JStr s)) = s"
| "json_string _ = []"

definition value_or :: "json \<Rightarrow> json option \<Rightarrow> json" where
  "value_or d v = (case v of None \<Rightarrow> d | Some x \<Rightarrow> x)"

definition onHello :: "json \<Rightarrow> ws_transport \<Rightarrow> ws_transport" where
  "onHello m t =
     (let t1 = t\<lparr>sessionId := value_or JNull (jprop m ''sessionId''),
                 kicadToken := value_or JNull (jprop m ''kicadToken''),
                 serverState := value_or JNull (jprop m ''serverState''),
                 eventsState := (case jprop m ''eventsState'' of
                    None \<Rightarrow> disconnected
                  | Some v \<Rightarrow> if v = JNull then disconnected else v)\<rparr>
      in if ws_state t1 = Connecting \<and> socketOpen t1 then setState Open t1 else t1)"

definition onServerState :: "json \<Rightarrow> ws_transport \<Rightarrow> ws_transport" where
  "onServerState m t =
     (let t1 = t\<lparr>serverState := value_or JNull (jprop m ''state'')\<rparr>
      in case jprop m ''kicadToken'' of None \<Rightarrow> t1 | Some v \<Rightarrow> t1\<lparr>kicadToken := v\<rparr>)"

definition onErrorMessage :: "json \<Rightarrow> ws_transport \<Rightarrow> ws_transport" where
  "onErrorMessage m t =
     (case id_key (jprop m ''id'') of
        None \<Rightarrow> t
      | Some rid \<Rightarrow>
          (case jget (pending t) rid of
             None \<Rightarrow> t
           | Some p \<Rightarrow> emit [Reject (p_tok p) (mapErrorCode (json_string (jprop m ''code'')))]
                         (t\<lparr>pending := jdel rid (pending t)\<rparr>)))"

definition pong_for :: "json \<Rightarrow> json" where
  "pong_for m = JObj ((''type'', JStr ''pong'') # optional_field ''t'' (\<lambda>x. x) (jprop m ''t''))"

definition onControlMessage :: "json \<Rightarrow> ws_transport \<Rightarrow> ws_transport" where
  "onControlMessage m t =
     (let t1 =
        (if jprop m ''type'' = Some (JStr ''hello'') then onHello m t
         else if jprop m ''type'' = Some (JStr ''server-state'') then onServerState m t
         else if jprop m ''type'' = Some (JStr ''events'') then
           t\<lparr>eventsState := value_or JNull (jprop m ''state'')\<rparr>
         else if jprop m ''type'' = Some (JStr ''error'') then onErrorMessage m t
         else if jprop m ''type'' = Some (JStr ''ping'') then send_text (pong_for m) t
         else t)
      in t1\<lparr>controls := controls t1 @ [m]\<rparr>)"

definition onBinary :: "bytes \<Rightarrow> ws_transport \<Rightarrow> ws_transport" where
  "onBinary data t0 =
     (let t = emit [Arrived data] t0 in
      case decodeWsFrame data of
        Inl e \<Rightarrow> t
      | Inr (rid, payload) \<Rightarrow>
          if isEventFrame rid then emit [Deliver payload] t
          else case jget (pending t) rid of
              None \<Rightarrow> t
            | Some p \<Rightarrow> emit [Resolve (p_tok p) payload] (t\<lparr>pending := jdel rid (pending t)\<rparr>))"

datatype ws_data = TextFrame "json option" | BinaryFrame bytes

fun onMessage :: "ws_data \<Rightarrow> ws_transport \<Rightarrow> ws_transport" where
  "onMessage (TextFrame parsed) t =
     (case parseControl parsed of Inl e \<Rightarrow> t | Inr m \<Rightarrow> onControlMessage m t)"
| "onMessage (BinaryFrame data) t = onBinary data t"

section \<open>The machine\<close>

datatype ws_event =
    Send bytes "millis option"
  | Resume
  | Close
  | SocketOpens
  | Message ws_data
  | SocketError
  | SocketCloses
  | ConnectTimer
  | Keepalive rat
  | Timeout nat
  | SendThrows bool

fun ws_step :: "ws_event \<Rightarrow> ws_transport \<Rightarrow> ws_transport" where
  "ws_step (Send r m) t = send r m t"
| "ws_step Resume t = onResume t"
| "ws_step Close t = close t"
| "ws_step SocketOpens t = onSocketOpen t"
| "ws_step (Message d) t = onMessage d t"
| "ws_step SocketError t = onSocketError t"
| "ws_step SocketCloses t = onSocketClose t"
| "ws_step ConnectTimer t = onConnectTimer t"
| "ws_step (Keepalive now) t = onKeepalive now t"
| "ws_step (Timeout rid) t = onRequestTimeout rid t"
| "ws_step (SendThrows b) t = t\<lparr>send_throws := b\<rparr>"

text \<open>
  What the runtime can deliver: messages while the socket is open, one close of it, timers that
  run, and continuations that are due; nothing while a handler hangs.
\<close>

fun ws_enabled :: "ws_event \<Rightarrow> ws_transport \<Rightarrow> bool" where
  "ws_enabled Resume t = (resuming t \<noteq> [])"
| "ws_enabled SocketOpens t = (sock t = SockConnecting)"
| "ws_enabled (Message d) t = (sock t = SockOpen)"
| "ws_enabled SocketError t = (sock t \<noteq> SockClosed)"
| "ws_enabled SocketCloses t = (sock t \<noteq> SockClosed)"
| "ws_enabled ConnectTimer t = connectTimer t"
| "ws_enabled (Keepalive now) t = keepaliveTimer t"
| "ws_enabled (Timeout rid) t =
     (case jget (pending t) rid of None \<Rightarrow> False | Some p \<Rightarrow> p_timer p)"
| "ws_enabled _ t = True"

definition ws_allowed :: "ws_event \<Rightarrow> ws_transport \<Rightarrow> bool" where
  "ws_allowed e t \<longleftrightarrow> \<not> hung t \<and> ws_enabled e t"

section \<open>The search for an id\<close>

lemma jput_fresh: "jget m k = None \<Longrightarrow> jput k v m = m @ [(k, v)]"
  by (induction k v m rule: jput.induct) (auto simp: jget_def split: if_splits)

lemma jdel_fresh: "jget m k = None \<Longrightarrow> jdel k m = m"
  unfolding jdel_def jget_def
  by (rule filter_True) (auto simp: map_of_eq_None_iff image_iff)

lemma jdel_jput_fresh: "jget m k = None \<Longrightarrow> jdel k (jput k v m) = m"
  using jdel_fresh [of m k] by (simp add: jput_fresh) (simp add: jdel_def)

lemma jvalues_jput_fresh: "jget m k = None \<Longrightarrow> jvalues (jput k v m) = jvalues m @ [v]"
  by (simp add: jput_fresh) (simp add: jvalues_def)

lemma jvalues_jdel:
  assumes "distinct (jkeys m)" and "jget m k = Some v"
  shows "mset (jvalues m) = add_mset v (mset (jvalues (jdel k m)))"
  using assms
proof (induction m)
  case (Cons e m)
  obtain j w where e: "e = (j, w)" by (cases e)
  show ?case
  proof (cases "j = k")
    case True
    then have "jget m k = None" using Cons.prems(1) e
      using jkeys_jget [of k m] by (auto simp: jkeys_def)
    then show ?thesis using True Cons.prems e jdel_fresh [of m k]
      by (simp add: jdel_def jvalues_def jget_def)
  next
    case False
    then show ?thesis using Cons e
      by (simp add: jdel_def jvalues_def jget_def jkeys_def)
  qed
qed simp

lemma alloc_loop_fresh:
  assumes "alloc_loop used n = Some (rid, n')"
  shows "rid \<notin> set used"
proof -
  have "fst r \<notin> set used" if "alloc_loop used n = Some r" for r
    using that
  proof (rule alloc_loop.raw_induct [of "\<lambda>used n r. fst r \<notin> set used", rotated])
    fix f used n y
    assume h: "\<And>u n y. f u n = Some y \<Longrightarrow> fst y \<notin> set u"
      and e: "(let next' = if WS_MAX_REQUEST_ID \<le> n then 1 else n + 1
          in if List.member used n then f used next' else Some (n, next')) = Some y"
    show "fst y \<notin> set used"
      using e h [of used "if WS_MAX_REQUEST_ID \<le> n then 1 else n + 1" y]
      by (auto simp: Let_def split: if_splits)
  qed
  then show ?thesis using assms by fastforce
qed

lemma alloc_loop_now:
  "n \<notin> set used \<Longrightarrow>
   alloc_loop used n = Some (n, if n \<ge> WS_MAX_REQUEST_ID then 1 else n + 1)"
  by (subst alloc_loop.simps) (simp add: Let_def)

lemma alloc_loop_next:
  "n \<in> set used \<Longrightarrow>
   alloc_loop used n = alloc_loop used (if n \<ge> WS_MAX_REQUEST_ID then 1 else n + 1)"
  by (subst alloc_loop.simps) (simp add: Let_def)

lemma alloc_loop_finds:
  "n \<le> d \<Longrightarrow> d \<le> WS_MAX_REQUEST_ID \<Longrightarrow> d \<notin> set used \<Longrightarrow>
   \<exists>rid n'. alloc_loop used n = Some (rid, n') \<and> n \<le> rid \<and> rid \<le> d"
proof (induction "d - n" arbitrary: n rule: less_induct)
  case less
  show ?case
  proof (cases "n \<in> set used")
    case True
    then have "n < d" using less.prems by (cases "n = d") auto
    then have "\<exists>rid n'. alloc_loop used (Suc n) = Some (rid, n') \<and> Suc n \<le> rid \<and> rid \<le> d"
      using less.prems by (intro less.hyps) auto
    then show ?thesis using True \<open>n < d\<close> less.prems(2) by (auto simp: alloc_loop_next)
  qed (use less.prems in \<open>auto simp: alloc_loop_now\<close>)
qed

lemma alloc_loop_wraps:
  "n \<le> WS_MAX_REQUEST_ID \<Longrightarrow> {n..WS_MAX_REQUEST_ID} \<subseteq> set used \<Longrightarrow>
   alloc_loop used n = alloc_loop used 1"
proof (induction "WS_MAX_REQUEST_ID - n" arbitrary: n rule: less_induct)
  case less
  have m: "n \<in> set used" using less.prems by auto
  show ?case
  proof (cases "n = WS_MAX_REQUEST_ID")
    case False
    then have "alloc_loop used (Suc n) = alloc_loop used 1"
      using less.prems by (intro less.hyps) auto
    then show ?thesis using m False less.prems(1) by (simp add: alloc_loop_next)
  qed (use m in \<open>simp add: alloc_loop_next\<close>)
qed

lemma ws_alloc_total:
  assumes "1 \<le> n" "n \<le> WS_MAX_REQUEST_ID" "length used < WS_MAX_REQUEST_ID"
  shows "\<exists>rid n'. alloc_loop used n = Some (rid, n') \<and> 1 \<le> rid \<and> rid \<le> WS_MAX_REQUEST_ID"
proof -
  have "\<not> {1..WS_MAX_REQUEST_ID} \<subseteq> set used"
  proof
    assume "{1..WS_MAX_REQUEST_ID} \<subseteq> set used"
    then have "WS_MAX_REQUEST_ID \<le> card (set used)"
      using card_mono [of "set used" "{1..WS_MAX_REQUEST_ID}"] by simp
    then show False using card_length [of used] assms(3) by simp
  qed
  then obtain d where d: "1 \<le> d" "d \<le> WS_MAX_REQUEST_ID" "d \<notin> set used"
    by (meson atLeastAtMost_iff subsetI)
  show ?thesis
  proof (cases "{n..WS_MAX_REQUEST_ID} \<subseteq> set used")
    case True
    then show ?thesis
      using alloc_loop_wraps [OF assms(2) True] alloc_loop_finds [OF d] d(2)
      by (metis order_trans)
  next
    case False
    then obtain d' where "n \<le> d'" "d' \<le> WS_MAX_REQUEST_ID" "d' \<notin> set used"
      by (meson atLeastAtMost_iff subsetI)
    from alloc_loop_finds [OF this] this(2) assms(1) show ?thesis by (meson order_trans)
  qed
qed

section \<open>Promises\<close>

definition ws_inv :: "ws_transport \<Rightarrow> bool" where
  "ws_inv t \<longleftrightarrow>
     distinct (jkeys (pending t)) \<and>
     (ws_state t = Connecting \<longrightarrow> pending t = [] \<and> resuming t = []) \<and>
     (ws_state t \<noteq> Connecting \<longrightarrow> awaiting t = [] \<and> \<not> connectTimer t) \<and>
     (closedByUser t \<longrightarrow> ws_state t = ClosedState) \<and>
     (ws_state t = ClosedState \<longrightarrow>
        pending t = [] \<and> sock t \<in> {SockClosing, SockClosed} \<and> \<not> keepaliveTimer t
        \<and> eventsState t = disconnected)"

definition books :: "ws_transport \<Rightarrow> bool" where
  "books t \<longleftrightarrow> accounted (issued t) (waiting t) (settled_by (trace t))"

lemmas ws_books_simps = books_def accounted_def waiting_def emit_def

lemma jmap_Nil [simp]: "jkeys [] = []" "jvalues [] = []" "jdel k [] = []"
  by (simp_all add: jkeys_def jvalues_def jdel_def)

lemma ws_inv_finish:
  "sock t \<in> {SockClosing, SockClosed} \<Longrightarrow> ws_inv t \<Longrightarrow> ws_inv (finish t)"
  by (auto simp: ws_inv_def finish_def setState_def emit_def Let_def)

lemma ws_inv_send_now:
  assumes "ws_inv t" "ws_state t = Open"
  shows "ws_inv (send_now c t)"
  using assms by (auto simp: ws_inv_def send_now_def emit_def Let_def split: option.splits)

lemma ws_inv_send_open: "ws_inv t \<Longrightarrow> ws_inv (send_open c t)"
  using ws_inv_send_now [of t c]
  by (cases "ws_state t") (auto simp: send_open_def emit_def ws_inv_def)

lemma ws_inv_control:
  assumes "ws_inv t" "sock t = SockOpen"
  shows "ws_inv (onControlMessage m t)"
proof -
  have u: "ws_inv (s\<lparr>controls := c\<rparr>) = ws_inv s" for s c by (simp add: ws_inv_def)
  have "ws_inv (onHello m t)"
    using assms by (auto simp: onHello_def ws_inv_def setState_def emit_def Let_def)
  moreover have "ws_inv (onServerState m t)"
    using assms by (auto simp: onServerState_def ws_inv_def Let_def split: option.splits)
  moreover have "ws_inv (onErrorMessage m t)"
    using assms by (auto simp: onErrorMessage_def ws_inv_def emit_def split: option.splits)
  moreover have "ws_inv (t\<lparr>eventsState := x\<rparr>)" for x
    using assms by (auto simp: ws_inv_def)
  moreover have "ws_inv (send_text x t)" for x
    using assms by (auto simp: ws_inv_def send_text_def)
  ultimately show ?thesis using assms(1) by (simp add: onControlMessage_def Let_def u)
qed

lemma ws_inv_binary: "ws_inv t \<Longrightarrow> ws_inv (onBinary d t)"
  by (auto simp: onBinary_def ws_inv_def emit_def Let_def split: sum.splits option.splits)

lemma ws_inv_ending:
  assumes "ws_inv t" and "k \<in> {SockClosing, SockClosed}"
  shows "ws_inv (finish (t\<lparr>sock := k, connectTimer := False, lastError := e\<rparr>))"
    and "ws_inv (finish (t\<lparr>closedByUser := u, lastError := e, sock := k\<rparr>))"
    and "ws_inv (finish (t\<lparr>connectTimer := False, lastError := e, sock := k\<rparr>))"
  using assms by (auto simp: ws_inv_def finish_def setState_def emit_def Let_def)

lemma ws_inv_quiet:
  assumes "ws_inv t"
  shows "ws_inv (t\<lparr>lastError := e\<rparr>)" "ws_inv (t\<lparr>send_throws := b\<rparr>)"
    "ws_inv (t\<lparr>issued := n\<rparr>)" "ws_inv (t\<lparr>texts := x\<rparr>)" "ws_inv (t\<lparr>connectTimer := False\<rparr>)"
    "ws_inv (t\<lparr>resuming := tl (resuming t)\<rparr>)"
  using assms by (auto simp: ws_inv_def)

lemma ws_inv_step:
  assumes "ws_inv t" "ws_allowed e t"
  shows "ws_inv (ws_step e t)"
proof (cases e)
  case (Send r m)
  have "ws_state t = Connecting \<Longrightarrow> ws_inv (t\<lparr>issued := n, awaiting := a\<rparr>)" for n a
    using assms(1) by (auto simp: ws_inv_def)
  then show ?thesis using Send ws_inv_send_open ws_inv_quiet(3) [OF assms(1)]
    by (simp add: send_def Let_def)
next
  case Resume
  then show ?thesis using assms(1) ws_inv_send_open ws_inv_quiet(6) [OF assms(1)]
    by (cases "resuming t") (auto simp: onResume_def)
next
  case (Message d)
  then show ?thesis using assms ws_inv_control ws_inv_binary
    by (cases d) (auto simp: ws_allowed_def split: sum.split)
next
  case SocketOpens
  then show ?thesis using assms by (auto simp: ws_inv_def ws_allowed_def onSocketOpen_def)
next
  case (Timeout rid)
  then show ?thesis using assms(1)
    by (auto simp: onRequestTimeout_def ws_inv_def emit_def split: option.split)
qed (use assms(1) in \<open>simp_all add: ws_inv_quiet ws_inv_ending close_def onSocketClose_def
       onConnectTimer_def onSocketError_def onKeepalive_def send_text_def\<close>)

lemma ws_inv_new: "ws_inv (newWebSocketTransport d k)"
  by (simp add: ws_inv_def newWebSocketTransport_def)

lemma ws_waiting_emit [simp]: "waiting (emit es t) = waiting t"
  by (simp add: waiting_def emit_def)

lemma books_emit_settles:
  "mset (waiting t') + mset (settled_by es) = mset (waiting t) \<Longrightarrow>
   issued t' = issued t \<Longrightarrow> trace t' = trace t \<Longrightarrow> books t \<Longrightarrow> books (emit es t')"
  unfolding books_def ws_waiting_emit
  by (rule accounted_perm [of _ "waiting t" "settled_by (trace t)"]) (simp_all add: emit_def ac_simps)

lemma ws_books_setState: "books t \<Longrightarrow> s \<noteq> Connecting \<Longrightarrow> books (setState s t)"
  by (cases s) (simp_all add: setState_def Let_def ws_books_simps ac_simps)

lemma ws_books_finish: "books t \<Longrightarrow> books (finish t)"
  unfolding finish_def
  by (intro ws_books_setState books_emit_settles [of _ _ t]) (simp_all add: waiting_def)

lemma ws_books_settle:
  assumes "distinct (jkeys (pending t))" "jget (pending t) rid = Some p" "settles x = [p_tok p]"
    and "books t"
  shows "books (emit [x] (t\<lparr>pending := jdel rid (pending t)\<rparr>))"
  using jvalues_jdel [OF assms(1,2)]
  by (intro books_emit_settles [OF _ _ _ assms(4)]) (simp_all add: waiting_def assms(3))

lemma ws_books_send_now:
  assumes "accounted (issued t) (c_tok c # waiting t) (settled_by (trace t))"
  shows "books (send_now c t)"
proof (cases "alloc_loop (jkeys (pending t)) (nextId t)")
  case (Some r)
  obtain rid n where r: "r = (rid, n)" by (cases r)
  then have f: "jget (pending t) rid = None"
    using alloc_loop_fresh [of _ _ rid n] Some jkeys_jget [of rid "pending t"] by auto
  then show ?thesis using assms r Some
    by (simp add: send_now_def Let_def ws_books_simps jvalues_jput_fresh jdel_jput_fresh ac_simps)
qed (use assms in \<open>simp add: send_now_def ws_books_simps ac_simps\<close>)

lemma ws_books_send_open:
  assumes "accounted (issued t) (c_tok c # waiting t) (settled_by (trace t))"
  shows "books (send_open c t)"
  using ws_books_send_now [OF assms] assms
  by (simp add: send_open_def) (simp add: ws_books_simps ac_simps)

lemma ws_books_send: "books t \<Longrightarrow> books (send r m t)"
  by (auto simp: send_def Let_def intro!: ws_books_send_open) (simp_all add: ws_books_simps ac_simps)

lemma ws_books_resume: "books t \<Longrightarrow> books (onResume t)"
  by (cases "resuming t")
     (auto simp: onResume_def intro!: ws_books_send_open, simp add: ws_books_simps ac_simps)

lemma ws_books_quiet [simp]:
  "books (t\<lparr>lastError := e\<rparr>) = books t" "books (t\<lparr>sock := k\<rparr>) = books t"
  "books (t\<lparr>controls := cs\<rparr>) = books t" "books (t\<lparr>texts := cs\<rparr>) = books t"
  "books (t\<lparr>eventsState := v\<rparr>) = books t" "books (t\<lparr>kicadToken := v\<rparr>) = books t"
  "books (t\<lparr>serverState := v\<rparr>) = books t" "books (t\<lparr>sessionId := v\<rparr>) = books t"
  "books (t\<lparr>connectTimer := b\<rparr>) = books t" "books (t\<lparr>socketOpen := b\<rparr>) = books t"
  "books (t\<lparr>closedByUser := b\<rparr>) = books t" "books (t\<lparr>send_throws := b\<rparr>) = books t"
  by (simp_all add: ws_books_simps)

lemma ws_books_emit [simp]: "settled_by es = [] \<Longrightarrow> books (emit es t) = books t"
  by (simp add: ws_books_simps)

lemma ws_pending_quiet [simp]: "pending (emit es t) = pending t"
  by (simp add: emit_def)

lemma ws_books_control:
  assumes "ws_inv t" "books t"
  shows "books (onControlMessage m t)"
proof -
  have d: "distinct (jkeys (pending t))" using assms(1) by (simp add: ws_inv_def)
  have "books (onHello m t)"
    using assms(2) by (auto simp: onHello_def Let_def intro!: ws_books_setState)
  moreover have "books (onServerState m t)"
    using assms(2) by (simp add: onServerState_def Let_def split: option.splits)
  moreover have "books (onErrorMessage m t)"
    using assms(2) ws_books_settle [OF d]
    by (simp add: onErrorMessage_def split: option.splits)
  ultimately show ?thesis using assms(2) by (simp add: onControlMessage_def Let_def send_text_def)
qed

lemma ws_books_binary: "ws_inv t \<Longrightarrow> books t \<Longrightarrow> books (onBinary d t)"
proof -
  assume i: "ws_inv t" and b: "books t"
  have "distinct (jkeys (pending (emit [Arrived d] t)))" using i by (simp add: ws_inv_def)
  then show ?thesis using ws_books_settle [of "emit [Arrived d] t"] b
    by (auto simp: onBinary_def Let_def split: sum.split option.split)
qed

lemma ws_books_step: "ws_inv t \<Longrightarrow> ws_allowed e t \<Longrightarrow> books t \<Longrightarrow> books (ws_step e t)"
proof (cases e)
  case (Message d)
  assume "ws_inv t" "books t"
  then show ?thesis using Message ws_books_control ws_books_binary
    by (cases d) (auto split: sum.split)
next
  case (Timeout rid)
  assume "ws_inv t" "books t"
  then show ?thesis using Timeout
    by (auto simp: onRequestTimeout_def ws_inv_def intro!: ws_books_settle split: option.split)
qed (auto simp: ws_books_send ws_books_resume close_def onSocketClose_def onConnectTimer_def
       onSocketOpen_def onSocketError_def onKeepalive_def send_text_def intro!: ws_books_finish)

lemma ws_books_new: "books (newWebSocketTransport d k)"
  by (simp add: ws_books_simps newWebSocketTransport_def)

text \<open>Nothing is ever taken out of the trace, and calls are only added.\<close>

definition grows :: "ws_transport \<Rightarrow> ws_transport \<Rightarrow> bool" where
  "grows t t' \<longleftrightarrow> prefix (trace t) (trace t') \<and> issued t \<le> issued t'"

lemma ws_grows_send_now: "grows t (send_now c t)"
  by (simp add: send_now_def grows_def emit_def Let_def split: option.split)

lemma ws_grows_finish: "grows t (finish t)"
  by (simp add: finish_def setState_def grows_def emit_def Let_def)

lemma ws_grows_send_open: "grows t (send_open c t)"
  using ws_grows_send_now [of t c] by (simp add: send_open_def) (simp add: grows_def emit_def)

lemma ws_grows_via:
  "trace s = trace t \<Longrightarrow> issued t \<le> issued s \<Longrightarrow> grows s s' \<Longrightarrow> grows t s'"
  by (auto simp: grows_def)

lemma ws_grows_control: "grows t (onControlMessage m t)"
  by (auto simp: onControlMessage_def grows_def Let_def onHello_def setState_def emit_def
        onServerState_def onErrorMessage_def send_text_def split: option.splits)

lemma ws_grows_step: "grows t (ws_step e t)"
proof (cases e)
  case (Send r m)
  then show ?thesis
    by (auto simp: send_def Let_def intro!: ws_grows_via [OF _ _ ws_grows_send_open])
       (simp add: grows_def)
next
  case Resume
  then show ?thesis
    by (cases "resuming t")
       (auto simp: onResume_def grows_def [of t t] intro!: ws_grows_via [OF _ _ ws_grows_send_open])
next
  case (Message d)
  have "grows t (onBinary b t)" for b
    by (auto simp: onBinary_def Let_def grows_def emit_def split: sum.splits option.splits)
  then show ?thesis using Message ws_grows_control [of t]
    by (cases d) (auto simp: grows_def [of t t] split: sum.splits)
qed (auto simp: close_def onSocketClose_def onConnectTimer_def intro!: ws_grows_via [OF _ _ ws_grows_finish],
     auto simp: grows_def onSocketOpen_def onSocketError_def onKeepalive_def send_text_def
       onRequestTimeout_def emit_def split: option.split)

interpretation ws_machine: promise_contract "newWebSocketTransport dflt keep" ws_allowed ws_step
  ws_inv issued waiting trace
  for dflt :: "millis option" and keep :: "int option"
proof
  show "accounted (issued (newWebSocketTransport dflt keep)) (waiting (newWebSocketTransport dflt keep))
      (settled_by (trace (newWebSocketTransport dflt keep)))"
    using ws_books_new by (simp only: books_def)
  show "accounted (issued (ws_step e t)) (waiting (ws_step e t)) (settled_by (trace (ws_step e t)))"
    if "ws_inv t" "ws_allowed e t" "accounted (issued t) (waiting t) (settled_by (trace t))" for e t
    using ws_books_step [of t e] that by (simp only: books_def)
  show "prefix (trace s) (trace (ws_step e s))" for s e
    using ws_grows_step by (simp add: grows_def)
  show "issued s \<le> issued (ws_step e s)" for s e
    using ws_grows_step by (simp add: grows_def)
qed (auto intro: ws_inv_new ws_inv_step)

section \<open>Replies and ids\<close>

text \<open>The ids the frames on the wire carry.\<close>

definition wire_ids :: "effect list \<Rightarrow> nat list" where
  "wire_ids tr = map (\<lambda>(k, f). be_val (take WS_FRAME_ID_LENGTH f)) (wires_by tr)"

definition carries :: "effect list \<Rightarrow> nat \<Rightarrow> nat \<Rightarrow> bool" where
  "carries tr k rid \<longleftrightarrow> (\<exists>request. (k, encodeWsFrame (int rid) request) \<in> set (wires_by tr))"

definition answered :: "effect list \<Rightarrow> nat \<Rightarrow> bytes \<Rightarrow> bool" where
  "answered tr k reply \<longleftrightarrow> (\<exists>rid frame. carries tr k rid \<and> frame \<in> set (arrived_by tr)
     \<and> decodeWsFrame frame = Inr (rid, reply) \<and> rid \<noteq> WS_EVENT_FRAME_ID)"

lemma wire_ids_append [simp]: "wire_ids (xs @ ys) = wire_ids xs @ wire_ids ys"
  by (simp add: wire_ids_def)

lemma wire_ids_Wire [simp]:
  "n < 2 ^ 32 \<Longrightarrow> wire_ids [Wire k (encodeWsFrame (int n) r)] = [n]"
  using decode_encode_nat [of n r] by (simp add: wire_ids_def decodeWsFrame_def split: if_splits)

lemma wire_ids_quiet [simp]: "wires_by es = [] \<Longrightarrow> wire_ids es = []"
  by (simp add: wire_ids_def)

lemma carries_append: "carries tr k rid \<Longrightarrow> carries (tr @ es) k rid"
  by (auto simp: carries_def)

lemma answered_append: "answered tr k b \<Longrightarrow> answered (tr @ es) k b"
  by (auto simp: answered_def dest: carries_append)

text \<open>
  As long as fewer calls were made than there are ids: ids are given out in increasing order,
  each pending entry is kept under the id its frame carries, and every answer came in a frame
  with the id of the request it was given to.
\<close>

definition id_inv :: "ws_transport \<Rightarrow> bool" where
  "id_inv t \<longleftrightarrow>
     1 \<le> nextId t \<and> nextId t + length (awaiting t) + length (resuming t) \<le> issued t + 1 \<and>
     sorted_wrt (<) (wire_ids (trace t)) \<and>
     (\<forall>i \<in> set (wire_ids (trace t)). 1 \<le> i \<and> i < nextId t) \<and>
     (\<forall>i p. jget (pending t) i = Some p \<longrightarrow> i < nextId t \<and> carries (trace t) (p_tok p) i) \<and>
     (\<forall>(k, b) \<in> set (resolved_by (trace t)). answered (trace t) k b) \<and> \<not> hung t"

definition few_calls :: "ws_transport \<Rightarrow> bool" where
  "few_calls t \<longleftrightarrow> issued t < WS_MAX_REQUEST_ID"

lemma id_inv_emit:
  "id_inv t \<Longrightarrow> wires_by es = [] \<Longrightarrow> resolved_by es = [] \<Longrightarrow> id_inv (emit es t)"
  by (auto simp: id_inv_def emit_def carries_append answered_append)

lemma id_inv_del: "id_inv t \<Longrightarrow> id_inv (t\<lparr>pending := jdel rid (pending t)\<rparr>)"
  by (auto simp: id_inv_def split: if_splits)

lemma id_inv_quiet:
  assumes "id_inv t"
  shows "id_inv (t\<lparr>ws_state := s\<rparr>)" "id_inv (t\<lparr>lastError := e\<rparr>)" "id_inv (t\<lparr>sock := k\<rparr>)"
    "id_inv (t\<lparr>controls := cs\<rparr>)" "id_inv (t\<lparr>texts := cs\<rparr>)" "id_inv (t\<lparr>eventsState := v\<rparr>)"
    "id_inv (t\<lparr>kicadToken := v\<rparr>)" "id_inv (t\<lparr>serverState := v\<rparr>)" "id_inv (t\<lparr>sessionId := v\<rparr>)"
    "id_inv (t\<lparr>connectTimer := b\<rparr>)" "id_inv (t\<lparr>socketOpen := b\<rparr>)" "id_inv (t\<lparr>closedByUser := b\<rparr>)"
    "id_inv (t\<lparr>send_throws := b\<rparr>)" "id_inv (t\<lparr>keepaliveTimer := b\<rparr>)" "id_inv (t\<lparr>pending := []\<rparr>)"
    "id_inv (t\<lparr>awaiting := []\<rparr>)" "id_inv (t\<lparr>resuming := resuming t @ awaiting t, awaiting := []\<rparr>)"
  using assms by (simp_all add: id_inv_def)

lemma id_inv_setState:
  assumes "id_inv t" "s \<noteq> Connecting"
  shows "id_inv (setState s t)"
proof -
  let ?t = "emit [Notify s] (t\<lparr>ws_state := s\<rparr>)"
  have i: "id_inv ?t" using assms(1) by (simp add: id_inv_emit id_inv_quiet)
  have o: "id_inv (?t\<lparr>connectTimer := False, resuming := resuming t @ awaiting t, awaiting := []\<rparr>)"
    using id_inv_quiet(17) [OF id_inv_quiet(10) [OF i, of False]] by (simp add: emit_def)
  have c: "id_inv (emit (map (\<lambda>c. Reject (c_tok c) e) (awaiting t))
      (?t\<lparr>connectTimer := False, awaiting := []\<rparr>))" for e
    using id_inv_quiet(16) [OF id_inv_quiet(10) [OF i, of False]] by (simp add: id_inv_emit)
  show ?thesis using assms o c by (cases s) (simp_all add: setState_def Let_def)
qed

lemma id_inv_finish: "id_inv t \<Longrightarrow> id_inv (finish t)"
  unfolding finish_def
  by (intro id_inv_setState id_inv_emit id_inv_quiet(6) id_inv_quiet(15) id_inv_quiet(14)) simp_all

lemma id_inv_send_now:
  assumes "id_inv t" "issued t < WS_MAX_REQUEST_ID"
    and "nextId t + length (awaiting t) + length (resuming t) \<le> issued t"
  shows "id_inv (send_now c t)"
proof -
  let ?n = "nextId t"
  have free: "jget (pending t) ?n = None" using assms(1)
    by (cases "jget (pending t) ?n") (auto simp: id_inv_def)
  then have "?n \<notin> set (jkeys (pending t))" by (simp add: jkeys_jget)
  then have a: "alloc_loop (jkeys (pending t)) ?n = Some (?n, ?n + 1)"
    using assms(2,3) by (simp add: alloc_loop_now)
  have n: "?n < 2 ^ 32" using assms(2,3) by (simp add: WS_MAX_REQUEST_ID_def WS_EVENT_FRAME_ID_def)
  have ids: "wire_ids [Wire k (encodeWsFrame (int ?n) r)] = [?n]" for k r
    by (rule wire_ids_Wire [OF n])
  have new: "carries (trace t @ [Wire k (encodeWsFrame (int ?n) r)]) k ?n" for k r
    by (auto simp: carries_def)
  show ?thesis
  proof (cases "send_throws t")
    case True
    then show ?thesis using assms a free
      by (auto simp: send_now_def Let_def emit_def id_inv_def jdel_jput_fresh less_SucI
            intro: carries_append answered_append)
  next
    case False
    then show ?thesis using assms a ids new
      by (auto simp: send_now_def Let_def emit_def id_inv_def sorted_wrt_append less_SucI
            intro: carries_append answered_append)
  qed
qed

lemma id_inv_send_open:
  assumes "id_inv t" "issued t < WS_MAX_REQUEST_ID"
    and "nextId t + length (awaiting t) + length (resuming t) \<le> issued t"
  shows "id_inv (send_open c t)"
  using id_inv_send_now [OF assms] assms(1) by (simp add: send_open_def id_inv_emit)

lemma id_inv_control:
  assumes "id_inv t"
  shows "id_inv (onControlMessage m t)"
proof -
  have "id_inv (onHello m t)"
    using assms by (auto simp: onHello_def Let_def id_inv_quiet intro!: id_inv_setState)
  moreover have "id_inv (onServerState m t)"
    using assms by (simp add: onServerState_def Let_def id_inv_quiet split: option.split)
  moreover have "id_inv (onErrorMessage m t)"
    using assms by (simp add: onErrorMessage_def id_inv_del id_inv_emit split: option.split)
  ultimately show ?thesis using assms
    by (simp add: onControlMessage_def Let_def send_text_def id_inv_quiet)
qed

lemma id_inv_binary:
  assumes "id_inv t"
  shows "id_inv (onBinary d t)"
proof -
  let ?t = "emit [Arrived d] t"
  have i: "id_inv ?t" using assms by (simp add: id_inv_emit)
  have "id_inv (emit [Resolve (p_tok p) b] (?t\<lparr>pending := jdel rid (pending ?t)\<rparr>))"
    if "decodeWsFrame d = Inr (rid, b)" "\<not> isEventFrame rid" "jget (pending t) rid = Some p" for rid b p
  proof -
    have "carries (trace t) (p_tok p) rid" using assms that(3) by (auto simp: id_inv_def)
    then have "answered (trace t @ [Arrived d, Resolve (p_tok p) b]) (p_tok p) b"
      using that by (auto simp: answered_def isEventFrame_def intro!: exI [of _ rid] exI [of _ d]
          carries_append)
    then show ?thesis using id_inv_del [OF i, of rid]
      by (auto simp: id_inv_def emit_def intro: carries_append answered_append)
         (use answered_append [of "trace t @ [Arrived d]" _ _ "[Resolve (p_tok p) b]"]
              carries_append [of "trace t @ [Arrived d]" _ _ "[Resolve (p_tok p) b]"] in auto)
  qed
  then show ?thesis using i
    by (auto simp: onBinary_def Let_def id_inv_emit split: sum.split option.split)
qed

lemma id_inv_step:
  assumes "id_inv t" "few_calls (ws_step e t)"
  shows "id_inv (ws_step e t)"
proof (cases e)
  case (Send r m)
  have "issued (send_open c s) = issued s" for c s
    by (simp add: send_open_def send_now_def emit_def Let_def split: option.split)
  then have "Suc (issued t) < WS_MAX_REQUEST_ID"
    using assms(2) Send by (simp add: few_calls_def send_def Let_def split: if_splits)
  moreover have "id_inv (t\<lparr>issued := Suc (issued t)\<rparr>)"
    and "ws_state t = Connecting \<Longrightarrow> id_inv (t\<lparr>issued := Suc (issued t), awaiting := awaiting t @ [c]\<rparr>)" for c
    using assms(1) by (auto simp: id_inv_def)
  ultimately show ?thesis using Send assms(1)
    by (auto simp: send_def Let_def id_inv_def [of t] intro!: id_inv_send_open)
next
  case Resume
  have "issued (send_open c s) = issued s" for c s
    by (simp add: send_open_def send_now_def emit_def Let_def split: option.split)
  then have "issued t < WS_MAX_REQUEST_ID"
    using assms(2) Resume by (simp add: few_calls_def onResume_def split: list.splits)
  moreover have "id_inv (t\<lparr>resuming := cs\<rparr>)" if "resuming t = c # cs" for c cs
    using assms(1) that by (auto simp: id_inv_def)
  ultimately show ?thesis using Resume assms(1)
    by (cases "resuming t") (auto simp: onResume_def id_inv_def [of t] intro!: id_inv_send_open)
next
  case (Message d)
  then show ?thesis using assms(1) id_inv_control id_inv_binary
    by (cases d) (auto split: sum.split)
qed (use assms(1) in \<open>auto simp: close_def onSocketClose_def onConnectTimer_def onSocketOpen_def
       onSocketError_def onKeepalive_def send_text_def onRequestTimeout_def id_inv_quiet
       id_inv_del id_inv_emit intro!: id_inv_finish split: option.split\<close>)

lemma id_inv_new: "id_inv (newWebSocketTransport d k)"
  by (simp add: id_inv_def newWebSocketTransport_def)

lemma id_inv_reach:
  "reach (newWebSocketTransport d k) ws_allowed ws_step s \<Longrightarrow> few_calls s \<Longrightarrow> id_inv s"
proof (induction rule: reach.induct)
  case (step s e)
  have "issued s \<le> issued (ws_step e s)" using ws_grows_step by (simp add: grows_def)
  then show ?case using step by (intro id_inv_step) (auto simp: few_calls_def)
qed (rule id_inv_new)

section \<open>What the bridge announced\<close>

definition known :: "string list \<Rightarrow> json \<Rightarrow> bool" where
  "known names v \<longleftrightarrow> (\<exists>s \<in> set names. v = JStr s)"

definition announced :: "ws_transport \<Rightarrow> bool" where
  "announced t \<longleftrightarrow>
     (sessionId t = JNull \<or> (\<exists>s. sessionId t = JStr s)) \<and>
     (serverState t = JNull \<or> known SERVER_STATES (serverState t)) \<and>
     known EVENTS_STATES (eventsState t) \<and>
     (ws_state t = Open \<longrightarrow> (\<exists>s. sessionId t = JStr s) \<and> known SERVER_STATES (serverState t))"

lemma known_disconnected [simp]: "known EVENTS_STATES disconnected"
  by (simp add: known_def EVENTS_STATES_def disconnected_def)

lemma announced_same:
  "sessionId t' = sessionId t \<Longrightarrow> serverState t' = serverState t \<Longrightarrow>
   eventsState t' \<in> {eventsState t, disconnected} \<Longrightarrow> ws_state t' \<in> {ws_state t, ClosedState} \<Longrightarrow>
   announced t \<Longrightarrow> announced t'"
  by (auto simp: announced_def)

lemma announced_control:
  assumes "announced t" "parseControl x = Inr m"
  shows "announced (onControlMessage m t)"
proof -
  have quiet: "announced (s\<lparr>controls := c\<rparr>) = announced s" for s c by (simp add: announced_def)
  have "announced (onHello m t)" if h: "jprop m ''type'' = Some (JStr ''hello'')"
  proof -
    obtain s where s: "jprop m ''sessionId'' = Some (JStr s)" using accepted_hello(1) [OF assms(2) h] by blast
    obtain v where v: "v \<in> set SERVER_STATES" "jprop m ''serverState'' = Some (JStr v)"
      using accepted_hello(2) [OF assms(2) h] by blast
    have ev: "jprop m ''eventsState'' = None \<or>
        (\<exists>w \<in> set EVENTS_STATES. jprop m ''eventsState'' = Some (JStr w))"
      by (rule accepted_hello(4) [OF assms(2) h])
    show ?thesis using s v ev
      by (auto simp: announced_def onHello_def Let_def value_or_def setState_def emit_def known_def
            disconnected_def EVENTS_STATES_def)
  qed
  moreover have "announced (onServerState m t)" if h: "jprop m ''type'' = Some (JStr ''server-state'')"
    using accepted_state(1) [OF assms(2) h] assms(1)
    by (auto simp: announced_def onServerState_def Let_def value_or_def known_def split: option.split)
  moreover have "announced (t\<lparr>eventsState := value_or JNull (jprop m ''state'')\<rparr>)"
    if h: "jprop m ''type'' = Some (JStr ''events'')"
    using accepted_state(2) [OF assms(2) h] assms(1)
    by (auto simp: announced_def value_or_def known_def)
  moreover have "announced (onErrorMessage m t)"
    by (rule announced_same [OF _ _ _ _ assms(1)])
       (simp_all add: onErrorMessage_def emit_def split: option.split)
  moreover have "announced (send_text y t)" for y
    by (rule announced_same [OF _ _ _ _ assms(1)]) (simp_all add: send_text_def)
  ultimately show ?thesis using assms(1) by (simp add: onControlMessage_def Let_def quiet)
qed

lemma announced_finish: "announced t \<Longrightarrow> announced (finish t)"
  by (rule announced_same) (simp_all add: finish_def setState_def emit_def Let_def)

lemma announced_send_open: "announced t \<Longrightarrow> announced (send_open c t)"
  by (rule announced_same)
     (simp_all add: send_open_def send_now_def emit_def Let_def split: option.split)

lemma announced_quiet:
  assumes "announced t"
  shows "announced (t\<lparr>issued := n\<rparr>)" "announced (t\<lparr>issued := n, awaiting := a\<rparr>)"
    "announced (t\<lparr>resuming := a\<rparr>)"
    "announced (t\<lparr>closedByUser := b, lastError := e, sock := k\<rparr>)"
    "announced (t\<lparr>sock := k, connectTimer := b, lastError := e\<rparr>)"
    "announced (t\<lparr>connectTimer := b, lastError := e, sock := k\<rparr>)"
    "announced (t\<lparr>connectTimer := b\<rparr>)" "announced (t\<lparr>sock := k, socketOpen := b\<rparr>)"
    "announced (t\<lparr>lastError := e\<rparr>)" "announced (t\<lparr>texts := x\<rparr>)" "announced (t\<lparr>send_throws := b\<rparr>)"
  using assms by (simp_all add: announced_def)

lemma ws_announced_step:
  assumes "announced t"
  shows "announced (ws_step e t)"
proof (cases e)
  case (Message d)
  have "announced (onBinary b t)" for b
    by (rule announced_same [OF _ _ _ _ assms])
       (simp_all add: onBinary_def Let_def emit_def split: sum.split option.split)
  then show ?thesis using Message assms announced_control
    by (cases d) (auto split: sum.split)
next
  case (Timeout rid)
  then show ?thesis
    by (intro announced_same [OF _ _ _ _ assms])
       (simp_all add: onRequestTimeout_def emit_def split: option.split)
qed (use assms in \<open>auto simp: send_def Let_def onResume_def close_def onSocketClose_def
       onConnectTimer_def onSocketOpen_def onSocketError_def onKeepalive_def send_text_def
       announced_quiet announced_finish announced_send_open split: list.split\<close>)

lemma announced_new: "announced (newWebSocketTransport d k)"
  by (simp add: announced_def newWebSocketTransport_def)

lemma announced_reach:
  "reach (newWebSocketTransport d k) ws_allowed ws_step s \<Longrightarrow> announced s"
  by (erule reach_invariant) (auto intro: ws_announced_step announced_new)

section \<open>Properties\<close>

text \<open>
  C8: in every run with fewer calls than there are ids, no two frames on the wire carry the same
  id and none carries the id reserved for events; and a caller only ever gets the body of a frame
  that came in under the id of its own request, also after requests that timed out or failed.
\<close>

theorem ws_replies_matched:
  assumes "reach (newWebSocketTransport dflt keep) ws_allowed ws_step s"
    and "issued s < WS_MAX_REQUEST_ID"
  shows "sorted_wrt (<) (wire_ids (trace s)) \<and>
    (\<forall>i \<in> set (wire_ids (trace s)). 1 \<le> i \<and> i < WS_EVENT_FRAME_ID) \<and>
    (\<forall>(k, reply) \<in> set (resolved_by (trace s)). \<exists>rid request frame.
       (k, encodeWsFrame (int rid) request) \<in> set (wires_by (trace s)) \<and>
       frame \<in> set (arrived_by (trace s)) \<and> decodeWsFrame frame = Inr (rid, reply) \<and>
       rid \<noteq> WS_EVENT_FRAME_ID)"
proof -
  have i: "id_inv s" using id_inv_reach [OF assms(1)] assms(2) by (simp add: few_calls_def)
  then have "nextId s \<le> issued s + 1" by (simp add: id_inv_def)
  then have "i < WS_EVENT_FRAME_ID" if "i \<in> set (wire_ids (trace s))" for i
    using i that assms(2) by (fastforce simp: id_inv_def WS_MAX_REQUEST_ID_def)
  then show ?thesis using i by (fastforce simp: id_inv_def answered_def carries_def)
qed


lemma resume_closed:
  "ws_state t = ClosedState \<Longrightarrow> resuming t = c # cs \<Longrightarrow>
   onResume t = emit [Reject (c_tok c) (closed_error t)] (t\<lparr>resuming := cs\<rparr>)"
  by (simp add: onResume_def send_open_def closed_error_def)

lemma resumes_closed:
  assumes "ws_state t = ClosedState" "resuming t = cs" "pending t = []" "awaiting t = []" "\<not> hung t"
  shows "let t' = run ws_step (replicate (length cs) Resume) t in
    waiting t' = [] \<and> ws_state t' = ClosedState \<and> issued t' = issued t
    \<and> runs_allowed ws_allowed ws_step (replicate (length cs) Resume) t"
  using assms
proof (induction cs arbitrary: t)
  case (Cons c cs)
  let ?t = "emit [Reject (c_tok c) (closed_error t)] (t\<lparr>resuming := cs\<rparr>)"
  have "let t' = run ws_step (replicate (length cs) Resume) ?t in
    waiting t' = [] \<and> ws_state t' = ClosedState \<and> issued t' = issued ?t
    \<and> runs_allowed ws_allowed ws_step (replicate (length cs) Resume) ?t"
    using Cons.prems by (intro Cons.IH) (simp_all add: emit_def)
  moreover have "ws_allowed Resume t" using Cons.prems by (simp add: ws_allowed_def)
  ultimately show ?case using resume_closed [OF Cons.prems(1,2)]
    by (simp add: Let_def emit_def)
qed (simp add: waiting_def)

lemma close_closes:
  assumes "ws_inv t"
  shows "ws_state (close t) = ClosedState" "issued (close t) = issued t" "hung (close t) = hung t"
  using assms by (auto simp: close_def finish_def setState_def emit_def Let_def ws_inv_def)

text \<open>
  C31: closing always gets a transport to rest: in any run with fewer calls than there are ids,
  after \<open>close()\<close> and the continuations of calls that had waited for \<open>ready()\<close> every promise
  handed out is settled, exactly once, and the transport is closed; and in no such run does the
  search for an id hang.
\<close>

theorem ws_close_settles_all:
  assumes "reach (newWebSocketTransport dflt keep) ws_allowed ws_step s"
    and "issued s < WS_MAX_REQUEST_ID"
  shows "let s' = run ws_step (Close # replicate (length (resuming (close s))) Resume) s in
    reach (newWebSocketTransport dflt keep) ws_allowed ws_step s' \<and>
    ws_state s' = ClosedState \<and> set (settled_by (trace s')) = {0..<issued s} \<and>
    distinct (settled_by (trace s')) \<and> \<not> hung s'"
proof -
  have i: "ws_inv s" by (rule ws_machine.reachable_inv [OF assms(1)])
  have h: "\<not> hung s" using id_inv_reach [OF assms(1)] assms(2) by (simp add: few_calls_def id_inv_def)
  have a: "ws_allowed Close s" using h by (simp add: ws_allowed_def)
  have r: "reach (newWebSocketTransport dflt keep) ws_allowed ws_step (close s)"
    using reach.step [OF assms(1) a] by simp
  note c = close_closes [OF i]
  have ic: "ws_inv (close s)" by (rule ws_machine.reachable_inv [OF r])
  then have e: "pending (close s) = []" "awaiting (close s) = []" using c by (simp_all add: ws_inv_def)
  let ?rs = "replicate (length (resuming (close s))) Resume"
  let ?s = "run ws_step ?rs (close s)"
  have q: "waiting ?s = [] \<and> ws_state ?s = ClosedState \<and> issued ?s = issued s
      \<and> runs_allowed ws_allowed ws_step ?rs (close s)"
    using resumes_closed [OF c(1) refl e] h c by (simp add: Let_def)
  then have rr: "reach (newWebSocketTransport dflt keep) ws_allowed ws_step ?s"
    by (intro reach_run [OF r]) simp
  have "\<not> hung ?s" using id_inv_reach [OF rr] q assms(2) by (simp add: few_calls_def id_inv_def)
  then show ?thesis
    using q rr ws_machine.all_settled [OF rr] ws_machine.settled_once [OF rr] by (simp add: Let_def)
qed

text \<open>
  What the getters of the transport return is always of its declared kind, whatever the bridge
  sends: the session id is null or a string, the server state null or one of the four states, the
  events state one of the two; an open transport knows its session and the server's state; and
  a closed one has no events, no keepalive and no connect timer.
\<close>

theorem ws_announcements_typed:
  assumes "reach (newWebSocketTransport dflt keep) ws_allowed ws_step s"
  shows "(case sessionId s of JNull \<Rightarrow> ws_state s \<noteq> Open | JStr _ \<Rightarrow> True | _ \<Rightarrow> False) \<and>
    (case serverState s of JNull \<Rightarrow> ws_state s \<noteq> Open | JStr v \<Rightarrow> v \<in> set SERVER_STATES | _ \<Rightarrow> False) \<and>
    (case eventsState s of JStr v \<Rightarrow> v \<in> set EVENTS_STATES | _ \<Rightarrow> False) \<and>
    (if ws_state s = ClosedState
     then eventsState s = JStr ''disconnected'' \<and> \<not> keepaliveTimer s \<and> \<not> connectTimer s
     else True)"
proof -
  have a: "announced s" by (rule announced_reach [OF assms])
  have i: "ws_inv s" by (rule ws_machine.reachable_inv [OF assms])
  have "case sessionId s of JNull \<Rightarrow> ws_state s \<noteq> Open | JStr _ \<Rightarrow> True | _ \<Rightarrow> False"
    using a by (cases "sessionId s") (simp_all add: announced_def)
  moreover have "case serverState s of JNull \<Rightarrow> ws_state s \<noteq> Open
      | JStr v \<Rightarrow> v \<in> set SERVER_STATES | _ \<Rightarrow> False"
    using a by (cases "serverState s") (auto simp: announced_def known_def)
  moreover have "case eventsState s of JStr v \<Rightarrow> v \<in> set EVENTS_STATES | _ \<Rightarrow> False"
    using a by (cases "eventsState s") (auto simp: announced_def known_def)
  moreover have "if ws_state s = ClosedState
     then eventsState s = JStr ''disconnected'' \<and> \<not> keepaliveTimer s \<and> \<not> connectTimer s else True"
    using i by (simp add: ws_inv_def disconnected_def)
  ultimately show ?thesis by blast
qed

text \<open>
  The token is not among them: of a \<open>server-state\<close> message only the session id and the state are
  checked, so that a token of any kind gets through.
\<close>

lemma server_state_token_unchecked:
  "let m = JObj [(''type'', JStr ''server-state''), (''sessionId'', JStr ''s''),
         (''state'', JStr ''running''), (''kicadToken'', jnum 5)]
   in parseControl (Some m) = Inr m \<and> kicadToken (onControlMessage m t) = jnum 5"
  by (simp add: Let_def parseControl_def isControlMessage_def CONTROL_TYPES_def well_formed_def
      SERVER_STATES_def onControlMessage_def onServerState_def)

text \<open>
  A run for the witnesses: a call before the bridge is up, two after it, the first of which times
  out; its late reply is dropped, the other two come in out of order.
\<close>

definition ws_hello :: json where
  "ws_hello = encodeControl (Hello \<lparr>h_protocolVersion = 2, h_sessionId = ''a'', h_kicadToken = None,
     h_serverState = Running, h_eventsState = Some Connected\<rparr>)"

definition ws_demo_events :: "ws_event list" where
  "ws_demo_events = [Send [1] None, SocketOpens, Message (TextFrame (Some ws_hello)),
     Send [2] (Some (Ms 5)), Resume, Send [3] None, Timeout 1,
     Message (BinaryFrame (encodeWsFrame 3 [30])), Message (BinaryFrame (encodeWsFrame 1 [20])),
     Message (BinaryFrame (encodeEventFrame [9])), Message (BinaryFrame (encodeWsFrame 2 [10]))]"

definition ws_demo :: ws_transport where
  "ws_demo = run ws_step ws_demo_events (newWebSocketTransport None None)"

lemma ws_demo_reach: "reach (newWebSocketTransport None None) ws_allowed ws_step ws_demo"
  unfolding ws_demo_def by (rule reach_run [OF reach.start]) code_simp

theorem ws_replies_matched_witness:
  "resolved_by (trace ws_demo) = [(2, [30]), (0, [10])] \<and> wire_ids (trace ws_demo) = [1, 2, 3] \<and>
   (\<exists>rid request frame. (2, encodeWsFrame (int rid) request) \<in> set (wires_by (trace ws_demo)) \<and>
       frame \<in> set (arrived_by (trace ws_demo)) \<and> decodeWsFrame frame = Inr (rid, [30]))"
proof -
  have r: "resolved_by (trace ws_demo) = [(2, [30]), (0, [10])]" "wire_ids (trace ws_demo) = [1, 2, 3]"
    "issued ws_demo = 3"
    by code_simp+
  have "issued ws_demo < WS_MAX_REQUEST_ID"
    unfolding r WS_MAX_REQUEST_ID_def WS_EVENT_FRAME_ID_def by simp
  from ws_replies_matched [OF ws_demo_reach this]
  have "\<exists>rid request frame. (2, encodeWsFrame (int rid) request) \<in> set (wires_by (trace ws_demo)) \<and>
       frame \<in> set (arrived_by (trace ws_demo)) \<and> decodeWsFrame frame = Inr (rid, [30])"
    using r(1) by fastforce
  then show ?thesis using r by blast
qed


definition ws_demo_early :: ws_transport where
  "ws_demo_early = run ws_step (take 4 ws_demo_events) (newWebSocketTransport None None)"

lemma ws_demo_early_reach: "reach (newWebSocketTransport None None) ws_allowed ws_step ws_demo_early"
  unfolding ws_demo_early_def by (rule reach_run [OF reach.start]) code_simp

theorem ws_close_settles_all_witness:
  "set (settled_by (trace (run ws_step [Close, Resume] ws_demo_early))) = {0..<2}"
proof -
  have i: "issued ws_demo_early = 2" "length (resuming (close ws_demo_early)) = 1" by code_simp+
  have "issued ws_demo_early < WS_MAX_REQUEST_ID"
    unfolding i WS_MAX_REQUEST_ID_def WS_EVENT_FRAME_ID_def by simp
  from ws_close_settles_all [OF ws_demo_early_reach this] show ?thesis
    unfolding i by (simp add: Let_def)
qed

theorem ws_announcements_typed_witness:
  "ws_state ws_demo = Open \<and> (case sessionId ws_demo of JNull \<Rightarrow> False | JStr _ \<Rightarrow> True | _ \<Rightarrow> False)"
proof -
  have "ws_state ws_demo = Open" by code_simp
  then show ?thesis using ws_announcements_typed [OF ws_demo_reach]
    by (auto split: json.splits)
qed

end
