(* ===== verification/Units.thy ===== *)
theory Units
  imports RouteTypes
begin

text \<open>
  Lengths, points and boxes of the client (\<open>packages/client/src/units.ts\<close>): nanometres as
  numbers, and as 64-bit integers on the wire. The constructors of the wire types wrap one of
  these integers; the functions on angles that need sine and cosine are left out.
\<close>

section \<open>Lengths\<close>

definition NM_PER_MM :: num where "NM_PER_MM = 1000000"
definition NM_PER_MIL :: num where "NM_PER_MIL = 25400"
definition NM_PER_INCH :: num where "NM_PER_INCH = 25400000"

definition mm :: "num \<Rightarrow> num" where "mm v = v * NM_PER_MM"
definition toMm :: "num \<Rightarrow> num" where "toMm v = v / NM_PER_MM"
definition mil :: "num \<Rightarrow> num" where "mil v = v * NM_PER_MIL"
definition toMil :: "num \<Rightarrow> num" where "toMil v = v / NM_PER_MIL"
definition inch :: "num \<Rightarrow> num" where "inch v = v * NM_PER_INCH"
definition toInch :: "num \<Rightarrow> num" where "toInch v = v / NM_PER_INCH"

datatype range_error = RangeError

definition MAX_SAFE :: int where "MAX_SAFE = 2 ^ 53 - 1"
definition MIN_SAFE :: int where "MIN_SAFE = - (2 ^ 53 - 1)"

definition fromBigInt :: "int \<Rightarrow> range_error + num" where
  "fromBigInt v = (if v > MAX_SAFE \<or> v < MIN_SAFE then Inl RangeError else Inr (of_int v))"

fun toBigInt :: "js_number \<Rightarrow> range_error + int" where
  "toBigInt (Fin v) = Inr (floor (v + 1 / 2))"
| "toBigInt v = Inl RangeError"

text \<open>\<open>nm\<close>: a distance message or an integer goes through \<open>fromBigInt\<close>, a number stays, nothing is 0.\<close>

datatype length_value = NoLength | NumberLength num | BigLength int

fun nm :: "length_value \<Rightarrow> range_error + num" where
  "nm NoLength = Inr 0"
| "nm (NumberLength v) = Inr v"
| "nm (BigLength v) = fromBigInt v"

text \<open>\<open>degrees % 360\<close> takes the sign of the dividend.\<close>

definition js_rem :: "num \<Rightarrow> num \<Rightarrow> num" where
  "js_rem a b = a - b * of_int (if a / b < 0 then \<lceil>a / b\<rceil> else \<lfloor>a / b\<rfloor>)"

definition normalizeDeg :: "num \<Rightarrow> num" where
  "normalizeDeg degrees = (let d = js_rem degrees 360 in if d < 0 then d + 360 else d)"

section \<open>Points\<close>

type_synonym point = "num vec2"

abbreviation pt :: "num \<Rightarrow> num \<Rightarrow> point" where
  "pt x y \<equiv> \<lparr>vx = x, vy = y\<rparr>"

definition ORIGIN :: point where "ORIGIN = pt 0 0"

definition vecAdd :: "point \<Rightarrow> point \<Rightarrow> point" where
  "vecAdd a b = pt (vx a + vx b) (vy a + vy b)"

definition vecSub :: "point \<Rightarrow> point \<Rightarrow> point" where
  "vecSub a b = pt (vx a - vx b) (vy a - vy b)"

definition vecScale :: "point \<Rightarrow> num \<Rightarrow> point" where
  "vecScale a k = pt (vx a * k) (vy a * k)"

definition vecEquals :: "point \<Rightarrow> point \<Rightarrow> bool" where
  "vecEquals a b \<longleftrightarrow> vx a = vx b \<and> vy a = vy b"

lemma vec_simps [simp]:
  "vx (vecAdd a b) = vx a + vx b" "vy (vecAdd a b) = vy a + vy b"
  "vx (vecSub a b) = vx a - vx b" "vy (vecSub a b) = vy a - vy b"
  "vx (vecScale a k) = vx a * k" "vy (vecScale a k) = vy a * k"
  by (simp_all add: vecAdd_def vecSub_def vecScale_def)

section \<open>Boxes\<close>

abbreviation a_box :: "num \<Rightarrow> num \<Rightarrow> num \<Rightarrow> num \<Rightarrow> box" where
  "a_box x y w h \<equiv> \<lparr>bx = x, by' = y, bw = w, bh = h\<rparr>"

definition EMPTY_BOX :: box where "EMPTY_BOX = a_box 0 0 0 0"

definition boxIsEmpty :: "box \<Rightarrow> bool" where
  "boxIsEmpty b \<longleftrightarrow> bw b \<le> 0 \<or> bh b \<le> 0"

text \<open>
  The loop of \<open>boxFromPoints\<close>: its bounds start at the infinities, \<open>None\<close> here, and each
  comparison replaces a bound.
\<close>

fun from_points :: "point list \<Rightarrow> (num \<times> num \<times> num \<times> num) option \<Rightarrow> (num \<times> num \<times> num \<times> num) option" where
  "from_points [] b = b"
| "from_points (p # ps) None = from_points ps (Some (vx p, vy p, vx p, vy p))"
| "from_points (p # ps) (Some (x0, y0, x1, y1)) =
     from_points ps (Some
       (if vx p < x0 then vx p else x0, if vy p < y0 then vy p else y0,
        if vx p > x1 then vx p else x1, if vy p > y1 then vy p else y1))"

definition boxFromPoints :: "point list \<Rightarrow> box" where
  "boxFromPoints ps =
     (case from_points ps None of
        None \<Rightarrow> EMPTY_BOX
      | Some (x0, y0, x1, y1) \<Rightarrow> a_box x0 y0 (x1 - x0) (y1 - y0))"

definition boxUnion :: "box \<Rightarrow> box \<Rightarrow> box" where
  "boxUnion a b =
     (if boxIsEmpty a then b
      else if boxIsEmpty b then a
      else let x = min (bx a) (bx b); y = min (by' a) (by' b)
        in a_box x y (max (bx a + bw a) (bx b + bw b) - x) (max (by' a + bh a) (by' b + bh b) - y))"

definition boxInflate :: "box \<Rightarrow> num \<Rightarrow> box" where
  "boxInflate b amount =
     a_box (bx b - amount) (by' b - amount) (bw b + 2 * amount) (bh b + 2 * amount)"

definition boxContains :: "box \<Rightarrow> point \<Rightarrow> bool" where
  "boxContains b p \<longleftrightarrow>
     vx p \<ge> bx b \<and> vx p \<le> bx b + bw b \<and> vy p \<ge> by' b \<and> vy p \<le> by' b + bh b"

definition boxIntersects :: "box \<Rightarrow> box \<Rightarrow> bool" where
  "boxIntersects a b \<longleftrightarrow>
     bx a \<le> bx b + bw b \<and> bx b \<le> bx a + bw a \<and> by' a \<le> by' b + bh b \<and> by' b \<le> by' a + bh a"

definition boxCenter :: "box \<Rightarrow> point" where
  "boxCenter b = pt (bx b + bw b / 2) (by' b + bh b / 2)"

section \<open>Properties\<close>

lemma js_rem_bounds:
  assumes "0 < b"
  shows "\<exists>k. js_rem a b = a - of_int k * b" and "- b < js_rem a b" and "js_rem a b < b"
proof -
  let ?k = "if a / b < 0 then \<lceil>a / b\<rceil> else \<lfloor>a / b\<rfloor>"
  show "\<exists>k. js_rem a b = a - of_int k * b"
    by (rule exI [of _ ?k]) (simp add: js_rem_def mult.commute)
  have k: "\<bar>a / b - of_int ?k\<bar> < 1" by (simp split: if_split) linarith
  have "js_rem a b = b * (a / b - of_int ?k)" using assms by (simp add: js_rem_def algebra_simps)
  moreover have "b * (a / b - of_int ?k) < b * 1 \<and> b * (- 1) < b * (a / b - of_int ?k)"
    using k assms by (intro conjI mult_strict_left_mono) linarith+
  ultimately show "- b < js_rem a b" and "js_rem a b < b" by simp_all
qed

lemma from_points_spec:
  "from_points ps (Some (x0, y0, x1, y1)) =
   Some (fold min (map vx ps) x0, fold min (map vy ps) y0, fold max (map vx ps) x1, fold max (map vy ps) y1)"
proof (induction ps arbitrary: x0 y0 x1 y1)
  case (Cons p ps)
  have "(if v < w then v else w) = min v w" "(if v > w then v else w) = max v w" for v w :: num
    by simp_all
  then show ?case using Cons by (simp add: min.commute max.commute)
qed simp

lemma fold_min_is: "fold min xs (a :: num) = Min (insert a (set xs))"
  by (simp only: Min.set_eq_fold [symmetric] list.set)

lemma fold_max_is: "fold max xs (a :: num) = Max (insert a (set xs))"
  by (simp only: Max.set_eq_fold [symmetric] list.set)

lemma boxFromPoints_is:
  "boxFromPoints (p # ps) = (let xs = set (map vx (p # ps)); ys = set (map vy (p # ps))
     in a_box (Min xs) (Min ys) (Max xs - Min xs) (Max ys - Min ys))"
  by (simp add: boxFromPoints_def from_points_spec fold_min_is fold_max_is)

text \<open>
  C: lengths survive the way to the wire and back: whatever integer is read is the one written when
  it is within the range in which numbers are exact, and is refused otherwise; a finite length is
  written as the nearest integer. Angles are normalised into \<open>[0, 360)\<close> without changing
  direction.
\<close>

theorem lengths_roundtrip:
  "(if MIN_SAFE \<le> v \<and> v \<le> MAX_SAFE
    then (case fromBigInt v of Inl e \<Rightarrow> False | Inr w \<Rightarrow> toBigInt (Fin w) = Inr v)
    else fromBigInt v = Inl RangeError) \<and>
   (case toBigInt (Fin w) of Inl e \<Rightarrow> False | Inr n \<Rightarrow> \<bar>of_int n - w\<bar> \<le> 1 / 2) \<and>
   toMm (mm w) = w \<and> toMil (mil w) = w \<and> toInch (inch w) = w \<and>
   0 \<le> normalizeDeg d \<and> normalizeDeg d < 360 \<and> (\<exists>k. normalizeDeg d = d + of_int k * 360)"
proof -
  have a: "floor (of_int v + 1 / 2 :: num) = v" by linarith
  have b: "\<bar>of_int (floor (w + 1 / 2)) - w\<bar> \<le> 1 / 2" by linarith
  obtain k where k: "js_rem d 360 = d - of_int k * 360" using js_rem_bounds(1) [of 360 d] by auto
  have "\<exists>k. normalizeDeg d = d + of_int k * 360"
  proof (cases "js_rem d 360 < 0")
    case True
    then show ?thesis using k
      by (intro exI [of _ "1 - k"]) (simp add: normalizeDeg_def Let_def algebra_simps)
  next
    case False
    then show ?thesis using k by (intro exI [of _ "- k"]) (simp add: normalizeDeg_def Let_def)
  qed
  moreover have "0 \<le> normalizeDeg d \<and> normalizeDeg d < 360"
    using js_rem_bounds(2,3) [of 360 d] by (auto simp: normalizeDeg_def Let_def)
  ultimately show ?thesis using a b
    by (auto simp: fromBigInt_def toMm_def mm_def toMil_def mil_def toInch_def inch_def
        NM_PER_MM_def NM_PER_MIL_def NM_PER_INCH_def)
qed

text \<open>
  A box made from points holds exactly the points between the extremes of each axis, and the
  union of two boxes that are not empty is the least box that holds both.
\<close>

theorem boxes_tight:
  "(\<exists>b c d e. {b, c, d, e} \<subseteq> set (p # ps) \<and>
      boxFromPoints (p # ps) = a_box (vx b) (vy c) (vx d - vx b) (vy e - vy c)) \<and>
   list_all (boxContains (boxFromPoints (p # ps))) (p # ps) \<and>
   (if boxIsEmpty r \<or> boxIsEmpty u then True
    else boxContains (boxUnion r u) q =
      (min (bx r) (bx u) \<le> vx q \<and> vx q \<le> max (bx r + bw r) (bx u + bw u) \<and>
       min (by' r) (by' u) \<le> vy q \<and> vy q \<le> max (by' r + bh r) (by' u + bh u)))"
proof -
  let ?xs = "set (map vx (p # ps))" and ?ys = "set (map vy (p # ps))"
  have m: "Min ?xs \<in> ?xs" "Max ?xs \<in> ?xs" "Min ?ys \<in> ?ys" "Max ?ys \<in> ?ys"
    by (rule Min_in Max_in; simp)+
  obtain b where b: "b \<in> set (p # ps)" "Min ?xs = vx b" using m(1) unfolding set_map by (rule imageE)
  obtain d where d: "d \<in> set (p # ps)" "Max ?xs = vx d" using m(2) unfolding set_map by (rule imageE)
  obtain c where c: "c \<in> set (p # ps)" "Min ?ys = vy c" using m(3) unfolding set_map by (rule imageE)
  obtain e where e: "e \<in> set (p # ps)" "Max ?ys = vy e" using m(4) unfolding set_map by (rule imageE)
  have "\<exists>b c d e. {b, c, d, e} \<subseteq> set (p # ps) \<and>
      boxFromPoints (p # ps) = a_box (vx b) (vy c) (vx d - vx b) (vy e - vy c)"
    unfolding boxFromPoints_is Let_def b(2) c(2) d(2) e(2)
    by (intro exI [of _ b] exI [of _ c] exI [of _ d] exI [of _ e] conjI refl)
       (simp only: insert_subset empty_subsetI b(1) c(1) d(1) e(1) simp_thms)
  moreover have "boxContains (boxFromPoints (p # ps)) q" if "q \<in> set (p # ps)" for q
  proof -
    have "Min ?xs \<le> vx q" "vx q \<le> Max ?xs" "Min ?ys \<le> vy q" "vy q \<le> Max ?ys"
      using that by (auto intro!: Min_le Max_ge)
    then show ?thesis unfolding boxFromPoints_is Let_def by (simp add: boxContains_def)
  qed
  then have "list_all (boxContains (boxFromPoints (p # ps))) (p # ps)" by (simp only: list_all_iff) blast
  moreover have "if boxIsEmpty r \<or> boxIsEmpty u then True
    else boxContains (boxUnion r u) q =
      (min (bx r) (bx u) \<le> vx q \<and> vx q \<le> max (bx r + bw r) (bx u + bw u) \<and>
       min (by' r) (by' u) \<le> vy q \<and> vy q \<le> max (by' r + bh r) (by' u + bh u))"
    by (simp add: boxUnion_def boxContains_def Let_def)
  ultimately show ?thesis by blast
qed

end
