(* ===== verification/CompileTypes.thy ===== *)
theory CompileTypes
  imports Units SExpr
begin

text \<open>
  The compile contract (\<open>packages/compile/src/types.ts\<close>): what a design source becomes on its way
  to a board. An optional list that is absent is the empty list where the code treats the two
  alike; the fields of a component are the entries of its object, in their order.
\<close>

section \<open>Diagnostics\<close>

datatype compile_stage = FrontendStage | NetlistStage | ApplyStage | SchematicStage
datatype severity = ErrorSeverity | WarningSeverity

record diagnostic =
  d_severity :: severity
  d_stage :: compile_stage
  d_message :: string
  d_code :: "string option"
  d_file :: "string option"
  d_line :: "nat option"
  d_column :: "nat option"

definition diag_at :: "compile_stage \<Rightarrow> severity \<Rightarrow> string \<Rightarrow> string \<Rightarrow> diagnostic" where
  "diag_at stage sev message code =
     \<lparr>d_severity = sev, d_stage = stage, d_message = message, d_code = Some code, d_file = None,
      d_line = None, d_column = None\<rparr>"

definition is_error :: "diagnostic \<Rightarrow> bool" where
  "is_error d \<longleftrightarrow> d_severity d = ErrorSeverity"

definition errorsOf :: "diagnostic list \<Rightarrow> diagnostic list" where
  "errorsOf ds = filter is_error ds"

definition hasErrors :: "diagnostic list \<Rightarrow> bool" where
  "hasErrors ds \<longleftrightarrow> list_ex is_error ds"

lemma hasErrors_simps [simp]:
  "hasErrors [] = False" "hasErrors (d # ds) = (is_error d \<or> hasErrors ds)"
  "hasErrors (ds @ es) = (hasErrors ds \<or> hasErrors es)"
  by (simp_all add: hasErrors_def)

lemma is_error_diag [simp]: "is_error (diag_at stage sev m c) = (sev = ErrorSeverity)"
  by (simp add: is_error_def diag_at_def)

lemma hasErrors_errorsOf: "hasErrors ds = (errorsOf ds \<noteq> [])"
  by (induction ds) (auto simp: errorsOf_def)

section \<open>The netlist\<close>

record lib_source =
  ls_lib :: string
  ls_part :: string
  ls_description :: "string option"

record netlist_component =
  nc_ref :: string
  nc_value :: string
  nc_footprint :: string
  nc_libSource :: "lib_source option"
  nc_fields :: "(string \<times> string) list"
  nc_uuid :: "string option"

record netlist_node =
  nn_ref :: string
  nn_pin :: string
  nn_pinFunction :: "string option"
  nn_pinType :: "string option"

record no_connect =
  nx_ref :: string
  nx_pin :: string

record netlist_net =
  nt_name :: string
  nt_code :: "int option"
  nt_nodes :: "netlist_node list"

record netlist_design =
  ds_source :: "string option"
  ds_date :: "string option"
  ds_tool :: "string option"

record netlist =
  nl_components :: "netlist_component list"
  nl_nets :: "netlist_net list"
  nl_noConnects :: "no_connect list"
  nl_design :: "netlist_design option"

section \<open>The board\<close>

text \<open>
  A placement may come from a request that was not checked: \<open>pl_ref\<close> is \<open>None\<close> when it is not an
  object with a string as its reference, \<open>pl_position\<close> is \<open>None\<close> when that is not an object, and
  a coordinate that is not a number is \<open>NaN\<close>.
\<close>

record component_placement =
  pl_ref :: "string option"
  pl_position :: "js_number vec2 option"

record board_rules =
  br_clearanceMm :: "num option"
  br_trackWidthMm :: "num option"
  br_viaDiameterMm :: "num option"
  br_viaDrillMm :: "num option"

record prefab_via =
  pv_x :: num
  pv_y :: num
  pv_diameterMm :: "num option"
  pv_drillMm :: "num option"

record prefab_hole =
  ph_x :: num
  ph_y :: num
  ph_diameterMm :: num

record board_spec =
  bs_outline :: "point list"
  bs_widthMm :: "num option"
  bs_heightMm :: "num option"
  bs_copperLayers :: "num option"
  bs_rules :: "board_rules option"
  bs_vias :: "prefab_via list"
  bs_holes :: "prefab_hole list"
  bs_placements :: "component_placement list"

section \<open>Sources, frontends and results\<close>

record compile_source =
  cs_kind :: string
  cs_files :: "(string \<times> string) list"
  cs_entrypoint :: string

datatype library_kind = FootprintLibrary | SymbolLibrary

record library_spec =
  lb_kind :: library_kind
  lb_nickname :: string
  lb_uri :: string
  lb_description :: "string option"

record frontend_result =
  fr_netlist :: "netlist option"
  fr_board :: "board_spec option"
  fr_libraries :: "library_spec list"
  fr_diagnostics :: "diagnostic list"

datatype match_mode = ByReference | ByUuid

record compile_counts =
  ct_components :: nat
  ct_nets :: nat
  ct_footprintsAdded :: nat
  ct_footprintsPlaced :: nat
  ct_viasAdded :: nat
  ct_holesAdded :: nat

text \<open>The time a compile took is left out.\<close>

record compile_result =
  cr_ok :: bool
  cr_diagnostics :: "diagnostic list"
  cr_counts :: compile_counts
  cr_netlistPath :: "string option"

end
