(* ===== verification/Netlist.thy ===== *)
theory Netlist
  imports CompileTypes
begin

text \<open>
  \<open>packages/compile/src/netlist.ts\<close>: the netlist as the text KiCad's importer reads, and the checks
  it has to pass first. The time stamp used when no date is given is a parameter of the model.
\<close>

section \<open>Writing\<close>

definition NETLIST_VERSION :: string where "NETLIST_VERSION = ''E''"
definition TOOL_NAME :: string where "TOOL_NAME = ''@fp-pcb/compile''"

definition bs :: char where "bs = CHR 0x5C"
definition dq :: char where "dq = CHR 0x22"

text \<open>The two \<open>replace\<close> calls: first every backslash is doubled, then every quote escaped.\<close>

definition q :: "string \<Rightarrow> string" where
  "q v = dq # concat (map (\<lambda>c. if c = dq then [bs, dq] else [c])
                  (concat (map (\<lambda>c. if c = bs then [bs, bs] else [c]) v))) @ [dq]"

text \<open>\<open>(name "value")\<close>\<close>

definition field_text :: "string \<Rightarrow> string \<Rightarrow> string" where
  "field_text name v = ''('' @ name @ '' '' @ q v @ '')''"

text \<open>\<open>lines[lines.length - 1] += ")"\<close>\<close>

definition close_last :: "string list \<Rightarrow> string list" where
  "close_last ls = butlast ls @ [last ls @ '')'']"

definition opt_text :: "string \<Rightarrow> string option \<Rightarrow> string" where
  "opt_text name v = (case v of None \<Rightarrow> [] | Some s \<Rightarrow> if s = [] then [] else '' '' @ field_text name s)"

definition comp :: "netlist_component \<Rightarrow> string \<Rightarrow> string" where
  "comp c indent =
     (let inner = indent @ ''  '';
          l1 = [indent @ ''(comp '' @ field_text ''ref'' (nc_ref c), inner @ field_text ''value'' (nc_value c)];
          l2 = (if nc_footprint c \<noteq> [] then [inner @ field_text ''footprint'' (nc_footprint c)] else []);
          l3 = (if nc_fields c \<noteq> [] then
                  [inner @ ''(fields'']
                  @ map (\<lambda>(name, v). inner @ ''  (field '' @ field_text ''name'' name @ '' '' @ q v @ '')'') (nc_fields c)
                  @ [inner @ '')'']
                else []);
          l4 = (case nc_libSource c of
                  None \<Rightarrow> []
                | Some l \<Rightarrow> [inner @ ''(libsource '' @ field_text ''lib'' (ls_lib l) @ '' ''
                     @ field_text ''part'' (ls_part l) @ opt_text ''description'' (ls_description l) @ '')'']);
          l5 = (case nc_uuid c of
                  None \<Rightarrow> []
                | Some u \<Rightarrow> if u = [] then [] else [inner @ field_text ''tstamps'' (CHR ''/'' # u)])
      in join_with newline (close_last (l1 @ l2 @ l3 @ l4 @ l5)))"

definition node_text :: "netlist_node \<Rightarrow> string" where
  "node_text n = ''      (node '' @ field_text ''ref'' (nn_ref n) @ '' '' @ field_text ''pin'' (nn_pin n)
     @ opt_text ''pinfunction'' (nn_pinFunction n) @ opt_text ''pintype'' (nn_pinType n) @ '')''"

definition net_text :: "nat \<Rightarrow> netlist_net \<Rightarrow> string list" where
  "net_text i net =
     close_last
       ((''    (net '' @ field_text ''code'' (show_int (case nt_code net of None \<Rightarrow> int i + 1 | Some k \<Rightarrow> k))
          @ '' '' @ field_text ''name'' (nt_name net))
        # map node_text (nt_nodes net))"

text \<open>\<open>opt_date\<close> is the option, \<open>now\<close> the current time as the code formats it.\<close>

definition or_text :: "string option \<Rightarrow> string \<Rightarrow> string" where
  "or_text v d = (case v of None \<Rightarrow> d | Some s \<Rightarrow> s)"

definition emitKicadNetlist :: "string \<Rightarrow> netlist \<Rightarrow> string option \<Rightarrow> string" where
  "emitKicadNetlist now n opt_date =
     (let design = (case nl_design n of
            None \<Rightarrow> \<lparr>ds_source = None, ds_date = None, ds_tool = None\<rparr> | Some d \<Rightarrow> d);
          out = [''(export '' @ field_text ''version'' NETLIST_VERSION, ''  (design'',
                 ''    '' @ field_text ''source'' (or_text (ds_source design) []),
                 ''    '' @ field_text ''date'' (or_text opt_date (or_text (ds_date design) now)),
                 ''    '' @ field_text ''tool'' (or_text (ds_tool design) TOOL_NAME) @ '')'']
                @ [''  (components''] @ map (\<lambda>c. comp c ''    '') (nl_components n) @ [''  )'']
                @ [''  (nets''] @ concat (map (\<lambda>(i, net). net_text i net) (enumerate 0 (nl_nets n))) @ [''  )'']
                @ ['')'']
      in join_with newline out @ [newline])"

section \<open>Checking\<close>

definition net_err :: "string \<Rightarrow> string \<Rightarrow> diagnostic" where
  "net_err message code = diag_at NetlistStage ErrorSeverity message code"

definition net_warn :: "string \<Rightarrow> string \<Rightarrow> diagnostic" where
  "net_warn message code = diag_at NetlistStage WarningSeverity message code"

text \<open>The loop over the components; \<open>seen\<close> are the references so far.\<close>

fun check_components :: "string list \<Rightarrow> netlist_component list \<Rightarrow> diagnostic list \<times> string list" where
  "check_components seen [] = ([], seen)"
| "check_components seen (c # cs) =
     (if nc_ref c = [] then
        let (ds, s) = check_components seen cs in
        (net_err (''Component with value '' @ json_string (nc_value c) @ '' has no reference designator.'')
           ''missing_ref'' # ds, s)
      else
        let (ds, s) = check_components (sadd (nc_ref c) seen) cs in
        ((if nc_ref c \<in> set seen
          then [net_err (''Duplicate reference designator '' @ nc_ref c @ ''.'') ''duplicate_ref''] else [])
         @ (if nc_footprint c = []
            then [net_warn (nc_ref c @ '' has no footprint; ImportNetlist will not place it on the board.'')
                    ''missing_footprint''] else [])
         @ ds, s))"

definition pin_key :: "string \<Rightarrow> string \<Rightarrow> string" where
  "pin_key ref pin = ref @ '':'' @ pin"

text \<open>The loop over the nodes of a net; \<open>pins\<close> maps the pins so far to their nets.\<close>

fun check_nodes ::
  "string list \<Rightarrow> string \<Rightarrow> (string, string) jmap \<Rightarrow> netlist_node list \<Rightarrow>
    diagnostic list \<times> (string, string) jmap" where
  "check_nodes refs name pins [] = ([], pins)"
| "check_nodes refs name pins (n # ns) =
     (let unknown = (if nn_ref n \<notin> set refs
            then [net_err (''Net '' @ name @ '' references unknown component '' @ nn_ref n @ ''.'') ''unknown_ref'']
            else []);
          pin = pin_key (nn_ref n) (nn_pin n);
          prior = jget pins pin
      in if prior \<noteq> None \<and> prior \<noteq> Some [] \<and> prior \<noteq> Some name then
           let (ds, p) = check_nodes refs name pins ns in
           (unknown @ net_err (nn_ref n @ '' pin '' @ nn_pin n @ '' belongs to both '' @ the prior @ '' and ''
               @ name @ ''.'') ''pin_in_multiple_nets'' # ds, p)
         else
           let (ds, p) = check_nodes refs name (jput pin name pins) ns in (unknown @ ds, p))"

definition name_problems :: "string list \<Rightarrow> string \<Rightarrow> diagnostic list" where
  "name_problems names name =
     (if name = [] then [net_err ''Net with no name.'' ''unnamed_net'']
      else if name \<in> set names then [net_err (''Duplicate net name '' @ name @ ''.'') ''duplicate_net'']
      else if list_ex (\<lambda>c. c = CHR 0x7B \<or> c = CHR 0x7D) name then
        [net_err (''Net name '' @ name @ '' contains '' @ [dq, CHR 0x7B, dq] @ '' or '' @ [dq, CHR 0x7D, dq]
            @ '' (KiCad's escape sequences such as {slash}); after SetNetClasses the fork cannot save ''
            @ ''a board with such a net. Use the literal character or '' @ [dq, CHR ''_'', dq] @ ''.'')
           ''net_name_escape'']
      else [])"

fun check_nets ::
  "string list \<Rightarrow> string list \<Rightarrow> (string, string) jmap \<Rightarrow> netlist_net list \<Rightarrow>
    diagnostic list \<times> (string, string) jmap" where
  "check_nets refs names pins [] = ([], pins)"
| "check_nets refs names pins (net # nets) =
     (let few = (if length (nt_nodes net) < 2
            then [net_warn (''Net '' @ (if nt_name net = [] then ''(unnamed)'' else nt_name net) @ '' has ''
                    @ show_int (int (length (nt_nodes net))) @ '' node(s); it connects nothing.'')
                    ''single_node_net'']
            else []);
          (ds, p) = check_nodes refs (nt_name net) pins (nt_nodes net);
          (es, p') = check_nets refs (sadd (nt_name net) names) p nets
      in (name_problems names (nt_name net) @ few @ ds @ es, p'))"

fun check_no_connects ::
  "string list \<Rightarrow> (string, string) jmap \<Rightarrow> string list \<Rightarrow> no_connect list \<Rightarrow> diagnostic list" where
  "check_no_connects refs pins seen [] = []"
| "check_no_connects refs pins seen (n # ns) =
     (let pin = pin_key (nx_ref n) (nx_pin n) in
      (if nx_ref n \<notin> set refs
       then [net_err (''No-connect references unknown component '' @ nx_ref n @ ''.'') ''unknown_no_connect_ref'']
       else [])
      @ (if pin \<in> set seen
         then [net_err (''Duplicate no-connect declaration for '' @ nx_ref n @ '' pin '' @ nx_pin n @ ''.'')
                 ''duplicate_no_connect''] else [])
      @ (case jget pins pin of
           None \<Rightarrow> []
         | Some net \<Rightarrow> if net = [] then [] else
             [net_err (nx_ref n @ '' pin '' @ nx_pin n @ '' is both on net '' @ net @ '' and marked no-connect.'')
                ''connected_no_connect''])
      @ check_no_connects refs pins (sadd pin seen) ns)"

definition validateNetlist :: "netlist \<Rightarrow> diagnostic list" where
  "validateNetlist n =
     (let (ds, refs) = check_components [] (nl_components n);
          (es, pins) = check_nets refs [] [] (nl_nets n)
      in ds @ es @ check_no_connects refs pins [] (nl_noConnects n))"

section \<open>What the text says\<close>

text \<open>
  A reader of s-expressions with quoted atoms in which a backslash escapes the next character, as
  one pass over the text with a stack of open lists.
\<close>

datatype ksx = KAtom string | KList "ksx list"

datatype reading = Between | Bare string | Quoted string | Escaped string

definition push_item :: "ksx \<Rightarrow> ksx list list \<Rightarrow> ksx list list" where
  "push_item t st = (case st of [] \<Rightarrow> [[t]] | xs # st' \<Rightarrow> (xs @ [t]) # st')"

definition delimiter :: "char \<Rightarrow> bool" where
  "delimiter c \<longleftrightarrow> c \<in> {CHR '' '', newline, CHR ''('', CHR '')''}"

definition after_delimiter :: "char \<Rightarrow> ksx list list \<Rightarrow> ksx list list option" where
  "after_delimiter c st =
     (if c = CHR ''('' then Some ([] # st)
      else if c = CHR '')'' then (case st of xs # ys # st' \<Rightarrow> Some ((ys @ [KList xs]) # st') | _ \<Rightarrow> None)
      else Some st)"

fun scan :: "reading \<Rightarrow> ksx list list \<Rightarrow> string \<Rightarrow> ksx list option" where
  "scan Between st [] = (case st of [xs] \<Rightarrow> Some xs | _ \<Rightarrow> None)"
| "scan (Bare a) st [] = (case push_item (KAtom a) st of [xs] \<Rightarrow> Some xs | _ \<Rightarrow> None)"
| "scan _ st [] = None"
| "scan Between st (c # cs) =
     (if delimiter c then
        (case after_delimiter c st of None \<Rightarrow> None | Some st' \<Rightarrow> scan Between st' cs)
      else if c = dq then scan (Quoted []) st cs
      else scan (Bare [c]) st cs)"
| "scan (Bare a) st (c # cs) =
     (if delimiter c then
        (case after_delimiter c (push_item (KAtom a) st) of None \<Rightarrow> None | Some st' \<Rightarrow> scan Between st' cs)
      else scan (Bare (a @ [c])) st cs)"
| "scan (Quoted a) st (c # cs) =
     (if c = dq then scan Between (push_item (KAtom a) st) cs
      else if c = bs then scan (Escaped a) st cs
      else scan (Quoted (a @ [c])) st cs)"
| "scan (Escaped a) st (c # cs) = scan (Quoted (a @ [c])) st cs"

definition read_text :: "string \<Rightarrow> ksx list option" where
  "read_text s = scan Between [[]] s"

text \<open>The tree that a netlist stands for.\<close>

definition word :: "string \<Rightarrow> string \<Rightarrow> ksx" where
  "word name v = KList [KAtom name, KAtom v]"

definition opt_word :: "string \<Rightarrow> string option \<Rightarrow> ksx list" where
  "opt_word name v = (case v of None \<Rightarrow> [] | Some s \<Rightarrow> if s = [] then [] else [word name s])"

definition comp_tree :: "netlist_component \<Rightarrow> ksx" where
  "comp_tree c = KList ([KAtom ''comp'', word ''ref'' (nc_ref c), word ''value'' (nc_value c)]
     @ opt_word ''footprint'' (Some (nc_footprint c))
     @ (if nc_fields c = [] then []
        else [KList (KAtom ''fields'' # map (\<lambda>(n, v). KList [KAtom ''field'', word ''name'' n, KAtom v]) (nc_fields c))])
     @ (case nc_libSource c of None \<Rightarrow> []
        | Some l \<Rightarrow> [KList ([KAtom ''libsource'', word ''lib'' (ls_lib l), word ''part'' (ls_part l)]
            @ opt_word ''description'' (ls_description l))])
     @ (case nc_uuid c of None \<Rightarrow> [] | Some u \<Rightarrow> if u = [] then [] else [word ''tstamps'' (CHR ''/'' # u)]))"

definition node_tree :: "netlist_node \<Rightarrow> ksx" where
  "node_tree n = KList ([KAtom ''node'', word ''ref'' (nn_ref n), word ''pin'' (nn_pin n)]
     @ opt_word ''pinfunction'' (nn_pinFunction n) @ opt_word ''pintype'' (nn_pinType n))"

definition net_tree :: "nat \<Rightarrow> netlist_net \<Rightarrow> ksx" where
  "net_tree i net = KList ([KAtom ''net'',
     word ''code'' (show_int (case nt_code net of None \<Rightarrow> int i + 1 | Some k \<Rightarrow> k)),
     word ''name'' (nt_name net)] @ map node_tree (nt_nodes net))"

definition netlist_tree :: "string \<Rightarrow> netlist \<Rightarrow> string option \<Rightarrow> ksx" where
  "netlist_tree now n opt_date =
     (let field = (\<lambda>f. case nl_design n of None \<Rightarrow> None | Some d \<Rightarrow> f d) in
      KList [KAtom ''export'', word ''version'' ''E'',
        KList [KAtom ''design'', word ''source'' (or_text (field ds_source) []),
          word ''date'' (or_text opt_date (or_text (field ds_date) now)),
          word ''tool'' (or_text (field ds_tool) TOOL_NAME)],
        KList (KAtom ''components'' # map comp_tree (nl_components n)),
        KList (KAtom ''nets'' # map (\<lambda>(i, net). net_tree i net) (enumerate 0 (nl_nets n)))])"

lemma scan_quoted:
  "scan (Quoted a) st (concat (map (\<lambda>c. if c = dq then [bs, dq] else [c])
      (concat (map (\<lambda>c. if c = bs then [bs, bs] else [c]) v))) @ dq # rest)
   = scan Between (push_item (KAtom (a @ v)) st) rest"
proof (induction v arbitrary: a)
  case (Cons c v)
  have n: "bs \<noteq> dq" by (simp add: bs_def dq_def)
  show ?case using Cons [of "a @ [c]"] n by auto
qed simp

definition reads :: "string \<Rightarrow> ksx list \<Rightarrow> bool" where
  "reads s ts \<longleftrightarrow> (\<forall>xs st rest. scan Between (xs # st) (s @ rest) = scan Between ((xs @ ts) # st) rest)"

definition opens :: "string \<Rightarrow> ksx list \<Rightarrow> bool" where
  "opens s ts \<longleftrightarrow> (\<forall>st rest. scan Between st (s @ rest) = scan Between (ts # st) rest)"

lemma reads_q: "reads (q v) [KAtom v]"
  using scan_quoted [of "[]" _ v]
  by (simp add: reads_def q_def push_item_def delimiter_def dq_def newline_def)

lemma reads_empty: "reads [] []"
  by (simp add: reads_def)

lemma reads_append: "reads s ts \<Longrightarrow> reads t us \<Longrightarrow> reads (s @ t) (ts @ us)"
  by (simp add: reads_def)

lemma reads_white: "c \<in> {CHR '' '', newline} \<Longrightarrow> reads [c] []"
  by (auto simp: reads_def delimiter_def after_delimiter_def newline_def dq_def)

lemma opens_append: "opens s ts \<Longrightarrow> reads t us \<Longrightarrow> opens (s @ t) (ts @ us)"
  by (simp add: opens_def reads_def)

lemma opens_close: "opens s ts \<Longrightarrow> reads (s @ '')'') [KList ts]"
  by (simp add: opens_def reads_def delimiter_def after_delimiter_def newline_def)

text \<open>A bare word of letters, at the head of a list.\<close>

lemma scan_bare:
  "list_all (\<lambda>c. \<not> delimiter c) w \<Longrightarrow> delimiter c \<Longrightarrow>
   scan (Bare a) st (w @ c # rest) =
     (case after_delimiter c (push_item (KAtom (a @ w)) st) of
        None \<Rightarrow> None | Some st' \<Rightarrow> scan Between st' rest)"
  by (induction w arbitrary: a) auto

definition plain_word :: "string \<Rightarrow> bool" where
  "plain_word w \<longleftrightarrow> w \<noteq> [] \<and> list_all (\<lambda>c. \<not> delimiter c \<and> c \<noteq> dq) w"

lemma opens_word:
  assumes "plain_word w" and "c \<in> {CHR '' '', newline}"
  shows "opens (''('' @ w @ [c]) [KAtom w]"
proof -
  obtain a v where w: "w = a # v" using assms(1) by (cases w) (auto simp: plain_word_def)
  have d: "delimiter c" "\<not> delimiter a" "a \<noteq> dq" "list_all (\<lambda>c. \<not> delimiter c) v"
    "after_delimiter c st = Some st" for st
    using assms by (auto simp: plain_word_def w delimiter_def after_delimiter_def newline_def list_all_iff)
  have p: "delimiter (CHR ''('')" "after_delimiter (CHR ''('') st = Some ([] # st)" for st
    by (simp_all add: delimiter_def after_delimiter_def)
  show ?thesis
    using scan_bare [OF d(4) d(1), of "[a]"] d p by (simp add: opens_def w push_item_def)
qed

lemma reads_field: "plain_word name \<Longrightarrow> reads (field_text name v) [word name v]"
proof -
  assume "plain_word name"
  then have "opens ((''('' @ name @ [CHR '' '']) @ q v) ([KAtom name] @ [KAtom v])"
    by (intro opens_append opens_word reads_q) simp_all
  from opens_close [OF this] show ?thesis by (simp add: field_text_def word_def)
qed

lemma reads_opt: "plain_word name \<Longrightarrow> reads (opt_text name v) (opt_word name v)"
  using reads_append [OF reads_white [of "CHR '' ''"] reads_field [of name]]
  by (auto simp: opt_text_def opt_word_def reads_empty split: option.split)

lemma reads_blank: "list_all (\<lambda>c. c = CHR '' '') s \<Longrightarrow> reads s []"
proof (induction s)
  case (Cons c s)
  then show ?case using reads_append [OF reads_white [of c], of s] by simp
qed (simp add: reads_empty)

lemma reads_indent: "list_all (\<lambda>c. c = CHR '' '') s \<Longrightarrow> reads t ts \<Longrightarrow> reads (s @ t) ts"
  using reads_append [OF reads_blank, of s t ts] by simp

lemma opens_indent: "list_all (\<lambda>c. c = CHR '' '') s \<Longrightarrow> opens t ts \<Longrightarrow> opens (s @ t) ts"
proof -
  assume s: "list_all (\<lambda>c. c = CHR '' '') s" and t: "opens t ts"
  have "scan Between st (s @ rest) = scan Between st rest" for st rest
    using s by (induction s) (auto simp: delimiter_def after_delimiter_def)
  then show ?thesis using t by (simp add: opens_def)
qed

lemma join_Cons: "ls \<noteq> [] \<Longrightarrow> join_with c (l # ls) = l @ c # join_with c ls"
  by (cases ls) simp_all

lemma join_append: "xs \<noteq> [] \<Longrightarrow> ys \<noteq> [] \<Longrightarrow> join_with c (xs @ ys) = join_with c xs @ c # join_with c ys"
proof (induction xs)
  case (Cons x xs)
  then show ?case by (cases "xs = []") (simp_all add: join_Cons)
qed simp

lemma join_close: "ls \<noteq> [] \<Longrightarrow> join_with c (close_last ls) = join_with c ls @ '')''"
proof (cases ls rule: rev_cases)
  case (snoc xs l)
  then show ?thesis by (cases "xs = []") (simp_all add: close_last_def join_append)
qed simp

text \<open>Lines that open a list, hold its items and close it.\<close>

lemma reads_lines:
  "list_all2 reads ls tss \<Longrightarrow> reads (concat (map (\<lambda>l. newline # l) ls)) (concat tss)"
proof (induction rule: list_all2_induct)
  case (Cons l ls ts tss)
  have "reads ([newline] @ l) ([] @ ts)" using Cons(1) by (intro reads_append reads_white) simp_all
  from reads_append [OF this Cons(3)] show ?case by simp
qed (simp add: reads_empty)

lemma join_lines: "join_with newline (l # ls) = l @ concat (map (\<lambda>l. newline # l) ls)"
  by (induction ls arbitrary: l) simp_all

lemma reads_block:
  assumes "opens l ts" and "list_all2 reads ls tss"
  shows "reads (join_with newline (close_last (l # ls))) [KList (ts @ concat tss)]"
  using opens_close [OF opens_append [OF assms(1) reads_lines [OF assms(2)]]]
  by (simp add: join_close join_lines)

lemma list_all2_map: "(\<And>x. reads (f x) (g x)) \<Longrightarrow> list_all2 reads (map f xs) (map g xs)"
  by (induction xs) simp_all

lemmas keyword_defs = plain_word_def delimiter_def dq_def newline_def

lemma opens_key: "plain_word w \<Longrightarrow> reads t us \<Longrightarrow> opens (''('' @ w @ '' '' @ t) (KAtom w # us)"
  using opens_append [OF opens_word [of w "CHR '' ''"], of t us] by simp

lemma reads_node: "reads (node_text n) [node_tree n]"
proof -
  have "opens (''('' @ ''node'' @ '' '' @ (field_text ''ref'' (nn_ref n) @ '' '' @ field_text ''pin'' (nn_pin n)
      @ opt_text ''pinfunction'' (nn_pinFunction n) @ opt_text ''pintype'' (nn_pinType n)))
    (KAtom ''node'' # ([word ''ref'' (nn_ref n)] @ [] @ [word ''pin'' (nn_pin n)]
      @ opt_word ''pinfunction'' (nn_pinFunction n) @ opt_word ''pintype'' (nn_pinType n)))"
    by (intro opens_key reads_append reads_field reads_opt reads_white) (simp_all add: keyword_defs)
  from reads_indent [of "''      ''", OF _ opens_close [OF this]] show ?thesis
    by (simp add: node_text_def node_tree_def)
qed

lemma reads_net: "reads (join_with newline (net_text i net)) [net_tree i net]"
proof -
  let ?c = "show_int (case nt_code net of None \<Rightarrow> int i + 1 | Some k \<Rightarrow> k)"
  have "opens (''('' @ ''net'' @ '' '' @ (field_text ''code'' ?c @ '' '' @ field_text ''name'' (nt_name net)))
    (KAtom ''net'' # ([word ''code'' ?c] @ [] @ [word ''name'' (nt_name net)]))"
    by (intro opens_key reads_append reads_field reads_white) (simp_all add: keyword_defs)
  from opens_indent [of "''    ''", OF _ this]
  have "opens (''    (net '' @ field_text ''code'' ?c @ '' '' @ field_text ''name'' (nt_name net))
      [KAtom ''net'', word ''code'' ?c, word ''name'' (nt_name net)]"
    by simp
  from reads_block [OF this list_all2_map [of node_text "\<lambda>n. [node_tree n]" "nt_nodes net", OF reads_node]]
  show ?thesis by (simp add: net_text_def net_tree_def)
qed

definition comp_fields :: "string \<Rightarrow> netlist_component \<Rightarrow> string list" where
  "comp_fields inner c =
     (if nc_fields c \<noteq> [] then
        [inner @ ''(fields'']
        @ map (\<lambda>(name, v). inner @ ''  (field '' @ field_text ''name'' name @ '' '' @ q v @ '')'') (nc_fields c)
        @ [inner @ '')'']
      else [])"

lemma reads_fields:
  assumes "list_all (\<lambda>c. c = CHR '' '') inner" and "nc_fields c \<noteq> []"
  shows "reads (join_with newline (comp_fields inner c))
    [KList (KAtom ''fields'' # map (\<lambda>(n, v). KList [KAtom ''field'', word ''name'' n, KAtom v]) (nc_fields c))]"
proof -
  let ?line = "\<lambda>(name, v). inner @ ''  (field '' @ field_text ''name'' name @ '' '' @ q v @ '')''"
  let ?tree = "\<lambda>(n, v). KList [KAtom ''field'', word ''name'' n, KAtom v]"
  have line: "reads (?line f) [?tree f]" for f
  proof -
    obtain n v where f: "f = (n, v)" by (cases f)
    have "opens (''('' @ ''field'' @ '' '' @ (field_text ''name'' n @ '' '' @ q v))
        (KAtom ''field'' # ([word ''name'' n] @ [] @ [KAtom v]))"
      by (intro opens_key reads_append reads_field reads_white reads_q) (simp_all add: keyword_defs)
    from reads_indent [of "inner @ ''  ''", OF _ opens_close [OF this]] show ?thesis
      using assms(1) by (simp add: f)
  qed
  have first: "opens (inner @ ''(fields'' @ [newline]) [KAtom ''fields'']"
    using opens_indent [OF assms(1) opens_word [of "''fields''" newline]] by (simp add: keyword_defs)
  obtain f fs where fs: "nc_fields c = f # fs" using assms(2) by (cases "nc_fields c") auto
  have "reads (?line f @ concat (map (\<lambda>l. newline # l) (map ?line fs)))
      ([?tree f] @ concat (map (\<lambda>f. [?tree f]) fs))"
    by (intro reads_append line reads_lines list_all2_map)
  from reads_append [OF this reads_append [OF reads_white [of newline] reads_blank [OF assms(1)]]]
  have "reads (join_with newline (map ?line (nc_fields c)) @ newline # inner) (map ?tree (nc_fields c))"
    by (simp add: fs join_lines)
  from opens_close [OF opens_append [OF first this]] show ?thesis
    using assms(2) by (simp add: comp_fields_def join_append join_Cons)
qed

definition comp_lines :: "string \<Rightarrow> netlist_component \<Rightarrow> (string \<times> ksx) list" where
  "comp_lines inner c =
     [(inner @ field_text ''value'' (nc_value c), word ''value'' (nc_value c))]
     @ (if nc_footprint c \<noteq> [] then [(inner @ field_text ''footprint'' (nc_footprint c), word ''footprint'' (nc_footprint c))] else [])
     @ (if nc_fields c \<noteq> [] then [(join_with newline (comp_fields inner c),
          KList (KAtom ''fields'' # map (\<lambda>(n, v). KList [KAtom ''field'', word ''name'' n, KAtom v]) (nc_fields c)))] else [])
     @ (case nc_libSource c of
          None \<Rightarrow> []
        | Some l \<Rightarrow> [(inner @ ''(libsource '' @ field_text ''lib'' (ls_lib l) @ '' ''
             @ field_text ''part'' (ls_part l) @ opt_text ''description'' (ls_description l) @ '')'',
             KList ([KAtom ''libsource'', word ''lib'' (ls_lib l), word ''part'' (ls_part l)]
               @ opt_word ''description'' (ls_description l)))])
     @ (case nc_uuid c of
          None \<Rightarrow> []
        | Some u \<Rightarrow> if u = [] then [] else
            [(inner @ field_text ''tstamps'' (CHR ''/'' # u), word ''tstamps'' (CHR ''/'' # u))])"

lemma reads_comp_lines:
  assumes "list_all (\<lambda>c. c = CHR '' '') inner" and "(l, t) \<in> set (comp_lines inner c)"
  shows "reads l [t]"
proof -
  note i = reads_indent [OF assms(1)]
  have lib: "reads (inner @ ''(libsource '' @ field_text ''lib'' (ls_lib l) @ '' ''
       @ field_text ''part'' (ls_part l) @ opt_text ''description'' (ls_description l) @ '')'')
     [KList ([KAtom ''libsource'', word ''lib'' (ls_lib l), word ''part'' (ls_part l)]
         @ opt_word ''description'' (ls_description l))]" for l
  proof -
    have "opens (''('' @ ''libsource'' @ '' '' @ (field_text ''lib'' (ls_lib l) @ '' '' @ field_text ''part'' (ls_part l)
          @ opt_text ''description'' (ls_description l)))
        (KAtom ''libsource'' # ([word ''lib'' (ls_lib l)] @ [] @ [word ''part'' (ls_part l)]
          @ opt_word ''description'' (ls_description l)))"
      by (intro opens_key reads_append reads_field reads_opt reads_white) (simp_all add: keyword_defs)
    from i [OF opens_close [OF this]] show ?thesis by simp
  qed
  have field: "reads (inner @ field_text name v) [word name v]" if "plain_word name" for name v
    by (rule i [OF reads_field [OF that]])
  show ?thesis
    using assms(2) lib field reads_fields [OF assms(1), of c]
    by (auto simp: comp_lines_def keyword_defs split: if_splits option.splits)
qed

lemma join_group:
  "ys \<noteq> [] \<Longrightarrow> join_with c (xs @ join_with c ys # zs) = join_with c (xs @ ys @ zs)"
  by (cases "xs = []"; cases "zs = []") (simp_all add: join_append join_Cons)

lemma close_join: "ls \<noteq> [] \<Longrightarrow> ms \<noteq> [] \<Longrightarrow> join_with c ls = join_with c ms \<Longrightarrow>
    join_with c (close_last ls) = join_with c (close_last ms)"
  by (simp add: join_close)

lemma comp_is_block:
  "comp c indent = join_with newline (close_last
     ((indent @ ''(comp '' @ field_text ''ref'' (nc_ref c)) # map fst (comp_lines (indent @ ''  '') c)))"
proof -
  let ?i = "indent @ ''  ''"
  let ?a = "[indent @ ''(comp '' @ field_text ''ref'' (nc_ref c), ?i @ field_text ''value'' (nc_value c)]
    @ (if nc_footprint c \<noteq> [] then [?i @ field_text ''footprint'' (nc_footprint c)] else [])"
  let ?z = "(case nc_libSource c of
                  None \<Rightarrow> []
                | Some l \<Rightarrow> [?i @ ''(libsource '' @ field_text ''lib'' (ls_lib l) @ '' ''
                     @ field_text ''part'' (ls_part l) @ opt_text ''description'' (ls_description l) @ '')''])
     @ (case nc_uuid c of
                  None \<Rightarrow> []
                | Some u \<Rightarrow> if u = [] then [] else [?i @ field_text ''tstamps'' (CHR ''/'' # u)])"
  have c: "comp c indent = join_with newline (close_last (?a @ comp_fields ?i c @ ?z))"
    by (simp add: comp_def Let_def comp_fields_def)
  have m: "(indent @ ''(comp '' @ field_text ''ref'' (nc_ref c)) # map fst (comp_lines ?i c)
      = ?a @ (if nc_fields c \<noteq> [] then [join_with newline (comp_fields ?i c)] else []) @ ?z"
    by (simp add: comp_lines_def split: option.split)
  have "join_with newline (?a @ comp_fields ?i c @ ?z)
      = join_with newline (?a @ (if nc_fields c \<noteq> [] then [join_with newline (comp_fields ?i c)] else []) @ ?z)"
  proof (cases "nc_fields c = []")
    case False
    then have "comp_fields ?i c \<noteq> []" by (simp add: comp_fields_def)
    from join_group [OF this, of newline ?a ?z] show ?thesis using False by simp
  qed (simp add: comp_fields_def)
  then show ?thesis unfolding c m by (intro close_join) simp_all
qed

lemma concat_snd: "concat (map (\<lambda>(l, t). [t]) ls) = map snd ls"
  by (induction ls) auto

lemma reads_comp:
  assumes "list_all (\<lambda>c. c = CHR '' '') indent"
  shows "reads (comp c indent) [comp_tree c]"
proof -
  let ?ls = "comp_lines (indent @ ''  '') c"
  have i: "list_all (\<lambda>c. c = CHR '' '') (indent @ ''  '')" using assms by simp
  have "opens (''('' @ ''comp'' @ '' '' @ field_text ''ref'' (nc_ref c)) [KAtom ''comp'', word ''ref'' (nc_ref c)]"
    by (intro opens_key reads_field) (simp_all add: keyword_defs)
  from opens_indent [OF assms this]
  have o: "opens (indent @ ''(comp '' @ field_text ''ref'' (nc_ref c)) [KAtom ''comp'', word ''ref'' (nc_ref c)]"
    by simp
  have "list_all2 reads (map fst ?ls) (map (\<lambda>(l, t). [t]) ?ls)"
    using reads_comp_lines [OF i] by (simp add: list_all2_map1 list_all2_map2 list_all2_same split_beta)
  from reads_block [OF o this]
  have "reads (comp c indent) [KList ([KAtom ''comp'', word ''ref'' (nc_ref c)] @ map snd ?ls)]"
    unfolding comp_is_block by (simp add: concat_snd)
  moreover have "KList ([KAtom ''comp'', word ''ref'' (nc_ref c)] @ map snd ?ls) = comp_tree c"
    by (simp add: comp_lines_def comp_tree_def opt_word_def split: option.split)
  ultimately show ?thesis by simp
qed

text \<open>A section of the file: a line with its name, its entries, a line that closes it.\<close>

lemma reads_section:
  assumes "plain_word w" and "list_all2 reads ls tss"
  shows "reads (join_with newline ([''  ('' @ w] @ ls @ [''  )''])) [KList (KAtom w # concat tss)]"
proof -
  have o: "opens (''  '' @ ''('' @ w @ [newline]) [KAtom w]"
    using assms(1) by (intro opens_indent opens_word) simp_all
  show ?thesis
  proof (cases ls)
    case Nil
    then have "tss = []" using assms(2) by simp
    then show ?thesis using Nil opens_close [OF opens_append [OF o reads_blank [of "''  ''"]]] by simp
  next
    case (Cons l ks)
    then obtain ts uss where t: "tss = ts # uss" "reads l ts" "list_all2 reads ks uss"
      using assms(2) by (auto simp: list_all2_Cons1)
    have "reads (l @ concat (map (\<lambda>l. newline # l) ks) @ [newline] @ ''  '') (ts @ concat uss @ [] @ [])"
      by (intro reads_append t(2) reads_lines [OF t(3)] reads_white reads_blank) simp_all
    from opens_close [OF opens_append [OF o this]] show ?thesis
      by (simp add: Cons t(1) join_append join_Cons join_lines)
  qed
qed

lemma reads_design:
  "reads (join_with newline [''  (design'', ''    '' @ field_text ''source'' a,
     ''    '' @ field_text ''date'' b, ''    '' @ field_text ''tool'' c @ '')''])
   [KList [KAtom ''design'', word ''source'' a, word ''date'' b, word ''tool'' c]]"
proof -
  have "opens (''  '' @ ''('' @ ''design'' @ [newline]) [KAtom ''design'']"
    by (intro opens_indent opens_word) (simp_all add: keyword_defs)
  moreover have "reads (''    '' @ field_text ''source'' a @ [newline] @ ''    '' @ field_text ''date'' b
      @ [newline] @ ''    '' @ field_text ''tool'' c) ([] @ [word ''source'' a] @ [] @ [] @ [word ''date'' b]
      @ [] @ [] @ [word ''tool'' c])"
    by (intro reads_append reads_field reads_white reads_blank) (simp_all add: keyword_defs)
  ultimately have "opens ((''  '' @ ''('' @ ''design'' @ [newline]) @ (''    '' @ field_text ''source'' a @ [newline]
      @ ''    '' @ field_text ''date'' b @ [newline] @ ''    '' @ field_text ''tool'' c))
     ([KAtom ''design''] @ ([] @ [word ''source'' a] @ [] @ [] @ [word ''date'' b] @ [] @ [] @ [word ''tool'' c]))"
    by (rule opens_append)
  from opens_close [OF this] show ?thesis by simp
qed

lemma net_text_nonempty: "net_text i net \<noteq> []"
  by (simp add: net_text_def close_last_def)

lemma join_concat:
  "(\<And>x. f x \<noteq> []) \<Longrightarrow> join_with c (concat (map f xs)) = join_with c (map (\<lambda>x. join_with c (f x)) xs)"
proof (induction xs)
  case (Cons x xs)
  then have n: "xs \<noteq> [] \<Longrightarrow> concat (map f xs) \<noteq> []" by (cases xs) auto
  show ?case
  proof (cases "xs = []")
    case False
    then show ?thesis using Cons n by (simp add: join_append join_Cons)
  qed simp
qed simp

lemma join_five:
  "ds \<noteq> [] \<Longrightarrow> cs \<noteq> [] \<Longrightarrow> ns \<noteq> [] \<Longrightarrow>
   join_with c (a # ds @ cs @ ns @ [z]) =
     a @ c # join_with c ds @ c # join_with c cs @ c # join_with c ns @ c # z"
  by (simp add: join_Cons join_append)

definition design_lines :: "string \<Rightarrow> string \<Rightarrow> string \<Rightarrow> string list" where
  "design_lines a b c = [''  (design'', ''    '' @ field_text ''source'' a, ''    '' @ field_text ''date'' b,
     ''    '' @ field_text ''tool'' c @ '')'']"

definition section_lines :: "string \<Rightarrow> string list \<Rightarrow> string list" where
  "section_lines h ls = [''  ('' @ h] @ ls @ [''  )'']"

definition net_block :: "nat \<times> netlist_net \<Rightarrow> string" where
  "net_block = (\<lambda>(i, net). join_with newline (net_text i net))"

lemma join_net_blocks:
  "join_with newline (concat (map (\<lambda>(i, net). net_text i net) xs)) = join_with newline (map net_block xs)"
proof -
  have e: "map (\<lambda>x. join_with newline (case x of (i, net) \<Rightarrow> net_text i net)) xs = map net_block xs"
    by (induction xs) (auto simp: net_block_def)
  have "(case x of (i, net) \<Rightarrow> net_text i net) \<noteq> []" for x
    by (cases x) (simp add: net_text_nonempty)
  from join_concat [of "\<lambda>x. case x of (i, net) \<Rightarrow> net_text i net", OF this, of newline xs]
  show ?thesis unfolding e .
qed

lemma join_net_section:
  "join_with newline (section_lines h (concat (map (\<lambda>(i, net). net_text i net) xs)))
     = join_with newline (section_lines h (map net_block xs))"
proof (cases "xs = []")
  case False
  then have n: "concat (map (\<lambda>(i, net). net_text i net) xs) \<noteq> []"
    using net_text_nonempty by (cases xs) auto
  show ?thesis using n False join_net_blocks [of xs]
    by (simp add: join_append join_Cons section_lines_def)
qed simp

text \<open>The text as blocks on lines of their own.\<close>

lemma emit_blocks:
  fixes n :: netlist
  defines "d \<equiv> (case nl_design n of None \<Rightarrow> \<lparr>ds_source = None, ds_date = None, ds_tool = None\<rparr> | Some d \<Rightarrow> d)"
  shows "emitKicadNetlist now n opt_date =
     ((''(export '' @ field_text ''version'' NETLIST_VERSION) @ [newline]
       @ join_with newline (design_lines (or_text (ds_source d) []) (or_text opt_date (or_text (ds_date d) now))
           (or_text (ds_tool d) TOOL_NAME))
       @ [newline] @ join_with newline (section_lines ''components'' (map (\<lambda>c. comp c ''    '') (nl_components n)))
       @ [newline] @ join_with newline (section_lines ''nets'' (map net_block (enumerate 0 (nl_nets n))))
       @ [newline] @ '')'') @ [newline]" (is "_ = (?h @ _ @ join_with _ ?design @ _ @ join_with _ ?cs @ _) @ _")
proof -
  let ?nl = "section_lines ''nets'' (concat (map (\<lambda>(i, net). net_text i net) (enumerate 0 (nl_nets n))))"
  have "emitKicadNetlist now n opt_date = join_with newline (?h # ?design @ ?cs @ ?nl @ ['')'']) @ [newline]"
    by (simp add: emitKicadNetlist_def Let_def d_def design_lines_def section_lines_def)
  also have "\<dots> = (?h @ [newline] @ join_with newline ?design @ [newline] @ join_with newline ?cs @ [newline]
      @ join_with newline ?nl @ [newline] @ '')'') @ [newline]"
    by (subst join_five) (simp_all add: design_lines_def section_lines_def)
  finally show ?thesis unfolding join_net_section .
qed

text \<open>
  C14: the text that is written for the importer says exactly what the netlist holds: read as
  s-expressions with escaped quotes and backslashes it is one list with the version, the design
  block, every component with its fields, and every net with its nodes, whatever characters
  their names and values are made of.
\<close>

theorem netlist_text_roundtrip:
  "read_text (emitKicadNetlist now n opt_date) = Some [netlist_tree now n opt_date]"
proof -
  let ?d = "case nl_design n of None \<Rightarrow> \<lparr>ds_source = None, ds_date = None, ds_tool = None\<rparr> | Some d \<Rightarrow> d"
  let ?a = "or_text (ds_source ?d) []" and ?b = "or_text opt_date (or_text (ds_date ?d) now)"
    and ?c = "or_text (ds_tool ?d) TOOL_NAME"
  let ?nets = "enumerate 0 (nl_nets n)"
  let ?design = "design_lines ?a ?b ?c"
  let ?cs = "section_lines ''components'' (map (\<lambda>c. comp c ''    '') (nl_components n))"
  let ?ns = "section_lines ''nets'' (map net_block ?nets)"
  let ?ct = "KList (KAtom ''components'' # map comp_tree (nl_components n))"
  let ?nt = "KList (KAtom ''nets'' # map (\<lambda>(i, net). net_tree i net) ?nets)"
  let ?dt = "KList [KAtom ''design'', word ''source'' ?a, word ''date'' ?b, word ''tool'' ?c]"
  have rd: "reads (join_with newline ?design) [?dt]"
    using reads_design [of ?a ?b ?c] by (simp add: design_lines_def)
  have rc: "reads (join_with newline ?cs) [?ct]"
    using reads_section [of "''components''", OF _ list_all2_map [of "\<lambda>c. comp c ''    ''" "\<lambda>c. [comp_tree c]"
        "nl_components n", OF reads_comp]]
    by (simp add: keyword_defs section_lines_def)
  have "reads (net_block x) [case x of (i, net) \<Rightarrow> net_tree i net]" for x
    by (cases x) (simp add: reads_net net_block_def)
  from reads_section [of "''nets''", OF _ list_all2_map [OF this, where xs = ?nets]]
  have rn: "reads (join_with newline ?ns) [?nt]" by (simp add: keyword_defs section_lines_def)
  have o: "opens (''('' @ ''export'' @ '' '' @ field_text ''version'' NETLIST_VERSION)
      [KAtom ''export'', word ''version'' NETLIST_VERSION]"
    by (intro opens_key reads_field) (simp_all add: keyword_defs)
  have "reads ([newline] @ join_with newline ?design @ [newline] @ join_with newline ?cs @ [newline]
      @ join_with newline ?ns @ [newline]) ([] @ [?dt] @ [] @ [?ct] @ [] @ [?nt] @ [])"
    by (intro reads_append reads_white rd rc rn) simp_all
  from opens_close [OF opens_append [OF o this]]
  have r: "reads ((''(export '' @ field_text ''version'' NETLIST_VERSION) @ [newline] @ join_with newline ?design @ [newline]
      @ join_with newline ?cs @ [newline] @ join_with newline ?ns @ [newline] @ '')'')
     [KList [KAtom ''export'', word ''version'' NETLIST_VERSION, ?dt, ?ct, ?nt]]"
    by simp
  have "scan Between [[]] (s @ [newline]) = Some ts" if "reads s ts" for s ts
    using that reads_white [of newline] by (simp add: reads_def)
  from this [OF r] show ?thesis
    unfolding read_text_def emit_blocks by (simp add: netlist_tree_def NETLIST_VERSION_def split: option.split)
qed

section \<open>What the checks accept\<close>

text \<open>The pins of the nets, each with the name of its net, in order.\<close>

definition net_pins :: "netlist_net list \<Rightarrow> (string \<times> string) list" where
  "net_pins nets = concat (map (\<lambda>net. map (\<lambda>n. (pin_key (nn_ref n) (nn_pin n), nt_name net)) (nt_nodes net)) nets)"

definition one_net_per_pin :: "(string \<times> string) list \<Rightarrow> bool" where
  "one_net_per_pin ps \<longleftrightarrow> (\<forall>(k, v) \<in> set ps. \<forall>(k', v') \<in> set ps. k = k' \<longrightarrow> v = v')"

definition refs_of :: "netlist \<Rightarrow> string list" where
  "refs_of n = map nc_ref (nl_components n)"

definition clean_name :: "string \<Rightarrow> bool" where
  "clean_name s \<longleftrightarrow> s \<noteq> [] \<and> CHR 0x7B \<notin> set s \<and> CHR 0x7D \<notin> set s"

text \<open>
  \<open>netlist_ok\<close>: every component has a reference of its own, every net a name of its own without
  braces, every node names a component, no pin is on two nets, and a pin marked as not
  connected names a component, is marked once and is on no net.
\<close>

definition netlist_ok :: "netlist \<Rightarrow> bool" where
  "netlist_ok n \<longleftrightarrow>
     [] \<notin> set (refs_of n) \<and> distinct (refs_of n) \<and>
     (\<forall>net \<in> set (nl_nets n). clean_name (nt_name net)) \<and> distinct (map nt_name (nl_nets n)) \<and>
     (\<forall>net \<in> set (nl_nets n). \<forall>node \<in> set (nt_nodes net). nn_ref node \<in> set (refs_of n)) \<and>
     one_net_per_pin (net_pins (nl_nets n)) \<and>
     (\<forall>x \<in> set (nl_noConnects n). nx_ref x \<in> set (refs_of n)) \<and>
     distinct (map (\<lambda>x. pin_key (nx_ref x) (nx_pin x)) (nl_noConnects n)) \<and>
     (\<forall>x \<in> set (nl_noConnects n). pin_key (nx_ref x) (nx_pin x) \<notin> fst ` set (net_pins (nl_nets n)))"

lemma is_error_net [simp]: "is_error (net_err m c)" "\<not> is_error (net_warn m c)"
  by (simp_all add: net_err_def net_warn_def)

lemma check_components_ok:
  "\<not> hasErrors (fst (check_components seen cs)) \<longleftrightarrow>
     [] \<notin> set (map nc_ref cs) \<and> distinct (map nc_ref cs) \<and> set (map nc_ref cs) \<inter> set seen = {}"
  by (induction seen cs rule: check_components.induct) (auto simp: split_beta Let_def)

lemma check_components_refs:
  "set (snd (check_components seen cs)) = set seen \<union> (set (map nc_ref cs) - {[]})"
  by (induction seen cs rule: check_components.induct) (auto simp: split_beta Let_def)

text \<open>\<open>mapped pins ps\<close>: the map of the checks holds exactly the pins seen so far.\<close>

definition mapped :: "(string, string) jmap \<Rightarrow> (string \<times> string) list \<Rightarrow> bool" where
  "mapped pins ps \<longleftrightarrow> (\<forall>k v. jget pins k = Some v \<longleftrightarrow> (k, v) \<in> set ps)"

lemma one_net_append:
  "one_net_per_pin (ps @ [(k, v)]) \<longleftrightarrow> one_net_per_pin ps \<and> (\<forall>w. (k, w) \<in> set ps \<longrightarrow> w = v)"
  by (auto simp: one_net_per_pin_def)

lemma one_net_prefix: "one_net_per_pin (ps @ qs) \<Longrightarrow> one_net_per_pin ps"
  unfolding one_net_per_pin_def by fastforce

lemma one_netD: "one_net_per_pin ps \<Longrightarrow> (k, v) \<in> set ps \<Longrightarrow> (k, w) \<in> set ps \<Longrightarrow> v = w"
  unfolding one_net_per_pin_def by fast

definition named :: "(string \<times> string) list \<Rightarrow> bool" where
  "named ps \<longleftrightarrow> [] \<notin> snd ` set ps"

lemma named_simps [simp]:
  "named []" "named (ps @ qs) = (named ps \<and> named qs)" "named [(k, v)] = (v \<noteq> [])"
  by (auto simp: named_def)

definition node_pins :: "string \<Rightarrow> netlist_node list \<Rightarrow> (string \<times> string) list" where
  "node_pins name ns = map (\<lambda>n. (pin_key (nn_ref n) (nn_pin n), name)) ns"

lemma node_pins_simps [simp]:
  "node_pins name [] = []"
  "node_pins name (n # ns) = (pin_key (nn_ref n) (nn_pin n), name) # node_pins name ns"
  by (simp_all add: node_pins_def)

lemma named_node_pins: "name \<noteq> [] \<Longrightarrow> named (node_pins name ns)"
  by (auto simp: named_def node_pins_def)

text \<open>The test for a pin of another net.\<close>

lemma pin_clash:
  assumes "mapped pins ps" and "one_net_per_pin ps" and "named ps"
  shows "(jget pins k \<noteq> None \<and> jget pins k \<noteq> Some [] \<and> jget pins k \<noteq> Some name)
      \<longleftrightarrow> \<not> one_net_per_pin (ps @ [(k, name)])"
proof (cases "jget pins k")
  case None
  then have "(k, w) \<notin> set ps" for w using assms(1) by (force simp: mapped_def)
  then show ?thesis using None assms(2) by (simp add: one_net_append)
next
  case (Some w)
  then have w: "(k, w) \<in> set ps" using assms(1) by (simp add: mapped_def)
  then have "w \<noteq> []" using assms(3) by (force simp: named_def)
  moreover have "(\<forall>v. (k, v) \<in> set ps \<longrightarrow> v = name) \<longleftrightarrow> w = name"
    using one_netD [OF assms(2)] w by blast
  ultimately show ?thesis using Some by (simp add: one_net_append assms(2))
qed

lemma mapped_put:
  "mapped pins ps \<Longrightarrow> one_net_per_pin (ps @ [(k, name)]) \<Longrightarrow> mapped (jput k name pins) (ps @ [(k, name)])"
  by (auto simp: mapped_def one_net_append)

lemma check_nodes_put:
  assumes "mapped pins ps" "one_net_per_pin ps" "named ps"
    and "one_net_per_pin (ps @ [(pin_key (nn_ref n) (nn_pin n), name)])"
  shows "hasErrors (fst (check_nodes refs name pins (n # ns))) \<longleftrightarrow>
      nn_ref n \<notin> set refs \<or>
      hasErrors (fst (check_nodes refs name (jput (pin_key (nn_ref n) (nn_pin n)) name pins) ns))"
    and "snd (check_nodes refs name pins (n # ns)) =
      snd (check_nodes refs name (jput (pin_key (nn_ref n) (nn_pin n)) name pins) ns)"
proof -
  have c: "(jget pins (pin_key (nn_ref n) (nn_pin n)) \<noteq> None \<and> jget pins (pin_key (nn_ref n) (nn_pin n)) \<noteq> Some []
      \<and> jget pins (pin_key (nn_ref n) (nn_pin n)) \<noteq> Some name) = False"
    using pin_clash [OF assms(1-3)] assms(4) by blast
  show "hasErrors (fst (check_nodes refs name pins (n # ns))) \<longleftrightarrow>
      nn_ref n \<notin> set refs \<or>
      hasErrors (fst (check_nodes refs name (jput (pin_key (nn_ref n) (nn_pin n)) name pins) ns))"
    unfolding check_nodes.simps Let_def c if_False split_beta fst_conv by simp
  show "snd (check_nodes refs name pins (n # ns)) =
      snd (check_nodes refs name (jput (pin_key (nn_ref n) (nn_pin n)) name pins) ns)"
    unfolding check_nodes.simps Let_def c if_False split_beta snd_conv ..
qed

lemma check_nodes_mapped:
  "mapped pins ps \<Longrightarrow> one_net_per_pin (ps @ node_pins name ns) \<Longrightarrow> name \<noteq> [] \<Longrightarrow> named ps \<Longrightarrow>
   mapped (snd (check_nodes refs name pins ns)) (ps @ node_pins name ns)"
proof (induction ns arbitrary: pins ps)
  case (Cons n ns)
  let ?k = "pin_key (nn_ref n) (nn_pin n)"
  have o: "one_net_per_pin (ps @ [(?k, name)])"
    using Cons.prems(2) one_net_prefix [of "ps @ [(?k, name)]" "node_pins name ns"] by simp
  have "mapped (snd (check_nodes refs name (jput ?k name pins) ns)) ((ps @ [(?k, name)]) @ node_pins name ns)"
    using Cons.prems by (intro Cons.IH mapped_put o) simp_all
  then show ?case
    unfolding check_nodes_put(2) [OF Cons.prems(1) one_net_prefix [OF o] Cons.prems(4) o]
    by (simp only: node_pins_simps append_assoc append.simps)
qed simp

lemma check_nodes_ok:
  "mapped pins ps \<Longrightarrow> one_net_per_pin ps \<Longrightarrow> name \<noteq> [] \<Longrightarrow> named ps \<Longrightarrow>
   \<not> hasErrors (fst (check_nodes refs name pins ns)) \<longleftrightarrow>
     (\<forall>n \<in> set ns. nn_ref n \<in> set refs) \<and> one_net_per_pin (ps @ node_pins name ns)"
proof (induction ns arbitrary: pins ps)
  case (Cons n ns)
  let ?k = "pin_key (nn_ref n) (nn_pin n)"
  show ?case
  proof (cases "one_net_per_pin (ps @ [(?k, name)])")
    case True
    have "\<not> hasErrors (fst (check_nodes refs name (jput ?k name pins) ns)) \<longleftrightarrow>
       (\<forall>n \<in> set ns. nn_ref n \<in> set refs) \<and> one_net_per_pin ((ps @ [(?k, name)]) @ node_pins name ns)"
      using Cons.prems by (intro Cons.IH mapped_put True) simp_all
    then show ?thesis
      unfolding check_nodes_put(1) [OF Cons.prems(1,2,4) True] by auto
  next
    case False
    then have "jget pins ?k \<noteq> None \<and> jget pins ?k \<noteq> Some [] \<and> jget pins ?k \<noteq> Some name"
      using pin_clash [OF Cons.prems(1,2,4)] by blast
    moreover have "\<not> one_net_per_pin (ps @ (?k, name) # node_pins name ns)"
      using False one_net_prefix [of "ps @ [(?k, name)]" "node_pins name ns"] by auto
    ultimately have "hasErrors (fst (check_nodes refs name pins (n # ns)))"
      unfolding check_nodes.simps Let_def split_beta by (simp only: if_True) simp
    then show ?thesis using \<open>\<not> one_net_per_pin (ps @ (?k, name) # node_pins name ns)\<close> by simp
  qed
qed simp

lemma name_problems_ok:
  "hasErrors (name_problems names s) \<longleftrightarrow> \<not> clean_name s \<or> s \<in> set names"
  by (auto simp: name_problems_def clean_name_def list_ex_iff)

lemma check_nets_Cons:
  "check_nets refs names pins (net # nets) =
     (let (ds, p) = check_nodes refs (nt_name net) pins (nt_nodes net);
          (es, p') = check_nets refs (sadd (nt_name net) names) p nets
      in (name_problems names (nt_name net) @
          (if length (nt_nodes net) < 2
            then [net_warn (''Net '' @ (if nt_name net = [] then ''(unnamed)'' else nt_name net) @ '' has ''
                    @ show_int (int (length (nt_nodes net))) @ '' node(s); it connects nothing.'')
                    ''single_node_net'']
            else []) @ ds @ es, p'))"
  by (simp add: Let_def)

lemma check_nets_fst:
  "hasErrors (fst (check_nets refs names pins (net # nets))) \<longleftrightarrow>
     \<not> clean_name (nt_name net) \<or> nt_name net \<in> set names \<or>
     hasErrors (fst (check_nodes refs (nt_name net) pins (nt_nodes net))) \<or>
     hasErrors (fst (check_nets refs (sadd (nt_name net) names)
       (snd (check_nodes refs (nt_name net) pins (nt_nodes net))) nets))"
  unfolding check_nets_Cons split_beta Let_def fst_conv by (auto simp: name_problems_ok)

lemma check_nets_snd:
  "snd (check_nets refs names pins (net # nets)) =
     snd (check_nets refs (sadd (nt_name net) names)
       (snd (check_nodes refs (nt_name net) pins (nt_nodes net))) nets)"
  unfolding check_nets_Cons split_beta Let_def snd_conv ..

lemma net_pins_Cons: "net_pins (net # nets) = node_pins (nt_name net) (nt_nodes net) @ net_pins nets"
  by (simp add: net_pins_def node_pins_def)

lemma check_nets_mapped:
  "mapped pins ps \<Longrightarrow> one_net_per_pin (ps @ net_pins nets) \<Longrightarrow> named ps \<Longrightarrow>
   \<forall>net \<in> set nets. nt_name net \<noteq> [] \<Longrightarrow>
   mapped (snd (check_nets refs names pins nets)) (ps @ net_pins nets)"
proof (induction nets arbitrary: names pins ps)
  case (Cons net nets)
  let ?ns = "node_pins (nt_name net) (nt_nodes net)"
  have o: "one_net_per_pin (ps @ ?ns)"
    using Cons.prems(2) one_net_prefix [of "ps @ ?ns" "net_pins nets"] by (simp add: net_pins_Cons)
  have "mapped (snd (check_nets refs (sadd (nt_name net) names)
      (snd (check_nodes refs (nt_name net) pins (nt_nodes net))) nets)) ((ps @ ?ns) @ net_pins nets)"
    using Cons.prems o
    by (intro Cons.IH check_nodes_mapped) (simp_all add: net_pins_Cons named_node_pins)
  then show ?case by (simp only: check_nets_snd net_pins_Cons append_assoc)
qed (simp add: net_pins_def)

lemma check_nets_ok:
  "mapped pins ps \<Longrightarrow> one_net_per_pin ps \<Longrightarrow> named ps \<Longrightarrow>
   \<not> hasErrors (fst (check_nets refs names pins nets)) \<longleftrightarrow>
     (\<forall>net \<in> set nets. clean_name (nt_name net)) \<and> distinct (map nt_name nets) \<and>
     set (map nt_name nets) \<inter> set names = {} \<and>
     (\<forall>net \<in> set nets. \<forall>n \<in> set (nt_nodes net). nn_ref n \<in> set refs) \<and>
     one_net_per_pin (ps @ net_pins nets)"
proof (induction nets arbitrary: names pins ps)
  case (Cons net nets)
  let ?ns = "node_pins (nt_name net) (nt_nodes net)"
  let ?p = "snd (check_nodes refs (nt_name net) pins (nt_nodes net))"
  show ?case
  proof (cases "clean_name (nt_name net) \<and> one_net_per_pin (ps @ ?ns)")
    case True
    then have n: "nt_name net \<noteq> []" by (simp add: clean_name_def)
    have "\<not> hasErrors (fst (check_nets refs (sadd (nt_name net) names) ?p nets)) \<longleftrightarrow>
       (\<forall>net \<in> set nets. clean_name (nt_name net)) \<and> distinct (map nt_name nets) \<and>
       set (map nt_name nets) \<inter> set (sadd (nt_name net) names) = {} \<and>
       (\<forall>net \<in> set nets. \<forall>n \<in> set (nt_nodes net). nn_ref n \<in> set refs) \<and>
       one_net_per_pin ((ps @ ?ns) @ net_pins nets)"
      using Cons.prems True n by (intro Cons.IH check_nodes_mapped) (simp_all add: named_node_pins)
    moreover have "\<not> hasErrors (fst (check_nodes refs (nt_name net) pins (nt_nodes net))) \<longleftrightarrow>
       (\<forall>n \<in> set (nt_nodes net). nn_ref n \<in> set refs)"
      using check_nodes_ok [OF Cons.prems(1,2) n Cons.prems(3)] True by blast
    ultimately show ?thesis using True unfolding check_nets_fst net_pins_Cons by auto
  next
    case False
    then have "\<not> clean_name (nt_name net) \<or> hasErrors (fst (check_nodes refs (nt_name net) pins (nt_nodes net)))"
      using check_nodes_ok [OF Cons.prems(1,2) _ Cons.prems(3)] by (metis clean_name_def)
    moreover have "\<not> clean_name (nt_name net) \<or> \<not> one_net_per_pin (ps @ net_pins (net # nets))"
      using False one_net_prefix [of "ps @ ?ns" "net_pins nets"] by (auto simp: net_pins_Cons)
    ultimately show ?thesis unfolding check_nets_fst by auto
  qed
qed (simp add: net_pins_def)

lemma check_no_connects_ok:
  assumes "mapped pins ps" and "named ps"
  shows "\<not> hasErrors (check_no_connects refs pins seen ns) \<longleftrightarrow>
      (\<forall>x \<in> set ns. nx_ref x \<in> set refs) \<and>
      distinct (map (\<lambda>x. pin_key (nx_ref x) (nx_pin x)) ns) \<and>
      set (map (\<lambda>x. pin_key (nx_ref x) (nx_pin x)) ns) \<inter> set seen = {} \<and>
      (\<forall>x \<in> set ns. pin_key (nx_ref x) (nx_pin x) \<notin> fst ` set ps)"
proof (induction ns arbitrary: seen)
  case (Cons x ns)
  let ?k = "pin_key (nx_ref x) (nx_pin x)"
  have c: "hasErrors (case jget pins ?k of None \<Rightarrow> []
        | Some net \<Rightarrow> if net = [] then [] else [net_err (m net) e]) \<longleftrightarrow> ?k \<in> fst ` set ps" for m e
  proof (cases "jget pins ?k")
    case None
    then have "(?k, w) \<notin> set ps" for w using assms(1) by (force simp: mapped_def)
    then show ?thesis using None by force
  next
    case (Some w)
    then have w: "(?k, w) \<in> set ps" using assms(1) by (simp add: mapped_def)
    then have "w \<noteq> []" using assms(2) by (force simp: named_def)
    then show ?thesis using Some w by force
  qed
  show ?case using Cons [of "sadd ?k seen"] by (simp add: Let_def c) auto
qed simp

lemma validate_errors: "hasErrors (validateNetlist n) \<longleftrightarrow> \<not> netlist_ok n"
proof -
  let ?c = "check_components [] (nl_components n)"
  let ?r = "check_nets (snd ?c) [] [] (nl_nets n)"
  have v: "validateNetlist n = fst ?c @ fst ?r @ check_no_connects (snd ?c) (snd ?r) [] (nl_noConnects n)"
    by (simp add: validateNetlist_def split_beta Let_def)
  have refs: "set (snd ?c) = set (refs_of n) - {[]}"
    using check_components_refs [of "[]" "nl_components n"] by (simp add: refs_of_def)
  have m: "mapped [] []" "one_net_per_pin []" "named []"
    by (simp_all add: mapped_def one_net_per_pin_def)
  note c = check_components_ok [of "[]" "nl_components n"]
  note r = check_nets_ok [OF m, of "snd ?c" "[]" "nl_nets n"]
  show ?thesis
  proof (cases "hasErrors (fst ?c)")
    case True
    then have "\<not> netlist_ok n" using c by (auto simp: netlist_ok_def refs_of_def)
    then show ?thesis using True v by simp
  next
    case False
    then have e: "[] \<notin> set (refs_of n)" "distinct (refs_of n)" using c by (simp_all add: refs_of_def)
    then have s: "set (snd ?c) = set (refs_of n)" using refs by simp
    show ?thesis
    proof (cases "hasErrors (fst ?r)")
      case True
      then have "\<not> netlist_ok n" using r unfolding s by (auto simp: netlist_ok_def)
      then show ?thesis using True v by simp
    next
      case ok: False
      have clean: "\<forall>net \<in> set (nl_nets n). clean_name (nt_name net)"
        and o: "one_net_per_pin (net_pins (nl_nets n))" using r ok by simp_all
      have nm: "\<forall>net \<in> set (nl_nets n). nt_name net \<noteq> []" using clean by (simp add: clean_name_def)
      have mp: "mapped (snd ?r) (net_pins (nl_nets n))"
        using check_nets_mapped [OF m(1) _ m(3) nm] o by simp
      have "named (net_pins (nl_nets n))" using nm by (auto simp: net_pins_def named_def)
      from check_no_connects_ok [OF mp this, of "snd ?c" "[]" "nl_noConnects n"]
      show ?thesis using v False ok r e unfolding s by (auto simp: netlist_ok_def)
    qed
  qed
qed

text \<open>
  C12: the checks are exactly the declared ones: \<open>validateNetlist\<close> finds an error if and only if the
  netlist breaks a rule. A netlist that passes has no two components of one name, no two nets of
  one name, and no pin that is on two nets or both connected and marked as not connected.
\<close>

theorem validate_exact: "hasErrors (validateNetlist n) \<longleftrightarrow> \<not> netlist_ok n"
  by (rule validate_errors)

text \<open>
  The key under which a pin is kept joins reference and pin with a colon, so two different pins
  can have the same key: a netlist in which no pin is on two nets may be refused.
\<close>

lemma pin_keys_collide: "pin_key ''A'' ''B:1'' = pin_key ''A:B'' ''1''"
  by (simp add: pin_key_def)

end
