(* ===== verification/Schematic.thy ===== *)
theory Schematic
  imports Netlist
begin

text \<open>
  \<open>packages/compile/src/schematic.ts\<close>: the generated part of a project's schematic. Library symbols
  are parameters of the model, reduced to what the code reads of them: their units, their pins and
  their fields. All positions are whole nanometres (pins come as integers and origins lie on the
  grid), so the rounding to wire integers changes nothing and is left out; so are the drawing
  attributes that are copied through.
\<close>

section \<open>Symbols\<close>

datatype orientation = SPO_UNKNOWN | SPO_LEFT | SPO_RIGHT | SPO_UP | SPO_DOWN
datatype spin_style = SLSS_LEFT | SLSS_RIGHT | SLSS_UP | SLSS_BOTTOM

record lib_pin =
  lp_number :: string
  lp_position :: point
  lp_length :: num
  lp_orientation :: orientation

text \<open>A child of a definition; unit and body style 0 stand for all. A child that is not a pin has none.\<close>

record lib_child =
  ch_unit :: nat
  ch_style :: nat
  ch_pin :: "lib_pin option"

record sch_field =
  sf_name :: string
  sf_text :: string
  sf_position :: point

record lib_symbol =
  sy_unitCount :: nat
  sy_children :: "lib_child list"
  sy_referenceField :: "sch_field option"
  sy_valueField :: "sch_field option"
  sy_footprintField :: "sch_field option"
  sy_datasheetField :: "sch_field option"
  sy_descriptionField :: "sch_field option"

type_synonym definitions = "string \<Rightarrow> lib_symbol option"

definition lib_id :: "lib_source \<Rightarrow> string" where
  "lib_id l = ls_lib l @ '':'' @ ls_part l"

definition definition_of :: "definitions \<Rightarrow> netlist_component \<Rightarrow> lib_symbol option" where
  "definition_of defs c = (case nc_libSource c of None \<Rightarrow> None | Some l \<Rightarrow> defs (lib_id l))"

section \<open>References\<close>

definition digit :: "char \<Rightarrow> bool" where
  "digit c \<longleftrightarrow> c \<in> set ''0123456789''"

text \<open>\<open>reference.match(/^[^0-9?]+/)?.[0] ?? reference.replace(/\?+$/, "")\<close>\<close>

definition referenceClass :: "string \<Rightarrow> string" where
  "referenceClass r =
     (let head = takeWhile (\<lambda>c. \<not> digit c \<and> c \<noteq> CHR ''?'') r
      in if head \<noteq> [] then head else rev (dropWhile (\<lambda>c. c = CHR ''?'') (rev r)))"

text \<open>\<open>/^#[^0-9?]+[0-9]+$/\<close>\<close>

definition numbered_virtual :: "string \<Rightarrow> bool" where
  "numbered_virtual r =
     (case r of
        [] \<Rightarrow> False
      | c # s \<Rightarrow> c = CHR ''#'' \<and>
          (let head = takeWhile (\<lambda>c. \<not> digit c \<and> c \<noteq> CHR ''?'') s; tail = drop (length head) s
           in head \<noteq> [] \<and> tail \<noteq> [] \<and> list_all digit tail))"

definition symbol_reference :: "definitions \<Rightarrow> netlist_component \<Rightarrow> string" where
  "symbol_reference defs c =
     (case definition_of defs c of
        None \<Rightarrow> []
      | Some d \<Rightarrow> (case sy_referenceField d of None \<Rightarrow> [] | Some f \<Rightarrow> sf_text f))"

text \<open>The numbers as text are pairwise different, so the search for a free one ends.\<close>

lemma finite_numbers: "finite {j. e @ digits j \<in> set used}"
proof (rule inj_on_finite [of "\<lambda>j. e @ digits j"])
  show "inj_on (\<lambda>j. e @ digits j) {j. e @ digits j \<in> set used}"
    by (rule inj_onI) (use digits_inj in auto)
qed auto

function free_index :: "string list \<Rightarrow> string \<Rightarrow> nat \<Rightarrow> nat" where
  "free_index used e i = (if List.member used (e @ digits i) then free_index used e (i + 1) else i)"
  by pat_completeness auto

termination
proof (relation "measure (\<lambda>(used, e, i). card {j. i \<le> j \<and> e @ digits j \<in> set used})")
  fix used e and i :: nat
  assume "List.member used (e @ digits i)"
  then have "e @ digits i \<in> set used" by simp
  then have "i \<in> {j. i \<le> j \<and> e @ digits j \<in> set used}"
    and "i \<notin> {j. i + 1 \<le> j \<and> e @ digits j \<in> set used}" by simp_all
  moreover have "{j. i + 1 \<le> j \<and> e @ digits j \<in> set used} \<subseteq> {j. i \<le> j \<and> e @ digits j \<in> set used}"
    by auto
  ultimately have "{j. i + 1 \<le> j \<and> e @ digits j \<in> set used} \<subset> {j. i \<le> j \<and> e @ digits j \<in> set used}"
    by blast
  moreover have "finite {j. i \<le> j \<and> e @ digits j \<in> set used}"
    by (rule finite_subset [OF _ finite_numbers [of e used]]) auto
  ultimately show "((used, e, i + 1), used, e, i)
      \<in> measure (\<lambda>(used, e, i). card {j. i \<le> j \<and> e @ digits j \<in> set used})"
    by (simp add: psubset_card_mono)
qed simp

declare free_index.simps [simp del]

section \<open>Virtual references\<close>

text \<open>
  The loop over the components: \<open>used\<close> are the references taken, \<open>renames\<close> maps old references to
  new ones. The result has the components with their new references.
\<close>

definition needs_rename :: "definitions \<Rightarrow> netlist_component \<Rightarrow> bool" where
  "needs_rename defs c \<longleftrightarrow>
     (case nc_libSource c of None \<Rightarrow> False | Some l \<Rightarrow> ls_lib l = ''power'') \<and>
     (let expected = referenceClass (symbol_reference defs c) in
      expected \<noteq> [] \<and> hd expected = CHR ''#'' \<and>
      \<not> (referenceClass (nc_ref c) = expected \<and> numbered_virtual (nc_ref c)))"

definition next_reference :: "definitions \<Rightarrow> string list \<Rightarrow> netlist_component \<Rightarrow> string" where
  "next_reference defs used c =
     (let expected = referenceClass (symbol_reference defs c) in expected @ digits (free_index used expected 1))"

definition renamed_diag :: "definitions \<Rightarrow> netlist_component \<Rightarrow> string \<Rightarrow> diagnostic" where
  "renamed_diag defs c r = diag_at SchematicStage WarningSeverity
     (nc_ref c @ '' -> '' @ r @ '': normalized virtual power reference for ''
      @ (case nc_libSource c of None \<Rightarrow> [] | Some l \<Rightarrow> lib_id l)
      @ '' (declared class '' @ referenceClass (symbol_reference defs c) @ '').'')
     ''virtual_reference_normalized''"

fun rename_components ::
  "definitions \<Rightarrow> string list \<Rightarrow> (string, string) jmap \<Rightarrow> netlist_component list \<Rightarrow>
    netlist_component list \<times> (string, string) jmap \<times> diagnostic list" where
  "rename_components defs used renames [] = ([], renames, [])"
| "rename_components defs used renames (c # cs) =
     (if \<not> needs_rename defs c then
        let (cs', rn, ds) = rename_components defs used renames cs in (c # cs', rn, ds)
      else
        let r = next_reference defs used c;
            (cs', rn, ds) = rename_components defs (sadd r used) (jput (nc_ref c) r renames) cs
        in (c\<lparr>nc_ref := r\<rparr> # cs', rn, renamed_diag defs c r # ds))"

definition new_name :: "(string, string) jmap \<Rightarrow> string \<Rightarrow> string" where
  "new_name renames r = (case jget renames r of None \<Rightarrow> r | Some s \<Rightarrow> s)"

definition normalizeVirtualReferences :: "netlist \<Rightarrow> definitions \<Rightarrow> netlist \<times> diagnostic list" where
  "normalizeVirtualReferences n defs =
     (let (cs, rn, ds) = rename_components defs (fold sadd (map nc_ref (nl_components n)) []) [] (nl_components n)
      in (n\<lparr>nl_components := cs,
            nl_nets := map (\<lambda>net. net\<lparr>nt_nodes :=
               map (\<lambda>node. node\<lparr>nn_ref := new_name rn (nn_ref node)\<rparr>) (nt_nodes net)\<rparr>) (nl_nets n),
            nl_noConnects := map (\<lambda>x. x\<lparr>nx_ref := new_name rn (nx_ref x)\<rparr>) (nl_noConnects n)\<rparr>, ds))"

section \<open>Geometry\<close>

definition SCHEMATIC_GRID_MM :: num where "SCHEMATIC_GRID_MM = 127 / 100"

definition STUB_LENGTH :: num where "STUB_LENGTH = mm (4 * SCHEMATIC_GRID_MM)"

fun outward :: "orientation \<Rightarrow> point \<times> spin_style" where
  "outward SPO_LEFT = (pt 1 0, SLSS_RIGHT)"
| "outward SPO_UP = (pt 0 1, SLSS_BOTTOM)"
| "outward SPO_DOWN = (pt 0 (- 1), SLSS_UP)"
| "outward SPO_RIGHT = (pt (- 1) 0, SLSS_LEFT)"
| "outward SPO_UNKNOWN = (pt (- 1) 0, SLSS_LEFT)"

definition along :: "point \<Rightarrow> point \<Rightarrow> num \<Rightarrow> point" where
  "along p d n = pt (vx p + vx d * n) (vy p + vy d * n)"

record placed_pin =
  pp_position :: point
  pp_orientation :: orientation

definition labelledStub :: "placed_pin \<Rightarrow> point \<times> spin_style" where
  "labelledStub p =
     (let (d, spin) = outward (pp_orientation p) in (along (pp_position p) d STUB_LENGTH, spin))"

record extent =
  ex_left :: num
  ex_right :: num
  ex_top :: num
  ex_bottom :: num

definition labelLength :: "string \<Rightarrow> num" where
  "labelLength s = mm (SCHEMATIC_GRID_MM * (of_nat (length s) + 2))"

definition include_point :: "point \<Rightarrow> extent \<Rightarrow> extent" where
  "include_point p e =
     \<lparr>ex_left = max (ex_left e) (- vx p), ex_right = max (ex_right e) (vx p),
      ex_top = max (ex_top e) (- vy p), ex_bottom = max (ex_bottom e) (vy p)\<rparr>"

definition of_unit :: "nat \<Rightarrow> lib_child \<Rightarrow> bool" where
  "of_unit unit ch \<longleftrightarrow> (ch_unit ch = 0 \<or> ch_unit ch = unit) \<and> (ch_style ch = 0 \<or> ch_style ch = 1)"

definition include_child ::
  "string \<Rightarrow> (string, string) jmap \<Rightarrow> nat \<Rightarrow> lib_child \<Rightarrow> extent \<Rightarrow> extent" where
  "include_child ref pinNets unit ch e =
     (if \<not> of_unit unit ch then e
      else case ch_pin ch of
          None \<Rightarrow> e
        | Some pin \<Rightarrow>
            let d = fst (outward (lp_orientation pin));
                e1 = include_point (along (lp_position pin) d (- lp_length pin))
                       (include_point (lp_position pin) e)
            in (case jget pinNets (pin_key ref (lp_number pin)) of
                  None \<Rightarrow> e1
                | Some net \<Rightarrow> include_point (along (lp_position pin) d (STUB_LENGTH + labelLength net)) e1))"

definition symbolExtent :: "lib_symbol \<Rightarrow> string \<Rightarrow> (string, string) jmap \<Rightarrow> nat \<Rightarrow> extent" where
  "symbolExtent s ref pinNets unit =
     (let m = mm (2 * SCHEMATIC_GRID_MM) in
      fold (include_child ref pinNets unit) (sy_children s)
        \<lparr>ex_left = m, ex_right = m, ex_top = m, ex_bottom = m\<rparr>)"

definition snapUp :: "num \<Rightarrow> num" where
  "snapUp v = (let grid = mm SCHEMATIC_GRID_MM in of_int \<lceil>v / grid\<rceil> * grid)"

definition LAYOUT_COLUMNS :: nat where "LAYOUT_COLUMNS = 4"

definition max_of :: "num list \<Rightarrow> num" where
  "max_of xs = fold max xs 0"

definition knowns :: "extent option list \<Rightarrow> extent list" where
  "knowns es = List.map_filter (\<lambda>e. e) es"

definition layout_row :: "extent option list \<Rightarrow> nat \<Rightarrow> extent list" where
  "layout_row es r = knowns (take LAYOUT_COLUMNS (drop (r * LAYOUT_COLUMNS) es))"

fun rowY :: "extent option list \<Rightarrow> nat \<Rightarrow> num" where
  "rowY es 0 = snapUp (max (mm (20 * SCHEMATIC_GRID_MM))
     (max_of (map ex_top (layout_row es 0)) + mm (8 * SCHEMATIC_GRID_MM)))"
| "rowY es (Suc r) = rowY es r + snapUp (max (mm (24 * SCHEMATIC_GRID_MM))
     (max_of (map ex_bottom (layout_row es r)) + max_of (map ex_top (layout_row es (Suc r)))
      + mm (2 * SCHEMATIC_GRID_MM)))"

definition pitchX :: "extent option list \<Rightarrow> num" where
  "pitchX es = snapUp (max (mm (28 * SCHEMATIC_GRID_MM))
     (max_of (map ex_right (knowns es)) + max_of (map ex_left (knowns es)) + mm (2 * SCHEMATIC_GRID_MM)))"

definition layout_x0 :: "extent option list \<Rightarrow> num" where
  "layout_x0 es = snapUp (max (mm (24 * SCHEMATIC_GRID_MM))
     (max_of (map ex_left (knowns es)) + mm (8 * SCHEMATIC_GRID_MM)))"

definition layoutSymbols :: "extent option list \<Rightarrow> point list" where
  "layoutSymbols es =
     map (\<lambda>i. pt (layout_x0 es + of_nat (i mod LAYOUT_COLUMNS) * pitchX es) (rowY es (i div LAYOUT_COLUMNS)))
       [0..<length es]"

section \<open>Drawing\<close>

record sch_symbol =
  ss_libId :: string
  ss_unit :: nat
  ss_position :: point
  ss_fields :: "sch_field list"

datatype sch_item =
    SymbolItem sch_symbol
  | WireItem point point
  | LabelItem point string spin_style
  | NoConnectItem point

definition positionedField :: "sch_field option \<Rightarrow> string \<Rightarrow> string \<Rightarrow> point \<Rightarrow> sch_field" where
  "positionedField source name v origin =
     \<lparr>sf_name = name, sf_text = v,
      sf_position = vecAdd origin (case source of None \<Rightarrow> ORIGIN | Some f \<Rightarrow> sf_position f)\<rparr>"

text \<open>\<open>fields?.A ?? fields?.a ?? ""\<close>\<close>

definition field_or :: "netlist_component \<Rightarrow> string \<Rightarrow> string \<Rightarrow> string" where
  "field_or c a b =
     (case map_of (nc_fields c) a of
        Some v \<Rightarrow> v
      | None \<Rightarrow> (case map_of (nc_fields c) b of Some v \<Rightarrow> v | None \<Rightarrow> []))"

definition symbol_fields :: "lib_symbol \<Rightarrow> netlist_component \<Rightarrow> point \<Rightarrow> sch_field list" where
  "symbol_fields d c pos =
     [positionedField (sy_referenceField d) ''Reference'' (nc_ref c) pos,
      positionedField (sy_valueField d) ''Value'' (nc_value c) pos,
      positionedField (sy_footprintField d) ''Footprint'' (nc_footprint c) pos,
      positionedField (sy_datasheetField d) ''Datasheet'' (field_or c ''Datasheet'' ''datasheet'') pos,
      positionedField (sy_descriptionField d) ''Description'' (field_or c ''Description'' ''description'') pos]
     @ map (\<lambda>(name, v). positionedField None name v pos)
         (filter (\<lambda>(name, v). name \<noteq> ''Datasheet'' \<and> name \<noteq> ''datasheet'') (nc_fields c))"

type_synonym pin_map = "(string, placed_pin list) jmap"

text \<open>\<open>placedDefinition\<close>: the pins of a unit are recorded at their places on the sheet.\<close>

definition pins_at :: "pin_map \<Rightarrow> string \<Rightarrow> placed_pin list" where
  "pins_at pins k = (case jget pins k of None \<Rightarrow> [] | Some ps \<Rightarrow> ps)"

definition place_child :: "point \<Rightarrow> string \<Rightarrow> nat \<Rightarrow> lib_child \<Rightarrow> pin_map \<Rightarrow> pin_map" where
  "place_child origin ref unit ch pins =
     (case ch_pin ch of
        None \<Rightarrow> pins
      | Some pin \<Rightarrow>
          if lp_number pin \<noteq> [] \<and> of_unit unit ch then
            let k = pin_key ref (lp_number pin) in
            jput k (pins_at pins k
              @ [\<lparr>pp_position = vecAdd origin (lp_position pin), pp_orientation = lp_orientation pin\<rparr>]) pins
          else pins)"

definition placedDefinition :: "lib_symbol \<Rightarrow> point \<Rightarrow> pin_map \<Rightarrow> string \<Rightarrow> nat \<Rightarrow> pin_map" where
  "placedDefinition d origin pins ref unit = fold (place_child origin ref unit) (sy_children d) pins"

record drawing =
  dr_items :: "sch_item list"
  dr_diags :: "diagnostic list"
  dr_pins :: pin_map
  dr_connected :: "point list"
  dr_marked :: "point list"
  dr_conflicts :: "string list"
  dr_symbols :: nat
  dr_wires :: nat
  dr_labels :: nat
  dr_noConnects :: nat

definition say :: "string \<Rightarrow> string \<Rightarrow> drawing \<Rightarrow> drawing" where
  "say message code g = g\<lparr>dr_diags := dr_diags g @ [diag_at SchematicStage ErrorSeverity message code]\<rparr>"

text \<open>One turn of the loop over the instances.\<close>

definition draw_instance ::
  "definitions \<Rightarrow> (netlist_component \<times> nat) \<times> point \<Rightarrow> drawing \<Rightarrow> drawing" where
  "draw_instance defs inst g =
     (case inst of ((c, unit), pos) \<Rightarrow>
        case nc_libSource c of
          None \<Rightarrow> say (nc_ref c @ '': libSource is required to draw this component in the generated schematic.'')
                    ''missing_symbol'' g
        | Some l \<Rightarrow>
            (case defs (lib_id l) of
               None \<Rightarrow> say (nc_ref c @ '': symbol '' @ lib_id l
                         @ '' could not be loaded; the board compile is unchanged.'') ''unknown_symbol'' g
             | Some d \<Rightarrow>
                 let expected = referenceClass (symbol_reference defs c);
                     actual = referenceClass (nc_ref c);
                     g1 = (if unit = 1 \<and> expected \<noteq> [] \<and> actual \<noteq> expected
                           then say (nc_ref c @ '': symbol '' @ lib_id l @ '' declares reference class '' @ expected
                                  @ '', not '' @ actual @ ''; if '' @ lib_id l
                                  @ '' is the intended symbol, change the reference to '' @ expected
                                  @ '' followed by a number; otherwise choose a symbol matching the intended ''
                                  @ ''electrical function.'') ''symbol_reference_mismatch'' g
                           else g)
                 in g1\<lparr>dr_items := dr_items g1 @ [SymbolItem
                        \<lparr>ss_libId = lib_id l, ss_unit = unit, ss_position = pos,
                         ss_fields = symbol_fields d c pos\<rparr>],
                      dr_pins := placedDefinition d pos (dr_pins g1) (nc_ref c) unit,
                      dr_symbols := dr_symbols g1 + 1\<rparr>))"

definition draw_pin :: "string \<Rightarrow> placed_pin \<Rightarrow> drawing \<Rightarrow> drawing" where
  "draw_pin net p g =
     (let (tip, spin) = labelledStub p in
      g\<lparr>dr_connected := sadd (pp_position p) (dr_connected g),
        dr_items := dr_items g @ [WireItem (pp_position p) tip, LabelItem tip net spin],
        dr_wires := dr_wires g + 1, dr_labels := dr_labels g + 1\<rparr>)"

definition draw_node :: "string \<Rightarrow> netlist_node \<Rightarrow> drawing \<Rightarrow> drawing" where
  "draw_node net node g =
     (let ps = pins_at (dr_pins g) (pin_key (nn_ref node) (nn_pin node)) in
      if ps = [] then
        say (nn_ref node @ '' pin '' @ nn_pin node @ '' ('' @ net
              @ '') could not be drawn because the symbol or pin is unavailable.'') ''unknown_symbol_pin'' g
      else fold (draw_pin net) ps g)"

definition draw_net :: "netlist_net \<Rightarrow> drawing \<Rightarrow> drawing" where
  "draw_net net g = fold (draw_node (nt_name net)) (nt_nodes net) g"

definition mark_pin :: "no_connect \<Rightarrow> placed_pin \<Rightarrow> drawing \<Rightarrow> drawing" where
  "mark_pin x p g =
     (if pp_position p \<in> set (dr_connected g) then
        (if nx_ref x \<notin> set (dr_conflicts g)
         then say (nx_ref x @ '' pin '' @ nx_pin x
                @ '' shares a symbol position with a connected pin and cannot be marked no-connect.'')
                ''no_connect_on_connected_position'' g
         else g)\<lparr>dr_conflicts := sadd (nx_ref x) (dr_conflicts g)\<rparr>
      else if pp_position p \<in> set (dr_marked g) then g
      else g\<lparr>dr_marked := sadd (pp_position p) (dr_marked g),
             dr_items := dr_items g @ [NoConnectItem (pp_position p)],
             dr_noConnects := dr_noConnects g + 1\<rparr>)"

definition draw_no_connect :: "no_connect \<Rightarrow> drawing \<Rightarrow> drawing" where
  "draw_no_connect x g =
     (let ps = pins_at (dr_pins g) (pin_key (nx_ref x) (nx_pin x)) in
      if ps = [] then
        say (nx_ref x @ '' pin '' @ nx_pin x
              @ '' could not be marked no-connect because the symbol or pin is unavailable.'')
            ''unknown_no_connect_pin'' g
      else fold (mark_pin x) ps g)"

definition instances_of :: "definitions \<Rightarrow> netlist_component list \<Rightarrow> (netlist_component \<times> nat) list" where
  "instances_of defs cs =
     concat (map (\<lambda>c. map (\<lambda>i. (c, i + 1))
       [0..<max 1 (case definition_of defs c of None \<Rightarrow> 1 | Some d \<Rightarrow> sy_unitCount d)]) cs)"

definition pin_nets :: "netlist_net list \<Rightarrow> (string, string) jmap" where
  "pin_nets nets = fold (\<lambda>(k, name) m. jput k name m) (net_pins nets) []"

definition extents_of :: "definitions \<Rightarrow> netlist \<Rightarrow> extent option list" where
  "extents_of defs n =
     map (\<lambda>(c, unit). map_option (\<lambda>d. symbolExtent d (nc_ref c) (pin_nets (nl_nets n)) unit) (definition_of defs c))
       (instances_of defs (nl_components n))"

definition empty_drawing :: "diagnostic list \<Rightarrow> drawing" where
  "empty_drawing ds = \<lparr>dr_items = [], dr_diags = ds, dr_pins = [], dr_connected = [], dr_marked = [],
     dr_conflicts = [], dr_symbols = 0, dr_wires = 0, dr_labels = 0, dr_noConnects = 0\<rparr>"

text \<open>The builder: the netlist with its references normalised, and the drawing.\<close>

definition buildGeneratedSchematic :: "netlist \<Rightarrow> definitions \<Rightarrow> netlist \<times> drawing" where
  "buildGeneratedSchematic n0 defs =
     (let (n, ds) = normalizeVirtualReferences n0 defs;
          insts = instances_of defs (nl_components n);
          positions = layoutSymbols (extents_of defs n);
          g1 = fold (draw_instance defs) (zip insts positions) (empty_drawing ds);
          g2 = fold draw_net (nl_nets n) g1
      in (n, fold draw_no_connect (nl_noConnects n) g2))"

section \<open>Layout\<close>

lemma grid_pos: "0 < mm SCHEMATIC_GRID_MM"
  by (simp add: mm_def NM_PER_MM_def SCHEMATIC_GRID_MM_def)

lemma snapUp_ge: "v \<le> snapUp v"
  using le_of_int_ceiling [of "v / mm SCHEMATIC_GRID_MM"]
  unfolding snapUp_def Let_def pos_divide_le_eq [OF grid_pos] .

definition on_grid :: "num \<Rightarrow> bool" where
  "on_grid v \<longleftrightarrow> (\<exists>k :: int. v = of_int k * mm SCHEMATIC_GRID_MM)"

lemma on_grid_snap: "on_grid (snapUp v)"
  unfolding on_grid_def snapUp_def Let_def by (rule exI, rule refl)

lemma on_grid_add: "on_grid v \<Longrightarrow> on_grid w \<Longrightarrow> on_grid (v + w)"
  unfolding on_grid_def
  by (elim exE, rule_tac x = "k + ka" in exI) (simp add: algebra_simps)

lemma on_grid_mult: "on_grid v \<Longrightarrow> on_grid (of_nat n * v)"
  unfolding on_grid_def
  by (elim exE, rule_tac x = "int n * k" in exI) (simp add: algebra_simps)

lemma max_of_ge0: "0 \<le> max_of xs"
  using fold_max_is [of xs 0] by (simp add: max_of_def)

lemma max_of_ge: "v \<in> set xs \<Longrightarrow> v \<le> max_of xs"
  using fold_max_is [of xs 0] by (simp add: max_of_def)

lemma rowY_grid: "on_grid (rowY es r)"
  by (induction r) (auto intro: on_grid_add on_grid_snap)

lemma rowY_step:
  "rowY es r + max_of (map ex_bottom (layout_row es r)) + max_of (map ex_top (layout_row es (Suc r)))
     + mm (2 * SCHEMATIC_GRID_MM) \<le> rowY es (Suc r)"
  using snapUp_ge [of "max (mm (24 * SCHEMATIC_GRID_MM)) (max_of (map ex_bottom (layout_row es r))
      + max_of (map ex_top (layout_row es (Suc r))) + mm (2 * SCHEMATIC_GRID_MM))"]
  by simp

lemma gap_pos: "0 < mm (2 * SCHEMATIC_GRID_MM)"
  by (simp add: mm_def NM_PER_MM_def SCHEMATIC_GRID_MM_def)

lemma rowY_mono: "r \<le> s \<Longrightarrow> rowY es r \<le> rowY es s"
proof (induction s rule: dec_induct)
  case (step s)
  then show ?case
    using rowY_step [of es s] max_of_ge0 [of "map ex_bottom (layout_row es s)"]
      max_of_ge0 [of "map ex_top (layout_row es (Suc s))"] gap_pos by linarith
qed simp

lemma rows_apart:
  assumes "r < s"
  shows "rowY es r + max_of (map ex_bottom (layout_row es r)) + max_of (map ex_top (layout_row es s))
     + mm (2 * SCHEMATIC_GRID_MM) \<le> rowY es s"
proof -
  obtain t where t: "s = Suc t" "r \<le> t" using assms by (cases s) auto
  show ?thesis
  proof (cases "r = t")
    case True
    then show ?thesis using rowY_step [of es r] t by simp
  next
    case False
    then have "rowY es (Suc r) \<le> rowY es t" using t by (intro rowY_mono) simp
    then show ?thesis
      using rowY_step [of es r] rowY_step [of es t] t max_of_ge0 [of "map ex_top (layout_row es (Suc r))"]
        max_of_ge0 [of "map ex_bottom (layout_row es t)"] gap_pos
      by simp
  qed
qed

lemma knowns_mem: "e \<in> set (knowns es) \<longleftrightarrow> Some e \<in> set es"
  by (force simp: knowns_def map_filter_def)

lemma row_mem:
  assumes "i < length es" and "es ! i = Some e"
  shows "e \<in> set (layout_row es (i div LAYOUT_COLUMNS))"
proof -
  let ?c = LAYOUT_COLUMNS
  have c: "0 < ?c" by (simp add: LAYOUT_COLUMNS_def)
  have b: "i div ?c * ?c \<le> length es"
    using assms(1) div_times_less_eq_dividend [of i ?c] by linarith
  have "es ! i = take ?c (drop (i div ?c * ?c) es) ! (i mod ?c)"
    using b c by simp
  moreover have "i mod ?c < length (take ?c (drop (i div ?c * ?c) es))"
    using assms(1) c by (simp add: min_def) (metis add.commute div_mult_mod_eq less_diff_conv)
  ultimately show ?thesis using assms(2) by (metis layout_row_def knowns_mem nth_mem)
qed

lemma known_mem: "i < length es \<Longrightarrow> es ! i = Some e \<Longrightarrow> e \<in> set (knowns es)"
  by (metis knowns_mem nth_mem)

lemma layout_nth:
  "i < length es \<Longrightarrow> layoutSymbols es ! i =
     pt (layout_x0 es + of_nat (i mod LAYOUT_COLUMNS) * pitchX es) (rowY es (i div LAYOUT_COLUMNS))"
  by (simp add: layoutSymbols_def)

lemma pitch_ge:
  assumes "e \<in> set (knowns es)" "f \<in> set (knowns es)"
  shows "ex_right e + ex_left f + mm (2 * SCHEMATIC_GRID_MM) \<le> pitchX es"
proof -
  have "ex_right e \<le> max_of (map ex_right (knowns es))" "ex_left f \<le> max_of (map ex_left (knowns es))"
    using assms by (auto intro!: max_of_ge)
  then show ?thesis
    using snapUp_ge [of "max (mm (28 * SCHEMATIC_GRID_MM)) (max_of (map ex_right (knowns es))
      + max_of (map ex_left (knowns es)) + mm (2 * SCHEMATIC_GRID_MM))"]
    by (simp add: pitchX_def)
qed

lemma pitch_pos: "0 < pitchX es"
proof -
  have "0 < mm (28 * SCHEMATIC_GRID_MM)" by (simp add: mm_def NM_PER_MM_def SCHEMATIC_GRID_MM_def)
  then show ?thesis
    using snapUp_ge [of "max (mm (28 * SCHEMATIC_GRID_MM)) (max_of (map ex_right (knowns es))
      + max_of (map ex_left (knowns es)) + mm (2 * SCHEMATIC_GRID_MM))"]
    by (simp add: pitchX_def)
qed

text \<open>The box a symbol reaches, around its origin.\<close>

definition apart :: "point \<Rightarrow> extent \<Rightarrow> point \<Rightarrow> extent \<Rightarrow> bool" where
  "apart p e r f \<longleftrightarrow>
     vx p + ex_right e < vx r - ex_left f \<or> vx r + ex_right f < vx p - ex_left e \<or>
     vy p + ex_bottom e < vy r - ex_top f \<or> vy r + ex_bottom f < vy p - ex_top e"

lemma apart_sym: "apart p e r f \<longleftrightarrow> apart r f p e"
  by (auto simp: apart_def)

lemma layout_apart_less:
  assumes "i < j" "j < length es" "es ! i = Some e" "es ! j = Some f"
  shows "apart (layoutSymbols es ! i) e (layoutSymbols es ! j) f"
proof -
  let ?c = LAYOUT_COLUMNS
  have l: "i < length es" using assms by simp
  have d: "i div ?c \<le> j div ?c" using assms(1) by (simp add: div_le_mono)
  show ?thesis
  proof (cases "i div ?c = j div ?c")
    case True
    then have m: "i mod ?c < j mod ?c"
      using assms(1) by (metis div_mult_mod_eq nat_add_left_cancel_less)
    then have "of_nat (i mod ?c) + 1 \<le> (of_nat (j mod ?c) :: num)"
      by (metis Suc_leI of_nat_Suc of_nat_le_iff add.commute)
    then have "(of_nat (i mod ?c) + 1) * pitchX es \<le> of_nat (j mod ?c) * pitchX es"
      using pitch_pos by (intro mult_right_mono) (simp_all add: order_less_imp_le)
    then show ?thesis
      using pitch_ge [OF known_mem [OF l assms(3)] known_mem [OF assms(2,4)]] gap_pos
      by (simp add: apart_def layout_nth l assms(2) algebra_simps)
  next
    case False
    then have "i div ?c < j div ?c" using d by simp
    from rows_apart [OF this, of es] show ?thesis
      using max_of_ge [of "ex_bottom e" "map ex_bottom (layout_row es (i div ?c))"] row_mem [OF l assms(3)]
        max_of_ge [of "ex_top f" "map ex_top (layout_row es (j div ?c))"] row_mem [OF assms(2,4)] gap_pos
      by (simp add: apart_def layout_nth l assms(2))
  qed
qed

lemma layout_apart:
  assumes "i < length es" "j < length es" "i \<noteq> j" "es ! i = Some e" "es ! j = Some f"
  shows "apart (layoutSymbols es ! i) e (layoutSymbols es ! j) f"
proof (cases "i < j")
  case True
  show ?thesis by (rule layout_apart_less [OF True assms(2,4,5)])
next
  case False
  then have "j < i" using assms(3) by simp
  from layout_apart_less [OF this assms(1,5,4)] show ?thesis by (simp only: apart_sym)
qed

text \<open>What a symbol draws around a pin: the pin, its root, and the stub with the label of its net.\<close>

definition drawn_points :: "(string, string) jmap \<Rightarrow> string \<Rightarrow> lib_pin \<Rightarrow> point list" where
  "drawn_points pinNets ref pin =
     (let d = fst (outward (lp_orientation pin)) in
      [lp_position pin, along (lp_position pin) d (- lp_length pin)]
      @ (case jget pinNets (pin_key ref (lp_number pin)) of
           None \<Rightarrow> []
         | Some net \<Rightarrow> [along (lp_position pin) d (STUB_LENGTH + labelLength net)]))"

definition drawn_box :: "(string, string) jmap \<Rightarrow> point \<Rightarrow> string \<Rightarrow> lib_pin \<Rightarrow> box" where
  "drawn_box pinNets origin ref pin = boxFromPoints (map (vecAdd origin) (drawn_points pinNets ref pin))"

definition covers :: "extent \<Rightarrow> point \<Rightarrow> bool" where
  "covers e p \<longleftrightarrow> - ex_left e \<le> vx p \<and> vx p \<le> ex_right e \<and> - ex_top e \<le> vy p \<and> vy p \<le> ex_bottom e"

lemma covers_include: "covers (include_point p e) p" "covers e r \<Longrightarrow> covers (include_point p e) r"
  by (auto simp: covers_def include_point_def)

lemma covers_child: "covers e r \<Longrightarrow> covers (include_child ref pn unit ch e) r"
  by (simp add: include_child_def Let_def covers_include split: option.split)

lemma covers_fold: "covers e r \<Longrightarrow> covers (fold (include_child ref pn unit) chs e) r"
  by (induction chs arbitrary: e) (simp_all add: covers_child)

lemma covers_own:
  assumes "of_unit unit ch" "ch_pin ch = Some pin" "r \<in> set (drawn_points pn ref pin)"
  shows "covers (include_child ref pn unit ch e) r"
  using assms by (auto simp: include_child_def drawn_points_def Let_def covers_include split: option.splits)

lemma extent_covers:
  assumes "ch \<in> set (sy_children d)" "of_unit unit ch" "ch_pin ch = Some pin"
    and "r \<in> set (drawn_points pn ref pin)"
  shows "covers (symbolExtent d ref pn unit) r"
proof -
  obtain xs ys where c: "sy_children d = xs @ ch # ys" using assms(1) by (meson split_list)
  show ?thesis unfolding symbolExtent_def Let_def c
    using covers_own [OF assms(2-4)] by (simp add: covers_fold)
qed

lemma box_within:
  assumes "ps \<noteq> []" and "\<And>p. p \<in> set ps \<Longrightarrow> x0 \<le> vx p \<and> vx p \<le> x1 \<and> y0 \<le> vy p \<and> vy p \<le> y1"
  shows "x0 \<le> bx (boxFromPoints ps) \<and> bx (boxFromPoints ps) + bw (boxFromPoints ps) \<le> x1 \<and>
    y0 \<le> by' (boxFromPoints ps) \<and> by' (boxFromPoints ps) + bh (boxFromPoints ps) \<le> y1"
proof -
  obtain p rs where ps: "ps = p # rs" using assms(1) by (cases ps) auto
  have "x0 \<le> Min (set (map vx ps))" "Max (set (map vx ps)) \<le> x1"
    "y0 \<le> Min (set (map vy ps))" "Max (set (map vy ps)) \<le> y1"
    using assms(2) ps by (auto intro!: Min.boundedI Max.boundedI)
  then show ?thesis unfolding ps boxFromPoints_is Let_def by simp
qed

lemma drawn_within:
  assumes "ch \<in> set (sy_children d)" "of_unit unit ch" "ch_pin ch = Some pin"
  shows "let e = symbolExtent d ref pn unit; b = drawn_box pn o' ref pin in
    vx o' - ex_left e \<le> bx b \<and> bx b + bw b \<le> vx o' + ex_right e \<and>
    vy o' - ex_top e \<le> by' b \<and> by' b + bh b \<le> vy o' + ex_bottom e"
proof -
  have "vx o' - ex_left (symbolExtent d ref pn unit) \<le> vx p \<and> vx p \<le> vx o' + ex_right (symbolExtent d ref pn unit) \<and>
    vy o' - ex_top (symbolExtent d ref pn unit) \<le> vy p \<and> vy p \<le> vy o' + ex_bottom (symbolExtent d ref pn unit)"
    if "p \<in> set (map (vecAdd o') (drawn_points pn ref pin))" for p
    using that extent_covers [OF assms, of _ pn ref] by (auto simp: covers_def)
  then show ?thesis unfolding drawn_box_def Let_def
    by (intro box_within) (auto simp: drawn_points_def Let_def)
qed

text \<open>
  C33: in the generated schematic two symbols never touch: the box around a pin of one, its root, its
  stub and the label at its end, and the box around a pin of another share no point, whatever
  library symbols, pin positions and net names there are; and every symbol sits on the grid.
\<close>

theorem symbols_never_meet:
  assumes "i < length (instances_of defs (nl_components n))"
    "instances_of defs (nl_components n) ! i = (c, u)" "definition_of defs c = Some d"
    and "ch \<in> set (sy_children d)" "of_unit u ch" "ch_pin ch = Some pin"
    and "j < length (instances_of defs (nl_components n))"
    "instances_of defs (nl_components n) ! j = (c', u')" "definition_of defs c' = Some d'"
    and "ch' \<in> set (sy_children d')" "of_unit u' ch'" "ch_pin ch' = Some pin'"
    and "i \<noteq> j"
  shows "\<not> boxIntersects
      (drawn_box (pin_nets (nl_nets n)) (layoutSymbols (extents_of defs n) ! i) (nc_ref c) pin)
      (drawn_box (pin_nets (nl_nets n)) (layoutSymbols (extents_of defs n) ! j) (nc_ref c') pin')
    \<and> on_grid (vx (layoutSymbols (extents_of defs n) ! i))
    \<and> on_grid (vy (layoutSymbols (extents_of defs n) ! i))"
proof -
  let ?insts = "instances_of defs (nl_components n)"
  let ?pos = "layoutSymbols (extents_of defs n)"
  let ?pn = "pin_nets (nl_nets n)"
  let ?es = "extents_of defs n"
  have l: "length ?es = length ?insts" by (simp add: extents_of_def)
  have e: "?es ! i = Some (symbolExtent d (nc_ref c) ?pn u)" "?es ! j = Some (symbolExtent d' (nc_ref c') ?pn u')"
    using assms(1-3,7-9) by (simp_all add: extents_of_def)
  have ij: "i < length ?es" "j < length ?es" using assms(1,7) l by simp_all
  have "apart (?pos ! i) (symbolExtent d (nc_ref c) ?pn u) (?pos ! j) (symbolExtent d' (nc_ref c') ?pn u')"
    by (rule layout_apart [OF ij assms(13) e])
  then have "\<not> boxIntersects (drawn_box ?pn (?pos ! i) (nc_ref c) pin) (drawn_box ?pn (?pos ! j) (nc_ref c') pin')"
    using drawn_within [OF assms(4-6), of "nc_ref c" ?pn "?pos ! i"]
      drawn_within [OF assms(10-12), of "nc_ref c'" ?pn "?pos ! j"]
    unfolding apart_def boxIntersects_def Let_def by linarith
  moreover have "on_grid (vx (?pos ! i))" "on_grid (vy (?pos ! i))"
    using ij(1)
    by (simp_all add: layout_nth rowY_grid layout_x0_def pitchX_def on_grid_add on_grid_mult on_grid_snap)
  ultimately show ?thesis by blast
qed

section \<open>What is drawn\<close>

fun symbol_count :: "sch_item list \<Rightarrow> nat \<times> nat \<times> nat \<times> nat" where
  "symbol_count [] = (0, 0, 0, 0)"
| "symbol_count (x # xs) = (let (s, w, l, k) = symbol_count xs in
     case x of SymbolItem _ \<Rightarrow> (Suc s, w, l, k) | WireItem _ _ \<Rightarrow> (s, Suc w, l, k)
     | LabelItem _ _ _ \<Rightarrow> (s, w, Suc l, k) | NoConnectItem _ \<Rightarrow> (s, w, l, Suc k))"

lemma symbol_count_snoc:
  "symbol_count (xs @ [x]) = (let (s, w, l, k) = symbol_count xs in
     case x of SymbolItem _ \<Rightarrow> (Suc s, w, l, k) | WireItem _ _ \<Rightarrow> (s, Suc w, l, k)
     | LabelItem _ _ _ \<Rightarrow> (s, w, Suc l, k) | NoConnectItem _ \<Rightarrow> (s, w, l, Suc k))"
  by (induction xs) (auto simp: Let_def split: prod.split sch_item.split)

text \<open>The pins of a net, and what is drawn for one of them.\<close>

definition node_placed :: "pin_map \<Rightarrow> netlist_node \<Rightarrow> placed_pin list" where
  "node_placed pins node = pins_at pins (pin_key (nn_ref node) (nn_pin node))"

definition label_of :: "string \<Rightarrow> placed_pin \<Rightarrow> sch_item" where
  "label_of net p = (let (tip, spin) = labelledStub p in LabelItem tip net spin)"

definition wire_of :: "placed_pin \<Rightarrow> sch_item" where
  "wire_of p = WireItem (pp_position p) (fst (labelledStub p))"

definition stub_items :: "string \<Rightarrow> placed_pin list \<Rightarrow> sch_item list" where
  "stub_items net ps = concat (map (\<lambda>p. [wire_of p, label_of net p]) ps)"

lemma draw_pins_items:
  "dr_items (fold (draw_pin net) ps g) = dr_items g @ stub_items net ps"
  "dr_pins (fold (draw_pin net) ps g) = dr_pins g"
  "dr_diags (fold (draw_pin net) ps g) = dr_diags g"
  "dr_marked (fold (draw_pin net) ps g) = dr_marked g"
  "set (dr_connected (fold (draw_pin net) ps g)) = set (dr_connected g) \<union> pp_position ` set ps"
  by (induction ps arbitrary: g)
     (auto simp: draw_pin_def stub_items_def wire_of_def label_of_def split_beta Let_def)

definition net_stubs :: "pin_map \<Rightarrow> netlist_net \<Rightarrow> sch_item list" where
  "net_stubs pins net = concat (map (\<lambda>node. stub_items (nt_name net) (node_placed pins node)) (nt_nodes net))"

definition net_positions :: "pin_map \<Rightarrow> netlist_net \<Rightarrow> point set" where
  "net_positions pins net = (\<Union>node \<in> set (nt_nodes net). pp_position ` set (node_placed pins node))"

definition all_drawn :: "pin_map \<Rightarrow> netlist_node list \<Rightarrow> bool" where
  "all_drawn pins nodes \<longleftrightarrow> list_all (\<lambda>node. node_placed pins node \<noteq> []) nodes"

lemma draw_node_effect:
  "dr_items (draw_node net node g) = dr_items g @ stub_items net (node_placed (dr_pins g) node)"
  "dr_pins (draw_node net node g) = dr_pins g"
  "dr_marked (draw_node net node g) = dr_marked g"
  "set (dr_connected (draw_node net node g)) = set (dr_connected g) \<union> pp_position ` set (node_placed (dr_pins g) node)"
  "hasErrors (dr_diags (draw_node net node g)) \<longleftrightarrow> hasErrors (dr_diags g) \<or> node_placed (dr_pins g) node = []"
  by (simp_all add: draw_node_def Let_def node_placed_def say_def draw_pins_items)
     (simp_all add: stub_items_def)

lemma draw_nodes_effect:
  "dr_items (fold (draw_node net) nodes g)
     = dr_items g @ concat (map (\<lambda>node. stub_items net (node_placed (dr_pins g) node)) nodes)"
  "dr_pins (fold (draw_node net) nodes g) = dr_pins g"
  "dr_marked (fold (draw_node net) nodes g) = dr_marked g"
  "set (dr_connected (fold (draw_node net) nodes g))
     = set (dr_connected g) \<union> (\<Union>node \<in> set nodes. pp_position ` set (node_placed (dr_pins g) node))"
  "hasErrors (dr_diags (fold (draw_node net) nodes g)) \<longleftrightarrow>
     hasErrors (dr_diags g) \<or> \<not> all_drawn (dr_pins g) nodes"
  by (induction nodes arbitrary: g) (auto simp: draw_node_effect all_drawn_def)

lemma draw_nets_effect:
  "dr_items (fold draw_net nets g) = dr_items g @ concat (map (net_stubs (dr_pins g)) nets)"
  "dr_pins (fold draw_net nets g) = dr_pins g"
  "dr_marked (fold draw_net nets g) = dr_marked g"
  "set (dr_connected (fold draw_net nets g)) = set (dr_connected g) \<union> (\<Union>net \<in> set nets. net_positions (dr_pins g) net)"
  "hasErrors (dr_diags (fold draw_net nets g)) \<longleftrightarrow>
     hasErrors (dr_diags g) \<or> \<not> list_all (\<lambda>net. all_drawn (dr_pins g) (nt_nodes net)) nets"
  by (induction nets arbitrary: g)
     (auto simp: draw_net_def draw_nodes_effect net_stubs_def net_positions_def)

lemma draw_instances_effect:
  "dr_connected (fold (draw_instance defs) insts g) = dr_connected g"
  "dr_marked (fold (draw_instance defs) insts g) = dr_marked g"
proof -
  have "dr_connected (draw_instance defs i h) = dr_connected h"
    "dr_marked (draw_instance defs i h) = dr_marked h" for i h
    by (simp_all add: draw_instance_def Let_def say_def split: prod.split option.split)
  then show "dr_connected (fold (draw_instance defs) insts g) = dr_connected g"
    and "dr_marked (fold (draw_instance defs) insts g) = dr_marked g"
    by (induction insts arbitrary: g) simp_all
qed

text \<open>Marking pins as not connected.\<close>

definition marks :: "drawing \<Rightarrow> point list" where
  "marks g = List.map_filter (\<lambda>x. case x of NoConnectItem p \<Rightarrow> Some p | _ \<Rightarrow> None) (dr_items g)"

definition marks_ok :: "drawing \<Rightarrow> bool" where
  "marks_ok g \<longleftrightarrow> marks g = dr_marked g \<and> distinct (marks g) \<and> set (marks g) \<inter> set (dr_connected g) = {}"

lemma marks_snoc [simp]:
  "marks (g\<lparr>dr_items := dr_items g @ xs\<rparr>)
     = marks g @ List.map_filter (\<lambda>x. case x of NoConnectItem p \<Rightarrow> Some p | _ \<Rightarrow> None) xs"
  by (simp add: marks_def map_filter_def)

lemma mark_pin_effect:
  assumes "marks_ok g"
  shows "marks_ok (mark_pin x p g)"
    and "dr_connected (mark_pin x p g) = dr_connected g" "dr_pins (mark_pin x p g) = dr_pins g"
    and "\<exists>ps. dr_items (mark_pin x p g) = dr_items g @ map NoConnectItem ps"
    and "set (dr_marked g) \<subseteq> set (dr_marked (mark_pin x p g))"
    and "hasErrors (dr_diags g) \<Longrightarrow> hasErrors (dr_diags (mark_pin x p g))"
    and "dr_conflicts g = [] \<or> hasErrors (dr_diags g) \<Longrightarrow>
      dr_conflicts (mark_pin x p g) = [] \<or> hasErrors (dr_diags (mark_pin x p g))"
    and "dr_conflicts g = [] \<or> hasErrors (dr_diags g) \<Longrightarrow> \<not> hasErrors (dr_diags (mark_pin x p g)) \<Longrightarrow>
      pp_position p \<in> set (dr_marked (mark_pin x p g))"
  using assms
  by (auto simp: mark_pin_def marks_ok_def say_def marks_def map_filter_def sadd_def
      intro: exI [of _ "[]"] exI [of _ "[pp_position p]"])

definition no_conflict :: "drawing \<Rightarrow> bool" where
  "no_conflict g \<longleftrightarrow> dr_conflicts g = [] \<or> hasErrors (dr_diags g)"

lemma marks_only: "List.map_filter (\<lambda>x. case x of NoConnectItem p \<Rightarrow> Some p | _ \<Rightarrow> None) (map NoConnectItem ps) = ps"
  by (induction ps) (simp_all add: map_filter_def)

lemma mark_pins_effect:
  assumes "marks_ok g" "no_conflict g"
  shows "marks_ok (fold (mark_pin x) ps g) \<and> no_conflict (fold (mark_pin x) ps g) \<and>
    dr_connected (fold (mark_pin x) ps g) = dr_connected g \<and> dr_pins (fold (mark_pin x) ps g) = dr_pins g \<and>
    (\<exists>ms. dr_items (fold (mark_pin x) ps g) = dr_items g @ map NoConnectItem ms) \<and>
    set (dr_marked g) \<subseteq> set (dr_marked (fold (mark_pin x) ps g)) \<and>
    (hasErrors (dr_diags g) \<longrightarrow> hasErrors (dr_diags (fold (mark_pin x) ps g))) \<and>
    (\<not> hasErrors (dr_diags (fold (mark_pin x) ps g)) \<longrightarrow>
       pp_position ` set ps \<subseteq> set (dr_marked (fold (mark_pin x) ps g)))"
  using assms
proof (induction ps arbitrary: g)
  case (Cons p ps)
  note m = mark_pin_effect [OF Cons.prems(1), of x p]
  have c: "no_conflict (mark_pin x p g)" using m(7) Cons.prems(2) by (simp add: no_conflict_def)
  note ih = Cons.IH [OF m(1) c]
  obtain ms where ms: "dr_items (mark_pin x p g) = dr_items g @ map NoConnectItem ms" using m(4) by blast
  obtain ks where ks: "dr_items (fold (mark_pin x) ps (mark_pin x p g)) = dr_items (mark_pin x p g) @ map NoConnectItem ks"
    using ih by blast
  have "\<exists>ms. dr_items (fold (mark_pin x) (p # ps) g) = dr_items g @ map NoConnectItem ms"
    using ms ks by (intro exI [of _ "ms @ ks"]) simp
  moreover have "\<not> hasErrors (dr_diags (fold (mark_pin x) ps (mark_pin x p g))) \<Longrightarrow>
      pp_position p \<in> set (dr_marked (fold (mark_pin x) ps (mark_pin x p g)))"
    using ih m(8) Cons.prems(2) by (auto simp: no_conflict_def)
  ultimately show ?case using ih m(2,3,5,6) by auto
qed (auto intro: exI [of _ "[]"])

definition connect_placed :: "pin_map \<Rightarrow> no_connect \<Rightarrow> placed_pin list" where
  "connect_placed pins x = pins_at pins (pin_key (nx_ref x) (nx_pin x))"

lemma no_connects_effect:
  assumes "marks_ok g" "no_conflict g"
  shows "marks_ok (fold draw_no_connect xs g) \<and> no_conflict (fold draw_no_connect xs g) \<and>
    dr_connected (fold draw_no_connect xs g) = dr_connected g \<and> dr_pins (fold draw_no_connect xs g) = dr_pins g \<and>
    (\<exists>ms. dr_items (fold draw_no_connect xs g) = dr_items g @ map NoConnectItem ms) \<and>
    set (dr_marked g) \<subseteq> set (dr_marked (fold draw_no_connect xs g)) \<and>
    (hasErrors (dr_diags g) \<longrightarrow> hasErrors (dr_diags (fold draw_no_connect xs g))) \<and>
    (\<not> hasErrors (dr_diags (fold draw_no_connect xs g)) \<longrightarrow>
       list_all (\<lambda>x. connect_placed (dr_pins g) x \<noteq> [] \<and>
         pp_position ` set (connect_placed (dr_pins g) x) \<subseteq> set (dr_marked (fold draw_no_connect xs g))) xs)"
  using assms
proof (induction xs arbitrary: g)
  case (Cons x xs)
  let ?h = "draw_no_connect x g" and ?ps = "connect_placed (dr_pins g) x"
  have h: "marks_ok ?h \<and> no_conflict ?h \<and> dr_connected ?h = dr_connected g \<and> dr_pins ?h = dr_pins g \<and>
    (\<exists>ms. dr_items ?h = dr_items g @ map NoConnectItem ms) \<and> set (dr_marked g) \<subseteq> set (dr_marked ?h) \<and>
    (hasErrors (dr_diags g) \<longrightarrow> hasErrors (dr_diags ?h)) \<and>
    (\<not> hasErrors (dr_diags ?h) \<longrightarrow> ?ps \<noteq> [] \<and> pp_position ` set ?ps \<subseteq> set (dr_marked ?h))"
  proof (cases "?ps = []")
    case True
    then have "?h = say (nx_ref x @ '' pin '' @ nx_pin x
              @ '' could not be marked no-connect because the symbol or pin is unavailable.'')
            ''unknown_no_connect_pin'' g" by (simp add: draw_no_connect_def connect_placed_def)
    then show ?thesis using Cons.prems
      by (auto simp: say_def marks_ok_def marks_def no_conflict_def intro: exI [of _ "[]"])
  next
    case False
    then have "?h = fold (mark_pin x) ?ps g" by (simp add: draw_no_connect_def connect_placed_def Let_def)
    then show ?thesis using mark_pins_effect [OF Cons.prems, of x ?ps] False by simp
  qed
  note ih = Cons.IH [OF conjunct1 [OF h] conjunct1 [OF conjunct2 [OF h]]]
  obtain ms where ms: "dr_items ?h = dr_items g @ map NoConnectItem ms" using h by blast
  obtain ks where ks: "dr_items (fold draw_no_connect xs ?h) = dr_items ?h @ map NoConnectItem ks"
    using ih by blast
  have i: "\<exists>ms. dr_items (fold draw_no_connect (x # xs) g) = dr_items g @ map NoConnectItem ms"
    using ms ks by (intro exI [of _ "ms @ ks"]) simp
  have p: "dr_pins ?h = dr_pins g" using h by blast
  have "\<not> hasErrors (dr_diags (fold draw_no_connect xs ?h)) \<Longrightarrow>
      ?ps \<noteq> [] \<and> pp_position ` set ?ps \<subseteq> set (dr_marked (fold draw_no_connect xs ?h))"
    using h ih by (meson order_trans)
  then show ?case using ih h i unfolding p by (simp del: fold_simps add: fold_simps(2)) blast
qed (auto intro: exI [of _ "[]"])

text \<open>The loop over the symbols draws symbols only, and reports those it cannot draw.\<close>

definition is_symbol :: "sch_item \<Rightarrow> bool" where
  "is_symbol x = (case x of SymbolItem _ \<Rightarrow> True | _ \<Rightarrow> False)"

lemma draw_instances_items:
  "filter (\<lambda>x. \<not> is_symbol x) (dr_items (fold (draw_instance defs) insts g)) = filter (\<lambda>x. \<not> is_symbol x) (dr_items g)"
  "dr_conflicts (fold (draw_instance defs) insts g) = dr_conflicts g"
  "hasErrors (dr_diags g) \<or> \<not> list_all (\<lambda>((c, u), pos). definition_of defs c \<noteq> None) insts \<Longrightarrow>
     hasErrors (dr_diags (fold (draw_instance defs) insts g))"
proof -
  have d: "filter (\<lambda>x. \<not> is_symbol x) (dr_items (draw_instance defs i h)) = filter (\<lambda>x. \<not> is_symbol x) (dr_items h)"
    "dr_conflicts (draw_instance defs i h) = dr_conflicts h"
    "hasErrors (dr_diags h) \<or> definition_of defs (fst (fst i)) = None \<Longrightarrow> hasErrors (dr_diags (draw_instance defs i h))"
    for i h
    by (auto simp: draw_instance_def Let_def say_def is_symbol_def definition_of_def split: prod.split option.splits)
  show "filter (\<lambda>x. \<not> is_symbol x) (dr_items (fold (draw_instance defs) insts g)) = filter (\<lambda>x. \<not> is_symbol x) (dr_items g)"
    and "dr_conflicts (fold (draw_instance defs) insts g) = dr_conflicts g"
    by (induction insts arbitrary: g) (simp_all add: d)
  show "hasErrors (dr_diags g) \<or> \<not> list_all (\<lambda>((c, u), pos). definition_of defs c \<noteq> None) insts \<Longrightarrow>
     hasErrors (dr_diags (fold (draw_instance defs) insts g))"
  proof (induction insts arbitrary: g)
    case (Cons i insts)
    show ?case
    proof (cases "hasErrors (dr_diags g) \<or> definition_of defs (fst (fst i)) = None")
      case True
      then show ?thesis using Cons.IH [of "draw_instance defs i g"] d(3) [of g i] by simp
    next
      case False
      then have "\<not> list_all (\<lambda>((c, u), pos). definition_of defs c \<noteq> None) insts"
        using Cons.prems by (auto simp: list_all_iff)
      then show ?thesis using Cons.IH [of "draw_instance defs i g"] by simp
    qed
  qed simp
qed

lemma stub_items_plain:
  "filter (\<lambda>x. \<not> is_symbol x) (stub_items net ps) = stub_items net ps"
  "List.map_filter (\<lambda>x. case x of NoConnectItem p \<Rightarrow> Some p | _ \<Rightarrow> None) (stub_items net ps) = []"
  by (induction ps) (simp_all add: stub_items_def is_symbol_def wire_of_def label_of_def map_filter_def split_beta Let_def)

lemma net_stubs_plain:
  "filter (\<lambda>x. \<not> is_symbol x) (concat (map (net_stubs pins) nets)) = concat (map (net_stubs pins) nets)"
proof -
  have "filter (\<lambda>x. \<not> is_symbol x) (net_stubs pins net) = net_stubs pins net" for net
    by (simp add: net_stubs_def filter_concat o_def stub_items_plain)
  then show ?thesis by (simp add: filter_concat o_def)
qed

lemma instances_cover:
  assumes "list_all (\<lambda>((c, u), pos). P c) (zip (instances_of defs cs) (layoutSymbols (extents_of defs n)))"
    and "length (layoutSymbols (extents_of defs n)) = length (instances_of defs cs)"
  shows "list_all P cs"
proof -
  have "P (fst x)" if "x \<in> set (instances_of defs cs)" for x
  proof -
    have "\<exists>i < length (instances_of defs cs). instances_of defs cs ! i = x"
      using that by (simp only: in_set_conv_nth)
    then obtain i where i: "i < length (instances_of defs cs)" "instances_of defs cs ! i = x" by blast
    from i have "(x, layoutSymbols (extents_of defs n) ! i)
        \<in> set (zip (instances_of defs cs) (layoutSymbols (extents_of defs n)))"
      using assms(2) by (auto simp: set_zip)
    then show ?thesis using assms(1) by (auto simp: list_all_iff)
  qed
  moreover have "(c, 1) \<in> set (instances_of defs cs)" if "c \<in> set cs" for c
    using that by (auto simp: instances_of_def intro!: bexI [of _ c] image_eqI [of _ _ 0])
  ultimately show ?thesis by (force simp: list_all_iff)
qed

lemma draw_nets_conflicts: "dr_conflicts (fold draw_net nets h) = dr_conflicts h"
proof -
  have "dr_conflicts (fold (draw_pin net) ps h) = dr_conflicts h" for net ps h
    by (induction ps arbitrary: h) (simp_all add: draw_pin_def Let_def split_beta)
  then have "dr_conflicts (draw_node net node h) = dr_conflicts h" for net node h
    by (simp add: draw_node_def Let_def say_def)
  then have "dr_conflicts (fold (draw_node net) nodes h) = dr_conflicts h" for net nodes h
    by (induction nodes arbitrary: h) simp_all
  then have "dr_conflicts (draw_net net h) = dr_conflicts h" for net h by (simp add: draw_net_def)
  then show ?thesis by (induction nets arbitrary: h) simp_all
qed

lemma stubs_hold_no_mark:
  assumes "filter (\<lambda>x. \<not> is_symbol x) (dr_items g) = concat (map (net_stubs pins) nets)"
  shows "marks g = []"
proof -
  have "p \<notin> set (marks g)" for p
  proof
    assume "p \<in> set (marks g)"
    then have "NoConnectItem p \<in> set (filter (\<lambda>x. \<not> is_symbol x) (dr_items g))"
      by (auto simp: marks_def map_filter_def is_symbol_def split: sch_item.splits)
    then show False unfolding assms
      by (auto simp: net_stubs_def stub_items_def wire_of_def label_of_def split_beta Let_def)
  qed
  then show ?thesis by (cases "marks g") auto
qed


section \<open>Normalised references\<close>

lemma free_index_free: "e @ digits (free_index used e i) \<notin> set used"
  by (induction used e i rule: free_index.induct) (subst free_index.simps, simp)

lemma rename_spec:
  assumes "set (map nc_ref cs) \<subseteq> set used" "distinct (map nc_ref cs)"
    and "\<And>r. r \<in> set (map nc_ref cs) \<Longrightarrow> jget renames r = None"
  shows "map nc_ref (fst (rename_components defs used renames cs))
      = map (new_name (fst (snd (rename_components defs used renames cs))) \<circ> nc_ref) cs \<and>
    (\<forall>r. r \<notin> set (map nc_ref cs) \<longrightarrow> jget (fst (snd (rename_components defs used renames cs))) r = jget renames r) \<and>
    distinct (map nc_ref (fst (rename_components defs used renames cs))) \<and>
    set (map nc_ref (fst (rename_components defs used renames cs))) \<inter> set used \<subseteq> set (map nc_ref cs) \<and>
    list_all2 (\<lambda>c c'. c' = c \<and> \<not> needs_rename defs c \<or>
       needs_rename defs c \<and> (\<exists>k. c' = c\<lparr>nc_ref := referenceClass (symbol_reference defs c) @ digits k\<rparr>))
      cs (fst (rename_components defs used renames cs))"
  using assms
proof (induction defs used renames cs rule: rename_components.induct)
  case (2 defs used renames c cs)
  show ?case
  proof (cases "needs_rename defs c")
    case False
    let ?r = "rename_components defs used renames cs"
    have pre: "set (map nc_ref cs) \<subseteq> set used" "distinct (map nc_ref cs)" using 2(3,4) by simp_all
    have free: "jget renames r = None" if "r \<in> set (map nc_ref cs)" for r using 2(5) that by simp
    note ih0 = 2(1) [OF False pre free]
    note ih = ih0 [THEN conjunct1]
      ih0 [THEN conjunct2, THEN conjunct1] ih0 [THEN conjunct2, THEN conjunct2, THEN conjunct1]
      ih0 [THEN conjunct2, THEN conjunct2, THEN conjunct2, THEN conjunct1]
      ih0 [THEN conjunct2, THEN conjunct2, THEN conjunct2, THEN conjunct2]
    have "jget (fst (snd ?r)) (nc_ref c) = None" using ih(2) 2(4,5) by simp
    then have "new_name (fst (snd ?r)) (nc_ref c) = nc_ref c" by (simp add: new_name_def)
    moreover have "nc_ref c \<notin> set (map nc_ref (fst ?r))" using ih(4) 2(3,4) by auto
    moreover have "rename_components defs used renames (c # cs) = (c # fst ?r, snd ?r)"
      using False by (simp add: split_beta)
    ultimately have nn: "new_name (fst (snd ?r)) (nc_ref c) = nc_ref c" "nc_ref c \<notin> set (map nc_ref (fst ?r))"
      and eq: "rename_components defs used renames (c # cs) = (c # fst ?r, snd ?r)" by blast+
    show ?thesis unfolding eq fst_conv snd_conv
    proof (intro conjI)
      show "map nc_ref (c # fst ?r) = map (new_name (fst (snd ?r)) \<circ> nc_ref) (c # cs)" using ih(1) nn(1) by simp
      show "distinct (map nc_ref (c # fst ?r))" using ih(3) nn(2) by simp
      show "set (map nc_ref (c # fst ?r)) \<inter> set used \<subseteq> set (map nc_ref (c # cs))" using ih(4) by auto
    qed (use ih(2,5) False in simp_all)
  next
    case True
    let ?n = "next_reference defs used c"
    let ?r = "rename_components defs (sadd ?n used) (jput (nc_ref c) ?n renames) cs"
    have fresh: "?n \<notin> set used" by (simp add: next_reference_def Let_def free_index_free)
    have pre: "set (map nc_ref cs) \<subseteq> set (sadd ?n used)" "distinct (map nc_ref cs)" using 2(3,4) by auto
    have free: "jget (jput (nc_ref c) ?n renames) r = None" if "r \<in> set (map nc_ref cs)" for r
    proof -
      have "nc_ref c \<notin> set (map nc_ref cs)" using 2(4) by simp
      then have "r \<noteq> nc_ref c" using that by metis
      then show ?thesis using 2(5) [of r] that by simp
    qed
    have needed: "\<not> \<not> needs_rename defs c" using True by simp
    note ih0 = 2(2) [OF needed refl pre free]
    note ih = ih0 [THEN conjunct1]
      ih0 [THEN conjunct2, THEN conjunct1] ih0 [THEN conjunct2, THEN conjunct2, THEN conjunct1]
      ih0 [THEN conjunct2, THEN conjunct2, THEN conjunct2, THEN conjunct1]
      ih0 [THEN conjunct2, THEN conjunct2, THEN conjunct2, THEN conjunct2]
    have "jget (fst (snd ?r)) (nc_ref c) = Some ?n" using ih(2) 2(4) by simp
    then have "new_name (fst (snd ?r)) (nc_ref c) = ?n" by (simp add: new_name_def)
    moreover have "?n \<notin> set (map nc_ref (fst ?r))" using ih(4) fresh 2(3) by auto
    moreover have "\<exists>k. ?n = referenceClass (symbol_reference defs c) @ digits k"
      by (auto simp: next_reference_def Let_def)
    moreover have "rename_components defs used renames (c # cs) = (c\<lparr>nc_ref := ?n\<rparr> # fst ?r,
          fst (snd ?r), renamed_diag defs c ?n # snd (snd ?r))"
      using True by (simp add: split_beta Let_def)
    ultimately have nn: "new_name (fst (snd ?r)) (nc_ref c) = ?n" "?n \<notin> set (map nc_ref (fst ?r))"
      "\<exists>k. ?n = referenceClass (symbol_reference defs c) @ digits k"
      and eq: "rename_components defs used renames (c # cs) = (c\<lparr>nc_ref := ?n\<rparr> # fst ?r,
          fst (snd ?r), renamed_diag defs c ?n # snd (snd ?r))" by blast+
    show ?thesis unfolding eq fst_conv snd_conv
    proof (intro conjI)
      show "map nc_ref (c\<lparr>nc_ref := ?n\<rparr> # fst ?r) = map (new_name (fst (snd ?r)) \<circ> nc_ref) (c # cs)"
        using ih(1) nn(1) by simp
      show "distinct (map nc_ref (c\<lparr>nc_ref := ?n\<rparr> # fst ?r))" using ih(3) nn(2) by simp
      show "set (map nc_ref (c\<lparr>nc_ref := ?n\<rparr> # fst ?r)) \<inter> set used \<subseteq> set (map nc_ref (c # cs))"
        using ih(4) fresh by auto
      show "\<forall>r. r \<notin> set (map nc_ref (c # cs)) \<longrightarrow> jget (fst (snd ?r)) r = jget renames r" using ih(2) by simp
    qed (use ih(5) nn(3) True in auto)
  qed
qed simp

text \<open>
  Normalising the references of power symbols keeps the netlist what it is: for components with
  references of their own the new references are again pairwise different, each is the old one or,
  for a power symbol, its declared class with a number, and every node and declaration that named a
  component names the same component afterwards.
\<close>

theorem normalized_same_netlist:
  assumes "distinct (refs_of n)"
  shows "case normalizeVirtualReferences n defs of (n', ds) \<Rightarrow>
    distinct (refs_of n') \<and>
    list_all2 (\<lambda>c c'. c' = c \<and> \<not> needs_rename defs c \<or>
       needs_rename defs c \<and> (\<exists>k. c' = c\<lparr>nc_ref := referenceClass (symbol_reference defs c) @ digits k\<rparr>))
      (nl_components n) (nl_components n') \<and>
    (\<exists>f. refs_of n' = map f (refs_of n) \<and> (\<forall>r. r \<notin> set (refs_of n) \<longrightarrow> f r = r) \<and>
      map nt_name (nl_nets n') = map nt_name (nl_nets n) \<and>
      map (\<lambda>net. map (\<lambda>x. (nn_ref x, nn_pin x)) (nt_nodes net)) (nl_nets n')
        = map (\<lambda>net. map (\<lambda>x. (f (nn_ref x), nn_pin x)) (nt_nodes net)) (nl_nets n) \<and>
      map (\<lambda>x. (nx_ref x, nx_pin x)) (nl_noConnects n')
        = map (\<lambda>x. (f (nx_ref x), nx_pin x)) (nl_noConnects n))"
proof -
  let ?used = "fold sadd (map nc_ref (nl_components n)) []"
  let ?r = "rename_components defs ?used [] (nl_components n)"
  let ?f = "new_name (fst (snd ?r))"
  have s: "set (map nc_ref (nl_components n)) \<subseteq> set ?used" by simp
  note spec = rename_spec [OF s assms [unfolded refs_of_def], of "[]" defs]
  have u: "\<forall>r. r \<notin> set (refs_of n) \<longrightarrow> ?f r = r"
    using spec by (simp add: refs_of_def new_name_def)
  have "map nc_ref (fst ?r) = map ?f (refs_of n)" using spec by (simp add: refs_of_def)
  then show ?thesis using spec u
    by (intro exI [of _ ?f] | simp add: normalizeVirtualReferences_def split_beta Let_def refs_of_def)+
qed

section \<open>What is replaced on the sheet\<close>

text \<open>
  The items of the root sheet as \<open>generateSchematic\<close> looks at them: wires with their end, global
  labels with their place and whether they carry the marker field, and others.
\<close>

datatype sheet_shape = SheetWire point | SheetLabel point bool | SheetOther

record sheet_item =
  si_id :: string
  si_marked :: bool
  si_shape :: sheet_shape

definition isGeneratedLabel :: "sheet_item \<Rightarrow> bool" where
  "isGeneratedLabel x = (case si_shape x of SheetLabel p marker \<Rightarrow> marker | _ \<Rightarrow> False)"

definition generatedWireEnds :: "sheet_item list \<Rightarrow> point list" where
  "generatedWireEnds items = List.map_filter
     (\<lambda>x. case si_shape x of SheetWire p \<Rightarrow> if si_marked x then Some p else None | _ \<Rightarrow> None) items"

definition oldIds :: "sheet_item list \<Rightarrow> string list" where
  "oldIds items =
     filter (\<lambda>k. k \<noteq> []) (map si_id (filter (\<lambda>x. si_marked x \<or> isGeneratedLabel x \<or>
       (case si_shape x of SheetLabel p marker \<Rightarrow> p \<in> set (generatedWireEnds items) | _ \<Rightarrow> False)) items))"

text \<open>\<open>generatedNetMerges\<close>: driver conflicts between two generated labels.\<close>

record erc_marker =
  em_excluded :: bool
  em_driverConflict :: bool
  em_items :: "string list"
  em_description :: string

definition generatedNetMerges :: "sheet_item list \<Rightarrow> erc_marker list \<Rightarrow> string list" where
  "generatedNetMerges items markers =
     (let conflicts = filter (\<lambda>m. \<not> em_excluded m \<and> em_driverConflict m) markers;
          labels = map si_id (filter isGeneratedLabel items)
      in if conflicts = [] then []
         else map em_description (filter (\<lambda>m. length (em_items m) = 2 \<and> list_all (\<lambda>k. k \<in> set labels) (em_items m)) conflicts))"

section \<open>A sample\<close>

definition sample_pin :: "string \<Rightarrow> int \<Rightarrow> orientation \<Rightarrow> lib_pin" where
  "sample_pin k y d = \<lparr>lp_number = k, lp_position = pt 0 (of_int y), lp_length = 1270000, lp_orientation = d\<rparr>"

definition sample_field :: "string \<Rightarrow> sch_field" where
  "sample_field s = \<lparr>sf_name = ''Reference'', sf_text = s, sf_position = ORIGIN\<rparr>"

definition sample_symbol :: "string \<Rightarrow> lib_symbol" where
  "sample_symbol r = \<lparr>sy_unitCount = 1, sy_children =
       [\<lparr>ch_unit = 0, ch_style = 0, ch_pin = Some (sample_pin ''1'' (- 3810000) SPO_DOWN)\<rparr>,
        \<lparr>ch_unit = 1, ch_style = 1, ch_pin = Some (sample_pin ''2'' 3810000 SPO_UP)\<rparr>],
     sy_referenceField = Some (sample_field r), sy_valueField = None, sy_footprintField = None,
     sy_datasheetField = None, sy_descriptionField = None\<rparr>"

definition sample_defs :: definitions where
  "sample_defs k = (if k = ''Device:R'' then Some (sample_symbol ''R'')
     else if k = ''power:GND'' then Some (sample_symbol ''#PWR'') else None)"

definition sample_comp :: "string \<Rightarrow> string \<Rightarrow> string \<Rightarrow> netlist_component" where
  "sample_comp r lib part = \<lparr>nc_ref = r, nc_value = part, nc_footprint = [],
     nc_libSource = Some \<lparr>ls_lib = lib, ls_part = part, ls_description = None\<rparr>, nc_fields = [], nc_uuid = None\<rparr>"

definition sample_node :: "string \<Rightarrow> string \<Rightarrow> netlist_node" where
  "sample_node r p = \<lparr>nn_ref = r, nn_pin = p, nn_pinFunction = None, nn_pinType = None\<rparr>"

definition sample_netlist :: netlist where
  "sample_netlist = \<lparr>nl_components = [sample_comp ''R1'' ''Device'' ''R'', sample_comp ''GND'' ''power'' ''GND''],
     nl_nets = [\<lparr>nt_name = ''GND'', nt_code = None, nt_nodes = [sample_node ''R1'' ''1'', sample_node ''GND'' ''1'']\<rparr>],
     nl_noConnects = [], nl_design = None\<rparr>"

theorem symbols_never_meet_witness:
  "let pos = layoutSymbols (extents_of sample_defs sample_netlist); pn = pin_nets (nl_nets sample_netlist) in
   \<not> boxIntersects (drawn_box pn (pos ! 0) ''R1'' (sample_pin ''1'' (- 3810000) SPO_DOWN))
     (drawn_box pn (pos ! 1) ''GND'' (sample_pin ''2'' 3810000 SPO_UP))"
proof -
  have i: "instances_of sample_defs (nl_components sample_netlist)
      = [(sample_comp ''R1'' ''Device'' ''R'', 1), (sample_comp ''GND'' ''power'' ''GND'', 1)]"
    by code_simp
  have d: "definition_of sample_defs (sample_comp ''R1'' ''Device'' ''R'') = Some (sample_symbol ''R'')"
    "definition_of sample_defs (sample_comp ''GND'' ''power'' ''GND'') = Some (sample_symbol ''#PWR'')"
    by code_simp+
  have "\<not> boxIntersects
      (drawn_box (pin_nets (nl_nets sample_netlist)) (layoutSymbols (extents_of sample_defs sample_netlist) ! 0)
        (nc_ref (sample_comp ''R1'' ''Device'' ''R'')) (sample_pin ''1'' (- 3810000) SPO_DOWN))
      (drawn_box (pin_nets (nl_nets sample_netlist)) (layoutSymbols (extents_of sample_defs sample_netlist) ! 1)
        (nc_ref (sample_comp ''GND'' ''power'' ''GND'')) (sample_pin ''2'' 3810000 SPO_UP))"
    by (rule conjunct1 [OF symbols_never_meet [where i = 0 and j = 1 and u = 1 and u' = 1
          and ch = "\<lparr>ch_unit = 0, ch_style = 0, ch_pin = Some (sample_pin ''1'' (- 3810000) SPO_DOWN)\<rparr>"
          and ch' = "\<lparr>ch_unit = 1, ch_style = 1, ch_pin = Some (sample_pin ''2'' 3810000 SPO_UP)\<rparr>",
          OF _ _ d(1) _ _ _ _ _ d(2)]])
       (simp_all add: i sample_symbol_def of_unit_def)
  then show ?thesis by (simp add: Let_def sample_comp_def)
qed

theorem normalized_same_netlist_witness:
  "refs_of (fst (normalizeVirtualReferences sample_netlist sample_defs)) = [''R1'', ''#PWR1''] \<and>
   distinct (refs_of (fst (normalizeVirtualReferences sample_netlist sample_defs)))"
proof -
  have r: "refs_of (fst (normalizeVirtualReferences sample_netlist sample_defs)) = [''R1'', ''#PWR1'']"
    by code_simp
  have "distinct (refs_of sample_netlist)" by code_simp
  from normalized_same_netlist [OF this, of sample_defs] r show ?thesis
    by (simp add: split_beta)
qed

end
