(* ===== verification/Outline.thy ===== *)
theory Outline
  imports CompileTypes JsCollections "HOL-Library.Multiset"
begin

text \<open>
  The board outline of a compile (\<open>packages/compile/src/apply.ts\<close>): the polygon a source asks for,
  the segments on the edge layer it is compared with, and which of them are replaced. Points are
  whole nanometres, as they come off the wire; areas are twice those of the code, which halves them
  and only compares them.
\<close>

section \<open>Points and segments\<close>

type_synonym grid_point = "int vec2"

abbreviation gp :: "int \<Rightarrow> int \<Rightarrow> grid_point" where
  "gp x y \<equiv> \<lparr>vx = x, vy = y\<rparr>"

datatype edge_geometry = EdgeSegment grid_point grid_point | EdgeCircle grid_point grid_point | EdgeOther

record board_graphic =
  gr_id :: string
  gr_edgeCuts :: bool
  gr_generated :: bool
  gr_geometry :: edge_geometry

definition pointKey :: "grid_point \<Rightarrow> string" where
  "pointKey p = show_int (vx p) @ '','' @ show_int (vy p)"

text \<open>Comparison of strings by their code units.\<close>

fun str_less :: "string \<Rightarrow> string \<Rightarrow> bool" where
  "str_less s [] = False"
| "str_less [] (d # t) = True"
| "str_less (c # s) (d # t) =
     ((of_char c :: nat) < of_char d \<or> c = d \<and> str_less s t)"

definition segmentKey :: "grid_point \<Rightarrow> grid_point \<Rightarrow> string" where
  "segmentKey a b =
     (let first = pointKey a; second = pointKey b
      in if str_less first second then first @ ''|'' @ second else second @ ''|'' @ first)"

definition segment_of :: "board_graphic \<Rightarrow> (grid_point \<times> grid_point) option" where
  "segment_of e = (case gr_geometry e of EdgeSegment a b \<Rightarrow> Some (a, b) | _ \<Rightarrow> None)"

definition segments_of :: "board_graphic list \<Rightarrow> (grid_point \<times> grid_point) list" where
  "segments_of edges = List.map_filter segment_of edges"

text \<open>\<open>counts.set(key, (counts.get(key) ?? 0) + 1)\<close> over a list of keys.\<close>

definition count_key :: "string \<Rightarrow> (string, nat) jmap \<Rightarrow> (string, nat) jmap" where
  "count_key k counts = jput k ((case jget counts k of None \<Rightarrow> 0 | Some n \<Rightarrow> n) + 1) counts"

definition segmentCounts :: "board_graphic list \<Rightarrow> (string, nat) jmap" where
  "segmentCounts edges = fold count_key (map (\<lambda>(a, b). segmentKey a b) (segments_of edges)) []"

text \<open>The sides of a polygon: each point with the one after it, the last with the first.\<close>

definition sides :: "'k list \<Rightarrow> ('k \<times> 'k) list" where
  "sides ps = map (\<lambda>i. (ps ! i, ps ! ((i + 1) mod length ps))) [0..<length ps]"

definition expectedSegmentCounts :: "grid_point list \<Rightarrow> (string, nat) jmap" where
  "expectedSegmentCounts ps = fold count_key (map (\<lambda>(a, b). segmentKey a b) (sides ps)) []"

definition outlineMatches :: "board_graphic list \<Rightarrow> grid_point list \<Rightarrow> bool" where
  "outlineMatches edges ps =
     (let actual = segmentCounts edges; expected = expectedSegmentCounts ps
      in length actual = length expected \<and> list_all (\<lambda>(k, n). jget actual k = Some n) expected)"

section \<open>Closed contours\<close>

text \<open>
  The loops over segments see a point as its key only; they are stated over any type of keys, and
  used on the texts of points.
\<close>

type_synonym 'k neighbours = "('k, 'k jset) jmap"

definition add_neighbour :: "'k \<Rightarrow> 'k \<Rightarrow> 'k neighbours \<Rightarrow> 'k neighbours" where
  "add_neighbour a b adj = jput a (sadd b (case jget adj a of None \<Rightarrow> [] | Some s \<Rightarrow> s)) adj"

text \<open>A segment from a point to itself ends the loop with \<open>None\<close>.\<close>

fun adjacency :: "('k \<times> 'k) list \<Rightarrow> 'k neighbours \<Rightarrow> 'k neighbours option" where
  "adjacency [] adj = Some adj"
| "adjacency ((a, b) # es) adj =
     (if a = b then None else adjacency es (add_neighbour b a (add_neighbour a b adj)))"

definition neighbours_of :: "'k neighbours \<Rightarrow> 'k \<Rightarrow> 'k list" where
  "neighbours_of adj p = (case jget adj p of None \<Rightarrow> [] | Some s \<Rightarrow> s)"

text \<open>One turn of the search: the unseen neighbours of a point are noted as seen and pushed.\<close>

fun push_unseen :: "'k list \<Rightarrow> 'k jset \<times> 'k list \<Rightarrow> 'k jset \<times> 'k list" where
  "push_unseen [] st = st"
| "push_unseen (n # ns) (seen, pending) =
     push_unseen ns (if n \<in> set seen then (seen, pending) else (sadd n seen, n # pending))"

definition all_neighbours :: "'k neighbours \<Rightarrow> 'k set" where
  "all_neighbours adj = \<Union> (set ` snd ` set adj)"

lemma push_unseen_spec:
  "push_unseen ns (seen, pending) = (seen', pending') \<Longrightarrow>
     set seen' = set seen \<union> set ns \<and> (seen' = seen \<and> pending' = pending \<or> (\<exists>n \<in> set ns. n \<notin> set seen)) \<and>
     set pending' \<subseteq> set pending \<union> (set ns - set seen) \<and> set pending \<subseteq> set pending' \<and>
     set ns - set seen \<subseteq> set pending' \<and> (distinct seen \<longrightarrow> distinct seen')"
proof (induction ns arbitrary: seen pending)
  case (Cons n ns)
  show ?case
  proof (cases "n \<in> set seen")
    case True
    then show ?thesis using Cons.IH [of seen pending] Cons.prems by auto
  next
    case False
    then have "push_unseen ns (sadd n seen, n # pending) = (seen', pending')" using Cons.prems by simp
    from Cons.IH [OF this] False show ?thesis by auto
  qed
qed simp

lemma neighbours_all: "set (neighbours_of adj p) \<subseteq> all_neighbours adj"
proof (cases "jget adj p")
  case (Some s)
  then have "(p, s) \<in> set adj" by (simp add: jget_def map_of_SomeD)
  then have "set s \<subseteq> all_neighbours adj" by (force simp: all_neighbours_def)
  then show ?thesis using Some by (simp add: neighbours_of_def)
qed (simp add: neighbours_of_def)

lemma finite_all_neighbours: "finite (all_neighbours adj)"
  by (simp add: all_neighbours_def)

function search :: "'k neighbours \<Rightarrow> 'k jset \<Rightarrow> 'k list \<Rightarrow> 'k jset" where
  "search adj seen [] = seen"
| "search adj seen (p # pending) =
     (let (seen', pending') = push_unseen (neighbours_of adj p) (seen, pending) in search adj seen' pending')"
  by pat_completeness auto

termination
proof (relation "measures [\<lambda>(adj, seen, pending). card (all_neighbours adj - set seen), \<lambda>(adj, seen, pending). length pending]")
  fix adj :: "'k neighbours" and seen p pending seen' pending' x
  assume "x = push_unseen (neighbours_of adj p) (seen, pending)" "(seen', pending') = x"
  then have s: "set seen' = set seen \<union> set (neighbours_of adj p)"
    "seen' = seen \<and> pending' = pending \<or> (\<exists>n \<in> set (neighbours_of adj p). n \<notin> set seen)"
    using push_unseen_spec [of "neighbours_of adj p" seen pending seen' pending'] by simp_all
  show "((adj, seen', pending'), adj, seen, p # pending) \<in> measures
    [\<lambda>(adj, seen, pending). card (all_neighbours adj - set seen), \<lambda>(adj, seen, pending). length pending]"
    using s(2)
  proof
    assume "\<exists>n \<in> set (neighbours_of adj p). n \<notin> set seen"
    then have "all_neighbours adj - set seen' \<subset> all_neighbours adj - set seen"
      using s(1) neighbours_all [of adj p] by blast
    then have "card (all_neighbours adj - set seen') < card (all_neighbours adj - set seen)"
      by (intro psubset_card_mono finite_Diff finite_all_neighbours)
    then show ?thesis by simp
  qed simp
qed simp

definition closed_loop :: "('k \<times> 'k) list \<Rightarrow> bool" where
  "closed_loop es =
     (case adjacency es [] of
        None \<Rightarrow> False
      | Some adj \<Rightarrow>
          if length es < 3 \<or> list_ex (\<lambda>(_, ns). length ns \<noteq> 2) adj then False
          else case adj of
            [] \<Rightarrow> False
          | (first, _) # _ \<Rightarrow>
              let seen = search adj [first] [first]
              in length seen = length adj \<and> length es = length adj)"

definition key_pair :: "grid_point \<times> grid_point \<Rightarrow> string \<times> string" where
  "key_pair s = (pointKey (fst s), pointKey (snd s))"

definition isSingleClosedContour :: "board_graphic list \<Rightarrow> bool" where
  "isSingleClosedContour edges = closed_loop (map key_pair (segments_of edges))"

section \<open>The area inside a contour\<close>

text \<open>\<open>connect\<close>, and both maps after the loop over the segments.\<close>

definition connect :: "'k \<Rightarrow> 'a \<Rightarrow> ('k, 'a list) jmap \<Rightarrow> ('k, 'a list) jmap" where
  "connect a b m = jput a ((case jget m a of None \<Rightarrow> [] | Some ns \<Rightarrow> ns) @ [b]) m"

definition point_map :: "(grid_point \<times> grid_point) list \<Rightarrow> (string, grid_point) jmap" where
  "point_map es = fold (\<lambda>(a, b) m. jput (pointKey b) b (jput (pointKey a) a m)) es []"

definition connections :: "('k \<times> 'k) list \<Rightarrow> ('k, 'k list) jmap" where
  "connections es = fold (\<lambda>(a, b) m. connect b a (connect a b m)) es []"

definition opt_nth :: "'a list \<Rightarrow> nat \<Rightarrow> 'a option" where
  "opt_nth xs i = (if i < length xs then Some (xs ! i) else None)"

text \<open>
  The walk from neighbour to neighbour, at most one step more than there are edges; \<open>None\<close> where
  the code returns 0 for a point without a next one.
\<close>

function walk :: "('k, 'k list) jmap \<Rightarrow> 'k \<Rightarrow> nat \<Rightarrow> 'k option \<Rightarrow> 'k \<Rightarrow> 'k list \<Rightarrow> ('k \<times> 'k list) option" where
  "walk nb first n previous current ordered =
     (let ordered' = ordered @ [current];
          options = (case jget nb current of None \<Rightarrow> [] | Some ns \<Rightarrow> ns);
          step = (if opt_nth options 0 = previous then opt_nth options 1 else opt_nth options 0)
      in case step of
           None \<Rightarrow> None
         | Some nx \<Rightarrow>
             if nx \<noteq> first \<and> length ordered' \<le> n then walk nb first n (Some current) nx ordered'
             else Some (nx, ordered'))"
  by pat_completeness auto

termination
  by (relation "measure (\<lambda>(nb, first, n, previous, current, ordered). n + 1 - length ordered)") auto

declare walk.simps [simp del]

definition cross :: "grid_point \<Rightarrow> grid_point \<Rightarrow> int" where
  "cross p r = vx p * vy r - vx r * vy p"

definition polygon_area :: "grid_point list \<Rightarrow> num" where
  "polygon_area ps = \<bar>of_int (sum_list (map (\<lambda>(a, b). cross a b) (sides ps))) / 2\<bar>"

definition contourArea :: "board_graphic list \<Rightarrow> num" where
  "contourArea edges =
     (let es = segments_of edges; points = point_map es; nb = connections (map key_pair es) in
      case points of
        [] \<Rightarrow> 0
      | (first, _) # _ \<Rightarrow>
          (case walk nb first (length edges) None first [] of
             None \<Rightarrow> 0
           | Some (current, ordered) \<Rightarrow>
               if current \<noteq> first \<or> length ordered \<noteq> length edges then 0
               else polygon_area (map (\<lambda>k. the (jget points k)) ordered)))"

section \<open>The outer contour\<close>

definition segmentEndpoints :: "board_graphic \<Rightarrow> string list" where
  "segmentEndpoints e = (case segment_of e of None \<Rightarrow> [] | Some (a, b) \<Rightarrow> [pointKey a, pointKey b])"

definition edgeIndexesByPoint :: "board_graphic list \<Rightarrow> (string, nat list) jmap" where
  "edgeIndexesByPoint edges =
     fold (\<lambda>(i, e). fold (\<lambda>k. connect k i) (segmentEndpoints e)) (enumerate 0 edges) []"

text \<open>The neighbours of an edge that are still there are taken out of the set and pushed.\<close>

fun take_indexes :: "nat list \<Rightarrow> nat list \<times> nat list \<Rightarrow> nat list \<times> nat list" where
  "take_indexes [] st = st"
| "take_indexes (i # is) (remaining, pending) =
     take_indexes is (if i \<in> set remaining then (sdel i remaining, i # pending) else (remaining, pending))"

definition near_indexes :: "board_graphic list \<Rightarrow> (string, nat list) jmap \<Rightarrow> nat \<Rightarrow> nat list" where
  "near_indexes edges byPoint i =
     concat (map (\<lambda>k. case jget byPoint k of None \<Rightarrow> [] | Some is \<Rightarrow> is) (segmentEndpoints (edges ! i)))"

lemma sdel_shorter: "i \<in> set s \<Longrightarrow> length (sdel i s) < length s"
  unfolding sdel_def by (rule length_filter_less) auto

lemma take_indexes_size:
  "take_indexes is (remaining, pending) = (r, p) \<Longrightarrow>
     2 * length r + length p \<le> 2 * length remaining + length pending \<and> length r \<le> length remaining"
proof (induction "is" arbitrary: remaining pending)
  case (Cons i "is")
  show ?case
  proof (cases "i \<in> set remaining")
    case True
    with Cons.prems have "take_indexes is (sdel i remaining, i # pending) = (r, p)" by simp
    from Cons.IH [OF this] sdel_shorter [OF True] show ?thesis by simp
  next
    case False
    then show ?thesis using Cons.IH [of remaining pending] Cons.prems by simp
  qed
qed simp

function component :: "(nat \<Rightarrow> nat list) \<Rightarrow> nat list \<Rightarrow> nat list \<Rightarrow> nat list \<Rightarrow> nat list \<times> nat list" where
  "component near remaining [] indexes = (remaining, indexes)"
| "component near remaining (i # pending) indexes =
     (let (remaining', pending') = take_indexes (near i) (remaining, pending)
      in component near remaining' pending' (indexes @ [i]))"
  by pat_completeness auto

termination
proof (relation "measure (\<lambda>(near, remaining, pending, indexes). 2 * length remaining + length pending)")
  fix near :: "nat \<Rightarrow> nat list" and remaining i pending indexes x remaining' pending'
  assume "x = take_indexes (near i) (remaining, pending)" "(remaining', pending') = x"
  then have "take_indexes (near i) (remaining, pending) = (remaining', pending')" by simp
  from take_indexes_size [OF this] show "((near, remaining', pending', indexes @ [i]), near, remaining, i # pending, indexes)
    \<in> measure (\<lambda>(near, remaining, pending, indexes). 2 * length remaining + length pending)" by simp
qed simp

lemma component_remaining: "length (fst (component near remaining pending indexes)) \<le> length remaining"
proof (induction near remaining pending indexes rule: component.induct)
  case (2 near remaining i pending indexes)
  obtain r p where t: "take_indexes (near i) (remaining, pending) = (r, p)" by force
  then show ?case using 2 [OF t [symmetric] refl] take_indexes_size [OF t] by simp
qed simp

text \<open>The components in turn; \<open>None\<close> as soon as one is not a closed contour.\<close>

function contours :: "board_graphic list \<Rightarrow> (nat \<Rightarrow> nat list) \<Rightarrow> nat list \<Rightarrow> board_graphic list list option" where
  "contours edges near [] = Some []"
| "contours edges near (first # rest) =
     (let (remaining, indexes) = component near (sdel first rest) [first] [];
          contour = map (\<lambda>i. edges ! i) indexes
      in if \<not> isSingleClosedContour contour then None
         else map_option (\<lambda>cs. contour # cs) (contours edges near remaining))"
  by pat_completeness auto

termination
proof (relation "measure (\<lambda>(edges, near, remaining). length remaining)")
  fix edges :: "board_graphic list" and near first rest x remaining indexes contour
  assume "x = component near (sdel first rest) [first] []" "(remaining, indexes) = x"
  then have "length remaining \<le> length (sdel first rest)"
    using component_remaining [of near "sdel first rest" "[first]" "[]"] by (metis fst_conv)
  also have "\<dots> \<le> length rest" by (simp add: sdel_def)
  finally show "((edges, near, remaining), edges, near, first # rest)
    \<in> measure (\<lambda>(edges, near, remaining). length remaining)" by simp
qed simp

definition outerSegmentContour :: "board_graphic list \<Rightarrow> board_graphic list option" where
  "outerSegmentContour edges =
     (case contours edges (near_indexes edges (edgeIndexesByPoint edges)) [0..<length edges] of
        None \<Rightarrow> None
      | Some cs \<Rightarrow> opt_nth (sort_key (\<lambda>c. - contourArea c) cs) 0)"

section \<open>What is drawn\<close>

definition round_nm :: "num \<Rightarrow> int" where "round_nm v = \<lfloor>v + 1 / 2\<rfloor>"

definition mm_point :: "num \<Rightarrow> num \<Rightarrow> grid_point" where
  "mm_point x y = gp (round_nm (mm x)) (round_nm (mm y))"

definition outlinePoints :: "board_spec option \<Rightarrow> grid_point list option" where
  "outlinePoints spec =
     (case spec of
        None \<Rightarrow> None
      | Some s \<Rightarrow>
          if bs_outline s \<noteq> [] then Some (map (\<lambda>p. mm_point (vx p) (vy p)) (bs_outline s))
          else (case (bs_widthMm s, bs_heightMm s) of
                  (Some w, Some h) \<Rightarrow>
                    if w = 0 \<or> h = 0 then None
                    else let x = round_nm (mm w); y = round_nm (mm h)
                      in Some [gp 0 0, gp x 0, gp x y, gp 0 y]
                | _ \<Rightarrow> None))"

definition hasOutline :: "board_graphic list \<Rightarrow> bool" where
  "hasOutline shapes = list_ex gr_edgeCuts shapes"

record free_via =
  fv_position :: grid_point
  fv_size :: int
  fv_drill :: int

datatype outline_item = Side board_graphic | Hole board_graphic | FreeVia free_via

text \<open>The server gives a created item its id.\<close>

definition outlineItems :: "grid_point list \<Rightarrow> board_graphic list" where
  "outlineItems ps = map (\<lambda>(a, b).
     \<lparr>gr_id = [], gr_edgeCuts = True, gr_generated = True, gr_geometry = EdgeSegment a b\<rparr>) (sides ps)"

definition freeViaItem :: "num \<Rightarrow> num \<Rightarrow> num \<Rightarrow> num \<Rightarrow> free_via" where
  "freeViaItem x y diameter drill =
     \<lparr>fv_position = gp (round_nm x) (round_nm y), fv_size = round_nm diameter, fv_drill = round_nm drill\<rparr>"

definition holeItem :: "num \<Rightarrow> num \<Rightarrow> num \<Rightarrow> board_graphic" where
  "holeItem x y diameter =
     (let c = gp (round_nm x) (round_nm y) in
      \<lparr>gr_id = [], gr_edgeCuts = True, gr_generated = False,
       gr_geometry = EdgeCircle c (gp (vx c + round_nm (diameter / 2)) (vy c))\<rparr>)"

definition or_default :: "num option \<Rightarrow> num \<Rightarrow> num" where
  "or_default v d = (case v of None \<Rightarrow> d | Some n \<Rightarrow> n)"

definition rule_of :: "(board_rules \<Rightarrow> num option) \<Rightarrow> board_spec option \<Rightarrow> num option" where
  "rule_of f spec = (case spec of None \<Rightarrow> None | Some s \<Rightarrow> (case bs_rules s of None \<Rightarrow> None | Some r \<Rightarrow> f r))"

definition prefabItems :: "board_spec option \<Rightarrow> free_via list \<times> board_graphic list" where
  "prefabItems spec =
     (let viaDiameter = or_default (rule_of br_viaDiameterMm spec) (6 / 10);
          viaDrill = or_default (rule_of br_viaDrillMm spec) (3 / 10)
      in (map (\<lambda>v. freeViaItem (mm (pv_x v)) (mm (pv_y v)) (mm (or_default (pv_diameterMm v) viaDiameter))
                (mm (or_default (pv_drillMm v) viaDrill)))
            (case spec of None \<Rightarrow> [] | Some s \<Rightarrow> bs_vias s),
          map (\<lambda>h. holeItem (mm (ph_x h)) (mm (ph_y h)) (mm (ph_diameterMm h)))
            (case spec of None \<Rightarrow> [] | Some s \<Rightarrow> bs_holes s)))"

section \<open>Reconciling the outline\<close>

record outline_outcome =
  oo_diagnostics :: "diagnostic list"
  oo_drew :: bool
  oo_fixed :: bool
  oo_viasAdded :: nat
  oo_holesAdded :: nat

definition no_outcome :: outline_outcome where
  "no_outcome = \<lparr>oo_diagnostics = [], oo_drew = False, oo_fixed = False, oo_viasAdded = 0, oo_holesAdded = 0\<rparr>"

definition apply_diag :: "severity \<Rightarrow> string \<Rightarrow> string \<Rightarrow> diagnostic" where
  "apply_diag sev message code = diag_at ApplyStage sev message code"

definition outline_conflict :: "string \<Rightarrow> outline_outcome" where
  "outline_conflict message =
     no_outcome\<lparr>oo_diagnostics := [apply_diag ErrorSeverity message ''outline_conflict'']\<rparr>"

text \<open>\<open>has_via\<close>: the answer to the question whether a track of the board is a via.\<close>

definition kept_outcome :: "free_via list \<Rightarrow> bool \<Rightarrow> outline_outcome" where
  "kept_outcome vias has_via =
     (if vias \<noteq> [] \<and> \<not> has_via then
        no_outcome\<lparr>oo_diagnostics := [apply_diag WarningSeverity
          (''The board already has an outline, so the blank's '' @ show_int (int (length vias))
            @ '' vias were not drawn; delete the outline and build again to draw the blank.'')
          ''blank_not_drawn'']\<rparr>
      else no_outcome)"

definition partial_contour :: outline_outcome where
  "partial_contour = outline_conflict (''The compiler owns only part of the existing Edge.Cuts boundary. ''
     @ ''Repair or remove the incomplete generated contour before rebuilding.'')"

definition differing_contour :: outline_outcome where
  "differing_contour = outline_conflict (''The requested board outline differs from the existing user-authored ''
     @ ''Edge.Cuts. Update or remove the KiCad outline, or make the source board dimensions ''
     @ ''match it.'')"

text \<open>The edits of a commit: ids that are deleted and items that are created, in this order.\<close>

datatype outline_edit = DeleteEdges "string list" | CreateItems "outline_item list"

definition is_segment :: "board_graphic \<Rightarrow> bool" where
  "is_segment e \<longleftrightarrow> segment_of e \<noteq> None"

definition ensureOutline ::
  "board_spec option \<Rightarrow> board_graphic list \<Rightarrow> bool \<Rightarrow> outline_outcome \<times> outline_edit list" where
  "ensureOutline spec shapes has_via =
     (case outlinePoints spec of
        None \<Rightarrow> (no_outcome, [])
      | Some ps \<Rightarrow>
          if length ps < 3 then
            (no_outcome\<lparr>oo_diagnostics := [apply_diag ErrorSeverity
               (''Board outline needs at least 3 points, got '' @ show_int (int (length ps)) @ ''.'')
               ''bad_outline'']\<rparr>, [])
          else
            let (vias, holes) = prefabItems spec;
                edges = filter gr_edgeCuts shapes
            in if edges = [] then
                 (\<lparr>oo_diagnostics = [], oo_drew = True, oo_fixed = (vias \<noteq> [] \<or> holes \<noteq> []),
                   oo_viasAdded = length vias, oo_holesAdded = length holes\<rparr>,
                  [CreateItems (map Side (outlineItems ps) @ map Hole holes @ map FreeVia vias)])
               else
                 let boundary = filter is_segment edges;
                     generated = filter gr_generated boundary;
                     late = kept_outcome vias has_via
                 in if generated \<noteq> [] then
                      if outlineMatches generated ps then (late, [])
                      else if \<not> isSingleClosedContour generated then
                        (partial_contour, [])
                      else (late, [DeleteEdges (map gr_id generated), CreateItems (map Side (outlineItems ps))])
                    else if \<not> outlineMatches (case outerSegmentContour boundary of None \<Rightarrow> [] | Some c \<Rightarrow> c) ps then
                      (differing_contour, [])
                    else (late, []))"

section \<open>Keys name points and segments\<close>

lemma pointKey_chars: "CHR ''|'' \<notin> set (pointKey p)"
  using show_int_chars [of "vx p"] show_int_chars [of "vy p"]
  by (auto simp: pointKey_def digit_chars_def)

lemma pointKey_inj: "pointKey p = pointKey r \<Longrightarrow> p = r"
proof -
  have c: "CHR '','' \<notin> set (show_int n)" for n
    using show_int_chars [of n] by (auto simp: digit_chars_def)
  assume "pointKey p = pointKey r"
  then have "show_int (vx p) = show_int (vx r) \<and> show_int (vy p) = show_int (vy r)"
    using split_unique [OF c [of "vx p"] c [of "vx r"]] by (simp add: pointKey_def)
  then have "vx p = vx r" "vy p = vy r" using show_int_inj by blast+
  then show "p = r" by (cases p; cases r) simp
qed

lemma pointKey_eq [simp]: "pointKey p = pointKey r \<longleftrightarrow> p = r"
  using pointKey_inj by blast

lemma str_less_asym: "str_less s t \<Longrightarrow> \<not> str_less t s"
  by (induction s t rule: str_less.induct) auto

lemma str_less_total: "s \<noteq> t \<Longrightarrow> str_less s t \<or> str_less t s"
proof (induction s t rule: str_less.induct)
  case (1 s)
  then show ?case by (cases s) simp_all
next
  case (3 c s d t)
  have "c \<noteq> d \<Longrightarrow> (of_char c :: nat) \<noteq> of_char d" by simp
  then show ?case using 3 by (cases "c = d") (auto simp only: str_less.simps nat_neq_iff list.inject)
qed simp

text \<open>A segment without its direction.\<close>

definition unordered :: "'a \<times> 'a \<Rightarrow> 'a set" where "unordered s = {fst s, snd s}"

lemma segmentKey_comm: "segmentKey a b = segmentKey b a"
  using str_less_asym [of "pointKey a" "pointKey b"] str_less_total [of "pointKey a" "pointKey b"]
  by (cases "a = b") (auto simp: segmentKey_def Let_def)

lemma segmentKey_iff: "segmentKey a b = segmentKey c d \<longleftrightarrow> {a, b} = {c, d}"
proof
  note u = split_unique [OF pointKey_chars pointKey_chars]
  assume "segmentKey a b = segmentKey c d"
  then show "{a, b} = {c, d}"
    by (auto simp: segmentKey_def Let_def split: if_splits dest!: u)
next
  assume "{a, b} = {c, d}"
  then show "segmentKey a b = segmentKey c d"
    using segmentKey_comm by (auto simp: doubleton_eq_iff)
qed

section \<open>Comparing outlines\<close>

lemma count_fold:
  "jget (fold count_key ks m) k =
     (if count_list ks k = 0 then jget m k
      else Some (count_list ks k + (case jget m k of None \<Rightarrow> 0 | Some n \<Rightarrow> n)))"
  by (induction ks arbitrary: m) (auto simp: count_key_def split: option.splits)

lemma count_distinct: "distinct (jkeys m) \<Longrightarrow> distinct (jkeys (fold count_key ks m))"
  by (induction ks arbitrary: m) (simp_all add: count_key_def)

lemma count_list_mset: "count_list ks k = count (mset ks) k"
  by (induction ks) simp_all

lemma mset_map_transfer:
  assumes "\<And>x y. f x = f y \<longleftrightarrow> g x = g y"
  shows "mset (map f xs) = mset (map f ys) \<longleftrightarrow> mset (map g xs) = mset (map g ys)"
proof -
  have one: "mset (map h xs) = mset (map h ys) \<Longrightarrow> mset (map k xs) = mset (map k ys)"
    if "\<And>x y. h x = h y \<Longrightarrow> k x = k y" for h :: "'a \<Rightarrow> 'd" and k :: "'a \<Rightarrow> 'e"
  proof -
    assume m: "mset (map h xs) = mset (map h ys)"
    have k: "k x = k (SOME y. h y = h x)" for x
      by (rule that) (metis (mono_tags) someI)
    have "mset (map k zs) = image_mset (\<lambda>v. k (SOME y. h y = v)) (mset (map h zs))" for zs
      using k by (simp add: multiset.map_comp o_def)
    then show ?thesis using m by metis
  qed
  show ?thesis using one [of f g] one [of g f] assms by blast
qed

lemma counts_agree:
  assumes "length (fold count_key as []) = length (fold count_key bs [])"
    and "list_all (\<lambda>(k, n). jget (fold count_key as []) k = Some n) (fold count_key bs [])"
  shows "mset as = mset bs"
proof -
  let ?a = "fold count_key as []" and ?b = "fold count_key bs []"
  have d: "distinct (jkeys ?a)" "distinct (jkeys ?b)" by (rule count_distinct; simp add: jkeys_def)+
  have eq: "jget ?b k = Some n \<Longrightarrow> jget ?a k = Some n" for k n
    using assms(2) by (auto simp: list_all_iff jget_def dest: map_of_SomeD)
  have "set (jkeys ?b) \<subseteq> set (jkeys ?a)"
    using eq by (auto simp: jkeys_jget)
  moreover have "card (set (jkeys ?b)) = card (set (jkeys ?a))"
    using assms(1) d by (simp add: distinct_card) (simp add: jkeys_def)
  ultimately have keys: "set (jkeys ?b) = set (jkeys ?a)" by (intro card_subset_eq) simp_all
  have "jget ?a k = jget ?b k" for k
  proof (cases "jget ?b k")
    case None
    then have "k \<notin> set (jkeys ?a)" using keys by (metis jkeys_jget)
    then show ?thesis using None by (simp add: jkeys_jget)
  qed (simp add: eq)
  then have "count_list as k = count_list bs k" for k
    using count_fold [of as "[]" k] count_fold [of bs "[]" k] by (auto split: if_splits)
  then show ?thesis by (simp add: multiset_eq_iff count_list_mset)
qed

lemma counts_same:
  assumes "mset as = mset bs"
  shows "length (fold count_key as []) = length (fold count_key bs [])"
    and "list_all (\<lambda>(k, n). jget (fold count_key as []) k = Some n) (fold count_key bs [])"
proof -
  let ?a = "fold count_key as []" and ?b = "fold count_key bs []"
  have d: "distinct (jkeys ?a)" "distinct (jkeys ?b)" by (rule count_distinct; simp add: jkeys_def)+
  have g: "jget ?a k = jget ?b k" for k
    using assms by (simp add: count_fold count_list_mset)
  then have "set (jkeys ?a) = set (jkeys ?b)" by (auto simp: jkeys_jget)
  then have "length (jkeys ?a) = length (jkeys ?b)" using d by (metis distinct_card)
  then show "length ?a = length ?b" by (simp add: jkeys_def)
  have "jget ?b k = Some n" if "(k, n) \<in> set ?b" for k n
    using that d(2) by (simp add: jget_def jkeys_def)
  then show "list_all (\<lambda>(k, n). jget ?a k = Some n) ?b" using g by (auto simp: list_all_iff)
qed

text \<open>
  The comparison of counted keys holds exactly when the segments of the board are the sides of
  the polygon, each as often as the other and whatever their order and direction.
\<close>

theorem outline_matches_exact:
  "outlineMatches edges ps \<longleftrightarrow>
     mset (map unordered (segments_of edges)) = mset (map unordered (sides ps))"
proof -
  let ?key = "\<lambda>s :: grid_point \<times> grid_point. segmentKey (fst s) (snd s)"
  have "outlineMatches edges ps \<longleftrightarrow> mset (map ?key (segments_of edges)) = mset (map ?key (sides ps))"
    unfolding outlineMatches_def segmentCounts_def expectedSegmentCounts_def split_beta' Let_def
    by (rule iffI, (erule conjE, rule counts_agree [unfolded split_beta']; assumption),
        intro conjI counts_same [unfolded split_beta'])
  also have "\<dots> \<longleftrightarrow> mset (map unordered (segments_of edges)) = mset (map unordered (sides ps))"
    by (rule mset_map_transfer) (simp add: segmentKey_iff unordered_def)
  finally show ?thesis .
qed

section \<open>Loops of segments\<close>

text \<open>Two points are joined when a segment lies between them, in whichever direction.\<close>

definition joined :: "('k \<times> 'k) list \<Rightarrow> ('k \<times> 'k) set" where
  "joined es = {(x, y). {x, y} \<in> unordered ` set es}"

definition ends :: "('k \<times> 'k) list \<Rightarrow> 'k set" where
  "ends es = \<Union> (unordered ` set es)"

lemma joined_sym: "(x, y) \<in> joined es \<longleftrightarrow> (y, x) \<in> joined es"
  by (simp add: joined_def insert_commute)

lemma joined_Cons: "joined ((a, b) # es) = {(a, b), (b, a)} \<union> joined es"
  by (auto simp: joined_def unordered_def doubleton_eq_iff)

lemma joined_Nil [simp]: "joined [] = {}"
  by (simp add: joined_def)

lemma joined_ends: "(x, y) \<in> joined es \<Longrightarrow> x \<in> ends es"
  by (auto simp: joined_def ends_def)

lemma ends_Cons: "ends ((a, b) # es) = {a, b} \<union> ends es"
  by (simp add: ends_def unordered_def)

lemma ends_alt: "ends es = fst ` set es \<union> snd ` set es"
  by (auto simp: ends_def unordered_def)

lemma neighbours_put [simp]:
  "neighbours_of (add_neighbour a b adj) x = (if x = a then sadd b (neighbours_of adj a) else neighbours_of adj x)"
  by (simp add: neighbours_of_def add_neighbour_def split: option.splits)

lemma keys_add [simp]: "set (jkeys (add_neighbour a b adj)) = insert a (set (jkeys adj))"
  by (simp add: add_neighbour_def keys_jput)

lemma distinct_add [simp]: "distinct (jkeys adj) \<Longrightarrow> distinct (jkeys (add_neighbour a b adj))"
  by (simp add: add_neighbour_def)

lemma adjacency_spec:
  assumes "adjacency es adj = Some adj'" "distinct (jkeys adj)" "\<And>x. distinct (neighbours_of adj x)"
  shows "(\<forall>x. (x, x) \<notin> joined es) \<and> set (jkeys adj') = set (jkeys adj) \<union> ends es \<and> distinct (jkeys adj') \<and>
    (\<forall>x. set (neighbours_of adj' x) = set (neighbours_of adj x) \<union> joined es `` {x} \<and> distinct (neighbours_of adj' x))"
  using assms
proof (induction es adj rule: adjacency.induct)
  case (2 a b es adj)
  have ab: "a \<noteq> b" using 2(2) by auto
  let ?adj = "add_neighbour b a (add_neighbour a b adj)"
  have s: "adjacency es ?adj = Some adj'" using 2(2) ab by simp
  have ih: "(\<forall>x. (x, x) \<notin> joined es) \<and> set (jkeys adj') = set (jkeys ?adj) \<union> ends es \<and> distinct (jkeys adj') \<and>
    (\<forall>x. set (neighbours_of adj' x) = set (neighbours_of ?adj x) \<union> joined es `` {x} \<and> distinct (neighbours_of adj' x))"
    by (rule 2(1) [OF ab s]) (use 2(3,4) in simp_all)
  then show ?case using ab by (auto simp: joined_Cons ends_Cons)
qed (auto simp: joined_def ends_def)

lemma adjacency_loops: "adjacency es adj = None \<longleftrightarrow> (\<exists>x. (x, x) \<in> joined es)"
  by (induction es adj rule: adjacency.induct) (auto simp: joined_Cons)

text \<open>The search sees what can be reached.\<close>

lemma search_spec:
  assumes "set pending \<subseteq> set seen" "distinct seen"
    and "\<And>x. x \<in> set seen - set pending \<Longrightarrow> set (neighbours_of adj x) \<subseteq> set seen"
  shows "set seen \<subseteq> set (search adj seen pending) \<and> distinct (search adj seen pending) \<and>
    (\<forall>x \<in> set (search adj seen pending). set (neighbours_of adj x) \<subseteq> set (search adj seen pending)) \<and>
    set (search adj seen pending) \<subseteq> {(x, y). y \<in> set (neighbours_of adj x)}\<^sup>* `` set seen"
  using assms
proof (induction adj seen pending rule: search.induct)
  case (2 adj seen p pending)
  let ?R = "{(x, y). y \<in> set (neighbours_of adj x)}"
  obtain seen' pending' where st: "push_unseen (neighbours_of adj p) (seen, pending) = (seen', pending')" by force
  have u: "set seen' = set seen \<union> set (neighbours_of adj p)"
    "set pending' \<subseteq> set pending \<union> (set (neighbours_of adj p) - set seen)" "set pending \<subseteq> set pending'"
    "set (neighbours_of adj p) - set seen \<subseteq> set pending'" "distinct seen'"
    using push_unseen_spec [OF st] 2(3) by auto
  have ih: "set seen' \<subseteq> set (search adj seen' pending') \<and> distinct (search adj seen' pending') \<and>
    (\<forall>x \<in> set (search adj seen' pending'). set (neighbours_of adj x) \<subseteq> set (search adj seen' pending')) \<and>
    set (search adj seen' pending') \<subseteq> ?R\<^sup>* `` set seen'"
  proof (rule 2(1) [OF st [symmetric] refl])
    show "set pending' \<subseteq> set seen'" using u(1,2) 2(2) by auto
    show "distinct seen'" by (rule u(5))
    fix x assume x: "x \<in> set seen' - set pending'"
    show "set (neighbours_of adj x) \<subseteq> set seen'"
    proof (cases "x = p")
      case False
      then have "x \<in> set seen - set (p # pending)" using x u by auto
      then show ?thesis using 2(4) u(1) by blast
    qed (use u(1) in blast)
  qed
  have "p \<in> set seen" using 2(2) by simp
  then have "set seen' \<subseteq> ?R\<^sup>* `` set seen" using u(1) by auto
  then have "?R\<^sup>* `` set seen' \<subseteq> ?R\<^sup>* `` set seen" by (blast intro: rtrancl_trans)
  then show ?case using ih u(1) st by (auto simp del: search.simps simp: search.simps(2))
qed auto

declare search.simps(2) [simp del]

lemma search_reaches:
  "set (search adj [a] [a]) = {(x, y). y \<in> set (neighbours_of adj x)}\<^sup>* `` {a}"
  "distinct (search adj [a] [a])"
proof -
  let ?S = "search adj [a] [a]" and ?R = "{(x, y). y \<in> set (neighbours_of adj x)}"
  have s: "set [a] \<subseteq> set ?S \<and> distinct ?S \<and> (\<forall>x \<in> set ?S. set (neighbours_of adj x) \<subseteq> set ?S) \<and>
    set ?S \<subseteq> ?R\<^sup>* `` set [a]"
    by (rule search_spec) simp_all
  then show "distinct ?S" by blast
  have "y \<in> set ?S" if "(a, y) \<in> ?R\<^sup>*" for y
    using that s by (induction rule: rtrancl_induct) auto
  then show "set ?S = ?R\<^sup>* `` {a}" using s by auto
qed

definition one_loop :: "('k \<times> 'k) list \<Rightarrow> bool" where
  "one_loop es \<longleftrightarrow> (\<forall>x. (x, x) \<notin> joined es) \<and> 3 \<le> length es \<and> (\<forall>x \<in> ends es. card (joined es `` {x}) = 2) \<and>
     length es = card (ends es) \<and> (\<forall>x \<in> ends es. \<forall>y \<in> ends es. (x, y) \<in> (joined es)\<^sup>*)"

lemma joined_star_sym: "(x, y) \<in> (joined es)\<^sup>* \<Longrightarrow> (y, x) \<in> (joined es)\<^sup>*"
  by (rule sym_rtrancl [THEN symD]) (simp add: sym_def joined_sym)

lemma closed_loop_iff: "closed_loop es \<longleftrightarrow> one_loop es"
proof (cases "adjacency es []")
  case None
  then show ?thesis using adjacency_loops [of es "[]"] by (auto simp: closed_loop_def one_loop_def)
next
  case (Some adj)
  have "distinct (jkeys ([] :: 'a neighbours))" "\<And>x. distinct (neighbours_of ([] :: 'a neighbours) x)"
    by (simp_all add: jkeys_def neighbours_of_def)
  note a = adjacency_spec [OF Some this]
  have keys: "set (jkeys adj) = ends es" "distinct (jkeys adj)" and irr: "\<And>x. (x, x) \<notin> joined es"
    and nb: "\<And>x. set (neighbours_of adj x) = joined es `` {x}" "\<And>x. distinct (neighbours_of adj x)"
    using a by (auto simp: jkeys_def neighbours_of_def)
  have R: "{(x, y). y \<in> set (neighbours_of adj x)} = joined es" by (auto simp: nb)
  have len: "length adj = card (ends es)" using keys distinct_card [of "jkeys adj"] by (simp add: jkeys_def)
  have deg: "list_ex (\<lambda>(_, ns). length ns \<noteq> 2) adj \<longleftrightarrow> \<not> (\<forall>x \<in> ends es. card (joined es `` {x}) = 2)"
  proof -
    have m: "(x, ns) \<in> set adj \<longleftrightarrow> jget adj x = Some ns" for x ns
      using keys(2) by (simp add: jget_def jkeys_def)
    have "(\<exists>ns. jget adj x = Some ns \<and> length ns \<noteq> 2) \<longleftrightarrow> x \<in> ends es \<and> card (joined es `` {x}) \<noteq> 2" for x
    proof (cases "jget adj x")
      case None
      then show ?thesis using keys(1) by (metis jkeys_jget option.distinct(1))
    next
      case (Some ns)
      then have "x \<in> ends es" "neighbours_of adj x = ns"
        using keys(1) jkeys_jget [of x adj] by (auto simp: neighbours_of_def)
      then show ?thesis using Some nb [of x] distinct_card [of ns] by auto
    qed
    then have "(\<exists>x ns. (x, ns) \<in> set adj \<and> length ns \<noteq> 2) \<longleftrightarrow> (\<exists>x. x \<in> ends es \<and> card (joined es `` {x}) \<noteq> 2)"
      unfolding m by blast
    then show ?thesis unfolding list_ex_iff by blast
  qed
  show ?thesis
  proof (cases adj)
    case Nil
    then show ?thesis using len Some by (auto simp: closed_loop_def one_loop_def)
  next
    case (Cons f adj')
    obtain a ns where f: "f = (a, ns)" by force
    have aE: "a \<in> ends es" using keys(1) Cons f by (auto simp: jkeys_def)
    have reach: "set (search adj [a] [a]) = (joined es)\<^sup>* `` {a}" "distinct (search adj [a] [a])"
      using search_reaches [of adj a] by (simp_all add: R)
    have sub: "(joined es)\<^sup>* `` {a} \<subseteq> ends es"
    proof
      fix y assume "y \<in> (joined es)\<^sup>* `` {a}"
      then have "(a, y) \<in> (joined es)\<^sup>*" by simp
      then show "y \<in> ends es"
      proof (cases rule: rtranclE)
        case (step z)
        from joined_ends [OF joined_sym [THEN iffD1, OF step(2)]] show ?thesis .
      qed (use aE in simp)
    qed
    have "length (search adj [a] [a]) = length adj \<longleftrightarrow> (joined es)\<^sup>* `` {a} = ends es"
      using distinct_card [OF reach(2)] sub reach(1) len
      by (metis card_subset_eq ends_alt finite_UnI finite_imageI finite_set)
    also have "\<dots> \<longleftrightarrow> (\<forall>x \<in> ends es. \<forall>y \<in> ends es. (x, y) \<in> (joined es)\<^sup>*)"
    proof
      assume e: "(joined es)\<^sup>* `` {a} = ends es"
      show "\<forall>x \<in> ends es. \<forall>y \<in> ends es. (x, y) \<in> (joined es)\<^sup>*"
      proof (intro ballI)
        fix x y assume "x \<in> ends es" "y \<in> ends es"
        then have "(a, x) \<in> (joined es)\<^sup>*" "(a, y) \<in> (joined es)\<^sup>*" unfolding e [symmetric] by simp_all
        then show "(x, y) \<in> (joined es)\<^sup>*" using joined_star_sym rtrancl_trans by metis
      qed
    qed (use sub aE in blast)
    finally have "closed_loop es \<longleftrightarrow> \<not> (length es < 3 \<or> list_ex (\<lambda>(_, ns). length ns \<noteq> 2) adj) \<and>
        (\<forall>x \<in> ends es. \<forall>y \<in> ends es. (x, y) \<in> (joined es)\<^sup>*) \<and> length es = card (ends es)"
      using Some Cons f len by (auto simp: closed_loop_def Let_def)
    then show ?thesis unfolding one_loop_def deg using irr by auto
  qed
qed

section \<open>A loop is a polygon\<close>

definition succ_in :: "nat \<Rightarrow> nat \<Rightarrow> nat" where "succ_in n i = (if Suc i = n then 0 else Suc i)"
definition pred_in :: "nat \<Rightarrow> nat \<Rightarrow> nat" where "pred_in n i = (if i = 0 then n - 1 else i - 1)"

lemma sides_alt: "sides ps = map (\<lambda>i. (ps ! i, ps ! succ_in (length ps) i)) [0..<length ps]"
  by (auto simp: sides_def succ_in_def)

lemma length_sides [simp]: "length (sides ps) = length ps"
  by (simp add: sides_def)

lemma succ_less: "i < n \<Longrightarrow> succ_in n i < n" "i < n \<Longrightarrow> pred_in n i < n"
  by (auto simp: succ_in_def pred_in_def)

lemma succ_pred: "i < n \<Longrightarrow> succ_in n (pred_in n i) = i" "i < n \<Longrightarrow> pred_in n (succ_in n i) = i"
  by (auto simp: succ_in_def pred_in_def)

lemma unordered_sides:
  "unordered ` set (sides ps) = (\<lambda>i. {ps ! i, ps ! succ_in (length ps) i}) ` {..<length ps}"
  by (simp add: sides_alt unordered_def image_image atLeast0LessThan)

lemma joined_sides:
  assumes "distinct ps" "3 \<le> length ps" "i < length ps"
  shows "joined (sides ps) `` {ps ! i} = {ps ! succ_in (length ps) i, ps ! pred_in (length ps) i}"
proof -
  let ?n = "length ps"
  have "y \<in> {ps ! succ_in ?n i, ps ! pred_in ?n i}" if "{ps ! i, y} = {ps ! j, ps ! succ_in ?n j}" "j < ?n" for y j
    using that assms succ_less [of j ?n] succ_pred [of j ?n]
    by (auto simp: doubleton_eq_iff nth_eq_iff_index_eq)
  moreover have "\<exists>j < ?n. {ps ! i, y} = {ps ! j, ps ! succ_in ?n j}"
    if "y \<in> {ps ! succ_in ?n i, ps ! pred_in ?n i}" for y
    using that assms(3) succ_less [of i ?n] succ_pred [of i ?n] by (metis insert_commute insertE singletonD)
  ultimately have "(\<exists>j < ?n. {ps ! i, y} = {ps ! j, ps ! succ_in ?n j}) \<longleftrightarrow>
      y \<in> {ps ! succ_in ?n i, ps ! pred_in ?n i}" for y by blast
  moreover have "(ps ! i, y) \<in> joined (sides ps) \<longleftrightarrow> (\<exists>j < ?n. {ps ! i, y} = {ps ! j, ps ! succ_in ?n j})" for y
    unfolding joined_def unordered_sides by (simp add: image_iff Bex_def)
  ultimately show ?thesis by blast
qed

lemma ends_sides: "ends (sides ps) = set ps"
proof
  show "ends (sides ps) \<subseteq> set ps"
    using succ_less [of _ "length ps"] by (auto simp: ends_def unordered_sides)
  show "set ps \<subseteq> ends (sides ps)"
    by (auto simp: ends_def unordered_sides in_set_conv_nth)
qed

lemma distinct_sides:
  assumes "distinct ps" "3 \<le> length ps"
  shows "distinct (map unordered (sides ps))"
proof -
  let ?n = "length ps"
  have "i = j" if "{ps ! i, ps ! succ_in ?n i} = {ps ! j, ps ! succ_in ?n j}" "i < ?n" "j < ?n" for i j
  proof (rule ccontr)
    assume "i \<noteq> j"
    then have "ps ! i = ps ! succ_in ?n j \<and> ps ! succ_in ?n i = ps ! j"
      using that assms(1) by (auto simp: doubleton_eq_iff nth_eq_iff_index_eq)
    then have "i = succ_in ?n j" "succ_in ?n i = j"
      using that(2,3) assms(1) succ_less(1) by (auto simp: nth_eq_iff_index_eq)
    then show False using that(2,3) assms(2) by (auto simp: succ_in_def split: if_splits)
  qed
  then have "inj_on (\<lambda>i. {ps ! i, ps ! succ_in ?n i}) (set [0..<?n])" by (intro inj_onI) simp
  then have "distinct (map (\<lambda>i. {ps ! i, ps ! succ_in ?n i}) [0..<?n])"
    by (simp only: distinct_map distinct_upt)
  then show ?thesis by (simp add: sides_alt unordered_def o_def)
qed

lemma polygon_one_loop:
  assumes "distinct ps" "3 \<le> length ps" "mset (map unordered es) = mset (map unordered (sides ps))"
  shows "one_loop es"
proof -
  let ?n = "length ps"
  have s: "unordered ` set es = unordered ` set (sides ps)"
    using assms(3) by (metis list.set_map set_mset_mset)
  have j: "joined es = joined (sides ps)" and e: "ends es = set ps"
    using s ends_sides [of ps] by (simp_all add: joined_def ends_def)
  have l: "length es = ?n" using assms(3) by (metis length_map length_sides size_mset)
  have nb: "joined es `` {ps ! i} = {ps ! succ_in ?n i, ps ! pred_in ?n i}" if "i < ?n" for i
    unfolding j by (rule joined_sides [OF assms(1,2) that])
  have deg: "card (joined es `` {ps ! i}) = 2" and irr: "(ps ! i, ps ! i) \<notin> joined es" if "i < ?n" for i
  proof -
    have "succ_in ?n i \<noteq> pred_in ?n i" "succ_in ?n i \<noteq> i" "pred_in ?n i \<noteq> i"
      using that assms(2) by (auto simp: succ_in_def pred_in_def)
    then have "ps ! succ_in ?n i \<noteq> ps ! pred_in ?n i" "ps ! succ_in ?n i \<noteq> ps ! i" "ps ! pred_in ?n i \<noteq> ps ! i"
      using that assms(1) succ_less by (simp_all add: nth_eq_iff_index_eq)
    then show "card (joined es `` {ps ! i}) = 2" "(ps ! i, ps ! i) \<notin> joined es"
      using nb [OF that] by (simp, metis Image_singleton_iff insertE singletonD)
  qed
  have reach: "(ps ! 0, ps ! i) \<in> (joined es)\<^sup>*" if "i < ?n" for i
    using that
  proof (induction i)
    case (Suc i)
    then have "ps ! Suc i \<in> joined es `` {ps ! i}" using nb [of i] by (auto simp: succ_in_def)
    then show ?case using Suc by (auto intro: rtrancl_into_rtrancl)
  qed simp
  have "(x, y) \<in> (joined es)\<^sup>*" if "x \<in> set ps" "y \<in> set ps" for x y
    using that reach joined_star_sym rtrancl_trans by (metis in_set_conv_nth)
  moreover have "(x, x) \<notin> joined es" for x
    using irr joined_ends [of x x es] e by (metis in_set_conv_nth)
  moreover have "card (joined es `` {x}) = 2" if "x \<in> set ps" for x
    using deg that by (metis in_set_conv_nth)
  ultimately show ?thesis
    unfolding one_loop_def using l e assms(1,2) by (simp add: distinct_card)
qed

lemma joined_image: "(\<lambda>(x, y). {x, y}) ` joined es = unordered ` set es"
  by (auto simp: joined_def unordered_def image_iff)

lemma pair_of_two:
  assumes "card S = 2" "x \<in> S" "y \<in> S" "x \<noteq> y"
  shows "S = {x, y}"
proof -
  have "finite S" using assms(1) card.infinite by fastforce
  then show ?thesis using assms by (intro card_subset_eq [symmetric]) auto
qed

text \<open>
  A longest path without repetitions in such a graph goes around: the second neighbour of its last
  point can only be its first one, for the others have their two neighbours on the path.
\<close>

definition chain :: "('k \<times> 'k) list \<Rightarrow> 'k list \<Rightarrow> bool" where
  "chain es p \<longleftrightarrow> p \<noteq> [] \<and> distinct p \<and> set p \<subseteq> ends es \<and> (\<forall>i. Suc i < length p \<longrightarrow> (p ! i, p ! Suc i) \<in> joined es)"

lemma chain_snoc:
  assumes "chain es p" "(last p, z) \<in> joined es" "z \<notin> set p"
  shows "chain es (p @ [z])"
proof -
  have l: "last p = p ! (length p - 1)" using assms(1) by (simp add: chain_def last_conv_nth)
  have "z \<in> ends es" using assms(2) joined_ends joined_sym by metis
  moreover have "((p @ [z]) ! i, (p @ [z]) ! Suc i) \<in> joined es" if "Suc i < length (p @ [z])" for i
  proof (cases "Suc i < length p")
    case False
    then have "i = length p - 1" using that by simp
    then show ?thesis using assms(1,2) l by (simp add: nth_append chain_def)
  qed (use assms(1) in \<open>simp add: nth_append chain_def\<close>)
  ultimately show ?thesis using assms(1,3) by (simp add: chain_def)
qed

lemma longest_chain:
  assumes "ends es \<noteq> {}"
  shows "\<exists>p. chain es p \<and> (\<forall>z. (last p, z) \<in> joined es \<longrightarrow> z \<in> set p)"
proof -
  obtain x where "x \<in> ends es" using assms by blast
  then have one: "chain es [x]" by (simp add: chain_def)
  have "length p < Suc (card (ends es))" if "chain es p" for p
  proof -
    have "finite (ends es)" by (simp add: ends_alt)
    then show ?thesis using that card_mono [of "ends es" "set p"] by (simp add: chain_def distinct_card)
  qed
  then obtain p where p: "chain es p" "\<And>r. chain es r \<Longrightarrow> length r \<le> length p"
    using ex_has_greatest_nat [of "chain es" "[x]" length "Suc (card (ends es))"] one by blast
  have "z \<in> set p" if "(last p, z) \<in> joined es" for z
  proof (rule ccontr)
    assume "z \<notin> set p"
    from p(2) [OF chain_snoc [OF p(1) that this]] show False by simp
  qed
  then show ?thesis using p(1) by blast
qed

lemma chain_goes_around:
  assumes c: "chain es p" and last: "\<And>z. (last p, z) \<in> joined es \<Longrightarrow> z \<in> set p"
    and irr: "\<And>x. (x, x) \<notin> joined es" and two: "\<And>x. x \<in> ends es \<Longrightarrow> card (joined es `` {x}) = 2"
  shows "3 \<le> length p"
    and "i < length p \<Longrightarrow> joined es `` {p ! i} = {p ! succ_in (length p) i, p ! pred_in (length p) i}"
proof -
  let ?n = "length p" and ?nb = "\<lambda>x. joined es `` {x}"
  have ne: "p \<noteq> []" and d: "distinct p" and E: "set p \<subseteq> ends es"
    and step: "\<And>i. Suc i < ?n \<Longrightarrow> (p ! i, p ! Suc i) \<in> joined es" using c by (simp_all add: chain_def)
  have prev: "p ! i \<in> ?nb (p ! Suc i)" and forth: "p ! Suc i \<in> ?nb (p ! i)" if "Suc i < ?n" for i
    using step [OF that] joined_sym [of "p ! i"] by simp_all
  have t: "card (?nb (p ! i)) = 2" if "i < ?n" for i using two E that by (meson nth_mem subset_eq)
  have l: "last p = p ! (?n - 1)" using ne by (simp add: last_conv_nth)
  have n0: "?n - 1 < ?n" using ne by simp
  from t [OF n0] obtain u v where uv: "?nb (last p) = {u, v}" "u \<noteq> v" unfolding l by (metis card_2_iff)
  then have "u \<in> set p" "v \<in> set p" using last by blast+
  moreover have "u \<noteq> last p" "v \<noteq> last p" using uv(1) irr by blast+
  ultimately have "card {u, v, last p} \<le> card (set p)" using ne by (intro card_mono) auto
  then show n3: "3 \<le> ?n" using uv(2) \<open>u \<noteq> last p\<close> \<open>v \<noteq> last p\<close> d by (simp add: distinct_card)
  have inner: "?nb (p ! i) = {p ! Suc i, p ! (i - 1)}" if "0 < i" "Suc i < ?n" for i
    using that d forth [of i] prev [of "i - 1"]
    by (intro pair_of_two t) (simp_all add: nth_eq_iff_index_eq)
  have pre: "p ! (?n - 2) \<in> ?nb (p ! (?n - 1))"
    using prev [of "?n - 2"] n3 by (simp add: Suc_diff_Suc numeral_2_eq_2)
  then obtain z where z: "z \<in> ?nb (p ! (?n - 1))" "z \<noteq> p ! (?n - 2)"
    using uv unfolding l by blast
  then obtain j where j: "j < ?n" "z = p ! j" using last l by (metis Image_singleton_iff in_set_conv_nth)
  have jn: "j \<noteq> ?n - 1" "j \<noteq> ?n - 2" using z irr j by auto
  have j0: "j = 0"
  proof (rule ccontr)
    assume "j \<noteq> 0"
    then have "?nb (p ! j) = {p ! Suc j, p ! (j - 1)}" using j(1) jn by (intro inner) simp_all
    moreover have "p ! (?n - 1) \<in> ?nb (p ! j)" using z(1) j(2) joined_sym [of "p ! j"] by simp
    ultimately have "p ! (?n - 1) = p ! Suc j \<or> p ! (?n - 1) = p ! (j - 1)" by simp
    then have "?n - 1 = Suc j \<or> ?n - 1 = j - 1" using d j(1) jn n0 by (simp add: nth_eq_iff_index_eq)
    then show False using j(1) jn by linarith
  qed
  have end': "?nb (p ! (?n - 1)) = {p ! 0, p ! (?n - 2)}"
    using z j j0 pre by (intro pair_of_two t n0) auto
  have start: "?nb (p ! 0) = {p ! 1, p ! (?n - 1)}"
  proof (rule pair_of_two)
    show "p ! 1 \<in> ?nb (p ! 0)" using forth [of 0] n3 by simp
    show "p ! (?n - 1) \<in> ?nb (p ! 0)" using end' joined_sym [of "p ! 0"] by auto
    show "card (?nb (p ! 0)) = 2" using n3 by (intro t) linarith
    have "?n - 1 < ?n" "1 < ?n" "1 \<noteq> ?n - 1" using n3 by linarith+
    then show "p ! 1 \<noteq> p ! (?n - 1)" using d by (metis nth_eq_iff_index_eq)
  qed
  show "?nb (p ! i) = {p ! succ_in ?n i, p ! pred_in ?n i}" if lt: "i < ?n"
  proof -
    consider "i = 0" | "0 < i" "Suc i < ?n" | "i = ?n - 1" using lt by linarith
    then show ?thesis
    proof cases
      case 3
      then have "Suc i = ?n" "i \<noteq> 0" "pred_in ?n i = ?n - 2" using n3 by (simp_all add: pred_in_def)
      then show ?thesis using 3 end' by (simp add: succ_in_def)
    qed (use start inner n3 in \<open>simp_all add: succ_in_def pred_in_def\<close>)
  qed
qed

lemma one_loop_polygon:
  assumes "one_loop es"
  shows "\<exists>ps. distinct ps \<and> 3 \<le> length ps \<and> mset (map unordered es) = mset (map unordered (sides ps))"
proof -
  have o: "\<And>x. (x, x) \<notin> joined es" "3 \<le> length es" "\<And>x. x \<in> ends es \<Longrightarrow> card (joined es `` {x}) = 2"
    "length es = card (ends es)" "\<And>x y. x \<in> ends es \<Longrightarrow> y \<in> ends es \<Longrightarrow> (x, y) \<in> (joined es)\<^sup>*"
    using assms by (auto simp: one_loop_def)
  have "ends es \<noteq> {}" using o(2,4) by force
  then obtain p where p: "chain es p" "\<And>z. (last p, z) \<in> joined es \<Longrightarrow> z \<in> set p"
    using longest_chain by metis
  note around = chain_goes_around [OF p o(1,3)]
  have d: "distinct p" and E: "set p \<subseteq> ends es" and ne: "p \<noteq> []" using p(1) by (simp_all add: chain_def)
  have closed: "y \<in> set p" if "(p ! 0, y) \<in> (joined es)\<^sup>*" for y
    using that
  proof (induction rule: rtrancl_induct)
    case (step y z)
    then obtain i where i: "i < length p" "y = p ! i" by (metis in_set_conv_nth)
    then have "z \<in> {p ! succ_in (length p) i, p ! pred_in (length p) i}" using step(2) around(2) by blast
    then show ?case using succ_less [OF i(1)] by auto
  qed (use ne in simp)
  have "p ! 0 \<in> ends es" using E ne by auto
  then have ends: "ends es = set p" using closed o(5) E by blast
  have nb: "joined es `` {x} = joined (sides p) `` {x}" for x
  proof (cases "x \<in> set p")
    case True
    then show ?thesis using around joined_sides [OF d] by (metis in_set_conv_nth)
  next
    case False
    then show ?thesis using joined_ends [of x] ends ends_sides [of p] by blast
  qed
  have j: "joined es = joined (sides p)"
    using nb by (intro equalityI subrelI) (metis Image_singleton_iff)+
  then have s: "set (map unordered es) = set (map unordered (sides p))"
    using joined_image [of es] joined_image [of "sides p"] by simp
  have ds: "distinct (map unordered (sides p))" by (rule distinct_sides [OF d around(1)])
  have "card (set (map unordered es)) = length (map unordered es)"
    unfolding s distinct_card [OF ds] using o(4) ends d by (simp add: distinct_card)
  then have "distinct (map unordered es)" by (rule card_distinct)
  then show ?thesis using s ds d around(1) set_eq_iff_mset_eq_distinct by blast
qed

text \<open>Polygons of keys are polygons of points.\<close>

lemma mset_map_inj:
  assumes "inj f" "mset (map (\<lambda>s. f ` unordered s) xs) = mset (map (\<lambda>s. f ` unordered s) ys)"
  shows "mset (map unordered xs) = mset (map unordered ys)"
proof -
  have "f ` unordered s = f ` unordered t \<longleftrightarrow> unordered s = unordered t" for s t :: "'a \<times> 'a"
    using assms(1) by (rule inj_image_eq_iff)
  from mset_map_transfer [of "\<lambda>s. f ` unordered s" unordered, OF this] assms(2) show ?thesis by blast
qed

lemma unordered_keys: "unordered (key_pair s) = pointKey ` unordered s"
  by (simp add: unordered_def key_pair_def)

lemma sides_map: "sides (map f ps) = map (\<lambda>s. (f (fst s), f (snd s))) (sides ps)"
  using succ_less(1) [of _ "length ps"] by (simp add: sides_alt)

text \<open>
  C35: the test for a single closed contour holds exactly for segments that are, in some order and
  direction, the sides of a polygon with at least three different corners.
\<close>

theorem closed_contour_is_polygon:
  "isSingleClosedContour edges \<longleftrightarrow>
     (\<exists>ps. distinct ps \<and> 3 \<le> length ps \<and>
       mset (map unordered (segments_of edges)) = mset (map unordered (sides ps)))"
proof -
  let ?es = "segments_of edges"
  have inj: "inj pointKey" by (rule injI) simp
  have keys: "map unordered (map key_pair xs) = map (\<lambda>s. pointKey ` unordered s) xs" for xs
    by (simp add: unordered_keys)
  have sides_keys: "sides (map pointKey ps) = map key_pair (sides ps)" for ps
    by (simp add: sides_map key_pair_def)
  show ?thesis
  proof
    assume "isSingleClosedContour edges"
    then have "one_loop (map key_pair ?es)" by (simp add: isSingleClosedContour_def closed_loop_iff)
    from one_loop_polygon [OF this] obtain ks where ks: "distinct ks" "3 \<le> length ks"
      "mset (map unordered (map key_pair ?es)) = mset (map unordered (sides ks))" by blast
    have "set ks = \<Union> (set (map unordered (map key_pair ?es)))"
      using ends_sides [of ks] ks(3) unfolding ends_def by (metis set_map set_mset_mset)
    then have "set ks \<subseteq> range pointKey" by (auto simp: unordered_keys)
    then obtain ps where ps: "ks = map pointKey ps" by (metis ex_map_conv image_iff subsetD)
    have "mset (map unordered ?es) = mset (map unordered (sides ps))"
      using ks(3) by (intro mset_map_inj [OF inj]) (simp only: ps sides_keys keys)
    moreover have "distinct ps" using ks(1) ps by (simp add: distinct_map)
    ultimately show "\<exists>ps. distinct ps \<and> 3 \<le> length ps \<and> mset (map unordered ?es) = mset (map unordered (sides ps))"
      using ks(2) ps by auto
  next
    assume "\<exists>ps. distinct ps \<and> 3 \<le> length ps \<and> mset (map unordered ?es) = mset (map unordered (sides ps))"
    then obtain ps where ps: "distinct ps" "3 \<le> length ps"
      "mset (map unordered ?es) = mset (map unordered (sides ps))" by blast
    have "mset (map unordered (map key_pair ?es)) = mset (map unordered (sides (map pointKey ps)))"
      using arg_cong [OF ps(3), of "image_mset (image pointKey)"]
      by (simp add: sides_keys keys multiset.map_comp o_def unordered_keys)
    moreover have "distinct (map pointKey ps)" using ps(1) inj by (simp add: distinct_map inj_on_def)
    ultimately show "isSingleClosedContour edges"
      unfolding isSingleClosedContour_def closed_loop_iff using ps(2) by (intro polygon_one_loop [of "map pointKey ps"]) simp_all
  qed
qed

section \<open>What reconciling does\<close>

definition item_graphic :: "outline_item \<Rightarrow> board_graphic option" where
  "item_graphic x = (case x of Side g \<Rightarrow> Some g | Hole g \<Rightarrow> Some g | FreeVia v \<Rightarrow> None)"

fun graphics_after :: "outline_edit list \<Rightarrow> board_graphic list \<Rightarrow> board_graphic list" where
  "graphics_after [] gs = gs"
| "graphics_after (DeleteEdges ids # es) gs = graphics_after es (filter (\<lambda>g. gr_id g \<notin> set ids) gs)"
| "graphics_after (CreateItems xs # es) gs = graphics_after es (gs @ List.map_filter item_graphic xs)"

text \<open>The part of the boundary this compiler drew.\<close>

definition own_edge :: "board_graphic \<Rightarrow> bool" where
  "own_edge g \<longleftrightarrow> gr_edgeCuts g \<and> is_segment g \<and> gr_generated g"

lemma map_filter_simps [simp]:
  "List.map_filter f [] = []" "List.map_filter f (xs @ ys) = List.map_filter f xs @ List.map_filter f ys"
  "List.map_filter f (x # xs) = (case f x of None \<Rightarrow> List.map_filter f xs | Some y \<Rightarrow> y # List.map_filter f xs)"
  by (simp_all add: map_filter_def split: option.split)

lemma drawn_sides:
  "List.map_filter item_graphic (map Side gs) = gs"
  "List.map_filter item_graphic (map Hole gs) = gs"
  "List.map_filter item_graphic (map FreeVia vs) = []"
  by (induction gs) (simp_all add: item_graphic_def, induction vs, simp_all add: item_graphic_def)

lemma outlineItems_own: "list_all own_edge (outlineItems ps)" "segments_of (outlineItems ps) = sides ps"
  by (auto simp: outlineItems_def own_edge_def is_segment_def segment_of_def list_all_iff)
     (simp add: segments_of_def segment_of_def map_filter_def split_beta o_def)

lemma holes_not_own: "filter own_edge (snd (prefabItems spec)) = []"
  by (auto simp: prefabItems_def Let_def holeItem_def own_edge_def is_segment_def segment_of_def filter_empty_conv)

lemma filter_own: "filter own_edge (outlineItems ps) = outlineItems ps"
  using outlineItems_own(1) [of ps] by (simp add: list_all_iff)

lemma outcome_errors [simp]:
  "\<not> hasErrors (oo_diagnostics (kept_outcome vias has_via))"
  "hasErrors (oo_diagnostics partial_contour)" "hasErrors (oo_diagnostics differing_contour)"
  by (simp_all add: kept_outcome_def no_outcome_def partial_contour_def differing_contour_def
      outline_conflict_def apply_diag_def)

text \<open>
  C11: reconciling the outline. When it reports an error it changes nothing. It deletes nothing but
  segments this compiler drew. And when it reports no error for a source that asks for an outline,
  the boundary it owns afterwards has exactly the sides that were asked for, unless the board had a
  boundary of its own, which then has these sides and stays as it was.
\<close>

theorem outline_reconciled:
  "(case ensureOutline spec shapes has_via of (out, edits) \<Rightarrow>
     (if hasErrors (oo_diagnostics out) then edits = []
      else case outlinePoints spec of
        None \<Rightarrow> edits = []
      | Some ps \<Rightarrow> 3 \<le> length ps \<and>
          (mset (map unordered (segments_of (filter own_edge (graphics_after edits shapes))))
             = mset (map unordered (sides ps)) \<or>
           edits = [] \<and> filter own_edge shapes = [] \<and>
           (\<exists>c. outerSegmentContour (filter is_segment (filter gr_edgeCuts shapes)) = Some c \<and>
             mset (map unordered (segments_of c)) = mset (map unordered (sides ps))))) \<and>
     list_all (\<lambda>g. g \<in> set (graphics_after edits shapes) \<or>
       gr_id g \<in> gr_id ` set (filter own_edge shapes)) shapes)"
proof (cases "outlinePoints spec")
  case None
  then show ?thesis by (simp add: ensureOutline_def no_outcome_def list_all_iff)
next
  case (Some ps)
  obtain vias holes where ph: "prefabItems spec = (vias, holes)" by force
  have h: "filter own_edge holes = []" using holes_not_own [of spec] by (simp add: ph)
  let ?edges = "filter gr_edgeCuts shapes"
  let ?own = "filter gr_generated (filter is_segment ?edges)"
  have own: "?own = filter own_edge shapes" unfolding filter_filter by (rule filter_cong [OF refl]) (auto simp: own_edge_def)
  consider (few) "length ps < 3" | (fresh) "3 \<le> length ps" "?edges = []"
    | (mine) "3 \<le> length ps" "?edges \<noteq> []" "?own \<noteq> []" | (theirs) "3 \<le> length ps" "?edges \<noteq> []" "?own = []"
    by linarith
  then show ?thesis
  proof cases
    case few
    then show ?thesis
      by (simp add: ensureOutline_def Some no_outcome_def apply_diag_def list_all_iff)
  next
    case fresh
    have "filter own_edge shapes = []" using fresh(2) by (auto simp: own_edge_def filter_empty_conv)
    then show ?thesis using fresh
      by (simp add: ensureOutline_def Some ph drawn_sides filter_own h outlineItems_own list_all_iff)
  next
    case mine
    have "filter own_edge (filter (\<lambda>g. gr_id g \<notin> gr_id ` set (filter own_edge shapes)) shapes) = []"
      by (auto simp: filter_empty_conv)
    then show ?thesis using mine(1,2) mine(3) [unfolded own]
      by (auto simp: ensureOutline_def Some ph own Let_def drawn_sides filter_own outlineItems_own list_all_iff
          outline_matches_exact simp del: filter_filter)
  next
    case theirs
    then show ?thesis
      by (auto simp: ensureOutline_def Some ph own Let_def list_all_iff outline_matches_exact
          simp del: filter_filter split: option.splits)
  qed
qed

section \<open>The area of a contour\<close>

definition next_points :: "('k, 'k list) jmap \<Rightarrow> 'k \<Rightarrow> 'k list" where
  "next_points m x = (case jget m x of None \<Rightarrow> [] | Some ns \<Rightarrow> ns)"

definition partners :: "'k \<Rightarrow> ('k \<times> 'k) list \<Rightarrow> 'k list" where
  "partners x es = concat (map (\<lambda>(a, b). (if a = x then [b] else []) @ (if b = x then [a] else [])) es)"

lemma next_connections: "next_points (connections es) x = partners x es"
proof -
  have c: "next_points (connect a b m) x = (if x = a then next_points m x @ [b] else next_points m x)" for a b m
    by (simp add: next_points_def connect_def)
  have "next_points (fold (\<lambda>(a, b) m. connect b a (connect a b m)) es m) x = next_points m x @ partners x es" for m
    by (induction es arbitrary: m) (auto simp: partners_def c)
  then show ?thesis by (simp add: connections_def next_points_def)
qed

lemma partners_mem: "y \<in> set (partners x es) \<longleftrightarrow> (x, y) \<in> joined es"
proof (induction es)
  case (Cons e es)
  obtain a b where e: "e = (a, b)" by force
  have p: "partners x (e # es) = (if a = x then [b] else []) @ (if b = x then [a] else []) @ partners x es"
    by (simp add: e partners_def)
  have "y \<in> set (partners x (e # es)) \<longleftrightarrow> a = x \<and> y = b \<or> b = x \<and> y = a \<or> y \<in> set (partners x es)"
    unfolding p by (cases "a = x"; cases "b = x"; simp)
  moreover have "(x, y) \<in> joined (e # es) \<longleftrightarrow> a = x \<and> y = b \<or> b = x \<and> y = a \<or> (x, y) \<in> joined es"
    unfolding e joined_Cons by (simp only: Un_iff insert_iff prod.inject empty_iff) (metis)
  ultimately show ?case using Cons.IH by metis
qed (simp add: partners_def)

lemma partners_set: "set (partners x es) = joined es `` {x}"
  using partners_mem by (metis Image_singleton_iff set_eqI)

lemma partners_distinct:
  "distinct (map unordered es) \<Longrightarrow> (\<And>x. (x, x) \<notin> joined es) \<Longrightarrow> distinct (partners x es)"
proof (induction es)
  case (Cons e es)
  obtain a b where e: "e = (a, b)" by force
  have irr: "a \<noteq> b" "\<And>x. (x, x) \<notin> joined es" using Cons.prems(2) by (auto simp: e joined_Cons)
  have p: "partners x (e # es) = (if a = x then [b] else []) @ (if b = x then [a] else []) @ partners x es"
    by (simp add: e partners_def)
  have "{a, b} \<notin> unordered ` set es" using Cons.prems(1) by (simp add: e unordered_def)
  then have "(a = x \<longrightarrow> b \<notin> set (partners x es)) \<and> (b = x \<longrightarrow> a \<notin> set (partners x es))"
    by (auto simp: partners_set joined_def insert_commute)
  moreover have "distinct (partners x es)" using Cons irr by simp
  ultimately show ?case unfolding p using irr(1) by (cases "a = x"; cases "b = x") simp_all
qed (simp add: partners_def)

text \<open>A polygon may be read from any corner in either direction.\<close>

lemma sides_subset:
  assumes "distinct ps" "3 \<le> length ps" "distinct rs" "length rs = length ps"
    and "\<And>i. i < length ps \<Longrightarrow> {rs ! i, rs ! succ_in (length ps) i} \<in> unordered ` set (sides ps)"
  shows "mset (map unordered (sides rs)) = mset (map unordered (sides ps))"
proof -
  have d: "distinct (map unordered (sides ps))" "distinct (map unordered (sides rs))"
    using distinct_sides assms(1-4) by metis+
  have "set (map unordered (sides rs)) \<subseteq> set (map unordered (sides ps))"
    using assms(4,5) by (auto simp: unordered_sides)
  moreover have "card (set (map unordered (sides rs))) = card (set (map unordered (sides ps)))"
    using d assms(4) by (simp only: distinct_card length_map length_sides)
  ultimately have "set (map unordered (sides rs)) = set (map unordered (sides ps))"
    by (intro card_subset_eq) simp_all
  then show ?thesis using d set_eq_iff_mset_eq_distinct by blast
qed

lemma mset_turn: "mset (rotate1 xs) = mset xs"
  by (cases xs) simp_all

lemma sides_rotate: "mset (sides (rotate k ps)) = mset (sides ps)"
proof (induction k)
  case (Suc k)
  have "sides (rotate1 rs) = rotate1 (sides rs)" for rs :: "'a list"
  proof (rule nth_equalityI)
    fix i assume "i < length (sides (rotate1 rs))"
    then have i: "i < length rs" by simp
    then have "Suc i mod length rs < length rs" by (intro mod_less_divisor) linarith
    then show "sides (rotate1 rs) ! i = rotate1 (sides rs) ! i"
      using i by (simp add: sides_def nth_rotate1)
  qed simp
  then show ?case using Suc mset_turn [of "sides (rotate k ps)"] by simp
qed simp

lemma sides_rev:
  assumes "distinct ps" "3 \<le> length ps"
  shows "mset (map unordered (sides (rev ps))) = mset (map unordered (sides ps))"
proof (rule sides_subset [OF assms])
  let ?n = "length ps"
  fix i assume i: "i < ?n"
  define j where "j = (if Suc i = ?n then ?n - 1 else ?n - 2 - i)"
  have "j < ?n" "{rev ps ! i, rev ps ! succ_in ?n i} = {ps ! j, ps ! succ_in ?n j}"
    using i assms(2) by (auto simp: j_def succ_in_def rev_nth insert_commute Suc_diff_Suc numeral_2_eq_2)
  then show "{rev ps ! i, rev ps ! succ_in ?n i} \<in> unordered ` set (sides ps)"
    unfolding unordered_sides by blast
qed (use assms in simp_all)

lemma polygon_from:
  assumes "distinct ps" "3 \<le> length ps" "k < length ps" "v \<in> {ps ! succ_in (length ps) k, ps ! pred_in (length ps) k}"
  shows "\<exists>rs. distinct rs \<and> length rs = length ps \<and> rs ! 0 = ps ! k \<and> rs ! 1 = v \<and>
    mset (map unordered (sides rs)) = mset (map unordered (sides ps))"
proof -
  let ?n = "length ps"
  have turn: "\<exists>rs. distinct rs \<and> length rs = ?n \<and> rs ! 0 = qs ! j \<and> rs ! 1 = qs ! succ_in ?n j \<and>
      mset (map unordered (sides rs)) = mset (map unordered (sides qs))"
    if "distinct qs" "length qs = ?n" "j < ?n" for qs :: "'a list" and j
  proof (intro exI conjI)
    show "rotate j qs ! 0 = qs ! j" "rotate j qs ! 1 = qs ! succ_in ?n j"
    proof -
      have l: "0 < length qs" "Suc 0 < length qs" using that(2) assms(2) by linarith+
      show "rotate j qs ! 0 = qs ! j" "rotate j qs ! 1 = qs ! succ_in ?n j"
        using that(2,3) by (simp_all add: nth_rotate [OF l(1)] nth_rotate [OF l(2)] succ_in_def)
    qed
    show "mset (map unordered (sides (rotate j qs))) = mset (map unordered (sides qs))"
      using sides_rotate [of j qs] by simp
  qed (use that in simp_all)
  show ?thesis
  proof (cases "v = ps ! succ_in ?n k")
    case True
    then show ?thesis using turn [OF assms(1) refl assms(3)] by blast
  next
    case False
    have "rev ps ! (?n - 1 - k) = ps ! k" "rev ps ! succ_in ?n (?n - 1 - k) = ps ! pred_in ?n k"
      using assms(2,3) by (auto simp: rev_nth succ_in_def pred_in_def Suc_diff_Suc)
    then show ?thesis
      using turn [of "rev ps" "?n - 1 - k"] False assms sides_rev [OF assms(1,2)] by auto
  qed
qed

text \<open>The walk goes once around.\<close>

lemma walk_around:
  assumes "distinct rs" "3 \<le> length rs"
    and nb: "\<And>i. i < length rs \<Longrightarrow> set (next_points nb (rs ! i)) = {rs ! succ_in (length rs) i, rs ! pred_in (length rs) i}
      \<and> length (next_points nb (rs ! i)) = 2"
    and start: "next_points nb (rs ! 0) ! 0 = rs ! 1"
    and "i < length rs" "length rs \<le> n"
  shows "walk nb (rs ! 0) n (if i = 0 then None else Some (rs ! (i - 1))) (rs ! i) (take i rs) = Some (rs ! 0, rs)"
  using assms(5)
proof (induction "length rs - i" arbitrary: i)
  case (Suc d i)
  let ?n = "length rs" and ?o = "next_points nb (rs ! i)"
  obtain u v where o: "?o = [u, v]" using nb [OF Suc.prems] by (auto simp: length_Suc_conv numeral_2_eq_2)
  have uv: "{u, v} = {rs ! succ_in ?n i, rs ! pred_in ?n i}" using nb [OF Suc.prems] o by simp
  have ne: "rs ! succ_in ?n i \<noteq> rs ! pred_in ?n i"
    using assms(1,2) Suc.prems succ_less [OF Suc.prems]
    by (simp add: nth_eq_iff_index_eq) (auto simp: succ_in_def pred_in_def)
  have step: "(if opt_nth ?o 0 = (if i = 0 then None else Some (rs ! (i - 1))) then opt_nth ?o 1 else opt_nth ?o 0)
      = Some (rs ! succ_in ?n i)"
  proof (cases "i = 0")
    case True
    then show ?thesis using start o assms(2) by (simp add: opt_nth_def succ_in_def)
  next
    case False
    then have "pred_in ?n i = i - 1" by (simp add: pred_in_def)
    then show ?thesis using uv ne o False by (auto simp: opt_nth_def doubleton_eq_iff)
  qed
  have t: "take i rs @ [rs ! i] = take (Suc i) rs" using Suc.prems by (simp add: take_Suc_conv_app_nth)
  show ?case
  proof (cases "Suc i = ?n")
    case True
    then show ?thesis using step t assms(6)
      by (subst walk.simps) (simp add: Let_def next_points_def [symmetric] succ_in_def)
  next
    case False
    then have "Suc i < ?n" using Suc.prems by simp
    moreover have "rs ! Suc i \<noteq> rs ! 0"
      using nth_eq_iff_index_eq [OF assms(1), of "Suc i" 0] calculation assms(2) by linarith
    ultimately show ?thesis using step t assms(6) Suc.hyps(1) [of "Suc i"] Suc.hyps(2)
      by (subst walk.simps) (simp add: Let_def next_points_def [symmetric] succ_in_def)
  qed
qed simp

lemma point_map_get: "p \<in> ends es \<Longrightarrow> jget (point_map es) (pointKey p) = Some p"
proof -
  have keep: "jget (fold (\<lambda>(a, b) m. jput (pointKey b) b (jput (pointKey a) a m)) es m) (pointKey p) = Some p"
    if "jget m (pointKey p) = Some p \<or> p \<in> ends es" for m
    using that
  proof (induction es arbitrary: m)
    case (Cons e es)
    then show ?case by (cases e) (auto simp: ends_Cons)
  qed (simp add: ends_def)
  assume "p \<in> ends es"
  then show ?thesis unfolding point_map_def by (intro keep) simp
qed

lemma point_map_keys: "set (jkeys (point_map es)) = pointKey ` ends es"
proof -
  have "set (jkeys (fold (\<lambda>(a, b) m. jput (pointKey b) b (jput (pointKey a) a m)) es m)) =
      set (jkeys m) \<union> pointKey ` ends es" for m
    by (induction es arbitrary: m) (auto simp: keys_jput ends_Cons, simp_all add: ends_def)
  then show ?thesis by (simp add: point_map_def jkeys_def)
qed

lemma segments_length: "list_all is_segment edges \<Longrightarrow> length (segments_of edges) = length edges"
  by (induction edges) (auto simp: segments_of_def is_segment_def)

lemma list_from_image: "set rs \<subseteq> f ` A \<Longrightarrow> \<exists>ps. rs = map f ps \<and> set ps \<subseteq> A"
proof (induction rs)
  case (Cons r rs)
  then obtain p ps where "r = f p" "p \<in> A" "rs = map f ps" "set ps \<subseteq> A" by auto
  then have "r # rs = map f (p # ps) \<and> set (p # ps) \<subseteq> A" by simp
  then show ?case by (rule exI)
qed simp

text \<open>The polygon the walk reads off the segments of a closed contour.\<close>

lemma contour_walk:
  assumes "one_loop es" "first \<in> ends es" "n = length es"
  shows "\<exists>rs. distinct rs \<and> length rs = n \<and> 3 \<le> n \<and> rs ! 0 = first \<and>
    mset (map unordered es) = mset (map unordered (sides rs)) \<and>
    walk (connections es) first n None first [] = Some (first, rs)"
proof -
  obtain ps where ps: "distinct ps" "3 \<le> length ps" "mset (map unordered es) = mset (map unordered (sides ps))"
    using one_loop_polygon [OF assms(1)] by blast
  have s: "unordered ` set es = unordered ` set (sides qs)" if "mset (map unordered es) = mset (map unordered (sides qs))" for qs
    using that by (metis list.set_map set_mset_mset)
  have n: "length ps = n" using ps(3) assms(3) by (metis length_map length_sides size_mset)
  have "ends es = set ps" using ends_sides [of ps] s [OF ps(3)] by (simp add: ends_def)
  then obtain k where k: "k < length ps" "first = ps ! k" using assms(2) by (metis in_set_conv_nth)
  have irr: "\<And>x. (x, x) \<notin> joined es" using assms(1) by (simp add: one_loop_def)
  have "distinct (map unordered es)"
    using ps(3) distinct_sides [OF ps(1,2)] by (metis mset_eq_imp_distinct_iff)
  then have nb: "distinct (next_points (connections es) x)" "set (next_points (connections es) x) = joined es `` {x}" for x
    using partners_distinct [OF _ irr] by (simp_all add: next_connections partners_set)
  have j: "joined es = joined (sides qs)" if "mset (map unordered es) = mset (map unordered (sides qs))" for qs
    using s [OF that] by (simp add: joined_def)
  let ?v = "next_points (connections es) first ! 0"
  have nb_at: "set (next_points (connections es) (qs ! i)) = {qs ! succ_in n i, qs ! pred_in n i} \<and>
      length (next_points (connections es) (qs ! i)) = 2"
    if "distinct qs" "length qs = n" "i < n" "mset (map unordered es) = mset (map unordered (sides qs))" for qs i
  proof -
    have "set (next_points (connections es) (qs ! i)) = {qs ! succ_in n i, qs ! pred_in n i}"
      unfolding nb(2) j [OF that(4)] using joined_sides [OF that(1), of i] that(2,3) ps(2) n by simp
    moreover have "qs ! succ_in n i \<noteq> qs ! pred_in n i"
      using that(1-3) ps(2) n succ_less [OF that(3)]
      by (simp add: nth_eq_iff_index_eq) (auto simp: succ_in_def pred_in_def)
    ultimately show ?thesis using distinct_card [OF nb(1), of "qs ! i"] by simp
  qed
  have "?v \<in> set (next_points (connections es) first)"
    using nb_at [OF ps(1) n _ ps(3), of k] k n by (intro nth_mem) simp
  then have "?v \<in> {ps ! succ_in (length ps) k, ps ! pred_in (length ps) k}"
    using nb_at [OF ps(1) n _ ps(3), of k] k n by simp
  from polygon_from [OF ps(1,2) k(1) this] obtain rs where
    rs: "distinct rs" "length rs = n" "rs ! 0 = first" "rs ! 1 = ?v"
      "mset (map unordered es) = mset (map unordered (sides rs))"
    using k(2) n ps(3) by metis
  have "walk (connections es) (rs ! 0) n (if (0::nat) = 0 then None else Some (rs ! (0 - 1))) (rs ! 0) (take 0 rs)
      = Some (rs ! 0, rs)"
  proof (rule walk_around)
    show "3 \<le> length rs" "length rs \<le> n" "0 < length rs" using rs(2) ps(2) n by linarith+
    show "next_points (connections es) (rs ! 0) ! 0 = rs ! 1" using rs(3,4) by simp
    show "set (next_points (connections es) (rs ! i)) = {rs ! succ_in (length rs) i, rs ! pred_in (length rs) i} \<and>
      length (next_points (connections es) (rs ! i)) = 2" if "i < length rs" for i
      using nb_at [OF rs(1,2) _ rs(5), of i] that rs(2) by simp
  qed (rule rs(1))
  then show ?thesis using rs ps(2) n by auto
qed

text \<open>
  For a single closed contour the area is the one the shoelace formula gives for a polygon that
  has the contour's segments as its sides; the walk along the segments always closes.
\<close>

theorem contour_area_exact:
  assumes "isSingleClosedContour edges" "list_all is_segment edges"
  shows "\<exists>ps. distinct ps \<and> 3 \<le> length ps \<and>
    mset (map unordered (segments_of edges)) = mset (map unordered (sides ps)) \<and>
    contourArea edges = polygon_area ps"
proof -
  let ?es = "segments_of edges" and ?ks = "map key_pair (segments_of edges)"
  have inj: "inj pointKey" by (rule injI) simp
  have loop: "one_loop ?ks" using assms(1) by (simp add: isSingleClosedContour_def closed_loop_iff)
  have n: "length edges = length ?ks" using segments_length [OF assms(2)] by simp
  have ends: "ends ?ks = pointKey ` ends ?es" by (simp add: ends_alt image_Un image_image key_pair_def)
  have "ends ?ks \<noteq> {}" using loop by (force simp: one_loop_def)
  then have "set (jkeys (point_map ?es)) \<noteq> {}" using point_map_keys ends by simp
  then obtain first p m where m: "point_map ?es = (first, p) # m"
    by (cases "point_map ?es") (auto simp: jkeys_def)
  then have "first \<in> set (jkeys (point_map ?es))" by (simp add: jkeys_def)
  then have first: "first \<in> ends ?ks" using point_map_keys ends by simp
  obtain rs where rs: "distinct rs" "length rs = length edges" "3 \<le> length edges" "rs ! 0 = first"
    "mset (map unordered ?ks) = mset (map unordered (sides rs))"
    "walk (connections ?ks) first (length edges) None first [] = Some (first, rs)"
    using contour_walk [OF loop first n] by metis
  have "set rs = ends ?ks"
    using ends_sides [of rs] rs(5) unfolding ends_def by (metis list.set_map set_mset_mset)
  then have "set rs \<subseteq> pointKey ` ends ?es" using ends by simp
  then obtain ps where ps: "rs = map pointKey ps" "set ps \<subseteq> ends ?es"
    using list_from_image by metis
  have "map (\<lambda>k. the (jget (point_map ?es) k)) rs = ps"
    using ps(2) by (auto simp: ps(1) point_map_get intro!: map_idI)
  then have "contourArea edges = polygon_area ps"
    using rs(2,6) by (simp add: contourArea_def m Let_def)
  moreover have "mset (map unordered ?es) = mset (map unordered (sides ps))"
    using rs(5) by (intro mset_map_inj [OF inj]) (simp add: ps(1) sides_map unordered_keys o_def key_pair_def unordered_def)
  moreover have "distinct ps" using rs(1) ps(1) by (simp add: distinct_map)
  ultimately show ?thesis using rs(2,3) ps(1) by auto
qed

section \<open>The outer contour\<close>

lemma mset_sdel: "distinct s \<Longrightarrow> i \<in> set s \<Longrightarrow> mset s = add_mset i (mset (sdel i s))"
  unfolding sdel_def
proof (induction s)
  case (Cons j s)
  show ?case
  proof (cases "j = i")
    case True
    then have "filter (\<lambda>y. y \<noteq> i) s = s" using Cons.prems(1) by (auto intro: filter_True)
    then show ?thesis using True by simp
  qed (use Cons in auto)
qed simp

lemma take_indexes_mset:
  "take_indexes is (remaining, pending) = (r, p) \<Longrightarrow> distinct remaining \<Longrightarrow>
     mset r + mset p = mset remaining + mset pending \<and> distinct r"
proof (induction "is" arbitrary: remaining pending)
  case (Cons i "is")
  show ?case
  proof (cases "i \<in> set remaining")
    case True
    with Cons.prems have "take_indexes is (sdel i remaining, i # pending) = (r, p)" "distinct (sdel i remaining)"
      by (simp_all add: sdel_def)
    from Cons.IH [OF this] show ?thesis using mset_sdel [OF Cons.prems(2) True] by simp
  qed (use Cons in simp)
qed simp

lemma component_mset:
  "component near remaining pending indexes = (r, is) \<Longrightarrow> distinct remaining \<Longrightarrow>
     mset r + mset is = mset remaining + mset pending + mset indexes \<and> distinct r"
proof (induction near remaining pending indexes rule: component.induct)
  case (2 near remaining i pending indexes)
  obtain r' p' where t: "take_indexes (near i) (remaining, pending) = (r', p')" by force
  from take_indexes_mset [OF t 2(3)]
  have m: "mset r' + mset p' = mset remaining + mset pending" "distinct r'" by simp_all
  have "component near r' p' (indexes @ [i]) = (r, is)" using 2(2) t by simp
  from 2(1) [OF t [symmetric] refl this m(2)]
  have c: "mset r + mset is = mset r' + mset p' + mset (indexes @ [i])" "distinct r" by simp_all
  show ?case unfolding c(1) m(1) using c(2) by simp
qed auto

lemma contours_spec:
  "contours edges near remaining = Some cs \<Longrightarrow> distinct remaining \<Longrightarrow>
     mset (concat cs) = mset (map (\<lambda>i. edges ! i) remaining) \<and> list_all isSingleClosedContour cs"
proof (induction edges near remaining arbitrary: cs rule: contours.induct)
  case (2 edges near first rest)
  obtain r "is" where c: "component near (sdel first rest) [first] [] = (r, is)" by force
  have d: "distinct (sdel first rest)" "sdel first rest = rest"
    using 2(3) by (auto simp: sdel_def intro: filter_True)
  from component_mset [OF c d(1)] have m: "mset r + mset is = mset (first # rest)" "distinct r"
    using d(2) by simp_all
  let ?c = "map (\<lambda>i. edges ! i) is"
  have eq: "contours edges near (first # rest) =
      (if \<not> isSingleClosedContour ?c then None else map_option ((#) ?c) (contours edges near r))"
    unfolding contours.simps(2) c by (simp add: Let_def)
  then have ok: "isSingleClosedContour ?c" using 2(2) by (auto split: if_splits)
  have "map_option ((#) ?c) (contours edges near r) = Some cs" using 2(2) ok unfolding eq by simp
  then obtain cs' where cs': "contours edges near r = Some cs'" "cs = ?c # cs'"
    by (auto simp: map_option_eq_Some)
  have ih: "mset (concat cs') = mset (map (\<lambda>i. edges ! i) r) \<and> list_all isSingleClosedContour cs'"
    by (rule 2(1) [OF c [symmetric] refl refl _ cs'(1) m(2)]) (use ok in simp)
  have "mset (map (\<lambda>i. edges ! i) r) + mset ?c = mset (map (\<lambda>i. edges ! i) (first # rest))"
    using arg_cong [OF m(1), of "image_mset (\<lambda>i. edges ! i)"] by simp
  then show ?case using ih ok by (simp add: cs'(2) add.commute)
qed simp

text \<open>
  The outer contour, when there is one, is one of the contours the edges fall apart into; each
  of them is closed, together they are all the edges, and none has a larger area.
\<close>

theorem outer_contour_largest:
  "case outerSegmentContour edges of
     None \<Rightarrow> True
   | Some c \<Rightarrow> \<exists>cs. mset (concat cs) = mset edges \<and> c \<in> set cs \<and> list_all isSingleClosedContour cs \<and>
       list_all (\<lambda>k. contourArea k \<le> contourArea c) cs"
proof (cases "contours edges (near_indexes edges (edgeIndexesByPoint edges)) [0..<length edges]")
  case (Some cs)
  have s: "mset (concat cs) = mset edges" "list_all isSingleClosedContour cs"
    using contours_spec [OF Some] by (simp_all add: map_nth)
  let ?s = "sort_key (\<lambda>c. - contourArea c) cs"
  show ?thesis
  proof (cases ?s)
    case (Cons c rest)
    have o: "outerSegmentContour edges = Some c"
      using Some Cons by (simp add: outerSegmentContour_def opt_nth_def)
    have "sorted (map (\<lambda>c. - contourArea c) (c # rest))" unfolding Cons [symmetric] by simp
    then have "list_all (\<lambda>k. contourArea k \<le> contourArea c) (c # rest)" by (auto simp: list_all_iff)
    moreover have "set cs = set (c # rest)" unfolding Cons [symmetric] by simp
    ultimately have "list_all (\<lambda>k. contourArea k \<le> contourArea c) cs" "c \<in> set cs" by (simp_all add: list_all_iff)
    then show ?thesis using o s by auto
  qed (use Some in \<open>simp add: outerSegmentContour_def opt_nth_def\<close>)
qed (simp add: outerSegmentContour_def)

section \<open>A sample\<close>

definition demo_edge :: "grid_point \<Rightarrow> grid_point \<Rightarrow> board_graphic" where
  "demo_edge a b = \<lparr>gr_id = ''e'', gr_edgeCuts = True, gr_generated = False, gr_geometry = EdgeSegment a b\<rparr>"

definition demo_contour :: "board_graphic list" where
  "demo_contour = [demo_edge (gp 0 0) (gp 4 0), demo_edge (gp 0 3) (gp 0 0), demo_edge (gp 4 0) (gp 0 3)]"

theorem contour_area_exact_witness:
  "\<exists>ps. distinct ps \<and> mset (map unordered (segments_of demo_contour)) = mset (map unordered (sides ps)) \<and>
     polygon_area ps = 6"
proof -
  have "isSingleClosedContour demo_contour" "list_all is_segment demo_contour" by code_simp+
  from contour_area_exact [OF this] obtain ps where ps: "distinct ps"
    "mset (map unordered (segments_of demo_contour)) = mset (map unordered (sides ps))"
    "contourArea demo_contour = polygon_area ps" by blast
  have "contourArea demo_contour = 6" by code_simp
  then show ?thesis using ps by metis
qed
end
