(* ===== verification/Effects.thy ===== *)
theory Effects
  imports Prelude
begin

text \<open>
  Asynchronous code that sends requests and may fail at any of them: a computation takes the state
  of the world to a new state and a result or an error. \<open>ewp\<close> is its weakest precondition for a
  postcondition on results and one on errors.
\<close>

type_synonym ('s, 'e, 'a) eff = "'s \<Rightarrow> 's \<times> ('e + 'a)"

definition eff_give :: "'a \<Rightarrow> ('s, 'e, 'a) eff" where
  "eff_give x s = (s, Inr x)"

definition eff_fail :: "'e \<Rightarrow> ('s, 'e, 'a) eff" where
  "eff_fail e s = (s, Inl e)"

definition eff_then :: "('s, 'e, 'a) eff \<Rightarrow> ('a \<Rightarrow> ('s, 'e, 'b) eff) \<Rightarrow> ('s, 'e, 'b) eff" where
  "eff_then m f s = (case m s of (s', Inl e) \<Rightarrow> (s', Inl e) | (s', Inr x) \<Rightarrow> f x s')"

definition eff_update :: "('s \<Rightarrow> 's) \<Rightarrow> ('s, 'e, unit) eff" where
  "eff_update f s = (f s, Inr ())"

definition eff_stop_if :: "bool \<Rightarrow> 'e \<Rightarrow> ('s, 'e, unit) eff" where
  "eff_stop_if b e = (if b then eff_fail e else eff_give ())"

definition ewp :: "('s, 'e, 'a) eff \<Rightarrow> ('a \<Rightarrow> 's \<Rightarrow> bool) \<Rightarrow> ('e \<Rightarrow> 's \<Rightarrow> bool) \<Rightarrow> 's \<Rightarrow> bool" where
  "ewp m Q E s = (case m s of (s', Inr x) \<Rightarrow> Q x s' | (s', Inl e) \<Rightarrow> E e s')"

named_theorems ewp_simps

lemma ewp_basic [ewp_simps]:
  "ewp (eff_give x) Q E s = Q x s"
  "ewp (eff_fail e) Q E s = E e s"
  "ewp (eff_update f) R E s = R () (f s)"
  "ewp (eff_stop_if b e) R E s = (if b then E e s else R () s)"
  by (simp_all add: ewp_def eff_give_def eff_fail_def eff_update_def eff_stop_if_def)

lemma ewp_then [ewp_simps]: "ewp (eff_then m f) Q E s = ewp m (\<lambda>x. ewp (f x) Q E) E s"
  by (simp add: ewp_def eff_then_def split: prod.split sum.split)

lemma ewp_branch [ewp_simps]:
  "ewp (if b then m else n) Q E s = (if b then ewp m Q E s else ewp n Q E s)"
  "ewp (case x of None \<Rightarrow> m | Some a \<Rightarrow> f a) Q E s = (case x of None \<Rightarrow> ewp m Q E s | Some a \<Rightarrow> ewp (f a) Q E s)"
  "ewp (case z of (c, d) \<Rightarrow> k c d) Q E s = (case z of (c, d) \<Rightarrow> ewp (k c d) Q E s)"
  "ewp (let v = u in h v) Q E s = (let v = u in ewp (h v) Q E s)"
  by (simp_all split: option.split prod.split add: Let_def)

lemma ewp_mono:
  "ewp m Q E s \<Longrightarrow> (\<And>x t. Q x t \<Longrightarrow> Q' x t) \<Longrightarrow> (\<And>e t. E e t \<Longrightarrow> E' e t) \<Longrightarrow> ewp m Q' E' s"
  by (auto simp: ewp_def split: prod.splits sum.splits)

lemma ewp_both: "ewp m Q E s \<Longrightarrow> ewp m Q' E' s \<Longrightarrow> ewp m (\<lambda>x t. Q x t \<and> Q' x t) (\<lambda>e t. E e t \<and> E' e t) s"
  by (auto simp: ewp_def split: prod.splits sum.splits)

lemma ewp_result: "ewp m Q E s \<longleftrightarrow> (case m s of (s', r) \<Rightarrow> (case r of Inl e \<Rightarrow> E e s' | Inr x \<Rightarrow> Q x s'))"
  by (simp add: ewp_def split: prod.split sum.split)

text \<open>
  A relation between states that every computation of a family respects: reflexive and transitive,
  so that sequences respect it when their parts do.
\<close>

locale eff_order =
  fixes le :: "'s \<Rightarrow> 's \<Rightarrow> bool"
  assumes le_refl: "le s s" and le_trans: "le s t \<Longrightarrow> le t u \<Longrightarrow> le s u"
begin

definition grows :: "('s, 'e, 'a) eff \<Rightarrow> bool" where
  "grows m \<longleftrightarrow> (\<forall>s. le s (fst (m s)))"

lemma grows_give: "grows (eff_give x)"
  by (simp add: grows_def eff_give_def le_refl)

lemma grows_fail: "grows (eff_fail e)"
  by (simp add: grows_def eff_fail_def le_refl)

lemma grows_stop: "grows (eff_stop_if b e)"
  by (simp add: eff_stop_if_def grows_give grows_fail)

lemma grows_then:
  assumes "grows m" "\<And>x. grows (f x)"
  shows "grows (eff_then m f)"
  unfolding grows_def
proof
  fix s
  obtain t r where m: "m s = (t, r)" by force
  have "le s t" using assms(1) m unfolding grows_def by (metis fst_conv)
  moreover have "le t (fst (f x t))" for x using assms(2) unfolding grows_def by blast
  ultimately show "le s (fst (eff_then m f s))"
    using le_trans by (cases r) (auto simp: eff_then_def m)
qed

lemma grows_case: "grows m \<Longrightarrow> (\<And>a. grows (f a)) \<Longrightarrow> grows (case x of None \<Rightarrow> m | Some a \<Rightarrow> f a)"
  by (cases x) simp_all

lemma grows_if: "(b \<Longrightarrow> grows m) \<Longrightarrow> (\<not> b \<Longrightarrow> grows n) \<Longrightarrow> grows (if b then m else n)"
  by simp

end

end
