(* ===== verification/Apply.thy ===== *)
theory Apply
  imports Outline Netlist Effects
begin

text \<open>
  \<open>applyNetlist\<close> (\<open>packages/compile/src/apply.ts\<close>): the netlist written to a file, the dry run, the
  outline, the import, the placement. KiCad is a parameter, one function per request on the state of
  the server; \<open>None\<close> as an answer is a request that fails. Every request is recorded.
\<close>

section \<open>KiCad as the compile sees it\<close>

record import_options =
  io_dryRun :: bool
  io_matchMode :: match_mode
  io_deleteExtraFootprints :: bool
  io_updateFootprints :: bool

record import_answer =
  ia_errorCount :: int
  ia_warningCount :: int
  ia_report :: string

record placed_footprint =
  pf_id :: string
  pf_reference :: string
  pf_position :: grid_point

record board_pad =
  bp_parent :: "string option"
  bp_position :: grid_point

datatype autoplace_answer = AutoplaceThrew string | AutoplaceAnswered bool

datatype compile_stage_name =
    AtFrontend | AtValidating | AtSchematic | AtChecking | AtOutlining | AtImporting | AtPlacing | AtParity

text \<open>What a compile does to the outside, in the order it does it.\<close>

datatype compile_call =
    Stage compile_stage_name
  | WriteNetlist string string
  | UpdateBoard import_options "import_answer option"
  | ReadBoard
  | EditOutline "outline_edit list"
  | AutoplaceFootprints "string list"
  | MoveEdges "board_graphic list"
  | MoveFootprints "(string \<times> grid_point) list"
  | RunFrontend
  | BeforeApply
  | AfterApply

record 'b kicad =
  kc_write :: "string \<Rightarrow> string \<Rightarrow> 'b \<Rightarrow> 'b \<times> unit option"
  kc_updateBoard :: "import_options \<Rightarrow> 'b \<Rightarrow> 'b \<times> import_answer option"
  kc_shapes :: "'b \<Rightarrow> 'b \<times> board_graphic list option"
  kc_hasVia :: "'b \<Rightarrow> 'b \<times> bool option"
  kc_editOutline :: "string \<Rightarrow> outline_edit list \<Rightarrow> 'b \<Rightarrow> 'b \<times> unit option"
  kc_footprintIds :: "'b \<Rightarrow> 'b \<times> string list option"
  kc_footprints :: "'b \<Rightarrow> 'b \<times> placed_footprint list option"
  kc_pads :: "'b \<Rightarrow> 'b \<times> board_pad list option"
  kc_autoplace :: "string list \<Rightarrow> 'b \<Rightarrow> 'b \<times> autoplace_answer"
  kc_boxes :: "string list \<Rightarrow> 'b \<Rightarrow> 'b \<times> box list option"
  kc_moveEdges :: "string \<Rightarrow> board_graphic list \<Rightarrow> 'b \<Rightarrow> 'b \<times> unit option"
  kc_moveFootprints :: "string \<Rightarrow> (string \<times> grid_point) list \<Rightarrow> 'b \<Rightarrow> 'b \<times> unit option"

record 'b world =
  w_server :: 'b
  w_calls :: "compile_call list"

datatype compile_failure = CompileCancelled | RequestFailed

type_synonym ('b, 'a) compiling = "('b world, compile_failure, 'a) eff"

definition request :: "('a option \<Rightarrow> compile_call) \<Rightarrow> ('b \<Rightarrow> 'b \<times> 'a option) \<Rightarrow> ('b, 'a) compiling" where
  "request c f w =
     (case f (w_server w) of (b, r) \<Rightarrow>
        (\<lparr>w_server = b, w_calls = w_calls w @ [c r]\<rparr>,
         case r of None \<Rightarrow> Inl RequestFailed | Some x \<Rightarrow> Inr x))"

definition note_call :: "compile_call \<Rightarrow> ('b, unit) compiling" where
  "note_call c = eff_update (\<lambda>w. w\<lparr>w_calls := w_calls w @ [c]\<rparr>)"

definition read_board :: "('b \<Rightarrow> 'b \<times> 'a option) \<Rightarrow> ('b, 'a) compiling" where
  "read_board f = request (\<lambda>_. ReadBoard) f"

section \<open>Reports\<close>

text \<open>\<open>report.split(/\r?\n/)\<close>\<close>

fun split_lines :: "string \<Rightarrow> string \<Rightarrow> string list" where
  "split_lines acc [] = [rev acc]"
| "split_lines acc [c] = (if c = newline then [rev acc, []] else [rev (c # acc)])"
| "split_lines acc (c # d # cs) =
     (if c = newline then rev acc # split_lines [] (d # cs)
      else if c = CHR 0x0D \<and> d = newline then rev acc # split_lines [] cs
      else split_lines (c # acc) (d # cs))"

definition free_via_warning :: "string \<Rightarrow> bool" where
  "free_via_warning l \<longleftrightarrow> trim l \<in> {''Via connected to unknown net ()'', ''Via connected to unknown net ().''}"

definition with_detail :: "string \<Rightarrow> string \<Rightarrow> string" where
  "with_detail detail line = (if detail = [] then line else line @ newline # detail)"

definition reportDiagnostics :: "string \<Rightarrow> int \<Rightarrow> int \<Rightarrow> diagnostic list" where
  "reportDiagnostics report errorCount warningCount =
     (let lines = split_lines [] report;
          freeVias = length (filter free_via_warning lines);
          detail = trim (join_with newline (filter (\<lambda>l. \<not> free_via_warning l) lines));
          warnings = max 0 (warningCount - int freeVias)
      in if errorCount > 0 then
           [apply_diag ErrorSeverity (with_detail detail (''ImportNetlist reported '' @ show_int errorCount @ '' error(s).''))
              ''import_failed'']
         else if warnings > 0 then
           [apply_diag WarningSeverity (with_detail detail (''ImportNetlist reported '' @ show_int warnings @ '' warning(s).''))
              ''import_warnings'']
         else [])"

section \<open>The inset of the outline\<close>

definition edgeClearanceNm :: "int option \<Rightarrow> num" where
  "edgeClearanceNm d = (case d of None \<Rightarrow> 0 | Some n \<Rightarrow> of_int n)"

text \<open>The least corner of some boxes; nothing when there are none.\<close>

fun least_corner :: "box list \<Rightarrow> point option" where
  "least_corner [] = None"
| "least_corner (b # boxes) =
     Some (case least_corner boxes of
             None \<Rightarrow> pt (bx b) (by' b)
           | Some p \<Rightarrow> pt (min (bx b) (vx p)) (min (by' b) (vy p)))"

definition edges_of :: "board_graphic list \<Rightarrow> board_graphic list" where
  "edges_of shapes = filter gr_edgeCuts shapes"

definition outlineOrigin :: "'b kicad \<Rightarrow> ('b, point option) compiling" where
  "outlineOrigin k =
     eff_then (read_board (kc_shapes k)) (\<lambda>shapes.
     if edges_of shapes = [] then eff_give None
     else eff_then (read_board (kc_boxes k (map gr_id (edges_of shapes)))) (\<lambda>boxes. eff_give (least_corner boxes)))"

definition move_point :: "point \<Rightarrow> grid_point \<Rightarrow> grid_point" where
  "move_point d p = gp (round_nm (of_int (vx p) + vx d)) (round_nm (of_int (vy p) + vy d))"

definition shiftedSegment :: "point \<Rightarrow> board_graphic \<Rightarrow> board_graphic option" where
  "shiftedSegment d e =
     (case gr_geometry e of
        EdgeSegment a b \<Rightarrow> Some (e\<lparr>gr_geometry := EdgeSegment (move_point d a) (move_point d b)\<rparr>)
      | _ \<Rightarrow> None)"

definition inset_by :: "num \<Rightarrow> point \<Rightarrow> point \<Rightarrow> point" where
  "inset_by margin origin corner =
     pt (min 0 (vx corner - margin - vx origin)) (min 0 (vy corner - margin - vy origin))"

definition insetOutline :: "'b kicad \<Rightarrow> string list \<Rightarrow> num \<Rightarrow> ('b, point option) compiling" where
  "insetOutline k ids margin =
     (if ids = [] \<or> margin \<le> 0 then eff_give None
      else eff_then (outlineOrigin k) (\<lambda>origin.
        case origin of None \<Rightarrow> eff_give None
        | Some p \<Rightarrow>
            eff_then (read_board (kc_boxes k ids)) (\<lambda>boxes.
            case least_corner boxes of None \<Rightarrow> eff_give None
            | Some corner \<Rightarrow>
                let d = inset_by margin p corner in
                if vx d = 0 \<and> vy d = 0 then eff_give None
                else eff_then (read_board (kc_shapes k)) (\<lambda>shapes.
                  let moved = List.map_filter (shiftedSegment d) (edges_of shapes) in
                  if length moved \<noteq> length (edges_of shapes) then eff_give None
                  else eff_then (request (\<lambda>_. MoveEdges moved)
                         (kc_moveEdges k ''Compile: edge clearance inset'' moved)) (\<lambda>_. eff_give (Some d))))))"

section \<open>Placement\<close>

text \<open>The sum of the pads of each footprint asked for, and their number.\<close>

definition pad_sum :: "string list \<Rightarrow> board_pad \<Rightarrow> (string, int \<times> int \<times> nat) jmap \<Rightarrow> (string, int \<times> int \<times> nat) jmap" where
  "pad_sum ids pad acc =
     (case bp_parent pad of
        None \<Rightarrow> acc
      | Some parent \<Rightarrow>
          if parent = [] \<or> parent \<notin> set ids then acc
          else (case (case jget acc parent of None \<Rightarrow> (0, 0, 0) | Some s \<Rightarrow> s) of (x, y, n) \<Rightarrow>
            jput parent (x + vx (bp_position pad), y + vy (bp_position pad), n + 1) acc))"

definition pad_centres :: "string list \<Rightarrow> board_pad list \<Rightarrow> (string, point) jmap" where
  "pad_centres ids pads =
     map (\<lambda>(i, x, y, n). (i, pt (of_int x / of_nat n) (of_int y / of_nat n))) (fold (pad_sum ids) pads [])"

definition padCentres :: "'b kicad \<Rightarrow> string list \<Rightarrow> ('b, (string, point) jmap) compiling" where
  "padCentres k ids = eff_then (read_board (kc_pads k)) (\<lambda>pads. eff_give (pad_centres ids pads))"

text \<open>
  What counts as placed: moved, and not on one spot with another. Spots are compared by the text of
  their coordinates, which names a number one to one.
\<close>

definition stacked_ids :: "(string, point) jmap \<Rightarrow> string list" where
  "stacked_ids centres =
     map fst (filter (\<lambda>(i, c). 1 < length (filter (\<lambda>(j, c'). c' = c) centres)) centres)"

definition placed_ids :: "string list \<Rightarrow> (string, point) jmap \<Rightarrow> (string, point) jmap \<Rightarrow> string list" where
  "placed_ids ids centresBefore centresAfter =
     filter (\<lambda>i. case (jget centresBefore i, jget centresAfter i) of
        (Some a, Some b) \<Rightarrow> (vx a \<noteq> vx b \<or> vy a \<noteq> vy b) \<and> i \<notin> set (stacked_ids centresAfter)
      | _ \<Rightarrow> False) ids"

definition unplaced_ids :: "string list \<Rightarrow> (string, point) jmap \<Rightarrow> string list \<Rightarrow> string list" where
  "unplaced_ids ids centresBefore placed = filter (\<lambda>i. jhas centresBefore i \<and> i \<notin> set placed) ids"

text \<open>
  \<open>placeFootprints\<close>: a footprint is moved to where the source says; a reference that is named again
  moves the same footprint on.
\<close>

type_synonym placements = "(string \<times> point) list"

fun moves_to :: "placements \<Rightarrow> (string, placed_footprint) jmap \<Rightarrow> (string \<times> string \<times> grid_point) list" where
  "moves_to [] byReference = []"
| "moves_to ((ref, p) # ps) byReference =
     (case jget byReference ref of
        None \<Rightarrow> moves_to ps byReference
      | Some f \<Rightarrow>
          let target = mm_point (vx p) (vy p);
              delta = gp (vx target - vx (pf_position f)) (vy target - vy (pf_position f))
          in if vx delta = 0 \<and> vy delta = 0 then moves_to ps byReference
             else (pf_reference f, pf_id f, delta)
               # moves_to ps (jput ref (f\<lparr>pf_position := target\<rparr>) byReference))"

text \<open>
  The placements of a source that \<open>validatePlacements\<close> let through; \<open>compile\<close> does not come here
  with others.
\<close>

definition placements_of :: "board_spec option \<Rightarrow> placements" where
  "placements_of spec = List.map_filter
     (\<lambda>p. case (pl_ref p, pl_position p) of
        (Some ref, Some v) \<Rightarrow> (case (vx v, vy v) of (Fin x, Fin y) \<Rightarrow> Some (ref, pt x y) | _ \<Rightarrow> None)
      | _ \<Rightarrow> None)
     (case spec of None \<Rightarrow> [] | Some s \<Rightarrow> bs_placements s)"

definition by_reference :: "placed_footprint list \<Rightarrow> (string, placed_footprint) jmap" where
  "by_reference fs = fold (\<lambda>f. jput (pf_reference f) f) fs []"

definition placeFootprints :: "'b kicad \<Rightarrow> placements \<Rightarrow> ('b, string list) compiling" where
  "placeFootprints k ps =
     (if ps = [] then eff_give []
      else eff_then (read_board (kc_footprints k)) (\<lambda>fs.
        let moved = moves_to ps (by_reference fs); deltas = map snd moved in
        if moved = [] then eff_give []
        else eff_then (request (\<lambda>_. MoveFootprints deltas) (kc_moveFootprints k ''Compile: source placement'' deltas))
               (\<lambda>_. eff_give (map fst moved))))"

section \<open>Applying a netlist\<close>

datatype check_point = AtStart | AfterValidating | AfterBefore | BeforeChecking | BeforeOutlining | BeforeImporting
  | BeforePlacing | BeforeSourcePlacing | BeforeAfterApply

record apply_options =
  ao_netlistPath :: string
  ao_serverNetlistPath :: "string option"
  ao_matchMode :: "match_mode option"
  ao_deleteExtraFootprints :: "bool option"
  ao_updateFootprints :: "bool option"
  ao_board :: "board_spec option"
  ao_autoplace :: bool
  ao_edgeMarginNm :: "num option"
  ao_message :: "string option"
  ao_date :: "string option"

record apply_outcome =
  ap_diagnostics :: "diagnostic list"
  ap_netlistPath :: string
  ap_report :: string
  ap_added :: "string list"
  ap_footprintsAdded :: nat
  ap_footprintsPlaced :: nat
  ap_edgeInset :: "point option"
  ap_viasAdded :: nat
  ap_holesAdded :: nat

definition untouched :: "string \<Rightarrow> diagnostic list \<Rightarrow> string \<Rightarrow> apply_outcome" where
  "untouched serverPath diagnostics report =
     \<lparr>ap_diagnostics = diagnostics, ap_netlistPath = serverPath, ap_report = report, ap_added = [],
      ap_footprintsAdded = 0, ap_footprintsPlaced = 0, ap_edgeInset = None, ap_viasAdded = 0, ap_holesAdded = 0\<rparr>"

definition cancelled :: "(check_point \<Rightarrow> bool) \<Rightarrow> check_point \<Rightarrow> ('b, unit) compiling" where
  "cancelled aborted c = eff_stop_if (aborted c) CompileCancelled"

definition stage :: "compile_stage_name \<Rightarrow> ('b, unit) compiling" where
  "stage s = note_call (Stage s)"

definition update_board :: "'b kicad \<Rightarrow> import_options \<Rightarrow> ('b, import_answer) compiling" where
  "update_board k opts = request (UpdateBoard opts) (kc_updateBoard k opts)"

text \<open>The reconciliation of the outline with its requests; the question about vias is asked only when it matters.\<close>

definition asks_vias :: "board_spec option \<Rightarrow> board_graphic list \<Rightarrow> bool" where
  "asks_vias spec shapes \<longleftrightarrow> fst (prefabItems spec) \<noteq> [] \<and> edges_of shapes \<noteq> [] \<and>
     \<not> hasErrors (oo_diagnostics (fst (ensureOutline spec shapes True)))"

definition reconcile_outline :: "'b kicad \<Rightarrow> board_spec option \<Rightarrow> string option \<Rightarrow> ('b, outline_outcome) compiling" where
  "reconcile_outline k spec message =
     (case outlinePoints spec of
        None \<Rightarrow> eff_give no_outcome
      | Some ps \<Rightarrow>
          if length ps < 3 then eff_give (fst (ensureOutline spec [] True))
          else eff_then (read_board (kc_shapes k)) (\<lambda>shapes.
            let edits = snd (ensureOutline spec shapes True);
                text = (case message of None \<Rightarrow> ''Compile: board outline'' | Some m \<Rightarrow> m) in
            eff_then (if edits = [] then eff_give ()
                      else request (\<lambda>_. EditOutline edits) (kc_editOutline k text edits)) (\<lambda>_.
            if asks_vias spec shapes then
              eff_then (read_board (kc_hasVia k)) (\<lambda>has_via. eff_give (fst (ensureOutline spec shapes has_via)))
            else eff_give (fst (ensureOutline spec shapes True)))))"

definition explicit_ids :: "placements \<Rightarrow> placed_footprint list \<Rightarrow> string list" where
  "explicit_ids ps fs = map pf_id (filter (\<lambda>f. list_ex (\<lambda>p. fst p = pf_reference f) ps) fs)"

definition autoplace_failed :: "string \<Rightarrow> diagnostic" where
  "autoplace_failed message = apply_diag WarningSeverity message ''autoplace_failed''"

text \<open>The block that places what the import added: the number placed, the inset, and what is reported.\<close>

definition autoplace_part ::
  "'b kicad \<Rightarrow> apply_options \<Rightarrow> outline_outcome \<Rightarrow> string list \<Rightarrow>
    ('b, nat \<times> point option \<times> diagnostic list) compiling" where
  "autoplace_part k opts outline autoIds =
     (if ao_autoplace opts \<and> autoIds \<noteq> [] then
        eff_then (padCentres k autoIds) (\<lambda>centresBefore.
        eff_then (request (\<lambda>_. AutoplaceFootprints autoIds)
                   (\<lambda>b. case kc_autoplace k autoIds b of (b', a) \<Rightarrow> (b', Some a))) (\<lambda>answer.
        eff_then (padCentres k autoIds) (\<lambda>centresAfter.
         let placed = placed_ids autoIds centresBefore centresAfter;
             unplaced = unplaced_ids autoIds centresBefore placed;
             n = length placed
         in case answer of
              AutoplaceThrew e \<Rightarrow> eff_give (n, None, [autoplace_failed (''Autoplace failed ('' @ e
                @ ''); the imported footprints were left where the import put them.'')])
            | AutoplaceAnswered ok \<Rightarrow>
                if \<not> ok then eff_give (n, None, [autoplace_failed
                  ''Autoplace did not complete (KiCad reports no board outline or a placement failure).''])
                else if unplaced \<noteq> [] then eff_give (n, None, [apply_diag WarningSeverity
                  (show_int (int (length unplaced)) @ '' of '' @ show_int (int (length autoIds))
                    @ '' imported footprints were not placed: the autoplacer found no room for them on this ''
                    @ ''outline and left them stacked on one spot. Enlarge the board or place them.'')
                  ''autoplace_incomplete''])
                else (case ao_edgeMarginNm opts of
                    None \<Rightarrow> eff_give (n, None, [])
                  | Some margin \<Rightarrow>
                      if margin = 0 then eff_give (n, None, [])
                      else if oo_drew outline \<and> \<not> oo_fixed outline then
                        eff_then (insetOutline k autoIds margin) (\<lambda>d. eff_give (n, d, []))
                      else if oo_fixed outline then eff_give (n, None, [apply_diag WarningSeverity
                        (''Autoplaced footprints are packed into the outline's corner and may sit on the ''
                          @ ''blank's vias or holes; place them before routing.'') ''prefab_placement''])
                      else eff_give (n, None, [apply_diag WarningSeverity
                        (''Autoplaced footprints may sit closer to the existing board outline than the ''
                          @ ''copper-to-edge clearance; move them before DRC.'') ''edge_clearance_unchecked''])))))
      else eff_give (0, None, []))"

definition import_options_of :: "apply_options \<Rightarrow> bool \<Rightarrow> import_options" where
  "import_options_of opts dry =
     \<lparr>io_dryRun = dry,
      io_matchMode = (case ao_matchMode opts of None \<Rightarrow> ByReference | Some m \<Rightarrow> m),
      io_deleteExtraFootprints = (case ao_deleteExtraFootprints opts of None \<Rightarrow> True | Some b \<Rightarrow> b),
      io_updateFootprints = (case ao_updateFootprints opts of None \<Rightarrow> True | Some b \<Rightarrow> b)\<rparr>"

text \<open>After the import: what was created, its placement, the source's own placements.\<close>

definition import_rest ::
  "'b kicad \<Rightarrow> (check_point \<Rightarrow> bool) \<Rightarrow> apply_options \<Rightarrow> placements \<Rightarrow> string \<Rightarrow> outline_outcome \<Rightarrow>
    string list \<Rightarrow> import_answer \<Rightarrow> ('b, apply_outcome) compiling" where
  "import_rest k aborted opts ps serverPath outline before imported =
     eff_then (read_board (kc_footprintIds k)) (\<lambda>after.
     let added = filter (\<lambda>i. i \<notin> set before) after in
     eff_then (if ps = [] then eff_give [] else read_board (kc_footprints k)) (\<lambda>footprints.
     let autoIds = filter (\<lambda>i. i \<notin> set (explicit_ids ps footprints)) added in
     eff_then (if ao_autoplace opts \<and> autoIds \<noteq> [] \<or> ps \<noteq> []
               then eff_then (cancelled aborted BeforePlacing) (\<lambda>_. stage AtPlacing) else eff_give ()) (\<lambda>_.
     eff_then (autoplace_part k opts outline autoIds) (\<lambda>(n, inset, ds).
     eff_then (if ps = [] then eff_give []
               else eff_then (cancelled aborted BeforeSourcePlacing) (\<lambda>_. placeFootprints k ps)) (\<lambda>moved.
     eff_give \<lparr>ap_diagnostics = oo_diagnostics outline
                @ reportDiagnostics (ia_report imported) (ia_errorCount imported) (ia_warningCount imported) @ ds,
               ap_netlistPath = serverPath, ap_report = ia_report imported, ap_added = added,
               ap_footprintsAdded = length added, ap_footprintsPlaced = n + length moved, ap_edgeInset = inset,
               ap_viasAdded = oo_viasAdded outline, ap_holesAdded = oo_holesAdded outline\<rparr>)))))"

definition import_part ::
  "'b kicad \<Rightarrow> (check_point \<Rightarrow> bool) \<Rightarrow> apply_options \<Rightarrow> placements \<Rightarrow> string \<Rightarrow> outline_outcome \<Rightarrow>
    ('b, apply_outcome) compiling" where
  "import_part k aborted opts ps serverPath outline =
     eff_then (cancelled aborted BeforeImporting) (\<lambda>_.
     eff_then (stage AtImporting) (\<lambda>_.
     eff_then (read_board (kc_footprintIds k)) (\<lambda>before.
     eff_then (update_board k (import_options_of opts False)) (\<lambda>imported.
     import_rest k aborted opts ps serverPath outline before imported))))"

text \<open>After a dry run without errors: the outline, then the rest.\<close>

definition apply_checked ::
  "'b kicad \<Rightarrow> (check_point \<Rightarrow> bool) \<Rightarrow> apply_options \<Rightarrow> string \<Rightarrow> import_answer \<Rightarrow> ('b, apply_outcome) compiling" where
  "apply_checked k aborted opts serverPath dry =
     eff_then (cancelled aborted BeforeOutlining) (\<lambda>_.
     eff_then (stage AtOutlining) (\<lambda>_.
     eff_then (reconcile_outline k (ao_board opts) (ao_message opts)) (\<lambda>outline.
     if hasErrors (oo_diagnostics outline) then
       eff_give (untouched serverPath (oo_diagnostics outline) (ia_report dry))
     else import_part k aborted opts (placements_of (ao_board opts)) serverPath outline)))"

definition applyNetlist ::
  "'b kicad \<Rightarrow> string \<Rightarrow> (check_point \<Rightarrow> bool) \<Rightarrow> netlist \<Rightarrow> apply_options \<Rightarrow> ('b, apply_outcome) compiling" where
  "applyNetlist k now aborted n opts =
     (let serverPath = (case ao_serverNetlistPath opts of None \<Rightarrow> ao_netlistPath opts | Some p \<Rightarrow> p);
          content = emitKicadNetlist now n (case ao_date opts of None \<Rightarrow> None | Some d \<Rightarrow> if d = [] then None else Some d)
      in
     eff_then (request (\<lambda>_. WriteNetlist (ao_netlistPath opts) content) (kc_write k (ao_netlistPath opts) content)) (\<lambda>_.
     eff_then (cancelled aborted BeforeChecking) (\<lambda>_.
     eff_then (stage AtChecking) (\<lambda>_.
     eff_then (update_board k (import_options_of opts True)) (\<lambda>dry.
     if ia_errorCount dry > 0 then
       eff_give (untouched serverPath (reportDiagnostics (ia_report dry) (ia_errorCount dry) (ia_warningCount dry)) (ia_report dry))
     else apply_checked k aborted opts serverPath dry)))))"

section \<open>The order of the requests\<close>

text \<open>
  Requests that are more than reading and notes, by their place in a compile. A dry run is one of
  them, and the only one of the apply's first half that reaches the server.
\<close>

fun rank :: "compile_call \<Rightarrow> nat" where
  "rank RunFrontend = 1"
| "rank BeforeApply = 2"
| "rank (WriteNetlist p s) = 3"
| "rank (UpdateBoard opts a) = (if io_dryRun opts then 4 else 6)"
| "rank (EditOutline es) = 5"
| "rank (AutoplaceFootprints ids) = 7"
| "rank (MoveEdges es) = 8"
| "rank (MoveFootprints ms) = 9"
| "rank AfterApply = 10"
| "rank (Stage s) = 0"
| "rank ReadBoard = 0"

definition acts :: "compile_call list \<Rightarrow> nat list" where
  "acts cs = filter (\<lambda>n. 0 < n) (map rank cs)"

text \<open>The requests of a computation have ranks in an interval, each rank at most once and in order.\<close>

definition ranked :: "nat \<Rightarrow> nat \<Rightarrow> ('b, 'a) compiling \<Rightarrow> bool" where
  "ranked lo hi m \<longleftrightarrow> (\<forall>w. \<exists>cs. w_calls (fst (m w)) = w_calls w @ cs \<and>
     sorted_wrt (<) (acts cs) \<and> set (acts cs) \<subseteq> {lo..<hi})"

lemma ranked_quiet [intro]: "ranked lo hi (eff_give x)" "ranked lo hi (eff_fail e)"
  by (simp_all add: ranked_def eff_give_def eff_fail_def acts_def)

lemma ranked_then:
  assumes "ranked lo mid m" "\<And>x. ranked mid hi (f x)" "lo \<le> mid" "mid \<le> hi"
  shows "ranked lo hi (eff_then m f)"
  unfolding ranked_def
proof
  fix w
  obtain w' r where m: "m w = (w', r)" by force
  obtain cs where cs: "w_calls w' = w_calls w @ cs" "sorted_wrt (<) (acts cs)" "set (acts cs) \<subseteq> {lo..<mid}"
    using assms(1) m unfolding ranked_def by (metis fst_conv)
  show "\<exists>cs. w_calls (fst (eff_then m f w)) = w_calls w @ cs \<and> sorted_wrt (<) (acts cs) \<and> set (acts cs) \<subseteq> {lo..<hi}"
  proof (cases r)
    case (Inl e)
    then show ?thesis using m cs assms(4) by (intro exI [of _ cs]) (auto simp: eff_then_def)
  next
    case (Inr x)
    obtain ds where ds: "w_calls (fst (f x w')) = w_calls w' @ ds" "sorted_wrt (<) (acts ds)" "set (acts ds) \<subseteq> {mid..<hi}"
      using assms(2) [of x] unfolding ranked_def by blast
    have "acts (cs @ ds) = acts cs @ acts ds" by (simp add: acts_def)
    then have "sorted_wrt (<) (acts (cs @ ds)) \<and> set (acts (cs @ ds)) \<subseteq> {lo..<hi}"
      using cs(2,3) ds(2,3) assms(3,4) by (auto simp: sorted_wrt_append) (meson atLeastLessThan_iff less_le_trans subsetD)+
    then show ?thesis using m Inr cs(1) ds(1) by (intro exI [of _ "cs @ ds"]) (simp add: eff_then_def)
  qed
qed

lemma ranked_widen: "ranked lo hi m \<Longrightarrow> lo' \<le> lo \<Longrightarrow> hi \<le> hi' \<Longrightarrow> ranked lo' hi' m"
  unfolding ranked_def by (meson atLeastLessThan_iff dual_order.trans less_le_trans subset_iff)

lemma ranked_bind:
  "ranked lo hi m \<Longrightarrow> (\<And>x. ranked hi hi' (f x)) \<Longrightarrow> lo \<le> hi \<Longrightarrow> hi \<le> hi' \<Longrightarrow> ranked lo hi' (eff_then m f)"
  by (rule ranked_then)

text \<open>Steps that make no such request can stand before any.\<close>

definition silent :: "('b, 'a) compiling \<Rightarrow> bool" where
  "silent m \<longleftrightarrow> (\<forall>lo hi. ranked lo hi m)"

lemma silent_then: "silent m \<Longrightarrow> (\<And>x. ranked lo hi (f x)) \<Longrightarrow> lo \<le> hi \<Longrightarrow> ranked lo hi (eff_then m f)"
  by (rule ranked_then [of lo lo]) (simp_all add: silent_def)

lemma then_silent: "ranked lo hi m \<Longrightarrow> (\<And>x. silent (f x)) \<Longrightarrow> lo \<le> hi \<Longrightarrow> ranked lo hi (eff_then m f)"
  by (rule ranked_then [of lo hi]) (simp_all add: silent_def)

lemma silent_both: "silent m \<Longrightarrow> (\<And>x. silent (f x)) \<Longrightarrow> silent (eff_then m f)"
proof -
  assume m: "silent m" and f: "\<And>x. silent (f x)"
  have nil: "\<exists>cs. w_calls (fst (n w)) = w_calls w @ cs \<and> acts cs = []" if n: "silent n" for n :: "('z, 'y) compiling" and w
    using n unfolding silent_def ranked_def by (metis atLeastLessThan_empty empty_subsetI order_refl set_empty subset_antisym)
  show ?thesis
    unfolding silent_def ranked_def
  proof (intro allI)
    fix lo hi w
    obtain w' r where w: "m w = (w', r)" by force
    obtain cs where cs: "w_calls w' = w_calls w @ cs" "acts cs = []" using nil [OF m, of w] w by auto
    show "\<exists>cs. w_calls (fst (eff_then m f w)) = w_calls w @ cs \<and> sorted_wrt (<) (acts cs) \<and> set (acts cs) \<subseteq> {lo..<hi}"
    proof (cases r)
      case (Inr x)
      obtain ds where "w_calls (fst (f x w')) = w_calls w' @ ds" "acts ds = []" using nil [OF f, of x w'] by auto
      then show ?thesis using w Inr cs by (intro exI [of _ "cs @ ds"]) (simp add: eff_then_def acts_def)
    qed (use w cs in \<open>auto simp: eff_then_def\<close>)
  qed
qed

lemma silent_basic [intro, simp]:
  "silent (eff_give x)" "silent (eff_fail e)" "silent (cancelled aborted c)" "silent (stage s)" "silent (read_board f)"
proof -
  show "silent (eff_give x)" "silent (eff_fail e)" by (simp_all add: silent_def ranked_quiet)
  show "silent (cancelled aborted c)" by (simp add: cancelled_def eff_stop_if_def silent_def ranked_quiet)
  show "silent (stage s)" by (auto simp: silent_def ranked_def stage_def note_call_def eff_update_def acts_def)
  show "silent (read_board f)"
    by (auto simp: silent_def ranked_def read_board_def request_def acts_def split: prod.split)
qed

lemma ranked_request: "(\<And>r. rank (c r) = n) \<Longrightarrow> lo \<le> n \<Longrightarrow> n < hi \<Longrightarrow> ranked lo hi (request c f)"
  by (auto simp: ranked_def request_def acts_def split: prod.split)

lemma ranked_if: "(b \<Longrightarrow> ranked lo hi m) \<Longrightarrow> (\<not> b \<Longrightarrow> ranked lo hi n) \<Longrightarrow> ranked lo hi (if b then m else n)"
  by simp

lemma ranked_case: "ranked lo hi m \<Longrightarrow> (\<And>a. ranked lo hi (f a)) \<Longrightarrow> ranked lo hi (case x of None \<Rightarrow> m | Some a \<Rightarrow> f a)"
  by (cases x) simp_all

lemma ranked_silent: "silent m \<Longrightarrow> ranked lo hi m"
  by (simp add: silent_def)

lemma silent_if: "(b \<Longrightarrow> silent m) \<Longrightarrow> (\<not> b \<Longrightarrow> silent n) \<Longrightarrow> silent (if b then m else n)"
  by simp

lemmas ranked_rules = ranked_if ranked_case silent_then ranked_quiet silent_basic

lemma inset_ranked: "ranked 8 9 (insetOutline k ids margin)"
proof -
  have o: "silent (outlineOrigin k)"
    unfolding outlineOrigin_def by (intro silent_both silent_basic silent_if)
  show ?thesis
    unfolding insetOutline_def Let_def
    by (intro ranked_rules o then_silent ranked_request [where n = 8]) simp_all
qed

lemma place_ranked: "ranked 9 10 (placeFootprints k ps)"
  unfolding placeFootprints_def Let_def
  by (intro ranked_rules then_silent ranked_request [where n = 9]) simp_all

lemma reconcile_ranked: "ranked 5 6 (reconcile_outline k spec message)"
proof -
  have q: "silent (if b then eff_then (read_board f) (\<lambda>x. eff_give (g x)) else eff_give y)"
    for b and f :: "'a \<Rightarrow> 'a \<times> bool option" and g :: "bool \<Rightarrow> outline_outcome" and y
    by (intro silent_both silent_basic silent_if)
  show ?thesis
    unfolding reconcile_outline_def Let_def
    by (intro ranked_rules then_silent q ranked_request [where n = 5]) simp_all
qed

lemma autoplace_ranked: "ranked 7 9 (autoplace_part k opts outline ids)"
proof -
  have p: "silent (padCentres k ids)" for ids
    unfolding padCentres_def by (intro silent_both silent_basic)
  have i: "ranked 8 9 (eff_then (insetOutline k ids m) (\<lambda>d. eff_give (g d)))" for m ids g
    by (intro then_silent inset_ranked silent_basic) simp
  have r: "ranked 7 8 (request (\<lambda>_. AutoplaceFootprints ids) f)" for f
    by (rule ranked_request [where n = 7]) simp_all
  show ?thesis
    unfolding autoplace_part_def Let_def
    by (intro ranked_if silent_then p ranked_bind [OF r] ranked_quiet)
       (auto split: autoplace_answer.split option.split intro!: i)
qed

lemma ranked_skip: "silent m \<Longrightarrow> (\<And>x. ranked lo hi (f x)) \<Longrightarrow> lo \<le> hi \<Longrightarrow> ranked lo hi (eff_then m f)"
  by (rule silent_then)

lemma rest_ranked: "ranked 7 10 (import_rest k aborted opts ps path outline before imported)"
proof -
  have s: "silent (if b then eff_then (cancelled aborted c) (\<lambda>_. stage t) else eff_give ())" for b c t
    by (intro silent_if silent_both silent_basic)
  have p: "ranked 9 10 (if ps = [] then eff_give [] else eff_then (cancelled aborted c) (\<lambda>_. placeFootprints k ps))" for c
    by (intro ranked_if silent_then place_ranked silent_basic ranked_quiet) simp
  have r: "silent (if ps = [] then eff_give [] else read_board f)"
    for f :: "'a \<Rightarrow> 'a \<times> placed_footprint list option"
    by (intro silent_if silent_basic)
  show ?thesis
    unfolding import_rest_def Let_def split_beta
    by (intro ranked_skip [OF silent_basic(5)] ranked_skip [OF r] ranked_skip [OF s] ranked_bind [OF autoplace_ranked]
        ranked_bind [OF p] ranked_quiet) simp_all
qed

lemma import_ranked: "ranked 6 10 (import_part k aborted opts ps path outline)"
proof -
  have u: "ranked 6 7 (update_board k (import_options_of opts False))"
    unfolding update_board_def by (rule ranked_request [where n = 6]) (simp_all add: import_options_of_def)
  show ?thesis
    unfolding import_part_def
    by (intro ranked_skip [OF silent_basic(3)] ranked_skip [OF silent_basic(4)] ranked_skip [OF silent_basic(5)]
        ranked_bind [OF u] rest_ranked) simp_all
qed

lemma checked_ranked: "ranked 5 10 (apply_checked k aborted opts p a)"
  unfolding apply_checked_def
  by (intro ranked_skip [OF silent_basic(3)] ranked_skip [OF silent_basic(4)] ranked_bind [OF reconcile_ranked]
      ranked_if ranked_quiet import_ranked) simp_all

lemma apply_ranked: "ranked 3 10 (applyNetlist k now aborted n opts)"
proof -
  have w: "ranked 3 4 (request (\<lambda>_. WriteNetlist p s) f)" for p s f
    by (rule ranked_request [where n = 3]) simp_all
  have d: "ranked 4 5 (update_board k (import_options_of opts True))"
    unfolding update_board_def by (rule ranked_request [where n = 4]) (simp_all add: import_options_of_def)
  have c: "ranked 5 10 (apply_checked k aborted opts p a)" for p a
    by (rule checked_ranked)
  show ?thesis
    unfolding applyNetlist_def Let_def
    by (intro ranked_bind [OF w] ranked_bind [OF d] ranked_skip [OF silent_basic(3)] ranked_skip [OF silent_basic(4)]
        ranked_if ranked_quiet c) simp_all
qed

section \<open>What leaves the board alone\<close>

text \<open>Requests that may change the state of the server.\<close>

definition edits :: "compile_call \<Rightarrow> bool" where
  "edits c \<longleftrightarrow> rank c = 2 \<or> 5 \<le> rank c"

definition kept :: "'b world \<Rightarrow> 'b world \<Rightarrow> bool" where
  "kept w w' \<longleftrightarrow> (\<exists>cs. w_calls w' = w_calls w @ cs \<and> (list_ex edits cs \<or> w_server w' = w_server w))"

text \<open>
  An order on worlds that a note in the list of calls respects: an apply respects it when the requests
  it makes of KiCad do.
\<close>

locale world_order = eff_order le for le :: "'b world \<Rightarrow> 'b world \<Rightarrow> bool" +
  assumes le_note: "le w (w\<lparr>w_calls := w_calls w @ [c]\<rparr>)"
begin

lemma grows_note: "grows (stage s)"
  by (simp add: grows_def stage_def note_call_def eff_update_def le_note)

lemma grows_cancelled: "grows (cancelled aborted c)"
  by (simp add: cancelled_def grows_stop)

lemmas grows_rules = grows_give grows_fail grows_then grows_case grows_if grows_note grows_cancelled

definition requests_grow :: "'b kicad \<Rightarrow> bool" where
  "requests_grow k \<longleftrightarrow>
     grows (read_board (kc_shapes k)) \<and> grows (read_board (kc_hasVia k)) \<and> grows (read_board (kc_footprintIds k)) \<and>
     grows (read_board (kc_footprints k)) \<and> grows (read_board (kc_pads k)) \<and> (\<forall>ids. grows (read_board (kc_boxes k ids))) \<and>
     (\<forall>p s. grows (request (\<lambda>_. WriteNetlist p s) (kc_write k p s))) \<and>
     (\<forall>opts. grows (request (UpdateBoard opts) (kc_updateBoard k opts))) \<and>
     (\<forall>m es. grows (request (\<lambda>_. EditOutline es) (kc_editOutline k m es))) \<and>
     (\<forall>ids. grows (request (\<lambda>_. AutoplaceFootprints ids) (\<lambda>b. case kc_autoplace k ids b of (b', a) \<Rightarrow> (b', Some a)))) \<and>
     (\<forall>m gs. grows (request (\<lambda>_. MoveEdges gs) (kc_moveEdges k m gs))) \<and>
     (\<forall>m ms. grows (request (\<lambda>_. MoveFootprints ms) (kc_moveFootprints k m ms)))"

lemma apply_grows:
  assumes "requests_grow k"
  shows "grows (applyNetlist k now aborted n opts)"
proof -
  have rs: "grows (read_board (kc_shapes k))" "grows (read_board (kc_hasVia k))" "grows (read_board (kc_footprintIds k))"
    "grows (read_board (kc_footprints k))" "grows (read_board (kc_pads k))" "grows (read_board (kc_boxes k ids))"
    "grows (request (\<lambda>_. WriteNetlist p s) (kc_write k p s))" "grows (request (UpdateBoard io) (kc_updateBoard k io))"
    "grows (request (\<lambda>_. EditOutline es) (kc_editOutline k m es))"
    "grows (request (\<lambda>_. AutoplaceFootprints ids) (\<lambda>b. case kc_autoplace k ids b of (b', a) \<Rightarrow> (b', Some a)))"
    "grows (request (\<lambda>_. MoveEdges gs) (kc_moveEdges k m gs))"
    "grows (request (\<lambda>_. MoveFootprints ms) (kc_moveFootprints k m ms))" for ids p s io m es gs ms
    using assms unfolding requests_grow_def by blast+
  have u: "grows (update_board k io)" for io unfolding update_board_def by (rule rs)
  have c: "grows (padCentres k ids)" for ids
    unfolding padCentres_def by (intro grows_rules rs)
  have i: "grows (insetOutline k ids m)" for ids m
    unfolding insetOutline_def outlineOrigin_def Let_def by (intro grows_rules rs)
  have p: "grows (placeFootprints k ps)" for ps
    unfolding placeFootprints_def Let_def by (intro grows_rules rs)
  have o: "grows (reconcile_outline k spec m)" for spec m
    unfolding reconcile_outline_def Let_def by (intro grows_rules rs)
  have a: "grows (autoplace_part k opts outline ids)" for outline ids
    unfolding autoplace_part_def Let_def
    by (intro grows_rules c rs) (auto split: autoplace_answer.split option.split intro!: grows_rules i)
  have t: "grows (import_part k aborted opts ps path outline)" for ps path outline
    unfolding import_part_def import_rest_def Let_def split_beta by (intro grows_rules rs u a p)
  show ?thesis
    unfolding applyNetlist_def apply_checked_def Let_def by (intro grows_rules rs u o t)
qed

end

interpretation keeping: world_order kept
proof
  show "kept w w" for w :: "'b world" by (simp add: kept_def)
  show "kept w u" if "kept w v" "kept v u" for w v u :: "'b world"
  proof -
    from that obtain cs ds where "w_calls v = w_calls w @ cs" "list_ex edits cs \<or> w_server v = w_server w"
      "w_calls u = w_calls v @ ds" "list_ex edits ds \<or> w_server u = w_server v" unfolding kept_def by blast
    then show ?thesis unfolding kept_def by (intro exI [of _ "cs @ ds"]) auto
  qed
  show "kept w (w\<lparr>w_calls := w_calls w @ [c]\<rparr>)" for w :: "'b world" and c
    by (simp add: kept_def)
qed

text \<open>
  What KiCad documents: questions and dry runs leave its documents as they are. The netlist is a file
  beside them.
\<close>

definition reads_only :: "'b kicad \<Rightarrow> bool" where
  "reads_only k \<longleftrightarrow> (\<forall>b. fst (kc_shapes k b) = b \<and> fst (kc_hasVia k b) = b \<and> fst (kc_footprintIds k b) = b \<and>
     fst (kc_footprints k b) = b \<and> fst (kc_pads k b) = b \<and> (\<forall>ids. fst (kc_boxes k ids b) = b) \<and>
     (\<forall>p s. fst (kc_write k p s b) = b) \<and> (\<forall>opts. io_dryRun opts \<longrightarrow> fst (kc_updateBoard k opts b) = b))"

lemma keeping_request:
  fixes f :: "'b \<Rightarrow> 'b \<times> 'a option"
  assumes "(\<forall>r. edits (c r)) \<or> (\<forall>b. fst (f b) = b)"
  shows "keeping.grows (request c f)"
  unfolding keeping.grows_def
proof
  fix w :: "'b world"
  obtain b r where f: "f (w_server w) = (b, r)" by force
  have "list_ex edits [c r] \<or> b = w_server w"
    using assms
  proof
    assume "\<forall>b. fst (f b) = b"
    then have "fst (f (w_server w)) = w_server w" by blast
    then show ?thesis by (simp add: f)
  qed simp
  then show "kept w (fst (request c f w))"
    unfolding kept_def by (intro exI [of _ "[c r]"]) (simp add: request_def f split: option.split)
qed

lemma keeps_requests: "reads_only k \<Longrightarrow> keeping.requests_grow k"
proof -
  assume k: "reads_only k"
  have e: "keeping.grows (request (\<lambda>_. EditOutline es) f)" "keeping.grows (request (\<lambda>_. AutoplaceFootprints ids) g)"
    "keeping.grows (request (\<lambda>_. MoveEdges gs) f)" "keeping.grows (request (\<lambda>_. MoveFootprints ms) f)"
    for es ids gs ms and f :: "'a \<Rightarrow> 'a \<times> unit option" and g :: "'a \<Rightarrow> 'a \<times> autoplace_answer option"
    by (rule keeping_request; simp add: edits_def)+
  have u: "keeping.grows (request (UpdateBoard io) (kc_updateBoard k io))" for io
    using k by (intro keeping_request) (cases "io_dryRun io"; simp add: reads_only_def edits_def)
  show "keeping.requests_grow k"
    unfolding keeping.requests_grow_def read_board_def
    using k by (intro conjI allI e u keeping_request) (simp_all add: reads_only_def)
qed

section \<open>Nothing before a clean dry run\<close>

definition clean_dry_run :: "compile_call \<Rightarrow> bool" where
  "clean_dry_run c = (case c of UpdateBoard opts (Some a) \<Rightarrow> io_dryRun opts \<and> ia_errorCount a \<le> 0 | _ \<Rightarrow> False)"

lemma ewp_request [ewp_simps]:
  "ewp (request c f) Q E w =
     (case f (w_server w) of (b, r) \<Rightarrow>
        (case r of None \<Rightarrow> E RequestFailed \<lparr>w_server = b, w_calls = w_calls w @ [c r]\<rparr>
         | Some x \<Rightarrow> Q x \<lparr>w_server = b, w_calls = w_calls w @ [c r]\<rparr>))"
  by (simp add: ewp_def request_def split: prod.split option.split)

lemma ewp_ranked:
  assumes "ranked lo hi m"
  shows "ewp m (\<lambda>x t. \<exists>cs. w_calls t = w_calls w @ cs) (\<lambda>e t. \<exists>cs. w_calls t = w_calls w @ cs) w"
proof -
  obtain w' r where m: "m w = (w', r)" by force
  obtain cs where "w_calls w' = w_calls w @ cs" using assms m unfolding ranked_def by (metis fst_conv)
  then show ?thesis by (cases r) (auto simp: ewp_def m)
qed

lemma apply_dry_run:
  "\<exists>cs. w_calls (fst (applyNetlist k now aborted n opts w)) = w_calls w @ cs \<and>
     (list_ex (\<lambda>c. 5 \<le> rank c) cs \<longrightarrow> list_ex clean_dry_run cs)"
proof -
  let ?goal = "\<lambda>t. \<exists>cs. w_calls t = w_calls w @ cs \<and> (list_ex (\<lambda>c. 5 \<le> rank c) cs \<longrightarrow> list_ex clean_dry_run cs)"
  have late: "ewp (apply_checked k aborted opts p a) (\<lambda>x. ?goal) (\<lambda>e. ?goal) v"
    if "\<exists>cs. w_calls v = w_calls w @ cs \<and> list_ex clean_dry_run cs" for p a v
  proof -
    have g: "?goal t" if "\<exists>ds. w_calls t = w_calls v @ ds" for t
      using that \<open>\<exists>cs. w_calls v = w_calls w @ cs \<and> list_ex clean_dry_run cs\<close> by auto
    show ?thesis by (rule ewp_mono [OF ewp_ranked [OF checked_ranked]]) (rule g, assumption)+
  qed
  have "ewp (applyNetlist k now aborted n opts) (\<lambda>x. ?goal) (\<lambda>e. ?goal) w"
    unfolding applyNetlist_def cancelled_def stage_def note_call_def update_board_def ewp_simps Let_def
    by (simp add: import_options_of_def clean_dry_run_def late split: prod.split option.split)
  then show ?thesis by (auto simp: ewp_def split: prod.splits sum.splits)
qed

section \<open>What an apply without errors has done\<close>

definition clean_import :: "compile_call \<Rightarrow> bool" where
  "clean_import c = (case c of UpdateBoard opts (Some a) \<Rightarrow> \<not> io_dryRun opts \<and> ia_errorCount a \<le> 0 | _ \<Rightarrow> False)"

lemma ewp_any: "(\<And>x t. Q x t) \<Longrightarrow> ewp m Q (\<lambda>e t. True) w"
  by (simp add: ewp_def split: prod.split sum.split)

lemma report_errors: "hasErrors (reportDiagnostics report e w) \<longleftrightarrow> e > 0"
  by (simp add: reportDiagnostics_def Let_def apply_diag_def)

lemma rest_diagnostics:
  "ewp (import_rest k aborted opts ps path outline before imported)
     (\<lambda>a t. ia_errorCount imported > 0 \<longrightarrow> hasErrors (ap_diagnostics a)) (\<lambda>e t. True) w"
  unfolding import_rest_def ewp_then Let_def split_beta
  by (rule ewp_any, rule ewp_any, rule ewp_any, rule ewp_any, rule ewp_any) (simp add: ewp_simps report_errors)

lemma ewp_errors: "ewp m Q E w \<Longrightarrow> ewp m Q (\<lambda>e t. True) w"
  by (erule ewp_mono) simp_all

lemma import_clean:
  "ewp (import_part k aborted opts ps path outline)
     (\<lambda>a t. \<not> hasErrors (ap_diagnostics a) \<longrightarrow> (\<exists>cs. w_calls t = w_calls w @ cs \<and> list_ex clean_import cs)) (\<lambda>e t. True) w"
proof -
  let ?Q = "\<lambda>(a :: apply_outcome) t. \<not> hasErrors (ap_diagnostics a) \<longrightarrow>
     (\<exists>cs. w_calls t = w_calls w @ cs \<and> list_ex clean_import cs)"
  have late: "ewp (import_rest k aborted opts ps path outline before imported) ?Q (\<lambda>e t. True) v"
    if "\<exists>cs. w_calls v = w_calls w @ cs \<and> (ia_errorCount imported \<le> 0 \<longrightarrow> list_ex clean_import cs)" for before imported v
  proof -
    from that obtain cs where cs: "w_calls v = w_calls w @ cs"
      "ia_errorCount imported \<le> 0 \<longrightarrow> list_ex clean_import cs" by blast
    have g: "?Q a t" if "(\<exists>ds. w_calls t = w_calls v @ ds) \<and> (ia_errorCount imported > 0 \<longrightarrow> hasErrors (ap_diagnostics a))" for a t
      using that cs by (cases "ia_errorCount imported \<le> 0") auto
    show ?thesis
      by (rule ewp_mono [OF ewp_both [OF ewp_ranked [OF rest_ranked] rest_diagnostics]]) (rule g, assumption, simp)
  qed
  show ?thesis
    unfolding import_part_def cancelled_def stage_def note_call_def update_board_def read_board_def ewp_simps
    by (simp add: import_options_of_def clean_import_def late split: prod.split option.split)
qed

lemma apply_imports:
  "ewp (applyNetlist k now aborted n opts)
     (\<lambda>a t. \<not> hasErrors (ap_diagnostics a) \<longrightarrow> (\<exists>cs. w_calls t = w_calls w @ cs \<and> list_ex clean_import cs)) (\<lambda>e t. True) w"
proof -
  let ?Q = "\<lambda>(a :: apply_outcome) t. \<not> hasErrors (ap_diagnostics a) \<longrightarrow>
     (\<exists>cs. w_calls t = w_calls w @ cs \<and> list_ex clean_import cs)"
  have i: "ewp (import_part k aborted opts ps path outline) ?Q (\<lambda>e t. True) v"
    if "\<exists>cs. w_calls v = w_calls w @ cs" for ps path outline v
    using that by (auto intro!: ewp_mono [OF import_clean])
  have c: "ewp (apply_checked k aborted opts path dry) ?Q (\<lambda>e t. True) v" if "\<exists>cs. w_calls v = w_calls w @ cs" for path dry v
  proof -
    have o: "ewp (reconcile_outline k spec m) (\<lambda>x t. \<exists>cs. w_calls t = w_calls w @ cs) (\<lambda>e t. True) u"
      if "\<exists>cs. w_calls u = w_calls w @ cs" for spec m u
      using that by (auto intro!: ewp_mono [OF ewp_ranked [OF reconcile_ranked]])
    show ?thesis
      unfolding apply_checked_def cancelled_def stage_def note_call_def ewp_simps
      using that by (auto intro!: ewp_mono [OF o] i simp: untouched_def)
  qed
  show ?thesis
    unfolding applyNetlist_def cancelled_def stage_def note_call_def update_board_def ewp_simps Let_def
    by (simp add: c untouched_def report_errors split: prod.split option.split)
qed

end
