(* ===== verification/Compile.thy ===== *)
theory Compile
  imports Apply
begin

text \<open>
  \<open>compile\<close> (\<open>packages/compile/src/compile.ts\<close>): frontend, validation, the caller's hook, the apply,
  the caller's second hook. The frontend and the hooks are arguments; the clock is left out.
\<close>

section \<open>Placements\<close>

definition placement_error :: "string \<Rightarrow> string \<Rightarrow> diagnostic" where
  "placement_error message code = diag_at NetlistStage ErrorSeverity message code"

definition finite_position :: "js_number vec2 option \<Rightarrow> bool" where
  "finite_position v = (case v of None \<Rightarrow> False
     | Some p \<Rightarrow> (case (vx p, vy p) of (Fin x, Fin y) \<Rightarrow> True | _ \<Rightarrow> False))"

fun check_placements :: "string list \<Rightarrow> string list \<Rightarrow> nat \<Rightarrow> component_placement list \<Rightarrow> diagnostic list" where
  "check_placements refs seen i [] = []"
| "check_placements refs seen i (p # ps) =
     (let prefix = ''/board/placements/'' @ show_int (int i) in
      case pl_ref p of
        None \<Rightarrow> placement_error (prefix @ '': ref must be a string.'') ''bad_placement''
          # check_placements refs seen (i + 1) ps
      | Some ref \<Rightarrow>
          (if finite_position (pl_position p) then []
           else [placement_error (prefix @ ''/position: use position: {x, y} in mm; x and y must be finite numbers.'')
                   ''bad_placement_position''])
          @ (if ref \<in> set refs then []
             else [placement_error (prefix @ ''/ref: unknown component reference '' @ json_string ref @ ''.'')
                     ''unknown_placement_reference''])
          @ (if ref \<in> set seen
             then [placement_error (prefix @ ''/ref: '' @ json_string ref @ '' is placed more than once.'')
                     ''duplicate_placement_reference''] else [])
          @ check_placements refs (sadd ref seen) (i + 1) ps)"

definition validatePlacements :: "netlist \<Rightarrow> board_spec option \<Rightarrow> diagnostic list" where
  "validatePlacements n spec =
     check_placements (fold sadd (map nc_ref (nl_components n)) []) [] 0
       (case spec of None \<Rightarrow> [] | Some s \<Rightarrow> bs_placements s)"

section \<open>The compile\<close>

definition ZERO :: compile_counts where
  "ZERO = \<lparr>ct_components = 0, ct_nets = 0, ct_footprintsAdded = 0, ct_footprintsPlaced = 0, ct_viasAdded = 0,
     ct_holesAdded = 0\<rparr>"

definition compile_done :: "diagnostic list \<Rightarrow> compile_counts \<Rightarrow> string option \<Rightarrow> compile_result" where
  "compile_done ds counts path =
     \<lparr>cr_ok = (\<not> hasErrors ds), cr_diagnostics = ds, cr_counts = counts,
      cr_netlistPath = (case path of None \<Rightarrow> None | Some p \<Rightarrow> if p = [] then None else Some p)\<rparr>"

text \<open>
  The first hook may edit the netlist in place, as the generator of schematics does; its model hands
  the netlist back.
\<close>

record 'b compile_options =
  co_apply :: apply_options
  co_frontendKind :: string
  co_build :: "compile_source \<Rightarrow> 'b \<Rightarrow> 'b \<times> frontend_result option"
  co_beforeApply :: "(frontend_result \<Rightarrow> 'b \<Rightarrow> 'b \<times> (netlist \<times> diagnostic list) option) option"
  co_afterApply :: "(frontend_result \<Rightarrow> 'b \<Rightarrow> 'b \<times> diagnostic list option) option"

definition frontend_mismatch :: "string \<Rightarrow> string \<Rightarrow> diagnostic" where
  "frontend_mismatch source_kind frontend_kind =
     diag_at FrontendStage ErrorSeverity (''Source is '' @ json_string source_kind
       @ '' but the frontend handles '' @ json_string frontend_kind @ ''.'') ''frontend_mismatch''"

text \<open>The board of the request takes precedence over the frontend's.\<close>

definition board_spec_of :: "'b compile_options \<Rightarrow> frontend_result \<Rightarrow> board_spec option" where
  "board_spec_of opts built =
     (case ao_board (co_apply opts) of Some s \<Rightarrow> Some s | None \<Rightarrow> fr_board built)"

definition run_before :: "'b compile_options \<Rightarrow> frontend_result \<Rightarrow> netlist \<Rightarrow> ('b, netlist \<times> diagnostic list) compiling" where
  "run_before opts built n =
     (case co_beforeApply opts of
        None \<Rightarrow> eff_give (n, [])
      | Some hook \<Rightarrow> eff_then (stage AtSchematic) (\<lambda>_. request (\<lambda>_. BeforeApply) (hook built)))"

definition run_after ::
  "'b compile_options \<Rightarrow> (check_point \<Rightarrow> bool) \<Rightarrow> frontend_result \<Rightarrow> diagnostic list \<Rightarrow> ('b, diagnostic list) compiling" where
  "run_after opts aborted built ds =
     (case co_afterApply opts of
        None \<Rightarrow> eff_give []
      | Some hook \<Rightarrow>
          if hasErrors ds then eff_give []
          else eff_then (cancelled aborted BeforeAfterApply) (\<lambda>_.
               eff_then (stage AtParity) (\<lambda>_. request (\<lambda>_. AfterApply) (hook built))))"

definition applied_counts :: "compile_counts \<Rightarrow> apply_outcome \<Rightarrow> compile_counts" where
  "applied_counts counts a = counts\<lparr>ct_footprintsAdded := ap_footprintsAdded a,
     ct_footprintsPlaced := ap_footprintsPlaced a, ct_viasAdded := ap_viasAdded a, ct_holesAdded := ap_holesAdded a\<rparr>"

text \<open>Everything after the validation.\<close>

definition compile_valid ::
  "'b kicad \<Rightarrow> string \<Rightarrow> (check_point \<Rightarrow> bool) \<Rightarrow> 'b compile_options \<Rightarrow> frontend_result \<Rightarrow> netlist \<Rightarrow>
    compile_counts \<Rightarrow> diagnostic list \<Rightarrow> ('b, compile_result) compiling" where
  "compile_valid k now aborted opts built n counts ds =
     eff_then (cancelled aborted AfterValidating) (\<lambda>_.
     eff_then (run_before opts built n) (\<lambda>(n', es).
     if hasErrors (ds @ es) then eff_give (compile_done (ds @ es) counts None)
     else
     eff_then (cancelled aborted AfterBefore) (\<lambda>_.
     eff_then (applyNetlist k now aborted n' ((co_apply opts)\<lparr>ao_board := board_spec_of opts built\<rparr>)) (\<lambda>a.
     eff_then (run_after opts aborted built (ds @ es @ ap_diagnostics a)) (\<lambda>fs.
     eff_give (compile_done (ds @ es @ ap_diagnostics a @ fs) (applied_counts counts a)
       (Some (ap_netlistPath a))))))))"

definition compile ::
  "'b kicad \<Rightarrow> string \<Rightarrow> (check_point \<Rightarrow> bool) \<Rightarrow> 'b compile_options \<Rightarrow> compile_source \<Rightarrow> ('b, compile_result) compiling" where
  "compile k now aborted opts source =
     eff_then (cancelled aborted AtStart) (\<lambda>_.
     if co_frontendKind opts \<noteq> cs_kind source then
       eff_give (compile_done [frontend_mismatch (cs_kind source) (co_frontendKind opts)] ZERO None)
     else
     eff_then (stage AtFrontend) (\<lambda>_.
     eff_then (request (\<lambda>_. RunFrontend) (co_build opts source)) (\<lambda>built.
     case fr_netlist built of
       None \<Rightarrow> eff_give (compile_done (fr_diagnostics built) ZERO None)
     | Some n \<Rightarrow>
         if hasErrors (fr_diagnostics built) then eff_give (compile_done (fr_diagnostics built) ZERO None)
         else
         let counts = ZERO\<lparr>ct_components := length (nl_components n), ct_nets := length (nl_nets n)\<rparr>;
             ds = fr_diagnostics built @ validateNetlist n @ validatePlacements n (board_spec_of opts built) in
         eff_then (stage AtValidating) (\<lambda>_.
         if hasErrors ds then eff_give (compile_done ds counts None)
         else compile_valid k now aborted opts built n counts ds))))"

section \<open>What passes\<close>

text \<open>Every placement names a component of the netlist, none twice, and a position in numbers.\<close>

definition placed_well :: "string set \<Rightarrow> component_placement list \<Rightarrow> bool" where
  "placed_well refs ps \<longleftrightarrow>
     (\<forall>p \<in> set ps. finite_position (pl_position p) \<and> pl_ref p \<in> Some ` refs) \<and> distinct (map pl_ref ps)"

lemma is_error_placement [simp]: "is_error (placement_error m c)"
  by (simp add: placement_error_def)

lemma check_placements_errors:
  "hasErrors (check_placements refs seen i ps) \<longleftrightarrow>
     \<not> (placed_well (set refs) ps \<and> (\<forall>p \<in> set ps. pl_ref p \<notin> Some ` set seen))"
proof (induction refs seen i ps rule: check_placements.induct)
  case (2 refs seen i p ps)
  show ?case
  proof (cases "pl_ref p")
    case None
    then show ?thesis by (auto simp: placed_well_def)
  next
    case (Some ref)
    have "hasErrors (check_placements refs seen i (p # ps)) \<longleftrightarrow> \<not> finite_position (pl_position p) \<or> ref \<notin> set refs \<or>
        ref \<in> set seen \<or> hasErrors (check_placements refs (sadd ref seen) (i + 1) ps)"
      by (simp add: Some Let_def)
    also have "\<dots> \<longleftrightarrow> \<not> (placed_well (set refs) (p # ps) \<and> (\<forall>q \<in> set (p # ps). pl_ref q \<notin> Some ` set seen))"
      unfolding 2(2) [OF refl Some] by (auto simp: placed_well_def Some) (metis image_eqI)
    finally show ?thesis .
  qed
qed (simp add: placed_well_def)

lemma set_adds: "set (fold sadd xs acc) = set acc \<union> set xs"
  by (induction xs arbitrary: acc) auto

definition placements_ok :: "netlist \<Rightarrow> board_spec option \<Rightarrow> bool" where
  "placements_ok n spec \<longleftrightarrow>
     placed_well (set (map nc_ref (nl_components n))) (case spec of None \<Rightarrow> [] | Some s \<Rightarrow> bs_placements s)"

lemma placements_errors: "hasErrors (validatePlacements n spec) \<longleftrightarrow> \<not> placements_ok n spec"
  unfolding validatePlacements_def check_placements_errors placements_ok_def set_adds by simp

text \<open>What a frontend handed back is good: a netlist, no errors, the rules of the import kept, the placements sound.\<close>

definition accepted :: "'b compile_options \<Rightarrow> frontend_result \<Rightarrow> bool" where
  "accepted opts built \<longleftrightarrow> \<not> hasErrors (fr_diagnostics built) \<and>
     (case fr_netlist built of None \<Rightarrow> False | Some n \<Rightarrow> netlist_ok n \<and> placements_ok n (board_spec_of opts built))"

definition source_accepted :: "'b compile_options \<Rightarrow> compile_source \<Rightarrow> 'b \<Rightarrow> bool" where
  "source_accepted opts source b \<longleftrightarrow> co_frontendKind opts = cs_kind source \<and>
     (case snd (co_build opts source b) of None \<Rightarrow> False | Some built \<Rightarrow> accepted opts built)"

section \<open>The order of a compile\<close>

lemma before_ranked: "ranked 2 3 (run_before opts built n)"
proof -
  have r: "ranked 2 3 (request (\<lambda>_. BeforeApply) f)" for f
    by (rule ranked_request [where n = 2]) simp_all
  show ?thesis
    unfolding run_before_def by (intro ranked_case ranked_quiet ranked_skip [OF silent_basic(4)] r) simp
qed

lemma after_ranked: "ranked 10 11 (run_after opts aborted built ds)"
proof -
  have r: "ranked 10 11 (request (\<lambda>_. AfterApply) f)" for f
    by (rule ranked_request [where n = 10]) simp_all
  show ?thesis
    unfolding run_after_def
    by (intro ranked_case ranked_if ranked_quiet ranked_skip [OF silent_basic(3)] ranked_skip [OF silent_basic(4)] r) simp_all
qed

lemma valid_ranked: "ranked 2 11 (compile_valid k now aborted opts built n counts ds)"
  unfolding compile_valid_def split_beta
  by (intro ranked_skip [OF silent_basic(3)] ranked_bind [OF before_ranked] ranked_if ranked_bind [OF apply_ranked]
      ranked_bind [OF after_ranked] ranked_quiet) simp_all

lemma compile_ranked: "ranked 1 11 (compile k now aborted opts source)"
proof -
  have r: "ranked 1 2 (request (\<lambda>_. RunFrontend) f)" for f
    by (rule ranked_request [where n = 1]) simp_all
  show ?thesis
    unfolding compile_def Let_def
    by (intro ranked_skip [OF silent_basic(3)] ranked_skip [OF silent_basic(4)] ranked_if ranked_quiet
        ranked_bind [OF r] ranked_case valid_ranked) simp_all
qed

section \<open>What a compile has checked\<close>

text \<open>
  The requests of a compile in the right company: nothing that edits the board without a clean dry
  run, nothing after the update without a clean update.
\<close>

definition guarded :: "compile_call list \<Rightarrow> bool" where
  "guarded cs \<longleftrightarrow> (list_ex (\<lambda>c. 5 \<le> rank c) cs \<longrightarrow> list_ex clean_dry_run cs) \<and>
     (list_ex (\<lambda>c. 10 \<le> rank c) cs \<longrightarrow> list_ex clean_import cs)"

definition since :: "(compile_call list \<Rightarrow> bool) \<Rightarrow> 'b world \<Rightarrow> 'b world \<Rightarrow> bool" where
  "since P w t \<longleftrightarrow> (\<exists>cs. w_calls t = w_calls w @ cs \<and> P cs)"

lemma since_trans: "since P w v \<Longrightarrow> since R v t \<Longrightarrow> (\<And>cs ds. P cs \<Longrightarrow> R ds \<Longrightarrow> T (cs @ ds)) \<Longrightarrow> since T w t"
  by (auto simp: since_def)

lemma since_mono: "since P w t \<Longrightarrow> (\<And>cs. P cs \<Longrightarrow> T cs) \<Longrightarrow> since T w t"
  by (auto simp: since_def)

lemma since_and: "since P w t \<Longrightarrow> since R w t \<Longrightarrow> since (\<lambda>cs. P cs \<and> R cs) w t"
  by (auto simp: since_def)

lemma set_acts: "set (acts cs) = {n \<in> rank ` set cs. 0 < n}"
  by (auto simp: acts_def)

lemma ewp_acts:
  assumes "ranked lo hi m"
  shows "ewp m (\<lambda>x. since (\<lambda>cs. set (acts cs) \<subseteq> {lo..<hi}) w) (\<lambda>e. since (\<lambda>cs. set (acts cs) \<subseteq> {lo..<hi}) w) w"
proof -
  obtain w' r where m: "m w = (w', r)" by force
  have "since (\<lambda>cs. set (acts cs) \<subseteq> {lo..<hi}) w w'" using assms m unfolding ranked_def since_def by (metis fst_conv)
  then show ?thesis by (cases r) (auto simp: ewp_def m)
qed

lemma acts_below: "set (acts cs) \<subseteq> {lo..<hi} \<Longrightarrow> hi \<le> n \<Longrightarrow> 0 < n \<Longrightarrow> \<not> list_ex (\<lambda>c. n \<le> rank c) cs"
  by (fastforce simp: set_acts list_ex_iff)

lemma clean_import_rank: "clean_import c \<Longrightarrow> rank c = 6"
  by (auto simp: clean_import_def split: compile_call.splits option.splits)

lemma clean_dry_run_rank: "clean_dry_run c \<Longrightarrow> rank c = 4"
  by (auto simp: clean_dry_run_def split: compile_call.splits option.splits)

definition applied :: "bool \<Rightarrow> compile_call list \<Rightarrow> bool" where
  "applied ok cs \<longleftrightarrow> (list_ex (\<lambda>c. 5 \<le> rank c) cs \<longrightarrow> list_ex clean_dry_run cs) \<and>
     \<not> list_ex (\<lambda>c. 10 \<le> rank c) cs \<and> (ok \<longrightarrow> list_ex clean_dry_run cs \<and> list_ex clean_import cs)"

lemma apply_checks:
  "ewp (applyNetlist k now aborted n opts)
     (\<lambda>a. since (applied (\<not> hasErrors (ap_diagnostics a))) w) (\<lambda>e. since (applied False) w) w"
proof -
  let ?dry = "\<lambda>cs. list_ex (\<lambda>c. 5 \<le> rank c) cs \<longrightarrow> list_ex clean_dry_run cs"
  have d: "ewp (applyNetlist k now aborted n opts) (\<lambda>a. since ?dry w) (\<lambda>e. since ?dry w) w"
    using apply_dry_run [of k now aborted n opts w] by (auto simp: ewp_def since_def split: prod.split sum.split)
  have m: "list_ex clean_import cs \<Longrightarrow> list_ex (\<lambda>c. 5 \<le> rank c) cs" for cs
    by (auto simp: list_ex_iff dest!: clean_import_rank intro!: bexI)
  have g: "since (applied False) w t" if "since ?dry w t" "since (\<lambda>cs. set (acts cs) \<subseteq> {3..<10}) w t" for t
    using that acts_below [of _ 3 10 10] by (auto simp: since_def applied_def)
  have q: "since (applied (\<not> hasErrors ds)) w t"
    if "since (applied False) w t" "\<not> hasErrors ds \<longrightarrow> since (list_ex clean_import) w t" for ds t
    using that m by (auto simp: since_def applied_def)
  show ?thesis
    by (rule ewp_mono [OF ewp_both [OF ewp_both [OF d ewp_acts [OF apply_ranked]] apply_imports]])
      (auto simp: since_def [symmetric] intro!: q g)
qed

lemma before_checks:
  "ewp (run_before opts built n) (\<lambda>x. since (\<lambda>cs. \<not> list_ex (\<lambda>c. 5 \<le> rank c) cs) w)
     (\<lambda>e. since (\<lambda>cs. \<not> list_ex (\<lambda>c. 5 \<le> rank c) cs) w) w"
  by (rule ewp_mono [OF ewp_acts [OF before_ranked]]) (auto elim!: since_mono dest: acts_below [where n = 5])

lemma ewp_give: "ewp (eff_give x) Q E = Q x"
  by (simp add: fun_eq_iff ewp_simps)

lemma ewp_apply:
  assumes "since (\<lambda>cs. \<not> list_ex (\<lambda>c. 5 \<le> rank c) cs) w v"
    and "\<And>a t. since (applied (\<not> hasErrors (ap_diagnostics a))) w t \<Longrightarrow> Q a t"
    and "\<And>e t. since (applied False) w t \<Longrightarrow> E e t"
  shows "ewp (applyNetlist k now aborted n opts) Q E v"
proof -
  have j: "since (applied ok) w t" if "since (applied ok) v t" for ok t
    by (rule since_trans [OF assms(1) that]) (auto simp: applied_def list_ex_iff dest: clean_import_rank clean_dry_run_rank)
  show ?thesis
    by (rule ewp_mono [OF apply_checks]) (rule assms(2), erule j, rule assms(3), erule j)
qed

definition compile_post :: "'b world \<Rightarrow> compile_result \<Rightarrow> 'b world \<Rightarrow> bool" where
  "compile_post w r t \<longleftrightarrow> since guarded w t \<and> cr_ok r = (\<not> hasErrors (cr_diagnostics r)) \<and>
     (cr_ok r \<longrightarrow> since (\<lambda>cs. list_ex clean_dry_run cs \<and> list_ex clean_import cs) w t)"

lemma guarded_below: "\<not> list_ex (\<lambda>c. 5 \<le> rank c) cs \<Longrightarrow> guarded cs"
  by (force simp: guarded_def list_ex_iff)

lemma guarded_applied: "applied ok cs \<Longrightarrow> guarded cs"
  by (simp add: applied_def guarded_def)

lemma guarded_after: "applied True cs \<Longrightarrow> guarded (cs @ ds)"
  by (simp add: applied_def guarded_def)

lemma valid_checks:
  assumes "since (\<lambda>cs. \<not> list_ex (\<lambda>c. 5 \<le> rank c) cs) w v"
  shows "ewp (compile_valid k now aborted opts built n counts ds) (compile_post w) (\<lambda>e. since guarded w) v"
proof -
  have low: "since guarded w t" if "since (\<lambda>cs. \<not> list_ex (\<lambda>c. 5 \<le> rank c) cs) w t" for t :: "'a world"
    using that by (rule since_mono) (rule guarded_below)
  have b: "ewp (run_before opts built n) (\<lambda>x. since (\<lambda>cs. \<not> list_ex (\<lambda>c. 5 \<le> rank c) cs) w)
      (\<lambda>e. since guarded w) v"
    by (rule ewp_mono [OF before_checks])
       (auto intro: low guarded_below elim!: since_trans [OF assms])
  have m: "since P w t" if "since R w t" "\<And>cs. R cs \<Longrightarrow> P cs" for P R and t :: "'a world"
    using that by (rule since_mono)
  have c: "cr_ok (compile_done ds cs p) = (\<not> hasErrors (cr_diagnostics (compile_done ds cs p)))" "cr_diagnostics (compile_done ds cs p) = ds"
    for ds cs p by (simp_all add: compile_done_def)
  have f: "ewp (run_after opts aborted built (d @ es @ as)) (\<lambda>fs. compile_post w (compile_done (d @ es @ as @ fs) cts p))
      (\<lambda>e. since guarded w) t"
    if ap: "since (applied (\<not> hasErrors as)) w t" for d es cts p as t
  proof (cases "hasErrors as")
    case True
    then show ?thesis using ap
      by (auto simp: run_after_def ewp_simps compile_post_def c intro!: m [OF ap] guarded_applied split: option.split)
  next
    case False
    then have t: "since (applied True) w t" using ap by simp
    have u: "since guarded w t' \<and> since (\<lambda>cs. list_ex clean_dry_run cs \<and> list_ex clean_import cs) w t'"
      if "w_calls t' = w_calls t @ cs" for t' :: "'a world" and cs
      using t that by (fastforce simp: since_def applied_def guarded_def)
    have z: "since guarded w t" "since (\<lambda>cs. list_ex clean_dry_run cs \<and> list_ex clean_import cs) w t"
      using u [of t "[]"] by simp_all
    show ?thesis
      by (auto simp: run_after_def cancelled_def stage_def note_call_def ewp_simps compile_post_def c z
          split: option.split prod.split intro!: u [THEN conjunct1] u [THEN conjunct2])
  qed
  have f': "ewp (run_after opts aborted built (d @ es @ as))
      (\<lambda>fs. ewp (eff_give (compile_done (d @ es @ as @ fs) cts p)) (compile_post w) (\<lambda>e. since guarded w))
      (\<lambda>e. since guarded w) t"
    if "since (applied (\<not> hasErrors as)) w t" for d es cts p as t
    using f [OF that] by (simp add: ewp_give)
  have h: "compile_post w (compile_done es cts p) t"
    if "since (\<lambda>cs. \<not> list_ex (\<lambda>c. 5 \<le> rank c) cs) w t" "hasErrors es" for es cts p t
    using low [OF that(1)] that(2) by (simp add: compile_post_def c)
  have a: "since guarded w t" if "since (applied ok) w t" for ok and t :: "'a world"
    using that by (rule since_mono) (rule guarded_applied)
  show ?thesis
    unfolding compile_valid_def ewp_then split_beta
    using low [OF assms]
    by (auto simp: cancelled_def ewp_simps intro: low a intro!: ewp_mono [OF b] ewp_apply f' h)
qed

text \<open>A frontend that breaks its contract: no netlist, and no error either.\<close>

definition silent_frontend :: "'b compile_options \<Rightarrow> compile_source \<Rightarrow> 'b \<Rightarrow> bool" where
  "silent_frontend opts source b \<longleftrightarrow>
     (case snd (co_build opts source b) of None \<Rightarrow> False
      | Some built \<Rightarrow> fr_netlist built = None \<and> \<not> hasErrors (fr_diagnostics built))"

definition quiet_since :: "'b world \<Rightarrow> 'b world \<Rightarrow> bool" where
  "quiet_since = since (\<lambda>cs. \<not> list_ex (\<lambda>c. 2 \<le> rank c) cs)"

definition checked_post :: "'b compile_options \<Rightarrow> compile_source \<Rightarrow> 'b world \<Rightarrow> compile_result \<Rightarrow> 'b world \<Rightarrow> bool" where
  "checked_post opts source w r t \<longleftrightarrow>
     since guarded w t \<and> cr_ok r = (\<not> hasErrors (cr_diagnostics r)) \<and>
     (if source_accepted opts source (w_server w)
      then cr_ok r \<longrightarrow> since (\<lambda>cs. list_ex clean_dry_run cs \<and> list_ex clean_import cs) w t
      else (cr_ok r \<longrightarrow> silent_frontend opts source (w_server w)) \<and> quiet_since w t)"

lemma compile_checks:
  "ewp (compile k now aborted opts source) (checked_post opts source w)
     (\<lambda>e t. since guarded w t \<and> (source_accepted opts source (w_server w) \<or> quiet_since w t)) w"
    (is "ewp _ ?Q ?E w")
proof -
  have low: "since guarded w t" if "quiet_since w t" for t :: "'a world"
    using that unfolding quiet_since_def by (rule since_mono) (force simp: guarded_def list_ex_iff)
  have refuse: "?Q (compile_done es cts p) t"
    if "quiet_since w t" "\<not> source_accepted opts source (w_server w)" "hasErrors es \<or> silent_frontend opts source (w_server w)"
    for es cts p t
    using low [OF that(1)] that by (auto simp: checked_post_def compile_done_def)
  have v: "ewp (compile_valid k now aborted opts built n cts ds) ?Q (\<lambda>e. since guarded w) t"
    if "quiet_since w t" "source_accepted opts source (w_server w)" for built n cts ds t
  proof -
    have "since (\<lambda>cs. \<not> list_ex (\<lambda>c. 5 \<le> rank c) cs) w t"
      using that(1) unfolding quiet_since_def by (rule since_mono) (force simp: list_ex_iff)
    then show ?thesis
      by (rule ewp_mono [OF valid_checks]) (simp_all add: that(2) compile_post_def checked_post_def)
  qed
  have n: "quiet_since w \<lparr>w_server = b, w_calls = w_calls w @ cs\<rparr>" if "\<not> list_ex (\<lambda>c. 2 \<le> rank c) cs" for b cs
    using that by (simp add: since_def quiet_since_def)
  have z: "quiet_since w w" by (simp add: since_def quiet_since_def)
  note early = low [OF n] low [OF z]
  show ?thesis
    unfolding compile_def cancelled_def stage_def note_call_def Let_def
    by (auto simp: ewp_simps n z early validate_errors placements_errors accepted_def source_accepted_def silent_frontend_def
        frontend_mismatch_def split: prod.split option.split intro!: refuse intro!: v n)
qed

section \<open>What a compile respects\<close>

context world_order
begin

lemma compile_grows:
  assumes "requests_grow k"
    and "grows (request (\<lambda>_. RunFrontend) (co_build opts source))"
    and "\<And>h built. co_beforeApply opts = Some h \<Longrightarrow> grows (request (\<lambda>_. BeforeApply) (h built))"
    and "\<And>h built. co_afterApply opts = Some h \<Longrightarrow> grows (request (\<lambda>_. AfterApply) (h built))"
  shows "grows (compile k now aborted opts source)"
proof -
  have b: "grows (run_before opts built n)" for built n
    unfolding run_before_def
    by (cases "co_beforeApply opts") (auto intro!: grows_then grows_give grows_note assms(3))
  have a: "grows (run_after opts aborted built ds)" for built ds
    unfolding run_after_def
    by (cases "co_afterApply opts") (auto intro!: grows_then grows_give grows_note grows_cancelled grows_if assms(4))
  have v: "grows (compile_valid k now aborted opts built n cts ds)" for built n cts ds
    unfolding compile_valid_def split_beta by (intro grows_rules a b apply_grows [OF assms(1)])
  show ?thesis
    unfolding compile_def Let_def by (intro grows_rules assms(2) v)
qed

end

text \<open>
  What a positive verdict says of the hooks: \<open>P\<close> holds after a first hook without errors, the apply keeps it,
  and \<open>Q\<close> holds after a second hook without errors that started with \<open>P\<close>.
\<close>

lemma ewp_err: "ewp m Q E v \<Longrightarrow> (\<And>x t. Q x t \<Longrightarrow> Q' x t) \<Longrightarrow> ewp m Q' (\<lambda>e t. True) v"
  by (erule ewp_mono) simp_all

lemma compile_hooks:
  fixes k :: "'b kicad"
  assumes before: "\<And>built n v. ewp (run_before opts built n) (\<lambda>x t. hasErrors (snd x) \<or> P (w_server t)) (\<lambda>e t. True) v"
    and apply_keeps: "\<And>n ao v. P (w_server v) \<Longrightarrow>
      ewp (applyNetlist k now aborted n ao) (\<lambda>a t. P (w_server t)) (\<lambda>e t. True) v"
    and after: "\<And>built ds v. P (w_server v) \<Longrightarrow> \<not> hasErrors ds \<Longrightarrow>
      ewp (run_after opts aborted built ds) (\<lambda>fs t. hasErrors fs \<or> Q (w_server t)) (\<lambda>e t. True) v"
  shows "ewp (compile k now aborted opts source)
     (\<lambda>r t. cr_ok r \<longrightarrow> silent_frontend opts source (w_server w) \<or> Q (w_server t)) (\<lambda>e t. True) w"
proof -
  have ok: "cr_ok (compile_done ds cs p) = (\<not> hasErrors ds)" for ds cs p by (simp add: compile_done_def)
  have a: "ewp (run_after opts aborted built (ds @ es @ as)) (\<lambda>fs t. \<not> hasErrors (ds @ es @ as @ fs) \<longrightarrow> Q (w_server t)) (\<lambda>e t. True) v"
    if "P (w_server v)" for built ds es as v
  proof (cases "hasErrors (ds @ es @ as)")
    case True
    then show ?thesis by (auto simp: ewp_def split: prod.split sum.split)
  next
    case False
    show ?thesis by (rule ewp_err [OF after [OF that False]]) auto
  qed
  have v: "ewp (compile_valid k now aborted opts built n cts ds) (\<lambda>r t. cr_ok r \<longrightarrow> Q (w_server t)) (\<lambda>e t. True) v"
    for built n cts ds v
    unfolding compile_valid_def cancelled_def ewp_simps split_beta ewp_give ok
    by (auto intro!: ewp_err [OF before] ewp_err [OF apply_keeps] ewp_err [OF a] split: if_splits)
  have v': "ewp (compile_valid k now aborted opts built n cts ds) (\<lambda>r t. cr_ok r \<longrightarrow> S \<or> Q (w_server t)) (\<lambda>e t. True) v"
    for built n cts ds v S
    by (rule ewp_err [OF v]) simp
  show ?thesis
    unfolding compile_def cancelled_def stage_def note_call_def Let_def
    by (auto simp: ewp_simps ok frontend_mismatch_def silent_frontend_def split: prod.split option.split intro!: v')
qed
text \<open>
  C1: the order is the contract. For every behaviour of KiCad, the frontend, the hooks and the caller's
  abort signal, the requests of a compile come in the fixed order frontend, hook, netlist file, dry
  run, outline, import, autoplacement, inset, source placement, second hook, none twice. Anything
  beyond the frontend is requested only for a source whose netlist keeps every rule of the import
  and whose placements are sound; anything from the outline on only after a dry run without errors;
  the second hook only after an import without errors.
\<close>

theorem compile_order:
  "\<exists>cs. w_calls (fst (compile k now aborted opts source w)) = w_calls w @ cs \<and> sorted_wrt (<) (acts cs) \<and>
     (if list_ex (\<lambda>c. 2 \<le> rank c) cs then source_accepted opts source (w_server w) else True) \<and>
     (if list_ex (\<lambda>c. 5 \<le> rank c) cs then list_ex clean_dry_run cs else True) \<and>
     (if list_ex (\<lambda>c. rank c = 10) cs then list_ex clean_import cs else True)"
proof -
  let ?t = "fst (compile k now aborted opts source w)"
  obtain cs where cs: "w_calls ?t = w_calls w @ cs" "sorted_wrt (<) (acts cs)"
    using compile_ranked [of k now aborted opts source] unfolding ranked_def by blast
  have "since guarded w ?t \<and> (source_accepted opts source (w_server w) \<or> quiet_since w ?t)"
    using compile_checks [of k now aborted opts source w]
    by (auto simp: ewp_result checked_post_def split: prod.splits sum.splits if_splits)
  then have "guarded cs" "source_accepted opts source (w_server w) \<or> \<not> list_ex (\<lambda>c. 2 \<le> rank c) cs"
    using cs by (auto simp: since_def quiet_since_def)
  moreover have "list_ex (\<lambda>c. 10 \<le> rank c) cs" if "list_ex (\<lambda>c. rank c = 10) cs"
    using that by (force simp: list_ex_iff)
  ultimately show ?thesis using cs unfolding guarded_def by (intro exI [of _ cs]) (auto simp del: list_ex_iff)
qed

text \<open>
  What the verdict of a compile means. It is positive exactly when no diagnostic is an error, and
  then the netlist, the placements, a dry run and the import were all without errors, unless the
  frontend broke its contract by giving neither a netlist nor an error.
\<close>

theorem compile_verdict:
  "case compile k now aborted opts source w of (t, r) \<Rightarrow>
     (case r of Inl e \<Rightarrow> True
      | Inr res \<Rightarrow> cr_ok res = (\<not> hasErrors (cr_diagnostics res)) \<and>
          (if cr_ok res \<and> \<not> silent_frontend opts source (w_server w)
           then source_accepted opts source (w_server w) \<and>
             (\<exists>cs. w_calls t = w_calls w @ cs \<and> list_ex clean_dry_run cs \<and> list_ex clean_import cs)
           else True))"
  using compile_checks [of k now aborted opts source w]
  by (auto simp: ewp_result checked_post_def since_def split: prod.splits sum.splits if_splits)

section \<open>A board that is left alone\<close>

lemma compile_keeps:
  assumes "reads_only k" "\<And>b. fst (co_build opts source b) = b"
  shows "keeping.grows (compile k now aborted opts source)"
  by (rule keeping.compile_grows [OF keeps_requests [OF assms(1)]]; rule keeping_request; simp add: assms(2) edits_def)

lemma clean_or_hook: "guarded cs \<Longrightarrow> list_ex edits cs \<Longrightarrow> list_ex (\<lambda>c. c = BeforeApply) cs \<or> list_ex clean_dry_run cs"
proof -
  assume g: "guarded cs" and e: "list_ex edits cs"
  have "rank c = 2 \<Longrightarrow> c = BeforeApply" for c by (cases c) (auto split: if_splits)
  then show ?thesis using g e by (auto simp: edits_def guarded_def list_ex_iff)
qed
text \<open>A server that counts its edits, with a clean dry run and an import that reports some errors.\<close>

definition counting_kicad :: "int \<Rightarrow> nat kicad" where
  "counting_kicad errors =
     \<lparr>kc_write = (\<lambda>p s b. (b, Some ())),
      kc_updateBoard = (\<lambda>opts b. if io_dryRun opts then (b, Some \<lparr>ia_errorCount = 0, ia_warningCount = 0, ia_report = []\<rparr>)
         else (b + 1, Some \<lparr>ia_errorCount = errors, ia_warningCount = 0, ia_report = []\<rparr>)),
      kc_shapes = (\<lambda>b. (b, Some [])), kc_hasVia = (\<lambda>b. (b, Some False)),
      kc_editOutline = (\<lambda>m es b. (b + 1, Some ())),
      kc_footprintIds = (\<lambda>b. (b, Some [])), kc_footprints = (\<lambda>b. (b, Some [])), kc_pads = (\<lambda>b. (b, Some [])),
      kc_autoplace = (\<lambda>ids b. (b + 1, AutoplaceAnswered True)), kc_boxes = (\<lambda>ids b. (b, Some [])),
      kc_moveEdges = (\<lambda>m es b. (b + 1, Some ())), kc_moveFootprints = (\<lambda>m ms b. (b + 1, Some ()))\<rparr>"

definition plain_options :: "frontend_result \<Rightarrow> 'b compile_options" where
  "plain_options built =
     \<lparr>co_apply = \<lparr>ao_netlistPath = ''n.net'', ao_serverNetlistPath = None, ao_matchMode = None,
        ao_deleteExtraFootprints = None, ao_updateFootprints = None, ao_board = None, ao_autoplace = False,
        ao_edgeMarginNm = None, ao_message = None, ao_date = None\<rparr>,
      co_frontendKind = ''circuit'', co_build = (\<lambda>source b. (b, Some built)), co_beforeApply = None, co_afterApply = None\<rparr>"

definition empty_built :: "diagnostic list \<Rightarrow> frontend_result" where
  "empty_built ds = \<lparr>fr_netlist = Some \<lparr>nl_components = [], nl_nets = [], nl_noConnects = [], nl_design = None\<rparr>,
     fr_board = None, fr_libraries = [], fr_diagnostics = ds\<rparr>"

definition no_source :: compile_source where
  "no_source = \<lparr>cs_kind = ''circuit'', cs_files = [], cs_entrypoint = []\<rparr>"

lemma plain_build: "co_build (plain_options built) source b = (b, Some built)"
  by (simp add: plain_options_def)

lemma counting_reads_only: "reads_only (counting_kicad n)"
  by (simp add: reads_only_def counting_kicad_def)

text \<open>
  C21: whether the board is touched. On a server whose questions and dry runs leave the documents as
  they are, and with a frontend that does not touch the server, the documents can be different after
  a compile only if the source was accepted, and then only after the first hook ran or a dry run was
  clean; a compile that a frontend, the validation or the dry run stops leaves them exactly as they
  were.
\<close>

theorem compile_untouched:
  assumes "reads_only k" "\<And>b. fst (co_build opts source b) = b"
  shows "\<exists>cs. w_calls (fst (compile k now aborted opts source w)) = w_calls w @ cs \<and>
     (if w_server (fst (compile k now aborted opts source w)) = w_server w then True
      else source_accepted opts source (w_server w) \<and> (list_ex (\<lambda>c. c = BeforeApply) cs \<or> list_ex clean_dry_run cs))"
proof -
  let ?t = "fst (compile k now aborted opts source w)"
  obtain cs where cs: "w_calls ?t = w_calls w @ cs" "list_ex edits cs \<or> w_server ?t = w_server w"
    using compile_keeps [OF assms, of now aborted] unfolding keeping.grows_def kept_def by blast
  have "since guarded w ?t \<and> (source_accepted opts source (w_server w) \<or> quiet_since w ?t)"
    using compile_checks [of k now aborted opts source w]
    by (auto simp: ewp_result checked_post_def split: prod.splits sum.splits if_splits)
  then have "guarded cs" "source_accepted opts source (w_server w) \<or> \<not> list_ex edits cs"
    using cs by (auto simp: since_def quiet_since_def edits_def list_ex_iff)
  then show ?thesis using cs clean_or_hook by (intro exI [of _ cs]) auto
qed

theorem compile_untouched_witness:
  "w_server (fst (compile (counting_kicad 0) [] (\<lambda>_. False) (plain_options (empty_built [placement_error [] []])) no_source
     \<lparr>w_server = 0, w_calls = []\<rparr>)) = 0"
proof -
  let ?opts = "plain_options (empty_built [placement_error [] []]) :: nat compile_options"
  have "\<not> source_accepted ?opts no_source 0"
    by (simp add: source_accepted_def plain_build accepted_def empty_built_def)
  then show ?thesis
    using compile_untouched [OF counting_reads_only [of 0], where opts = ?opts and source = no_source and now = "[]"
        and aborted = "\<lambda>_. False" and w = "\<lparr>w_server = 0, w_calls = []\<rparr>"]
    by (auto simp: plain_build split: if_splits)
qed

text \<open>A compile can fail after the board has changed: when the import itself reports an error.\<close>

lemma compile_fails_after_import:
  "case compile (counting_kicad 1) [] (\<lambda>_. False) (plain_options (empty_built [])) no_source \<lparr>w_server = 0, w_calls = []\<rparr>
   of (t, r) \<Rightarrow> (case r of Inl e \<Rightarrow> False | Inr res \<Rightarrow> \<not> cr_ok res \<and> w_server t = 1)"
proof -
  have "ewp (compile (counting_kicad 1) [] (\<lambda>_. False) (plain_options (empty_built [])) no_source)
     (\<lambda>res t. \<not> cr_ok res \<and> w_server t = 1) (\<lambda>e t. False) \<lparr>w_server = 0, w_calls = []\<rparr>"
    by (simp add: compile_def cancelled_def stage_def note_call_def ewp_simps Let_def plain_options_def no_source_def
        empty_built_def counting_kicad_def validateNetlist_def validatePlacements_def compile_valid_def run_before_def
        applyNetlist_def update_board_def import_options_of_def apply_checked_def reconcile_outline_def board_spec_of_def
        outlinePoints_def no_outcome_def import_part_def read_board_def import_rest_def placements_of_def autoplace_part_def
        run_after_def compile_done_def report_errors)
  then show ?thesis by (simp add: ewp_result split: prod.splits sum.splits)
qed

end
