(* ===== verification/NetlistJson.thy ===== *)
theory NetlistJson
  imports JsonValues Compile "HOL-Library.Monad_Syntax"
begin

text \<open>
  The frontend for \<open>circuit.netlist.json\<close> (\<open>packages/compile/src/frontends/netlist-json.ts\<close>): a parsed file
  is checked field by field and then taken for a value of the declared type. \<open>JSON.parse\<close> is an argument; a
  check gives the problems it finds as path, message and code, in the order the code reports them.
\<close>

section \<open>The checks\<close>

type_synonym shape_problem = "string \<times> string \<times> string"
type_synonym check = "json option \<Rightarrow> string \<Rightarrow> shape_problem list"

definition shape_error :: "string \<Rightarrow> shape_problem \<Rightarrow> diagnostic" where
  "shape_error file = (\<lambda>(path, message, code).
     (diag_at FrontendStage ErrorSeverity (path @ '': '' @ message) code)\<lparr>d_file := Some file\<rparr>)"

definition bad_shape :: "string \<Rightarrow> string \<Rightarrow> shape_problem list" where
  "bad_shape path message = [(path, message, ''bad_shape'')]"

fun isRecord :: "json option \<Rightarrow> bool" where
  "isRecord (Some (JObj fs)) = True"
| "isRecord v = False"

definition field :: "json option \<Rightarrow> string \<Rightarrow> json option" where
  "field v k = (case v of None \<Rightarrow> None | Some x \<Rightarrow> jprop x k)"

fun is_finite :: "json option \<Rightarrow> bool" where
  "is_finite (Some (JNum (Fin r))) = True"
| "is_finite v = False"

definition str :: "bool \<Rightarrow> check" where
  "str required v path =
     (if v = None then if required then bad_shape path ''is required'' else []
      else if \<not> is_string v then bad_shape path ''must be a string'' else [])"

definition num' :: "bool \<Rightarrow> check" where
  "num' required v path =
     (if v = None then if required then bad_shape path ''is required'' else []
      else if \<not> is_finite v then bad_shape path ''must be a finite number'' else [])"

definition at_index :: "string \<Rightarrow> nat \<Rightarrow> string" where
  "at_index path i = path @ ''/'' @ show_int (int i)"

definition arr :: "check \<Rightarrow> check" where
  "arr each v path =
     (case v of
        Some (JArr xs) \<Rightarrow> concat (map (\<lambda>(i, x). each (Some x) (at_index path i)) (enumerate 0 xs))
      | _ \<Rightarrow> bad_shape path ''must be an array'')"

definition obj :: "(string \<times> check) list \<Rightarrow> bool \<Rightarrow> check" where
  "obj fs required v path =
     (if v = None \<and> \<not> required then []
      else if \<not> isRecord v then bad_shape path ''must be an object''
      else concat (map (\<lambda>(key, check). check (field v key) (path @ ''/'' @ key)) fs))"

text \<open>\<open>v !== undefined && check(v, path)\<close>\<close>

definition if_given :: "check \<Rightarrow> check" where
  "if_given check v path = (if v = None then [] else check v path)"

fun string_fields :: "check" where
  "string_fields None path = []"
| "string_fields (Some (JObj fs)) path =
     concat (map (\<lambda>(k, v). if is_string (Some v) then [] else bad_shape (path @ ''/'' @ k) ''must be a string'') fs)"
| "string_fields v path = bad_shape path ''must be an object of strings''"

definition component_check :: check where
  "component_check = obj [(''ref'', str True), (''value'', str True), (''footprint'', str True), (''uuid'', str False),
     (''fields'', string_fields),
     (''libSource'', obj [(''lib'', str True), (''part'', str True), (''description'', str False)] False)] True"

definition node_check :: check where
  "node_check = obj [(''ref'', str True), (''pin'', str True), (''pinFunction'', str False), (''pinType'', str False)] True"

definition net_check :: check where
  "net_check = obj [(''name'', str True), (''code'', num' False), (''nodes'', arr node_check)] True"

definition point_check :: check where
  "point_check = obj [(''x'', num' False), (''y'', num' False)] True"

definition position_check :: check where
  "position_check v path =
     (if \<not> isRecord v
      then [(path, ''use position: {x, y} in mm; x and y must be finite numbers'', ''bad_placement_position'')]
      else concat (map (\<lambda>axis. if is_finite (field v axis) then []
             else [(path @ ''/'' @ axis, ''must be a finite number'', ''bad_placement_position'')]) [''x'', ''y'']))"

definition placement_check :: check where
  "placement_check v path = obj [(''ref'', str True), (''position'', position_check)] True v path
     @ (if isRecord v
        then concat (map (\<lambda>key. if field v key = None then []
               else [(path @ ''/'' @ key, ''unknown placement field; use position: {x, y} in mm'',
                      ''bad_placement_position'')]) [''x'', ''y''])
        else [])"

definition library_kind_check :: check where
  "library_kind_check v path =
     (if one_of [''footprint'', ''symbol''] v then []
      else bad_shape path (''must be '' @ json_string ''footprint'' @ '' or '' @ json_string ''symbol''))"

definition library_check :: check where
  "library_check = obj [(''kind'', library_kind_check), (''nickname'', str True), (''uri'', str True),
     (''description'', str False)] True"

definition netlist_check :: check where
  "netlist_check = obj [(''components'', arr component_check), (''nets'', arr net_check), (''noConnects'', if_given (arr node_check)),
     (''design'', obj [(''source'', str False), (''date'', str False), (''tool'', str False)] False)] True"

definition board_check :: check where
  "board_check = obj [(''outline'', if_given (arr point_check)), (''widthMm'', num' False), (''heightMm'', num' False),
     (''copperLayers'', num' False),
     (''rules'', obj [(''clearanceMm'', num' False), (''trackWidthMm'', num' False), (''viaDiameterMm'', num' False),
        (''viaDrillMm'', num' False)] False),
     (''vias'', if_given (arr (obj [(''x'', num' True), (''y'', num' True), (''diameterMm'', num' False),
        (''drillMm'', num' False)] True))),
     (''holes'', if_given (arr (obj [(''x'', num' True), (''y'', num' True), (''diameterMm'', num' True)] True))),
     (''placements'', if_given (arr placement_check))] False"

definition file_check :: check where
  "file_check = obj [(''netlist'', netlist_check), (''board'', board_check), (''libraries'', if_given (arr library_check))] True"

section \<open>The file\<close>

text \<open>The references a placement may name, and the placements that name another.\<close>

definition named_refs :: "json \<Rightarrow> string list" where
  "named_refs components = (case components of
      JArr xs \<Rightarrow> List.map_filter (\<lambda>x. case jprop x ''ref'' of Some (JStr r) \<Rightarrow> Some r | _ \<Rightarrow> None) xs
    | _ \<Rightarrow> [])"

definition unknown_placements :: "string list \<Rightarrow> json list \<Rightarrow> shape_problem list" where
  "unknown_placements refs candidates =
     concat (map (\<lambda>(i, x). case jprop x ''ref'' of
        Some (JStr r) \<Rightarrow>
          if r \<in> set refs then []
          else [(at_index ''/board/placements'' i @ ''/ref'', ''unknown component reference '' @ json_string r,
                 ''unknown_placement_reference'')]
      | _ \<Rightarrow> []) (enumerate 0 candidates))"

definition placement_problems :: "json \<Rightarrow> shape_problem list" where
  "placement_problems v =
     (case (field (jprop v ''netlist'') ''components'', field (jprop v ''board'') ''placements'') of
        (Some (JArr components), Some (JArr candidates)) \<Rightarrow>
          unknown_placements (named_refs (JArr components)) candidates
      | _ \<Rightarrow> [])"

definition checkNetlistJson :: "json \<Rightarrow> string \<Rightarrow> json option \<times> diagnostic list" where
  "checkNetlistJson v file =
     (let problems = file_check (Some v) [] @ placement_problems v in
      (if problems = [] then Some v else None, map (shape_error file) problems))"

section \<open>Values of the declared types\<close>

text \<open>
  The cast \<open>value as NetlistJsonFile\<close>: what a parsed value is as a value of the declared type, or nothing
  when it is none. A field that the type does not name is ignored; \<open>optional\<close> is for fields that may be absent.
\<close>

fun a_string :: "json option \<Rightarrow> string option" where
  "a_string (Some (JStr s)) = Some s"
| "a_string v = None"

fun a_number :: "json option \<Rightarrow> num option" where
  "a_number (Some (JNum (Fin r))) = Some r"
| "a_number v = None"

definition an_integer :: "json option \<Rightarrow> int option" where
  "an_integer v = Option.bind (a_number v) (\<lambda>r. if r = of_int \<lfloor>r\<rfloor> then Some \<lfloor>r\<rfloor> else None)"

definition optional :: "(json option \<Rightarrow> 'a option) \<Rightarrow> json option \<Rightarrow> 'a option option" where
  "optional d v = (if v = None then Some None else map_option Some (d v))"

definition a_list :: "(json option \<Rightarrow> 'a option) \<Rightarrow> json option \<Rightarrow> 'a list option" where
  "a_list d v = (case v of Some (JArr xs) \<Rightarrow> those (map (\<lambda>x. d (Some x)) xs) | _ \<Rightarrow> None)"

definition list_or_empty :: "(json option \<Rightarrow> 'a option) \<Rightarrow> json option \<Rightarrow> 'a list option" where
  "list_or_empty d v = (if v = None then Some [] else a_list d v)"

fun string_entries :: "json option \<Rightarrow> (string \<times> string) list option" where
  "string_entries None = Some []"
| "string_entries (Some (JObj fs)) =
     those (map (\<lambda>(k, v). map_option (Pair k) (a_string (Some v))) fs)"
| "string_entries v = None"

definition an_object :: "(json option \<Rightarrow> 'a option) \<Rightarrow> json option \<Rightarrow> 'a option" where
  "an_object d v = (if isRecord v then d v else None)"

definition to_component :: "json option \<Rightarrow> netlist_component option" where
  "to_component = an_object (\<lambda>v. do {
     ref \<leftarrow> a_string (field v ''ref'');
     val \<leftarrow> a_string (field v ''value'');
     footprint \<leftarrow> a_string (field v ''footprint'');
     uuid \<leftarrow> optional a_string (field v ''uuid'');
     fs \<leftarrow> string_entries (field v ''fields'');
     lib \<leftarrow> optional (an_object (\<lambda>u. do {
       l \<leftarrow> a_string (field u ''lib'');
       p \<leftarrow> a_string (field u ''part'');
       d \<leftarrow> optional a_string (field u ''description'');
       Some \<lparr>ls_lib = l, ls_part = p, ls_description = d\<rparr>
     })) (field v ''libSource'');
     Some \<lparr>nc_ref = ref, nc_value = val, nc_footprint = footprint, nc_libSource = lib, nc_fields = fs,
           nc_uuid = uuid\<rparr>
   })"

definition to_node :: "json option \<Rightarrow> netlist_node option" where
  "to_node = an_object (\<lambda>v. do {
     ref \<leftarrow> a_string (field v ''ref'');
     pin \<leftarrow> a_string (field v ''pin'');
     f \<leftarrow> optional a_string (field v ''pinFunction'');
     t \<leftarrow> optional a_string (field v ''pinType'');
     Some \<lparr>nn_ref = ref, nn_pin = pin, nn_pinFunction = f, nn_pinType = t\<rparr>
   })"

definition to_no_connect :: "json option \<Rightarrow> no_connect option" where
  "to_no_connect v = map_option (\<lambda>n. \<lparr>nx_ref = nn_ref n, nx_pin = nn_pin n\<rparr>) (to_node v)"

definition to_net :: "json option \<Rightarrow> netlist_net option" where
  "to_net = an_object (\<lambda>v. do {
     nm \<leftarrow> a_string (field v ''name'');
     code \<leftarrow> optional an_integer (field v ''code'');
     nodes \<leftarrow> a_list to_node (field v ''nodes'');
     Some \<lparr>nt_name = nm, nt_code = code, nt_nodes = nodes\<rparr>
   })"

definition to_design :: "json option \<Rightarrow> netlist_design option" where
  "to_design = an_object (\<lambda>v. do {
     s \<leftarrow> optional a_string (field v ''source'');
     d \<leftarrow> optional a_string (field v ''date'');
     t \<leftarrow> optional a_string (field v ''tool'');
     Some \<lparr>ds_source = s, ds_date = d, ds_tool = t\<rparr>
   })"

definition to_netlist :: "json option \<Rightarrow> netlist option" where
  "to_netlist = an_object (\<lambda>v. do {
     cs \<leftarrow> a_list to_component (field v ''components'');
     ns \<leftarrow> a_list to_net (field v ''nets'');
     xs \<leftarrow> list_or_empty to_no_connect (field v ''noConnects'');
     d \<leftarrow> optional to_design (field v ''design'');
     Some \<lparr>nl_components = cs, nl_nets = ns, nl_noConnects = xs, nl_design = d\<rparr>
   })"

definition to_point :: "json option \<Rightarrow> point option" where
  "to_point = an_object (\<lambda>v. do {
     x \<leftarrow> a_number (field v ''x'');
     y \<leftarrow> a_number (field v ''y'');
     Some (pt x y)
   })"

definition to_rules :: "json option \<Rightarrow> board_rules option" where
  "to_rules = an_object (\<lambda>v. do {
     c \<leftarrow> optional a_number (field v ''clearanceMm'');
     t \<leftarrow> optional a_number (field v ''trackWidthMm'');
     d \<leftarrow> optional a_number (field v ''viaDiameterMm'');
     h \<leftarrow> optional a_number (field v ''viaDrillMm'');
     Some \<lparr>br_clearanceMm = c, br_trackWidthMm = t, br_viaDiameterMm = d, br_viaDrillMm = h\<rparr>
   })"

definition to_via :: "json option \<Rightarrow> prefab_via option" where
  "to_via = an_object (\<lambda>v. do {
     x \<leftarrow> a_number (field v ''x'');
     y \<leftarrow> a_number (field v ''y'');
     d \<leftarrow> optional a_number (field v ''diameterMm'');
     h \<leftarrow> optional a_number (field v ''drillMm'');
     Some \<lparr>pv_x = x, pv_y = y, pv_diameterMm = d, pv_drillMm = h\<rparr>
   })"

definition to_hole :: "json option \<Rightarrow> prefab_hole option" where
  "to_hole = an_object (\<lambda>v. do {
     x \<leftarrow> a_number (field v ''x'');
     y \<leftarrow> a_number (field v ''y'');
     d \<leftarrow> a_number (field v ''diameterMm'');
     Some \<lparr>ph_x = x, ph_y = y, ph_diameterMm = d\<rparr>
   })"

definition to_placement :: "json option \<Rightarrow> component_placement option" where
  "to_placement = an_object (\<lambda>v. do {
     r \<leftarrow> a_string (field v ''ref'');
     p \<leftarrow> to_point (field v ''position'');
     Some \<lparr>pl_ref = Some r, pl_position = Some \<lparr>vx = Fin (vx p), vy = Fin (vy p)\<rparr>\<rparr>
   })"

definition to_board :: "json option \<Rightarrow> board_spec option" where
  "to_board = an_object (\<lambda>v. do {
     ps \<leftarrow> list_or_empty to_point (field v ''outline'');
     w \<leftarrow> optional a_number (field v ''widthMm'');
     h \<leftarrow> optional a_number (field v ''heightMm'');
     l \<leftarrow> optional a_number (field v ''copperLayers'');
     r \<leftarrow> optional to_rules (field v ''rules'');
     vs \<leftarrow> list_or_empty to_via (field v ''vias'');
     hs \<leftarrow> list_or_empty to_hole (field v ''holes'');
     cs \<leftarrow> list_or_empty to_placement (field v ''placements'');
     Some \<lparr>bs_outline = ps, bs_widthMm = w, bs_heightMm = h, bs_copperLayers = l, bs_rules = r, bs_vias = vs,
           bs_holes = hs, bs_placements = cs\<rparr>
   })"

definition to_kind :: "json option \<Rightarrow> library_kind option" where
  "to_kind v = Option.bind (a_string v) (\<lambda>s. if s = ''footprint'' then Some FootprintLibrary
     else if s = ''symbol'' then Some SymbolLibrary else None)"

definition to_library :: "json option \<Rightarrow> library_spec option" where
  "to_library = an_object (\<lambda>v. do {
     k \<leftarrow> to_kind (field v ''kind'');
     n \<leftarrow> a_string (field v ''nickname'');
     u \<leftarrow> a_string (field v ''uri'');
     d \<leftarrow> optional a_string (field v ''description'');
     Some \<lparr>lb_kind = k, lb_nickname = n, lb_uri = u, lb_description = d\<rparr>
   })"

definition to_file :: "json \<Rightarrow> (netlist \<times> board_spec option \<times> library_spec list) option" where
  "to_file v = do {
     n \<leftarrow> to_netlist (jprop v ''netlist'');
     b \<leftarrow> optional to_board (jprop v ''board'');
     ls \<leftarrow> list_or_empty to_library (jprop v ''libraries'');
     Some (n, b, ls)
   }"

section \<open>The frontend\<close>

definition NETLIST_JSON_KIND :: string where "NETLIST_JSON_KIND = ''netlist-json''"
definition NETLIST_JSON_ENTRYPOINT :: string where "NETLIST_JSON_ENTRYPOINT = ''circuit.netlist.json''"

definition frontend_failed :: "diagnostic list \<Rightarrow> frontend_result" where
  "frontend_failed ds = \<lparr>fr_netlist = None, fr_board = None, fr_libraries = [], fr_diagnostics = ds\<rparr>"

definition frontend_error :: "string \<Rightarrow> string \<Rightarrow> string \<Rightarrow> diagnostic" where
  "frontend_error file code message = (diag_at FrontendStage ErrorSeverity message code)\<lparr>d_file := Some file\<rparr>"

text \<open>
  \<open>None\<close> stands for a result that is not of the declared type, for which the model has no value: a file that
  passes the checks and still is no \<open>NetlistJsonFile\<close>.
\<close>

definition build :: "(string \<Rightarrow> string + json) \<Rightarrow> compile_source \<Rightarrow> frontend_result option" where
  "build parse source =
     (let file = (if cs_entrypoint source = [] then NETLIST_JSON_ENTRYPOINT else cs_entrypoint source) in
      case map_of (cs_files source) file of
        None \<Rightarrow> Some (frontend_failed [frontend_error file ''missing_entrypoint'' (file @ '' not found in the source files.'')])
      | Some s \<Rightarrow>
          (case parse s of
             Inl message \<Rightarrow> Some (frontend_failed [frontend_error file ''json_syntax'' message])
           | Inr v \<Rightarrow>
               (case checkNetlistJson v file of
                  (None, ds) \<Rightarrow> Some (frontend_failed ds)
                | (Some checked, ds) \<Rightarrow>
                    map_option (\<lambda>(n, b, ls). \<lparr>fr_netlist = Some n, fr_board = b, fr_libraries = ls, fr_diagnostics = ds\<rparr>)
                      (to_file checked))))"


section \<open>What the checks let through\<close>

text \<open>
  \<open>decides c ok d\<close>: a value that a check passes and that is \<open>ok\<close> is one the decoder takes, and the other way
  around for values that are \<open>plain\<close>. For most checks both side conditions are void.
\<close>

definition decides :: "check \<Rightarrow> (json option \<Rightarrow> bool) \<Rightarrow> (json option \<Rightarrow> 'a option) \<Rightarrow> (json option \<Rightarrow> bool) \<Rightarrow> bool" where
  "decides c ok d plain \<longleftrightarrow> (\<forall>v p. c v p = [] \<and> ok v \<longleftrightarrow> d v \<noteq> None \<and> plain v)"

abbreviation exactly :: "check \<Rightarrow> (json option \<Rightarrow> 'a option) \<Rightarrow> bool" where
  "exactly c d \<equiv> decides c (\<lambda>v. True) d (\<lambda>v. True)"

fun all_of :: "(json option \<Rightarrow> bool) \<Rightarrow> json option \<Rightarrow> bool" where
  "all_of ok (Some (JArr xs)) = list_all (\<lambda>x. ok (Some x)) xs"
| "all_of ok v = True"

lemma exactlyD: "exactly c d \<Longrightarrow> c v p = [] \<longleftrightarrow> d v \<noteq> None"
  by (simp add: decides_def)

lemma bind_None: "Option.bind x f = None \<longleftrightarrow> x = None \<or> f (the x) = None"
  by (cases x) simp_all

lemma field_None [simp]: "field None k = None"
  by (simp add: field_def)

lemma str_exactly: "exactly (str True) a_string" "exactly (str False) (optional a_string)"
proof -
  have s: "is_string v \<longleftrightarrow> a_string v \<noteq> None" for v by (cases v rule: a_string.cases) simp_all
  then show "exactly (str True) a_string" "exactly (str False) (optional a_string)"
    by (simp_all add: decides_def str_def bad_shape_def optional_def s)
qed

lemma num_exactly: "exactly (num' True) a_number" "exactly (num' False) (optional a_number)"
proof -
  have s: "is_finite v \<longleftrightarrow> a_number v \<noteq> None" for v by (cases v rule: a_number.cases) simp_all
  then show "exactly (num' True) a_number" "exactly (num' False) (optional a_number)"
    by (simp_all add: decides_def num'_def bad_shape_def optional_def s)
qed

lemma those_None: "those xs = None \<longleftrightarrow> None \<in> set xs"
  by (induction xs) (auto split: option.splits)

lemma enumerate_all: "(\<forall>z \<in> set (enumerate n xs). P (snd z)) \<longleftrightarrow> (\<forall>x \<in> set xs. P x)"
  by (induction xs arbitrary: n) auto

lemma arr_decides:
  assumes "decides c ok d plain"
  shows "decides (arr c) (all_of ok) (a_list d) (all_of plain)"
proof -
  have "arr c v p = [] \<and> all_of ok v \<longleftrightarrow> a_list d v \<noteq> None \<and> all_of plain v" for v p
  proof (cases "\<exists>xs. v = Some (JArr xs)")
    case True
    then obtain xs where v: "v = Some (JArr xs)" by blast
    have a: "arr c v p = [] \<longleftrightarrow> (\<forall>z \<in> set (enumerate 0 xs). c (Some (snd z)) (at_index p (fst z)) = [])"
      by (auto simp: arr_def v)
    have l: "a_list d v \<noteq> None \<longleftrightarrow> (\<forall>x \<in> set xs. d (Some x) \<noteq> None)"
      by (simp add: a_list_def v those_None image_iff eq_commute [of None])
    have o: "all_of f v \<longleftrightarrow> (\<forall>x \<in> set xs. f (Some x))" for f
      by (simp add: v list_all_iff)
    have "arr c v p = [] \<and> all_of ok v
        \<longleftrightarrow> (\<forall>z \<in> set (enumerate 0 xs). c (Some (snd z)) (at_index p (fst z)) = [] \<and> ok (Some (snd z)))"
      unfolding a o ball_conj_distrib enumerate_all [of 0 xs "\<lambda>x. ok (Some x)"] ..
    also have "\<dots> \<longleftrightarrow> (\<forall>z \<in> set (enumerate 0 xs). d (Some (snd z)) \<noteq> None \<and> plain (Some (snd z)))"
      using assms unfolding decides_def by simp
    also have "\<dots> \<longleftrightarrow> (\<forall>x \<in> set xs. d (Some x) \<noteq> None \<and> plain (Some x))"
      by (rule enumerate_all)
    finally show ?thesis unfolding l o ball_conj_distrib .
  next
    case False
    then have "arr c v p \<noteq> []" "a_list d v = None"
      by (auto simp: arr_def a_list_def bad_shape_def split: option.split json.split)
    then show ?thesis by simp
  qed
  then show ?thesis by (simp add: decides_def)
qed

lemma all_of_True [simp]: "all_of (\<lambda>v. True) = (\<lambda>v. True)"
proof
  show "all_of (\<lambda>v. True) v = True" for v by (cases "(\<lambda>v :: json option. True, v)" rule: all_of.cases) (simp_all add: list_all_iff)
qed

lemma arr_exactly: "exactly c d \<Longrightarrow> exactly (arr c) (a_list d)"
  using arr_decides [of c "\<lambda>v. True" d "\<lambda>v. True"] by simp

lemma if_given_decides:
  assumes "decides (arr c) (all_of ok) (a_list d) (all_of plain)"
  shows "decides (if_given (arr c)) (all_of ok) (list_or_empty d) (all_of plain)"
  using assms by (auto simp: decides_def if_given_def list_or_empty_def)

lemma if_given_exactly: "exactly c d \<Longrightarrow> exactly (if_given (arr c)) (list_or_empty d)"
  using if_given_decides [of c "\<lambda>v. True" d "\<lambda>v. True"] arr_exactly [of c d] by simp

lemma optional_obj:
  assumes "decides (obj fs True) ok d plain" "ok None" "plain None"
  shows "decides (obj fs False) ok (optional d) plain"
  unfolding decides_def
proof (intro allI)
  fix v p
  show "obj fs False v p = [] \<and> ok v \<longleftrightarrow> optional d v \<noteq> None \<and> plain v"
    using assms unfolding decides_def by (cases v) (simp_all add: obj_def optional_def)
qed

lemma string_fields_exactly: "exactly string_fields string_entries"
proof -
  have s: "is_string v \<longleftrightarrow> a_string v \<noteq> None" for v by (cases v rule: a_string.cases) simp_all
  have "string_fields v p = [] \<longleftrightarrow> string_entries v \<noteq> None" for v p
    by (cases "(v, p)" rule: string_fields.cases)
       (auto simp: bad_shape_def s those_None image_iff split: if_splits prod.splits)
  then show ?thesis by (simp add: decides_def)
qed

lemma obj_fields:
  "obj fs True v p = [] \<longleftrightarrow> isRecord v \<and> list_all (\<lambda>(k, c). c (field v k) (p @ ''/'' @ k) = []) fs"
  by (cases "isRecord v") (auto simp: obj_def bad_shape_def list_all_iff)

lemma an_object_None: "an_object d v = None \<longleftrightarrow> \<not> isRecord v \<or> d v = None"
  by (simp add: an_object_def)

lemmas exact_simps = exactlyD [OF str_exactly(1)] exactlyD [OF str_exactly(2)] exactlyD [OF num_exactly(1)]
  exactlyD [OF num_exactly(2)] exactlyD [OF string_fields_exactly]

lemmas record_simps = obj_fields an_object_None bind_None exact_simps

lemma lib_exactly:
  "exactly (obj [(''lib'', str True), (''part'', str True), (''description'', str False)] False)
     (optional (an_object (\<lambda>u. do {
       l \<leftarrow> a_string (field u ''lib'');
       p \<leftarrow> a_string (field u ''part'');
       d \<leftarrow> optional a_string (field u ''description'');
       Some \<lparr>ls_lib = l, ls_part = p, ls_description = d\<rparr>
     })))"
  by (rule optional_obj) (simp_all add: decides_def record_simps)

lemma component_exactly: "exactly component_check to_component"
  unfolding component_check_def to_component_def decides_def
  by (simp add: record_simps exactlyD [OF lib_exactly])

lemma node_exactly: "exactly node_check to_node"
  unfolding node_check_def to_node_def decides_def by (simp add: record_simps)

lemma no_connect_exactly: "exactly node_check to_no_connect"
  using node_exactly unfolding to_no_connect_def decides_def by simp

text \<open>A net code may be any finite number as far as the checks go.\<close>

definition whole_code :: "json option \<Rightarrow> bool" where
  "whole_code v \<longleftrightarrow> optional an_integer (field v ''code'') \<noteq> None"

lemma integer_number: "an_integer v \<noteq> None \<Longrightarrow> a_number v \<noteq> None"
  by (cases "a_number v") (simp_all add: an_integer_def)

lemma code_exactly: "num' False v p = [] \<and> optional an_integer v \<noteq> None \<longleftrightarrow> optional an_integer v \<noteq> None"
  using integer_number by (auto simp: exact_simps optional_def)

lemma net_decides: "decides net_check whole_code to_net (\<lambda>v. True)"
  unfolding net_check_def to_net_def decides_def whole_code_def
  using code_exactly by (auto simp: record_simps exactlyD [OF arr_exactly [OF node_exactly]])

lemma design_exactly:
  "exactly (obj [(''source'', str False), (''date'', str False), (''tool'', str False)] False) (optional to_design)"
  unfolding to_design_def by (rule optional_obj) (simp_all add: decides_def record_simps)

definition whole_codes :: "json option \<Rightarrow> bool" where
  "whole_codes v \<longleftrightarrow> all_of whole_code (field v ''nets'')"

lemma decidesD: "decides c ok d plain \<Longrightarrow> (c v p = [] \<and> ok v) = (d v \<noteq> None \<and> plain v)"
  by (simp add: decides_def)

lemma netlist_decides: "decides netlist_check whole_codes to_netlist (\<lambda>v. True)"
proof -
  have n: "arr net_check v p = [] \<and> all_of whole_code v \<longleftrightarrow> a_list to_net v \<noteq> None" for v p
    using decidesD [OF arr_decides [OF net_decides], of v p] by simp
  have "list_all (\<lambda>(k, c). c (field v k) (p @ ''/'' @ k) = []) [(''components'', arr component_check),
        (''nets'', arr net_check), (''noConnects'', if_given (arr node_check)),
        (''design'', obj [(''source'', str False), (''date'', str False), (''tool'', str False)] False)] \<and> whole_codes v
    \<longleftrightarrow> a_list to_component (field v ''components'') \<noteq> None \<and> a_list to_net (field v ''nets'') \<noteq> None \<and>
        list_or_empty to_no_connect (field v ''noConnects'') \<noteq> None \<and> optional to_design (field v ''design'') \<noteq> None" for v p
    using n [of "field v ''nets''" "p @ ''/'' @ ''nets''"]
    by (auto simp: whole_codes_def exactlyD [OF arr_exactly [OF component_exactly]]
        exactlyD [OF if_given_exactly [OF no_connect_exactly]] exactlyD [OF design_exactly])
  then show ?thesis
    unfolding netlist_check_def to_netlist_def decides_def obj_fields an_object_None bind_None by auto
qed

text \<open>A corner of the outline may lack a coordinate as far as the checks go.\<close>

definition whole_point :: "json option \<Rightarrow> bool" where
  "whole_point v \<longleftrightarrow> field v ''x'' \<noteq> None \<and> field v ''y'' \<noteq> None"

lemma point_decides: "decides point_check whole_point to_point (\<lambda>v. True)"
proof -
  have n: "a_number None = None" by simp
  then show ?thesis
    unfolding point_check_def to_point_def decides_def whole_point_def
    by (auto simp: record_simps optional_def)
qed

lemma via_exactly:
  "exactly (obj [(''x'', num' True), (''y'', num' True), (''diameterMm'', num' False), (''drillMm'', num' False)] True) to_via"
  unfolding to_via_def decides_def by (simp add: record_simps)

lemma hole_exactly: "exactly (obj [(''x'', num' True), (''y'', num' True), (''diameterMm'', num' True)] True) to_hole"
  unfolding to_hole_def decides_def by (simp add: record_simps)

lemma rules_exactly:
  "exactly (obj [(''clearanceMm'', num' False), (''trackWidthMm'', num' False), (''viaDiameterMm'', num' False),
     (''viaDrillMm'', num' False)] False) (optional to_rules)"
  unfolding to_rules_def by (rule optional_obj) (simp_all add: decides_def record_simps)

definition plain_placement :: "json option \<Rightarrow> bool" where
  "plain_placement v \<longleftrightarrow> field v ''x'' = None \<and> field v ''y'' = None"

lemma position_exactly: "exactly position_check to_point"
proof -
  have "is_finite v \<longleftrightarrow> a_number v \<noteq> None" for v by (cases v rule: a_number.cases) simp_all
  then show ?thesis
    unfolding to_point_def decides_def position_check_def by (simp add: record_simps)
qed

lemma placement_decides: "decides placement_check (\<lambda>v. True) to_placement plain_placement"
  unfolding decides_def
proof (intro allI)
  fix v p
  show "placement_check v p = [] \<and> True \<longleftrightarrow> to_placement v \<noteq> None \<and> plain_placement v"
    by (cases "isRecord v")
       (auto simp: placement_check_def to_placement_def plain_placement_def record_simps exactlyD [OF position_exactly])
qed

lemma library_exactly: "exactly library_check to_library"
proof -
  have k: "library_kind_check v p = [] \<longleftrightarrow> to_kind v \<noteq> None" for v p
    by (cases v rule: a_string.cases) (auto simp: library_kind_check_def to_kind_def bad_shape_def)
  show ?thesis
    unfolding library_check_def to_library_def decides_def by (simp add: record_simps k)
qed

definition whole_outline :: "json option \<Rightarrow> bool" where
  "whole_outline v \<longleftrightarrow> all_of whole_point (field v ''outline'')"

definition plain_placements :: "json option \<Rightarrow> bool" where
  "plain_placements v \<longleftrightarrow> all_of plain_placement (field v ''placements'')"

lemma board_object_decides:
  "decides (obj [(''outline'', if_given (arr point_check)), (''widthMm'', num' False), (''heightMm'', num' False),
     (''copperLayers'', num' False),
     (''rules'', obj [(''clearanceMm'', num' False), (''trackWidthMm'', num' False), (''viaDiameterMm'', num' False),
        (''viaDrillMm'', num' False)] False),
     (''vias'', if_given (arr (obj [(''x'', num' True), (''y'', num' True), (''diameterMm'', num' False),
        (''drillMm'', num' False)] True))),
     (''holes'', if_given (arr (obj [(''x'', num' True), (''y'', num' True), (''diameterMm'', num' True)] True))),
     (''placements'', if_given (arr placement_check))] True) whole_outline to_board plain_placements"
proof -
  have o: "if_given (arr point_check) v p = [] \<and> all_of whole_point v \<longleftrightarrow> list_or_empty to_point v \<noteq> None" for v p
    using decidesD [OF if_given_decides [OF arr_decides [OF point_decides]], of v p] by simp
  have pl: "if_given (arr placement_check) v p = [] \<longleftrightarrow> list_or_empty to_placement v \<noteq> None \<and> all_of plain_placement v" for v p
    using decidesD [OF if_given_decides [OF arr_decides [OF placement_decides]], of v p] by simp
  have "list_all (\<lambda>(k, c). c (field v k) (p @ ''/'' @ k) = [])
       [(''outline'', if_given (arr point_check)), (''widthMm'', num' False), (''heightMm'', num' False),
        (''copperLayers'', num' False),
        (''rules'', obj [(''clearanceMm'', num' False), (''trackWidthMm'', num' False), (''viaDiameterMm'', num' False),
          (''viaDrillMm'', num' False)] False),
        (''vias'', if_given (arr (obj [(''x'', num' True), (''y'', num' True), (''diameterMm'', num' False),
          (''drillMm'', num' False)] True))),
        (''holes'', if_given (arr (obj [(''x'', num' True), (''y'', num' True), (''diameterMm'', num' True)] True))),
        (''placements'', if_given (arr placement_check))] \<and> whole_outline v \<longleftrightarrow>
     list_or_empty to_point (field v ''outline'') \<noteq> None \<and> optional a_number (field v ''widthMm'') \<noteq> None \<and>
     optional a_number (field v ''heightMm'') \<noteq> None \<and> optional a_number (field v ''copperLayers'') \<noteq> None \<and>
     optional to_rules (field v ''rules'') \<noteq> None \<and> list_or_empty to_via (field v ''vias'') \<noteq> None \<and>
     list_or_empty to_hole (field v ''holes'') \<noteq> None \<and> list_or_empty to_placement (field v ''placements'') \<noteq> None \<and>
     plain_placements v" for v p
    unfolding whole_outline_def plain_placements_def
    using o [of "field v ''outline''" "p @ ''/'' @ ''outline''"]
    by (auto simp: exact_simps exactlyD [OF rules_exactly] exactlyD [OF if_given_exactly [OF via_exactly]]
        exactlyD [OF if_given_exactly [OF hole_exactly]] pl)
  then show ?thesis
    unfolding decides_def to_board_def obj_fields an_object_None bind_None by auto
qed

lemma board_decides: "decides board_check whole_outline (optional to_board) plain_placements"
  unfolding board_check_def
  by (rule optional_obj [OF board_object_decides]) (simp_all add: whole_outline_def plain_placements_def)

text \<open>The two things a file may have that the checks do not see: a corner without a coordinate, a fractional code.\<close>

definition whole_file :: "json \<Rightarrow> bool" where
  "whole_file v \<longleftrightarrow> whole_codes (jprop v ''netlist'') \<and> whole_outline (jprop v ''board'')"

lemma file_decides:
  "file_check (Some v) [] = [] \<and> whole_file v \<longleftrightarrow> to_file v \<noteq> None \<and> plain_placements (jprop v ''board'')"
proof -
  have r: "isRecord (Some v)" if "to_file v \<noteq> None"
  proof -
    have "to_netlist None = None" by (simp add: to_netlist_def an_object_def)
    then have "jprop v ''netlist'' \<noteq> None" using that by (cases "jprop v ''netlist''") (simp_all add: to_file_def)
    then show ?thesis by (cases v) simp_all
  qed
  note d = decidesD [OF netlist_decides, of "jprop v ''netlist''" "''/netlist''"]
    decidesD [OF board_decides, of "jprop v ''board''" "''/board''"]
  have f: "field (Some v) k = jprop v k" for k by (simp add: field_def)
  have t: "to_file v \<noteq> None \<longleftrightarrow> to_netlist (jprop v ''netlist'') \<noteq> None \<and> optional to_board (jprop v ''board'') \<noteq> None \<and>
      list_or_empty to_library (jprop v ''libraries'') \<noteq> None"
    by (simp add: to_file_def bind_None)
  have c: "file_check (Some v) [] = [] \<longleftrightarrow> isRecord (Some v) \<and> netlist_check (jprop v ''netlist'') ''/netlist'' = [] \<and>
      board_check (jprop v ''board'') ''/board'' = [] \<and> list_or_empty to_library (jprop v ''libraries'') \<noteq> None"
    unfolding file_check_def obj_fields by (simp add: f exactlyD [OF if_given_exactly [OF library_exactly]])
  show ?thesis unfolding c whole_file_def using d r t by argo
qed


text \<open>
  The checks take a corner without coordinates for a point: such a file passes with no diagnostic, and what
  reaches the compile is no outline of the declared type.
\<close>

definition cornerless :: json where
  "cornerless = JObj [(''netlist'', JObj [(''components'', JArr []), (''nets'', JArr [])]),
     (''board'', JObj [(''outline'', JArr [JObj [], JObj [], JObj []])])]"

lemma cornerless_passes: "checkNetlistJson cornerless file = (Some cornerless, []) \<and> to_file cornerless = None"
proof
  show "checkNetlistJson cornerless file = (Some cornerless, [])"
    by (simp add: checkNetlistJson_def cornerless_def file_check_def netlist_check_def board_check_def obj_def field_def
        arr_def if_given_def point_check_def num'_def placement_problems_def bad_shape_def)
  show "to_file cornerless = None"
    by (simp add: to_file_def cornerless_def bind_None to_netlist_def an_object_def field_def a_list_def list_or_empty_def
        optional_def to_board_def to_point_def)
qed

section \<open>The contract of a frontend\<close>

lemma shape_errors: "hasErrors (map (shape_error file) ps) \<longleftrightarrow> ps \<noteq> []"
  by (cases ps) (auto simp: shape_error_def is_error_def diag_at_def)

lemma those_Some: "those xs = Some ys \<longleftrightarrow> xs = map Some ys"
  by (induction xs arbitrary: ys) (auto split: option.splits)

lemma a_list_Some: "a_list d v = Some ys \<longleftrightarrow> (\<exists>xs. v = Some (JArr xs) \<and> list_all2 (\<lambda>x y. d (Some x) = Some y) xs ys)"
  by (auto simp: a_list_def those_Some list_eq_iff_nth_eq list_all2_conv_all_nth split: option.splits json.splits)

lemma a_string_Some: "a_string v = Some s \<longleftrightarrow> v = Some (JStr s)"
  by (cases v rule: a_string.cases) auto

lemma component_ref: "to_component v = Some c \<Longrightarrow> field v ''ref'' = Some (JStr (nc_ref c))"
  by (auto simp: to_component_def an_object_def bind_eq_Some_conv a_string_Some split: if_splits)

lemma placement_of: "to_placement v = Some p \<Longrightarrow>
    \<exists>r. field v ''ref'' = Some (JStr r) \<and> pl_ref p = Some r \<and> finite_position (pl_position p)"
  by (auto simp: to_placement_def an_object_def bind_eq_Some_conv a_string_Some finite_position_def split: if_splits)

lemma field_Some [simp]: "field (Some x) k = jprop x k"
  by (simp add: field_def)

lemma named_refs_components:
  assumes "list_all2 (\<lambda>x c. to_component (Some x) = Some c) xs cs"
  shows "named_refs (JArr xs) = map nc_ref cs"
  using assms
proof (induction rule: list_all2_induct)
  case (Cons x xs c cs)
  then show ?case using component_ref [of "Some x" c] by (simp add: named_refs_def map_filter_simps)
qed (simp add: named_refs_def map_filter_simps)

lemma unknown_placements_none:
  "unknown_placements refs xs = [] \<longleftrightarrow> (\<forall>x \<in> set xs. \<forall>r. jprop x ''ref'' = Some (JStr r) \<longrightarrow> r \<in> set refs)"
proof -
  have "unknown_placements refs xs = [] \<longleftrightarrow>
      (\<forall>z \<in> set (enumerate 0 xs). \<forall>r. jprop (snd z) ''ref'' = Some (JStr r) \<longrightarrow> r \<in> set refs)"
    by (simp add: unknown_placements_def split_beta split: option.split json.split) blast
  then show ?thesis using enumerate_all [of 0 xs "\<lambda>x. \<forall>r. jprop x ''ref'' = Some (JStr r) \<longrightarrow> r \<in> set refs"] by simp
qed

lemma file_parts:
  assumes "to_file v = Some (n, b, ls)"
  shows "\<exists>xs. field (jprop v ''netlist'') ''components'' = Some (JArr xs) \<and> named_refs (JArr xs) = map nc_ref (nl_components n)"
    and "case b of None \<Rightarrow> True | Some s \<Rightarrow> list_or_empty to_placement (field (jprop v ''board'') ''placements'') = Some (bs_placements s)"
proof -
  have n: "to_netlist (jprop v ''netlist'') = Some n" and b: "optional to_board (jprop v ''board'') = Some b"
    using assms by (auto simp: to_file_def bind_eq_Some_conv)
  have "a_list to_component (field (jprop v ''netlist'') ''components'') = Some (nl_components n)"
    using n by (auto simp: to_netlist_def an_object_def bind_eq_Some_conv split: if_splits)
  then show "\<exists>xs. field (jprop v ''netlist'') ''components'' = Some (JArr xs) \<and> named_refs (JArr xs) = map nc_ref (nl_components n)"
    using named_refs_components by (auto simp: a_list_Some)
  show "case b of None \<Rightarrow> True | Some s \<Rightarrow> list_or_empty to_placement (field (jprop v ''board'') ''placements'') = Some (bs_placements s)"
    using b by (auto simp: optional_def to_board_def an_object_def bind_eq_Some_conv split: if_splits option.split)
qed

lemma checked_placements:
  assumes "to_file v = Some (n, b, ls)" "placement_problems v = []"
  shows "placements_ok n b \<longleftrightarrow> distinct (map pl_ref (case b of None \<Rightarrow> [] | Some s \<Rightarrow> bs_placements s))"
proof (cases b)
  case None
  then show ?thesis by (simp add: placements_ok_def placed_well_def)
next
  case (Some s)
  obtain cs where cs: "field (jprop v ''netlist'') ''components'' = Some (JArr cs)"
    "named_refs (JArr cs) = map nc_ref (nl_components n)" using file_parts(1) [OF assms(1)] by blast
  have l: "list_or_empty to_placement (field (jprop v ''board'') ''placements'') = Some (bs_placements s)"
    using file_parts(2) [OF assms(1)] Some by simp
  have "finite_position (pl_position p) \<and> pl_ref p \<in> Some ` set (map nc_ref (nl_components n))" if p: "p \<in> set (bs_placements s)" for p
  proof -
    have "a_list to_placement (field (jprop v ''board'') ''placements'') = Some (bs_placements s)"
      using l p by (auto simp: list_or_empty_def split: if_splits)
    then obtain xs where xs: "field (jprop v ''board'') ''placements'' = Some (JArr xs)"
      "list_all2 (\<lambda>x y. to_placement (Some x) = Some y) xs (bs_placements s)" by (auto simp: a_list_Some)
    obtain i where "i < length (bs_placements s)" "bs_placements s ! i = p" using p by (auto simp: in_set_conv_nth)
    then have x: "xs ! i \<in> set xs" "to_placement (Some (xs ! i)) = Some p"
      using xs(2) by (auto simp: list_all2_conv_all_nth)
    obtain r where r: "jprop (xs ! i) ''ref'' = Some (JStr r)" "pl_ref p = Some r" "finite_position (pl_position p)"
      using placement_of [OF x(2)] by auto
    have "unknown_placements (map nc_ref (nl_components n)) xs = []"
      using assms(2) cs xs(1) by (simp add: placement_problems_def)
    then show ?thesis using r x(1) unfolding unknown_placements_none by blast
  qed
  then show ?thesis unfolding placements_ok_def placed_well_def Some by auto
qed

lemma frontend_errors: "build parse source = Some r \<Longrightarrow> fr_netlist r = None \<Longrightarrow> hasErrors (fr_diagnostics r)"
proof -
  have e: "hasErrors [frontend_error f c m]" for f c m by (simp add: frontend_error_def is_error_def diag_at_def)
  show "build parse source = Some r \<Longrightarrow> fr_netlist r = None \<Longrightarrow> hasErrors (fr_diagnostics r)"
    using e by (auto simp: build_def Let_def frontend_failed_def checkNetlistJson_def shape_errors
        split: option.splits sum.splits if_splits)
qed

text \<open>
  The frontend keeps its contract: its result has no netlist exactly when it has an error. A result with a
  netlist has no diagnostic at all, and the only thing its placements can still get wrong for the compile is
  to name a component twice.
\<close>

theorem frontend_contract:
  "case build parse source of None \<Rightarrow> True
   | Some r \<Rightarrow> (case fr_netlist r of
        None \<Rightarrow> hasErrors (fr_diagnostics r)
      | Some n \<Rightarrow> fr_diagnostics r = [] \<and>
          hasErrors (validatePlacements n (fr_board r)) =
            (\<not> distinct (map pl_ref (case fr_board r of None \<Rightarrow> [] | Some s \<Rightarrow> bs_placements s))))"
proof (cases "build parse source")
  case (Some r)
  let ?file = "if cs_entrypoint source = [] then NETLIST_JSON_ENTRYPOINT else cs_entrypoint source"
  show ?thesis
  proof (cases "fr_netlist r")
    case None
    then show ?thesis using Some frontend_errors by simp
  next
    case n: (Some n)
    obtain v b ls where v: "checkNetlistJson v ?file = (Some v, fr_diagnostics r)" "to_file v = Some (n, b, ls)" "fr_board r = b"
      using Some n by (auto simp: build_def Let_def frontend_failed_def checkNetlistJson_def
          split: option.splits sum.splits if_splits)
    have p: "placement_problems v = []" "fr_diagnostics r = []"
      using v(1) by (auto simp: checkNetlistJson_def Let_def split: if_splits)
    show ?thesis using Some n p checked_placements [OF v(2) p(1)] v(3) by (simp add: placements_errors)
  qed
qed simp

section \<open>The frontend in a compile\<close>

text \<open>The frontend touches no server; where it has no value of the declared type the compile has none either.\<close>

definition netlist_json_build :: "(string \<Rightarrow> string + json) \<Rightarrow> compile_source \<Rightarrow> 'b \<Rightarrow> 'b \<times> frontend_result option" where
  "netlist_json_build parse source b = (b, build parse source)"

lemma never_silent: "co_build opts = netlist_json_build parse \<Longrightarrow> \<not> silent_frontend opts source b"
proof -
  assume o: "co_build opts = netlist_json_build parse"
  have "hasErrors (fr_diagnostics r)" if "build parse source = Some r" "fr_netlist r = None" for r
    using that frontend_errors [of parse source] by simp
  then show ?thesis by (auto simp: silent_frontend_def o netlist_json_build_def split: option.split)
qed

end
