(* ===== verification/ProjectRules.thy ===== *)
theory ProjectRules
  imports JsonValues Outline
begin

text \<open>
  Board rules onto a project (\<open>packages/compile/src/rules.ts\<close>) and its library tables
  (\<open>packages/compile/src/libraries.ts\<close>). Design rules live in three places, and each function changes only the
  fields the rules name: the board's minimum constraints, the \<open>Default\<close> net class of the session, and that
  class in the project file, a JSON value.
\<close>

section \<open>Constraints\<close>

definition dist :: "num \<Rightarrow> int" where
  "dist v = round_nm (mm v)"

definition hasRules :: "board_rules option \<Rightarrow> bool" where
  "hasRules rules = (case rules of None \<Rightarrow> False
     | Some r \<Rightarrow> list_ex (\<lambda>v. v \<noteq> None) [br_clearanceMm r, br_trackWidthMm r, br_viaDiameterMm r, br_viaDrillMm r])"

definition given :: "string \<Rightarrow> ('a \<Rightarrow> 'b) \<Rightarrow> 'a option \<Rightarrow> (string \<times> 'b) list" where
  "given k f v = (case v of None \<Rightarrow> [] | Some x \<Rightarrow> [(k, f x)])"

definition given_constraints :: "board_rules \<Rightarrow> (string \<times> int) list" where
  "given_constraints r = given ''minClearance'' dist (br_clearanceMm r) @ given ''minTrackWidth'' dist (br_trackWidthMm r)
     @ given ''minViaSize'' dist (br_viaDiameterMm r) @ given ''minThroughDrill'' dist (br_viaDrillMm r)"

text \<open>\<open>{ ...old, ...new }\<close>\<close>

definition spread :: "(string, 'a) jmap \<Rightarrow> (string \<times> 'a) list \<Rightarrow> (string, 'a) jmap" where
  "spread old new = fold (\<lambda>(k, v). jput k v) new old"

text \<open>The constraints sent back, given those the board has, and the lines of the log.\<close>

definition new_constraints :: "board_rules \<Rightarrow> (string, int) jmap \<Rightarrow> (string, int) jmap" where
  "new_constraints r current = spread current (given_constraints r)"

definition constraint_lines :: "board_rules \<Rightarrow> string list" where
  "constraint_lines r = map (\<lambda>(k, v). ''constraint '' @ k) (given_constraints r)"

section \<open>The net class\<close>

text \<open>Shapes and layers are their numbers in the enumerations; fields the code passes on untouched are opaque.\<close>

definition BL_F_Cu :: int where "BL_F_Cu = 3"
definition BL_B_Cu :: int where "BL_B_Cu = 34"
definition DS_CIRCLE :: int where "DS_CIRCLE = 1"
definition PST_NORMAL :: int where "PST_NORMAL = 1"
definition PSS_CIRCLE :: int where "PSS_CIRCLE = 1"

record via_drill =
  vd_startLayer :: int
  vd_endLayer :: int
  vd_shape :: int
  vd_diameter :: "grid_point option"

record via_copper =
  vc_layer :: int
  vc_shape :: int
  vc_size :: "grid_point option"

record via_stack =
  vs_type :: int
  vs_layers :: "int list"
  vs_drill :: "via_drill option"
  vs_copperLayers :: "via_copper list"

record net_class_board =
  nb_clearance :: "int option"
  nb_trackWidth :: "int option"
  nb_viaStack :: "via_stack option"
  nb_rest :: "(string \<times> string) list"

record net_class =
  nk_name :: string
  nk_priority :: "int option"
  nk_board :: "net_class_board option"

definition square :: "num \<Rightarrow> grid_point" where
  "square v = gp (dist v) (dist v)"

text \<open>The via stack of the class: that of the board, with the size and the drill the rules name.\<close>

definition new_via_stack :: "board_rules \<Rightarrow> via_stack option \<Rightarrow> via_stack option" where
  "new_via_stack r via =
     (if br_viaDiameterMm r = None \<and> br_viaDrillMm r = None then via
      else
        let d = Option.bind via vs_drill;
            size = (case br_viaDiameterMm r of Some v \<Rightarrow> Some (square v)
              | None \<Rightarrow> (case via of None \<Rightarrow> None
                  | Some s \<Rightarrow> (case vs_copperLayers s of [] \<Rightarrow> None | c # cs \<Rightarrow> vc_size c)));
            drill = (case br_viaDrillMm r of Some v \<Rightarrow> Some (square v) | None \<Rightarrow> Option.bind d vd_diameter)
        in Some \<lparr>vs_type = PST_NORMAL,
             vs_layers = (case via of None \<Rightarrow> [BL_F_Cu, BL_B_Cu]
               | Some s \<Rightarrow> if vs_layers s = [] then [BL_F_Cu, BL_B_Cu] else vs_layers s),
             vs_drill = Some \<lparr>vd_startLayer = (case d of None \<Rightarrow> BL_F_Cu | Some x \<Rightarrow> vd_startLayer x),
               vd_endLayer = (case d of None \<Rightarrow> BL_B_Cu | Some x \<Rightarrow> vd_endLayer x),
               vd_shape = (case d of None \<Rightarrow> DS_CIRCLE | Some x \<Rightarrow> vd_shape x), vd_diameter = drill\<rparr>,
             vs_copperLayers = [\<lparr>vc_layer = BL_F_Cu, vc_shape = PSS_CIRCLE, vc_size = size\<rparr>]\<rparr>)"

definition default_class :: "net_class list \<Rightarrow> net_class option" where
  "default_class classes = List.find (\<lambda>c. nk_name c = ''Default'') classes"

definition no_class_board :: net_class_board where
  "no_class_board = \<lparr>nb_clearance = None, nb_trackWidth = None, nb_viaStack = None, nb_rest = []\<rparr>"

definition or_old :: "'a option \<Rightarrow> 'a option \<Rightarrow> 'a option" where
  "or_old new old = (case new of None \<Rightarrow> old | Some x \<Rightarrow> Some x)"

text \<open>The class that \<open>setNetClasses\<close> merges into the project's, given the classes it has.\<close>

definition merged_class :: "board_rules \<Rightarrow> net_class list \<Rightarrow> net_class" where
  "merged_class r classes =
     (let current = default_class classes;
          old = (case Option.bind current nk_board of None \<Rightarrow> no_class_board | Some b \<Rightarrow> b)
      in \<lparr>nk_name = ''Default'', nk_priority = Option.bind current nk_priority,
          nk_board = Some (old\<lparr>nb_clearance := or_old (map_option dist (br_clearanceMm r)) (nb_clearance old),
             nb_trackWidth := or_old (map_option dist (br_trackWidthMm r)) (nb_trackWidth old),
             nb_viaStack := or_old (new_via_stack r (nb_viaStack old)) (nb_viaStack old)\<rparr>)\<rparr>)"

section \<open>The project file\<close>

text \<open>What writing a member of an object makes of it.\<close>

fun set_member :: "string \<Rightarrow> json \<Rightarrow> json \<Rightarrow> json" where
  "set_member k v (JObj fs) = JObj (jput k v fs)"
| "set_member k v x = x"

text \<open>
  \<open>x[k] ??= v\<close> and its value; \<open>None\<close> when the code throws: a member of null, or writing one of a
  primitive value.
\<close>

fun or_assign :: "string \<Rightarrow> json \<Rightarrow> json \<Rightarrow> (json \<times> json) option" where
  "or_assign k v (JObj fs) =
     (case map_of fs k of
        None \<Rightarrow> Some (v, JObj (jput k v fs))
      | Some JNull \<Rightarrow> Some (v, JObj (jput k v fs))
      | Some x \<Rightarrow> Some (x, JObj fs))"
| "or_assign k v (JArr xs) = Some (v, JArr xs)"
| "or_assign k v x = None"

text \<open>Looking for the class throws at a null before it.\<close>

fun default_at :: "nat \<Rightarrow> json list \<Rightarrow> nat option option" where
  "default_at i [] = Some None"
| "default_at i (JNull # cs) = None"
| "default_at i (c # cs) =
     (if jprop c ''name'' = Some (JStr ''Default'') then Some (Some i) else default_at (i + 1) cs)"

definition class_members :: "board_rules \<Rightarrow> (string \<times> json) list" where
  "class_members r = given ''clearance'' jnum (br_clearanceMm r) @ given ''track_width'' jnum (br_trackWidthMm r)
     @ given ''via_diameter'' jnum (br_viaDiameterMm r) @ given ''via_drill'' jnum (br_viaDrillMm r)"

definition set_class :: "board_rules \<Rightarrow> json \<Rightarrow> json" where
  "set_class r c = fold (\<lambda>(k, v). set_member k v) (class_members r) c"

definition fresh_class :: json where
  "fresh_class = JObj [(''name'', JStr ''Default''), (''priority'', jnum 2147483647)]"

definition set_classes :: "board_rules \<Rightarrow> json list \<Rightarrow> json list option" where
  "set_classes r cs = map_option
     (\<lambda>place. case place of None \<Rightarrow> set_class r fresh_class # cs | Some i \<Rightarrow> cs[i := set_class r (cs ! i)]) (default_at 0 cs)"

text \<open>
  The project after \<open>persistNetClassFile\<close>. Members written into an array, where the code would put them,
  do not get into its text.
\<close>

definition persisted :: "board_rules \<Rightarrow> json \<Rightarrow> json option" where
  "persisted r pro =
     (case or_assign ''net_settings'' (JObj []) pro of
        None \<Rightarrow> None
      | Some (settings, pro') \<Rightarrow>
          (case or_assign ''classes'' (JArr []) settings of
             Some (JArr cs, settings') \<Rightarrow>
               map_option (\<lambda>cs'. set_member ''net_settings'' (set_member ''classes'' (JArr cs') settings') pro')
                 (set_classes r cs)
           | _ \<Rightarrow> None))"

text \<open>The file: absent, not JSON, or a value; the answer and what is written, or nothing when it throws.\<close>

datatype project_file = NoFile | NotJson | ProjectFile json

definition persistNetClassFile :: "project_file \<Rightarrow> board_rules \<Rightarrow> (bool \<times> project_file) option" where
  "persistNetClassFile file r =
     (case file of
        ProjectFile pro \<Rightarrow> map_option (\<lambda>pro'. (True, ProjectFile pro')) (persisted r pro)
      | _ \<Rightarrow> Some (False, file))"

section \<open>Library tables\<close>

record table_row =
  tr_nickname :: string
  tr_uri :: string
  tr_type :: string
  tr_options :: string
  tr_description :: string
  tr_enabled :: bool
  tr_hidden :: bool

definition libraryRow :: "library_spec \<Rightarrow> table_row" where
  "libraryRow spec =
     \<lparr>tr_nickname = lb_nickname spec, tr_uri = lb_uri spec, tr_type = ''KiCad'', tr_options = [],
      tr_description = (case lb_description spec of None \<Rightarrow> [] | Some d \<Rightarrow> d), tr_enabled = True, tr_hidden = False\<rparr>"

text \<open>
  The entries of a directory: name, whether a directory, whether a file. The order of the names is
  \<open>localeCompare\<close>, which depends on the machine: an argument.
\<close>

record dir_entry =
  de_name :: string
  de_directory :: bool
  de_file :: bool

definition ends_in :: "string \<Rightarrow> string \<Rightarrow> bool" where
  "ends_in suffix s \<longleftrightarrow> length suffix \<le> length s \<and> drop (length s - length suffix) s = suffix"

definition without_suffix :: "string \<Rightarrow> string \<Rightarrow> string" where
  "without_suffix suffix s = take (length s - length suffix) s"

definition discoverLibraries ::
  "(dir_entry list \<Rightarrow> dir_entry list) \<Rightarrow> (string \<Rightarrow> string \<Rightarrow> string) \<Rightarrow> library_kind \<Rightarrow> string \<Rightarrow> dir_entry list \<Rightarrow>
    library_spec list" where
  "discoverLibraries by_name join_path kind dir entries =
     (case kind of
        FootprintLibrary \<Rightarrow>
          map (\<lambda>e. \<lparr>lb_kind = kind, lb_nickname = without_suffix ''.pretty'' (de_name e), lb_uri = join_path dir (de_name e),
                 lb_description = Some ''Bundled KiCad footprint library''\<rparr>)
            (by_name (filter (\<lambda>e. de_directory e \<and> ends_in ''.pretty'' (de_name e)) entries))
      | SymbolLibrary \<Rightarrow>
          map (\<lambda>e. \<lparr>lb_kind = kind, lb_nickname = without_suffix ''.kicad_sym'' (de_name e), lb_uri = join_path dir (de_name e),
                 lb_description = Some ''Bundled KiCad symbol library''\<rparr>)
            (by_name (filter (\<lambda>e. de_file e \<and> ends_in ''.kicad_sym'' (de_name e)) entries)))"

definition class_lines :: "(num \<Rightarrow> string) \<Rightarrow> board_rules \<Rightarrow> string list" where
  "class_lines show r = map (\<lambda>(k, v). k @ '' '' @ show v @ '' mm'')
     (given ''clearance'' id (br_clearanceMm r) @ given ''track width'' id (br_trackWidthMm r)
       @ given ''via diameter'' id (br_viaDiameterMm r) @ given ''via drill'' id (br_viaDrillMm r))"

section \<open>What changes in the project file\<close>

lemma map_of_jput [simp]: "map_of (jput k v m) = (map_of m)(k \<mapsto> v)"
  by (induction k v m rule: jput.induct) (auto simp: fun_eq_iff)

definition object :: "json \<Rightarrow> bool" where
  "object x = (case x of JObj fs \<Rightarrow> True | _ \<Rightarrow> False)"

lemma set_member_prop: "object x \<Longrightarrow> jprop (set_member k v x) = (jprop x)(k \<mapsto> v)"
  by (cases x) (simp_all add: object_def fun_eq_iff)

lemma set_member_object [simp]: "object (set_member k v x) = object x"
  by (cases x) (simp_all add: object_def)

lemma fold_members_object [simp]: "object (fold (\<lambda>(k, v). set_member k v) ms x) = object x"
  by (induction ms arbitrary: x) (auto split: prod.split)

lemma fold_members_prop:
  "object x \<Longrightarrow> jprop (fold (\<lambda>(k, v). set_member k v) ms x) = jprop x ++ map_of (rev ms)"
  by (induction ms arbitrary: x) (auto simp: set_member_prop map_add_upd_left)


lemma set_class_prop: "object c \<Longrightarrow> jprop (set_class r c) = jprop c ++ map_of (rev (class_members r))"
  by (simp add: set_class_def fold_members_prop)

definition is_default :: "json \<Rightarrow> bool" where
  "is_default c \<longleftrightarrow> jprop c ''name'' = Some (JStr ''Default'')"

lemma default_object: "is_default c \<Longrightarrow> object c"
  by (cases c) (simp_all add: is_default_def object_def)

lemma default_at_skip: "default_at i (c # cs) = Some p \<Longrightarrow>
    if is_default c then p = Some i else default_at (i + 1) cs = Some p"
  by (cases c) (simp_all add: is_default_def split: if_splits)

lemma default_at_spec:
  "default_at i cs = Some p \<Longrightarrow>
     (case p of None \<Rightarrow> list_all (\<lambda>c. \<not> is_default c) cs
      | Some j \<Rightarrow> i \<le> j \<and> j < i + length cs \<and> is_default (cs ! (j - i)) \<and> list_all (\<lambda>c. \<not> is_default c) (take (j - i) cs))"
proof (induction cs arbitrary: i)
  case (Cons c cs)
  show ?case
  proof (cases "is_default c")
    case True
    then show ?thesis using default_at_skip [OF Cons.prems] by simp
  next
    case False
    then have "default_at (i + 1) cs = Some p" using default_at_skip [OF Cons.prems] by simp
    from Cons.IH [OF this] False show ?thesis
    proof (cases p)
      case (Some j)
      then have "Suc i \<le> j" using Cons.IH [OF \<open>default_at (i + 1) cs = Some p\<close>] by simp
      then have "j - i = Suc (j - Suc i)" by simp
      then show ?thesis using Cons.IH [OF \<open>default_at (i + 1) cs = Some p\<close>] False Some by auto
    qed simp
  qed
qed simp

text \<open>The first default class of a list and the other classes in their order.\<close>

definition class_of :: "json list \<Rightarrow> json option" where
  "class_of cs = List.find is_default cs"

fun other_classes :: "json list \<Rightarrow> json list" where
  "other_classes [] = []"
| "other_classes (c # cs) = (if is_default c then cs else c # other_classes cs)"

lemma set_class_default: "is_default (set_class r c) = is_default c"
proof (cases "object c")
  case True
  have "map_of (rev (class_members r)) ''name'' = None"
    by (auto simp: class_members_def given_def map_of_eq_None_iff split: option.splits)
  then show ?thesis using True by (simp add: is_default_def set_class_prop map_add_def)
next
  case False
  then have "jprop (set_class r c) ''name'' = None" "jprop c ''name'' = None"
    by (cases "set_class r c"; cases c; use fold_members_object [of "class_members r" c] in
        \<open>simp add: object_def set_class_def\<close>)+
  then show ?thesis by (simp add: is_default_def)
qed

lemma found_first:
  assumes "j < length cs" "is_default (cs ! j)" "list_all (\<lambda>c. \<not> is_default c) (take j cs)"
  shows "class_of cs = Some (cs ! j)" and "is_default c \<Longrightarrow> class_of (cs[j := c]) = Some c"
    and "is_default c \<Longrightarrow> other_classes (cs[j := c]) = other_classes cs"
  using assms by (induction cs arbitrary: j) (auto simp: class_of_def nth_Cons less_Suc_eq_0_disj split: nat.splits)

lemma none_found: "list_all (\<lambda>c. \<not> is_default c) cs \<Longrightarrow> class_of cs = None \<and> other_classes cs = cs"
  by (induction cs) (simp_all add: class_of_def)

lemma set_classes_spec:
  assumes "set_classes r cs = Some cs'"
  shows "class_of cs' = Some (set_class r (case class_of cs of None \<Rightarrow> fresh_class | Some c \<Rightarrow> c))"
    and "other_classes cs' = other_classes cs"
proof -
  obtain p where p: "default_at 0 cs = Some p"
    "cs' = (case p of None \<Rightarrow> set_class r fresh_class # cs | Some i \<Rightarrow> cs[i := set_class r (cs ! i)])"
    using assms by (auto simp: set_classes_def)
  have "is_default fresh_class" by (simp add: is_default_def fresh_class_def)
  then have f: "is_default (set_class r fresh_class)" by (simp add: set_class_default)
  have "class_of cs' = Some (set_class r (case class_of cs of None \<Rightarrow> fresh_class | Some c \<Rightarrow> c)) \<and>
      other_classes cs' = other_classes cs"
  proof (cases p)
    case None
    then show ?thesis
      using default_at_spec [OF p(1)] p(2) f none_found [of cs] by (simp add: class_of_def)
  next
    case (Some j)
    then have j: "j < length cs" "is_default (cs ! j)" "list_all (\<lambda>c. \<not> is_default c) (take j cs)"
      using default_at_spec [OF p(1)] by simp_all
    then show ?thesis using found_first [OF j] p(2) Some by (simp add: set_class_default)
  qed
  then show "class_of cs' = Some (set_class r (case class_of cs of None \<Rightarrow> fresh_class | Some c \<Rightarrow> c))"
    and "other_classes cs' = other_classes cs" by blast+
qed

lemma map_of_rev_distinct: "distinct (map fst xs) \<Longrightarrow> map_of (rev xs) = map_of xs"
  by (simp add: map_of_inject_set rev_map [symmetric])

text \<open>The settings of a project and its classes, as the function finds or makes them.\<close>

definition member_or :: "json \<Rightarrow> json \<Rightarrow> string \<Rightarrow> json" where
  "member_or d x k = (case jprop x k of None \<Rightarrow> d | Some JNull \<Rightarrow> d | Some v \<Rightarrow> v)"

definition classes_of :: "json \<Rightarrow> json list" where
  "classes_of pro = (case member_or (JArr []) (member_or (JObj []) pro ''net_settings'') ''classes'' of JArr cs \<Rightarrow> cs | _ \<Rightarrow> [])"

lemma or_assign_object:
  "or_assign k v x = Some (y, x') \<Longrightarrow> object x \<Longrightarrow> y = member_or v x k \<and> object x' \<and> (\<forall>z. (jprop x')(k := z) = (jprop x)(k := z))"
  by (cases x) (auto simp: object_def member_or_def split: option.splits json.splits)

lemma persisted_steps:
  assumes "persisted r pro = Some pro'" "object pro" "object (member_or (JObj []) pro ''net_settings'')"
  obtains settings' cs' where "set_classes r (classes_of pro) = Some cs'"
    "jprop pro' = (jprop pro)(''net_settings'' \<mapsto> settings')"
    "jprop settings' = (jprop (member_or (JObj []) pro ''net_settings''))(''classes'' \<mapsto> JArr cs')"
proof -
  obtain s p where s: "or_assign ''net_settings'' (JObj []) pro = Some (s, p)"
    using assms(1) by (auto simp: persisted_def split: option.splits)
  note sp = or_assign_object [OF s assms(2)]
  obtain cs s' cs' where c: "or_assign ''classes'' (JArr []) s = Some (JArr cs, s')" "set_classes r cs = Some cs'"
    "pro' = set_member ''net_settings'' (set_member ''classes'' (JArr cs') s') p"
    using assms(1) s by (auto simp: persisted_def split: option.splits json.splits)
  have o: "object s" using sp assms(3) by simp
  note sc = or_assign_object [OF c(1) o]
  show ?thesis
  proof (rule that)
    show "set_classes r (classes_of pro) = Some cs'" using c(2) sc [THEN conjunct1, symmetric] sp by (simp add: classes_of_def)
    show "jprop pro' = (jprop pro)(''net_settings'' \<mapsto> set_member ''classes'' (JArr cs') s')"
      using sp by (simp add: c(3) set_member_prop)
    show "jprop (set_member ''classes'' (JArr cs') s') = (jprop (member_or (JObj []) pro ''net_settings''))(''classes'' \<mapsto> JArr cs')"
      using sc sp by (simp add: set_member_prop)
  qed
qed

text \<open>
  C25: the project file after \<open>persistNetClassFile\<close> on an object with an object of settings: every member but the
  settings is as it was, every setting but the classes, every class but the default one, in their order;
  the default class, a fresh one where there was none, has the values the rules name and its other members
  as they were.
\<close>

theorem persisted_only_named:
  "case persisted r pro of
     None \<Rightarrow> True
   | Some pro' \<Rightarrow>
       if object pro \<and> object (member_or (JObj []) pro ''net_settings'') then
         (\<exists>settings cs c. jprop pro' = (jprop pro)(''net_settings'' \<mapsto> settings) \<and>
            jprop settings = (jprop (member_or (JObj []) pro ''net_settings''))(''classes'' \<mapsto> JArr cs) \<and>
            other_classes cs = other_classes (classes_of pro) \<and> class_of cs = Some c \<and>
            jprop c = jprop (case class_of (classes_of pro) of None \<Rightarrow> fresh_class | Some d \<Rightarrow> d)
              ++ map_of (class_members r))
       else True"
proof (cases "persisted r pro")
  case (Some pro')
  show ?thesis
  proof (cases "object pro \<and> object (member_or (JObj []) pro ''net_settings'')")
    case True
    then obtain settings cs where st: "set_classes r (classes_of pro) = Some cs"
      "jprop pro' = (jprop pro)(''net_settings'' \<mapsto> settings)"
      "jprop settings = (jprop (member_or (JObj []) pro ''net_settings''))(''classes'' \<mapsto> JArr cs)"
      using persisted_steps [OF Some] by blast
    let ?d = "case class_of (classes_of pro) of None \<Rightarrow> fresh_class | Some d \<Rightarrow> d"
    have "object ?d"
      using default_object by (auto simp: class_of_def fresh_class_def object_def find_Some_iff split: option.split)
    moreover have "distinct (map fst (class_members r))"
      by (auto simp: class_members_def given_def split: option.split)
    ultimately have "jprop (set_class r ?d) = jprop ?d ++ map_of (class_members r)"
      by (simp add: set_class_prop map_of_rev_distinct)
    then show ?thesis using Some True st set_classes_spec [OF st(1)] by auto
  qed (use Some in auto)
qed simp

text \<open>What the board's constraints become: the named ones new, the others as they were.\<close>

lemma constraints_only_named: "jget (new_constraints r current) = jget current ++ map_of (given_constraints r)"
proof -
  have "jget (spread old new) = jget old ++ map_of (rev new)" for old and new :: "(string \<times> int) list"
    by (induction new arbitrary: old) (auto simp: spread_def jget_def fun_eq_iff map_add_def split: option.split)
  moreover have "distinct (map fst (given_constraints r))"
    by (auto simp: given_constraints_def given_def split: option.split)
  ultimately show ?thesis by (simp add: new_constraints_def map_of_rev_distinct)
qed

text \<open>What the default class becomes: the named fields new, the others, and the drill's layers, as they were.\<close>

lemma merged_class_fields:
  assumes "Option.bind (default_class classes) nk_board = Some old"
  shows "nk_board (merged_class r classes) = Some
     \<lparr>nb_clearance = (case br_clearanceMm r of None \<Rightarrow> nb_clearance old | Some v \<Rightarrow> Some (dist v)),
      nb_trackWidth = (case br_trackWidthMm r of None \<Rightarrow> nb_trackWidth old | Some v \<Rightarrow> Some (dist v)),
      nb_viaStack = new_via_stack r (nb_viaStack old), nb_rest = nb_rest old\<rparr>"
proof -
  have "new_via_stack r via = None \<Longrightarrow> via = None" for via by (auto simp: new_via_stack_def Let_def split: if_splits)
  then show ?thesis
    by (cases old) (auto simp: merged_class_def Let_def assms or_old_def split: option.split)
qed

end
