(* ===== verification/CompileJob.thy ===== *)
theory CompileJob
  imports ProjectRules Compile Schematic
begin

text \<open>
  The compile job of the bridge (\<open>packages/compile/src/bridge-job.ts\<close>, with \<open>generateSchematic\<close> of
  \<open>schematic.ts\<close>): find or create the board, generate the schematic and have it checked, compile, save. KiCad
  is an argument, one function per request. The job keeps the schematic file of the project, which only a
  save of the schematic and the job itself write, its info, and its requests in order. Log lines and times
  are left out, and the message of an error that passes a hook; \<open>state\<close> between the requests of the compile is the last stage among the calls of \<open>compile\<close>.
\<close>

section \<open>Data\<close>

datatype compile_job_state = JobQueued | JobStage compile_stage_name | JobCleaning | JobSaving
  | JobIsDone | JobHasFailed | JobIsCancelled

datatype job_failure = NoKiCad | UnknownFrontend | NoOpenBoard | NoSchematic | NoAcceptedFile | BadProjectFile
  | JobAborted | JobRequestFailed

record compile_job_request =
  cq_source :: compile_source
  cq_project :: "string option"
  cq_board :: "board_spec option"
  cq_clean :: bool
  cq_matchMode :: "match_mode option"
  cq_deleteExtraFootprints :: "bool option"
  cq_updateFootprints :: "bool option"
  cq_autoplace :: "bool option"
  cq_save :: "bool option"
  cq_netlistPath :: "string option"
  cq_message :: "string option"

record compile_job_info =
  ci_state :: compile_job_state
  ci_result :: "compile_result option"
  ci_error :: "job_failure option"
  ci_revision :: "int option"
  ci_removedCopper :: "(nat \<times> nat) option"
  ci_rejectedSchematicPath :: "string option"

record erc_report =
  er_errorCount :: int
  er_markers :: "erc_marker list"

record board_track =
  bt_id :: string
  bt_via :: bool
  bt_net :: bool

text \<open>The requests of the job itself; those of the compile in between are recorded by \<open>compile\<close>.\<close>

datatype job_step =
    AskKiCad | CreateProject string | AddLibrary library_spec | CommitSheet "string list" "sch_item list"
  | SaveSchematic | CloseSchematic | OpenSchematic | RunErc "erc_report option" | SaveCopy string | RestoreSchematic
  | RemoveCopper "string list" | SetConstraints | RunParity "int option" | SetNetClass net_class | StoreBoard | WriteProject

record 'b job_kicad =
  jk_board :: "'b kicad"
  jk_currentBoard :: "'b \<Rightarrow> 'b \<times> bool option"
  jk_newProject :: "string \<Rightarrow> 'b \<Rightarrow> 'b \<times> unit option"
  jk_openBoard :: "'b \<Rightarrow> 'b \<times> unit option"
  jk_projectInfo :: "'b \<Rightarrow> 'b \<times> string option"
  jk_mkdir :: "string \<Rightarrow> 'b \<Rightarrow> 'b \<times> unit option"
  jk_edgeMargin :: "'b \<Rightarrow> 'b \<times> num option"
  jk_addLibrary :: "library_kind \<Rightarrow> table_row \<Rightarrow> 'b \<Rightarrow> 'b \<times> unit option"
  jk_currentSchematic :: "'b \<Rightarrow> 'b \<times> bool option"
  jk_openSchematic :: "'b \<Rightarrow> 'b \<times> unit option"
  jk_rootSheet :: "'b \<Rightarrow> 'b \<times> unit option"
  jk_symbol :: "string \<Rightarrow> 'b \<Rightarrow> 'b \<times> lib_symbol option"
  jk_sheetItems :: "'b \<Rightarrow> 'b \<times> sheet_item list option"
  jk_commitSheet :: "string list \<Rightarrow> sch_item list \<Rightarrow> 'b \<Rightarrow> 'b \<times> unit option"
  jk_saveSchematic :: "'b \<Rightarrow> 'b \<times> string option \<times> bool"
  jk_closeSchematic :: "'b \<Rightarrow> 'b \<times> unit option"
  jk_erc :: "'b \<Rightarrow> 'b \<times> erc_report option"
  jk_saveCopy :: "string \<Rightarrow> 'b \<Rightarrow> 'b \<times> unit option"
  jk_restore :: "string \<Rightarrow> 'b \<Rightarrow> 'b \<times> unit option"
  jk_tracks :: "'b \<Rightarrow> 'b \<times> board_track list option"
  jk_deleteTracks :: "string list \<Rightarrow> 'b \<Rightarrow> 'b \<times> unit option"
  jk_constraints :: "'b \<Rightarrow> 'b \<times> (string, int) jmap option"
  jk_setConstraints :: "(string, int) jmap \<Rightarrow> 'b \<Rightarrow> 'b \<times> unit option"
  jk_parity :: "'b \<Rightarrow> 'b \<times> int option"
  jk_netClasses :: "'b \<Rightarrow> 'b \<times> net_class list option"
  jk_setNetClass :: "net_class \<Rightarrow> 'b \<Rightarrow> 'b \<times> unit option"
  jk_saveBoard :: "'b \<Rightarrow> 'b \<times> unit option"
  jk_projectFile :: "'b \<Rightarrow> 'b \<times> project_file option"
  jk_writeProject :: "json \<Rightarrow> 'b \<Rightarrow> 'b \<times> unit option"
  jk_revision :: "'b \<Rightarrow> 'b \<times> int option"

record 'b job_world =
  jw_kicad :: 'b
  jw_file :: "string option"
  jw_schematic :: bool
  jw_rules :: "board_rules option"
  jw_info :: compile_job_info
  jw_steps :: "job_step list"

type_synonym ('b, 'a) job_part = "('b job_world, job_failure, 'a) eff"

text \<open>A request, one whose failure the code catches, and an assignment.\<close>

definition jask :: "('a option \<Rightarrow> job_step) \<Rightarrow> ('b \<Rightarrow> 'b \<times> 'a option) \<Rightarrow> ('b, 'a) job_part" where
  "jask s f w =
     (case f (jw_kicad w) of (b, r) \<Rightarrow>
        (w\<lparr>jw_kicad := b, jw_steps := jw_steps w @ [s r]\<rparr>,
         case r of None \<Rightarrow> Inl JobRequestFailed | Some x \<Rightarrow> Inr x))"

definition jtry :: "('b \<Rightarrow> 'b \<times> 'a option) \<Rightarrow> ('b, 'a option) job_part" where
  "jtry f w = (case f (jw_kicad w) of (b, r) \<Rightarrow> (w\<lparr>jw_kicad := b, jw_steps := jw_steps w @ [AskKiCad]\<rparr>, Inr r))"

definition on_info :: "(compile_job_info \<Rightarrow> compile_job_info) \<Rightarrow> ('b, unit) job_part" where
  "on_info f = eff_update (\<lambda>w. w\<lparr>jw_info := f (jw_info w)\<rparr>)"

definition show_state :: "compile_job_state \<Rightarrow> ('b, unit) job_part" where
  "show_state s = on_info (\<lambda>i. i\<lparr>ci_state := s\<rparr>)"

primrec eff_each :: "('a \<Rightarrow> ('b, unit) job_part) \<Rightarrow> 'a list \<Rightarrow> ('b, unit) job_part" where
  "eff_each f [] = eff_give ()"
| "eff_each f (x # xs) = eff_then (f x) (\<lambda>_. eff_each f xs)"

section \<open>The board and the libraries\<close>

definition boardFor :: "'b job_kicad \<Rightarrow> string option \<Rightarrow> ('b, unit) job_part" where
  "boardFor k project =
     eff_then (jask (\<lambda>_. AskKiCad) (jk_currentBoard k)) (\<lambda>open.
     if open then eff_give ()
     else (case project of
         None \<Rightarrow> eff_fail NoOpenBoard
       | Some path \<Rightarrow>
           if path = [] then eff_fail NoOpenBoard
           else eff_then (jask (\<lambda>_. CreateProject path) (jk_newProject k path)) (\<lambda>_.
                eff_then (jask (\<lambda>_. AskKiCad) (jk_projectInfo k)) (\<lambda>_.
                eff_then (jask (\<lambda>_. AskKiCad) (jk_currentBoard k)) (\<lambda>open'.
                if open' then eff_give () else jask (\<lambda>_. AskKiCad) (jk_openBoard k))))))"

definition lib_key :: "library_spec \<Rightarrow> string" where
  "lib_key l = (case lb_kind l of FootprintLibrary \<Rightarrow> ''footprint'' | SymbolLibrary \<Rightarrow> ''symbol'') @ '':'' @ lb_nickname l"

definition unique_libraries :: "library_spec list \<Rightarrow> library_spec list" where
  "unique_libraries ls = jvalues (fold (\<lambda>l. jput (lib_key l) l) ls [])"

definition registerLibraries :: "'b job_kicad \<Rightarrow> library_spec list \<Rightarrow> ('b, unit) job_part" where
  "registerLibraries k = eff_each (\<lambda>l. jask (\<lambda>_. AddLibrary l) (jk_addLibrary k (lb_kind l) (libraryRow l)))"

section \<open>The schematic\<close>

fun load_definitions :: "'b job_kicad \<Rightarrow> netlist_component list \<Rightarrow> definitions \<Rightarrow> ('b, definitions) job_part" where
  "load_definitions k [] defs = eff_give defs"
| "load_definitions k (c # cs) defs =
     (case nc_libSource c of
        None \<Rightarrow> load_definitions k cs defs
      | Some s \<Rightarrow>
          let libId = lib_id s in
          if defs libId \<noteq> None then load_definitions k cs defs
          else eff_then (jtry (jk_symbol k libId)) (\<lambda>r.
               load_definitions k cs (case r of None \<Rightarrow> defs | Some d \<Rightarrow> defs(libId \<mapsto> d))))"

definition generateSchematic :: "'b job_kicad \<Rightarrow> netlist \<Rightarrow> ('b, netlist \<times> drawing) job_part" where
  "generateSchematic k n =
     eff_then (jask (\<lambda>_. AskKiCad) (jk_currentBoard k)) (\<lambda>board.
     eff_then (jask (\<lambda>_. AskKiCad) (jk_currentSchematic k)) (\<lambda>open.
     eff_then (if open then eff_give ()
               else if board then jask (\<lambda>_. OpenSchematic) (jk_openSchematic k) else eff_fail NoSchematic) (\<lambda>_.
     eff_then (jask (\<lambda>_. AskKiCad) (jk_rootSheet k)) (\<lambda>_.
     eff_then (load_definitions k (nl_components n) Map.empty) (\<lambda>defs.
     eff_then (jask (\<lambda>_. AskKiCad) (jk_sheetItems k)) (\<lambda>existing.
     case buildGeneratedSchematic n defs of (n', g) \<Rightarrow>
     eff_then (if oldIds existing = [] \<and> dr_items g = [] then eff_give ()
               else jask (\<lambda>_. CommitSheet (oldIds existing) (dr_items g))
                      (jk_commitSheet k (oldIds existing) (dr_items g))) (\<lambda>_.
     eff_give (n', g))))))))"

text \<open>A save of the schematic: what it wrote to the file, if anything, and whether it was answered.\<close>

definition save_schematic :: "'b job_kicad \<Rightarrow> ('b, unit) job_part" where
  "save_schematic k w =
     (case jk_saveSchematic k (jw_kicad w) of (b, written, ok) \<Rightarrow>
        (w\<lparr>jw_kicad := b, jw_steps := jw_steps w @ [SaveSchematic],
           jw_file := (case written of None \<Rightarrow> jw_file w | Some s \<Rightarrow> Some s)\<rparr>,
         if ok then Inr () else Inl JobRequestFailed))"

definition read_accepted :: "('b, string) job_part" where
  "read_accepted w = (w, case jw_file w of None \<Rightarrow> Inl NoAcceptedFile | Some s \<Rightarrow> Inr s)"

definition restore_file :: "'b job_kicad \<Rightarrow> string \<Rightarrow> ('b, unit) job_part" where
  "restore_file k s =
     eff_then (jask (\<lambda>_. RestoreSchematic) (jk_restore k s)) (\<lambda>_. eff_update (\<lambda>w. w\<lparr>jw_file := Some s\<rparr>))"

definition saves :: "compile_job_request \<Rightarrow> bool" where
  "saves req = (case cq_save req of None \<Rightarrow> True | Some b \<Rightarrow> b)"

section \<open>The hook before the apply\<close>

fun join_text :: "string \<Rightarrow> string list \<Rightarrow> string" where
  "join_text sep [] = []"
| "join_text sep [s] = s"
| "join_text sep (s # ss) = s @ sep @ join_text sep ss"

definition erc_diagnostics :: "erc_report \<Rightarrow> diagnostic list" where
  "erc_diagnostics e =
     (if er_errorCount e = 0 then []
      else let detail = join_text ''; '' (map em_description (take 10 (filter (\<lambda>m. \<not> em_excluded m) (er_markers e)))) in
        [diag_at SchematicStage ErrorSeverity
           (''Generated schematic has '' @ show_int (er_errorCount e) @ '' ERC error(s) after save/reload''
              @ (if detail = [] then ''.'' else '': '' @ detail)) ''erc_errors''])"

definition merge_diagnostics :: "string list \<Rightarrow> diagnostic list" where
  "merge_diagnostics merges =
     (if merges = [] then []
      else [diag_at SchematicStage ErrorSeverity
              (''Generated schematic joins '' @ show_int (int (length merges)) @ '' pair(s) of distinct netlist nets: ''
                 @ join_text ''; '' (take 10 merges)) ''generated_net_merge''])"

text \<open>\<open>generatedNetMerges\<close> with its requests: the sheet is read only when there are conflicts.\<close>

definition read_merges :: "'b job_kicad \<Rightarrow> erc_marker list \<Rightarrow> ('b, string list) job_part" where
  "read_merges k markers =
     (if filter (\<lambda>m. \<not> em_excluded m \<and> em_driverConflict m) markers = [] then eff_give []
      else eff_then (jask (\<lambda>_. AskKiCad) (jk_rootSheet k)) (\<lambda>_.
           eff_then (jask (\<lambda>_. AskKiCad) (jk_sheetItems k)) (\<lambda>items. eff_give (generatedNetMerges items markers))))"

definition save_and_reopen :: "'b job_kicad \<Rightarrow> ('b, unit) job_part" where
  "save_and_reopen k =
     eff_then (save_schematic k) (\<lambda>_.
     eff_then (jask (\<lambda>_. CloseSchematic) (jk_closeSchematic k)) (\<lambda>_.
     jask (\<lambda>_. OpenSchematic) (jk_openSchematic k)))"

text \<open>A rejected candidate is kept beside the project and the file that was there before is put back.\<close>

definition reject_candidate :: "'b job_kicad \<Rightarrow> string \<Rightarrow> string option \<Rightarrow> ('b, unit) job_part" where
  "reject_candidate k copy prior =
     eff_then (case prior of
         None \<Rightarrow> eff_give ()
       | Some _ \<Rightarrow>
           eff_then (jask (\<lambda>_. AskKiCad) (jk_mkdir k copy)) (\<lambda>_.
           eff_then (on_info (\<lambda>i. i\<lparr>ci_rejectedSchematicPath := Some copy\<rparr>)) (\<lambda>_.
           jask (\<lambda>_. SaveCopy copy) (jk_saveCopy k copy)))) (\<lambda>_.
     eff_then (jask (\<lambda>_. CloseSchematic) (jk_closeSchematic k)) (\<lambda>_.
     eff_then (case prior of None \<Rightarrow> eff_give () | Some s \<Rightarrow> restore_file k s) (\<lambda>_.
     jask (\<lambda>_. OpenSchematic) (jk_openSchematic k))))"

definition routed_copper :: "board_track list \<Rightarrow> board_track list" where
  "routed_copper items = filter (\<lambda>t. \<not> bt_via t \<or> bt_net t) items"

definition clean_rebuild :: "'b job_kicad \<Rightarrow> ('b, unit) job_part" where
  "clean_rebuild k =
     eff_then (show_state JobCleaning) (\<lambda>_.
     eff_then (jask (\<lambda>_. AskKiCad) (jk_tracks k)) (\<lambda>items.
      let routed = routed_copper items; vias = length (filter bt_via routed); ids = map bt_id routed in
     eff_then (if routed = [] then eff_give () else jask (\<lambda>_. RemoveCopper ids) (jk_deleteTracks k ids)) (\<lambda>_.
     on_info (\<lambda>i. i\<lparr>ci_removedCopper := Some (length routed - vias, vias)\<rparr>))))"

definition apply_constraints :: "'b job_kicad \<Rightarrow> board_rules \<Rightarrow> ('b, unit) job_part" where
  "apply_constraints k r =
     (if given_constraints r = [] then eff_give ()
      else eff_then (jask (\<lambda>_. AskKiCad) (jk_constraints k)) (\<lambda>current.
           jask (\<lambda>_. SetConstraints) (jk_setConstraints k (new_constraints r current))))"

definition board_of :: "compile_job_request \<Rightarrow> frontend_result \<Rightarrow> board_spec option" where
  "board_of req built = (case cq_board req of Some s \<Rightarrow> Some s | None \<Rightarrow> fr_board built)"

definition take_rules :: "'b job_kicad \<Rightarrow> board_rules option \<Rightarrow> ('b, unit) job_part" where
  "take_rules k rules =
     eff_then (eff_update (\<lambda>w. w\<lparr>jw_rules := rules\<rparr>)) (\<lambda>_.
     case rules of None \<Rightarrow> eff_give () | Some r \<Rightarrow> if hasRules rules then apply_constraints k r else eff_give ())"

text \<open>The verdict on the generated schematic: what generation, ERC and the check for merges found.\<close>

definition judge :: "'b job_kicad \<Rightarrow> drawing \<Rightarrow> ('b, diagnostic list) job_part" where
  "judge k g =
     eff_then (jask RunErc (jk_erc k)) (\<lambda>erc.
     eff_then (read_merges k (er_markers erc)) (\<lambda>merges.
     eff_give (dr_diags g @ erc_diagnostics erc @ merge_diagnostics merges)))"

definition judged_part :: "'b job_kicad \<Rightarrow> compile_job_request \<Rightarrow> string \<Rightarrow> board_spec option \<Rightarrow> string option \<Rightarrow>
    netlist \<Rightarrow> diagnostic list \<Rightarrow> ('b, netlist \<times> diagnostic list) job_part" where
  "judged_part k req copy spec prior n ds =
     (if hasErrors ds then eff_then (reject_candidate k copy prior) (\<lambda>_. eff_give (n, ds))
      else
      eff_then (if cq_clean req then clean_rebuild k else eff_give ()) (\<lambda>_.
      eff_then (take_rules k (Option.bind spec bs_rules)) (\<lambda>_.
      eff_give (n, ds))))"

definition candidate_part ::
  "'b job_kicad \<Rightarrow> compile_job_request \<Rightarrow> library_spec list \<Rightarrow> string \<Rightarrow> frontend_result \<Rightarrow> string option \<Rightarrow>
    ('b, netlist \<times> diagnostic list) job_part" where
  "candidate_part k req libs copy built prior =
     eff_then (registerLibraries k (unique_libraries (libs @ fr_libraries built))) (\<lambda>_.
     case fr_netlist built of
       None \<Rightarrow> eff_fail JobRequestFailed
     | Some n \<Rightarrow>
     eff_then (generateSchematic k n) (\<lambda>(n', g).
     eff_then (eff_update (\<lambda>w. w\<lparr>jw_schematic := True\<rparr>)) (\<lambda>_.
     eff_then (if saves req then save_and_reopen k else eff_give ()) (\<lambda>_.
     eff_then (judge k g) (judged_part k req copy (board_of req built) prior n')))))"

definition before_hook ::
  "'b job_kicad \<Rightarrow> compile_job_request \<Rightarrow> library_spec list \<Rightarrow> string \<Rightarrow> frontend_result \<Rightarrow>
    ('b, netlist \<times> diagnostic list) job_part" where
  "before_hook k req libs copy built =
     (if saves req then eff_then read_accepted (\<lambda>s. candidate_part k req libs copy built (Some s))
      else candidate_part k req libs copy built None)"

definition parity_diagnostics :: "int \<Rightarrow> diagnostic list" where
  "parity_diagnostics conflicts =
     (if conflicts = 0 then []
      else [diag_at ApplyStage ErrorSeverity
              (''Updated board has '' @ show_int conflicts
                 @ '' schematic parity conflict(s); inspect DRC before routing or release.'') ''schematic_parity''])"

definition after_hook :: "'b job_kicad \<Rightarrow> frontend_result \<Rightarrow> ('b, diagnostic list) job_part" where
  "after_hook k built = eff_then (jask RunParity (jk_parity k)) (\<lambda>n. eff_give (parity_diagnostics n))"

section \<open>The compile of the job\<close>

text \<open>The compile runs on the world of the job: its requests reach the same KiCad.\<close>

definition on_kicad :: "('b \<Rightarrow> 'b \<times> 'a) \<Rightarrow> 'b job_world \<Rightarrow> 'b job_world \<times> 'a" where
  "on_kicad f w = (case f (jw_kicad w) of (b, r) \<Rightarrow> (w\<lparr>jw_kicad := b\<rparr>, r))"

definition job_board :: "'b kicad \<Rightarrow> 'b job_world kicad" where
  "job_board k =
     \<lparr>kc_write = (\<lambda>p s. on_kicad (kc_write k p s)), kc_updateBoard = (\<lambda>opts. on_kicad (kc_updateBoard k opts)),
      kc_shapes = on_kicad (kc_shapes k), kc_hasVia = on_kicad (kc_hasVia k),
      kc_editOutline = (\<lambda>m es. on_kicad (kc_editOutline k m es)), kc_footprintIds = on_kicad (kc_footprintIds k),
      kc_footprints = on_kicad (kc_footprints k), kc_pads = on_kicad (kc_pads k),
      kc_autoplace = (\<lambda>ids. on_kicad (kc_autoplace k ids)), kc_boxes = (\<lambda>ids. on_kicad (kc_boxes k ids)),
      kc_moveEdges = (\<lambda>m es. on_kicad (kc_moveEdges k m es)),
      kc_moveFootprints = (\<lambda>m ms. on_kicad (kc_moveFootprints k m ms))\<rparr>"

definition as_hook :: "('b, 'a) job_part \<Rightarrow> 'b job_world \<Rightarrow> 'b job_world \<times> 'a option" where
  "as_hook m w = (case m w of (w', r) \<Rightarrow> (w', case r of Inl e \<Rightarrow> None | Inr x \<Rightarrow> Some x))"

definition job_apply_options :: "compile_job_request \<Rightarrow> string \<Rightarrow> num option \<Rightarrow> apply_options" where
  "job_apply_options req netlistPath margin =
     \<lparr>ao_netlistPath = netlistPath, ao_serverNetlistPath = None, ao_matchMode = cq_matchMode req,
      ao_deleteExtraFootprints = cq_deleteExtraFootprints req, ao_updateFootprints = cq_updateFootprints req,
      ao_board = cq_board req, ao_autoplace = (case cq_autoplace req of None \<Rightarrow> True | Some b \<Rightarrow> b),
      ao_edgeMarginNm = margin,
      ao_message = (case cq_message req of None \<Rightarrow> None | Some m \<Rightarrow> if m = [] then None else Some m), ao_date = None\<rparr>"

text \<open>What the caller of the job gives: frontends by kind, bundled libraries, the paths, the abort signal and the clock.\<close>

record compile_env =
  je_transport :: bool
  je_frontends :: "(string \<times> (compile_source \<Rightarrow> frontend_result option)) list"
  je_libraries :: "library_spec list"
  je_netlistPath :: "string \<Rightarrow> string \<Rightarrow> string"
  je_netlistDir :: "string \<Rightarrow> string"
  je_rejectedPath :: "string \<Rightarrow> string"
  je_aborted :: "check_point \<Rightarrow> bool"
  je_abortedBefore :: bool
  je_abortedAfter :: bool
  je_abortedAtEnd :: bool
  je_now :: string

definition DEFAULT_NETLIST_PATH :: string where "DEFAULT_NETLIST_PATH = ''.fp-pcb/compile.net''"

definition job_options ::
  "'b job_kicad \<Rightarrow> compile_env \<Rightarrow> compile_job_request \<Rightarrow> (compile_source \<Rightarrow> frontend_result option) \<Rightarrow> string \<Rightarrow> num option \<Rightarrow>
    'b job_world compile_options" where
  "job_options k env req build proPath margin =
     \<lparr>co_apply = job_apply_options req
        (je_netlistPath env proPath (case cq_netlistPath req of None \<Rightarrow> DEFAULT_NETLIST_PATH | Some p \<Rightarrow> p)) margin,
      co_frontendKind = cs_kind (cq_source req),
      co_build = (\<lambda>source w. (w, build source)),
      co_beforeApply = Some (\<lambda>built. as_hook (before_hook k req (je_libraries env) (je_rejectedPath env proPath) built)),
      co_afterApply = Some (\<lambda>built. as_hook (after_hook k built))\<rparr>"

definition run_compile ::
  "'b job_kicad \<Rightarrow> compile_env \<Rightarrow> compile_job_request \<Rightarrow> 'b job_world compile_options \<Rightarrow> ('b, compile_result) job_part" where
  "run_compile k env req opts w =
     (case compile (job_board (jk_board k)) (je_now env) (je_aborted env) opts (cq_source req) \<lparr>w_server = w, w_calls = []\<rparr> of
        (t, r) \<Rightarrow> (w_server t, case r of
            Inl CompileCancelled \<Rightarrow> Inl JobAborted
          | Inl RequestFailed \<Rightarrow> Inl JobRequestFailed
          | Inr res \<Rightarrow> Inr res))"

section \<open>The job\<close>

definition class_part :: "'b job_kicad \<Rightarrow> board_rules \<Rightarrow> ('b, unit) job_part" where
  "class_part k r =
     eff_then (jask (\<lambda>_. AskKiCad) (jk_netClasses k)) (\<lambda>classes.
     jask (\<lambda>_. SetNetClass (merged_class r classes)) (jk_setNetClass k (merged_class r classes)))"

definition write_class_part :: "'b job_kicad \<Rightarrow> board_rules \<Rightarrow> ('b, unit) job_part" where
  "write_class_part k r =
     eff_then (jask (\<lambda>_. AskKiCad) (jk_projectFile k)) (\<lambda>file.
     case persistNetClassFile file r of
       None \<Rightarrow> eff_fail BadProjectFile
     | Some (_, ProjectFile pro) \<Rightarrow> jask (\<lambda>_. WriteProject) (jk_writeProject k pro)
     | Some _ \<Rightarrow> eff_give ())"

definition with_rules :: "(board_rules \<Rightarrow> ('b, unit) job_part) \<Rightarrow> ('b, unit) job_part" where
  "with_rules f w = (case jw_rules w of None \<Rightarrow> (w, Inr ()) | Some r \<Rightarrow> if hasRules (Some r) then f r w else (w, Inr ()))"

definition save_part :: "'b job_kicad \<Rightarrow> ('b, unit) job_part" where
  "save_part k =
     eff_then (show_state JobSaving) (\<lambda>_.
     eff_then (jask (\<lambda>_. StoreBoard) (jk_saveBoard k)) (\<lambda>_.
     eff_then (\<lambda>w. if jw_schematic w then save_schematic k w else (w, Inr ())) (\<lambda>_.
     with_rules (write_class_part k))))"

definition job_tail :: "'b job_kicad \<Rightarrow> compile_env \<Rightarrow> compile_job_request \<Rightarrow> compile_result \<Rightarrow> ('b, unit) job_part" where
  "job_tail k env req res =
     eff_then (eff_stop_if (je_abortedAfter env) JobAborted) (\<lambda>_.
     eff_then (if cr_ok res then with_rules (class_part k) else eff_give ()) (\<lambda>_.
     eff_then (if cr_ok res \<and> saves req then save_part k else eff_give ()) (\<lambda>_.
     eff_then (jtry (jk_revision k)) (\<lambda>rev.
     on_info (\<lambda>i. i\<lparr>ci_revision := (case rev of None \<Rightarrow> ci_revision i | Some n \<Rightarrow> Some n), ci_result := Some res,
       ci_state := (if cr_ok res then JobIsDone else JobHasFailed)\<rparr>)))))"

definition compile_job_body :: "'b job_kicad \<Rightarrow> compile_env \<Rightarrow> compile_job_request \<Rightarrow> ('b, unit) job_part" where
  "compile_job_body k env req =
     eff_then (eff_stop_if (\<not> je_transport env) NoKiCad) (\<lambda>_.
     case map_of (je_frontends env) (cs_kind (cq_source req)) of
       None \<Rightarrow> eff_fail UnknownFrontend
     | Some build \<Rightarrow>
     eff_then (boardFor k (cq_project req)) (\<lambda>_.
     eff_then (eff_stop_if (je_abortedBefore env) JobAborted) (\<lambda>_.
     eff_then (jask (\<lambda>_. AskKiCad) (jk_projectInfo k)) (\<lambda>proPath.
     eff_then (jask (\<lambda>_. AskKiCad) (jk_mkdir k (je_netlistDir env proPath))) (\<lambda>_.
     eff_then (if (case cq_autoplace req of None \<Rightarrow> True | Some b \<Rightarrow> b)
               then eff_then (jask (\<lambda>_. AskKiCad) (jk_edgeMargin k)) (\<lambda>m. eff_give (Some m)) else eff_give (Some 0)) (\<lambda>margin.
     eff_then (run_compile k env req (job_options k env req build proPath margin)) (job_tail k env req)))))))"

text \<open>The end of a job that threw.\<close>

definition job_ended :: "compile_env \<Rightarrow> 'b job_world \<times> (job_failure + unit) \<Rightarrow> 'b job_world" where
  "job_ended env = (\<lambda>(w, r). case r of
      Inr _ \<Rightarrow> w
    | Inl e \<Rightarrow> w\<lparr>jw_info := (jw_info w)\<lparr>
        ci_state := (if je_abortedAtEnd env \<or> e = JobAborted then JobIsCancelled else JobHasFailed),
        ci_error := Some (if je_abortedAtEnd env \<or> e = JobAborted then JobAborted else e)\<rparr>\<rparr>)"

definition new_job_world :: "'b \<Rightarrow> string option \<Rightarrow> 'b job_world" where
  "new_job_world b file =
     \<lparr>jw_kicad = b, jw_file = file, jw_schematic = False, jw_rules = None,
      jw_info = \<lparr>ci_state = JobQueued, ci_result = None, ci_error = None, ci_revision = None, ci_removedCopper = None,
        ci_rejectedSchematicPath = None\<rparr>, jw_steps = []\<rparr>"

definition run_compile_job :: "'b job_kicad \<Rightarrow> compile_env \<Rightarrow> compile_job_request \<Rightarrow> 'b \<Rightarrow> string option \<Rightarrow> 'b job_world" where
  "run_compile_job k env req b file = job_ended env (compile_job_body k env req (new_job_world b file))"

section \<open>What the parts of the job respect\<close>

text \<open>An order on the worlds of a job that requests respect, and one that the whole job respects up to its result.\<close>

locale job_requests = eff_order R for R :: "'b job_world \<Rightarrow> 'b job_world \<Rightarrow> bool" +
  assumes R_ask: "R w (w\<lparr>jw_kicad := b, jw_steps := jw_steps w @ ss\<rparr>)"
begin

lemma R_kicad: "R w (w\<lparr>jw_kicad := b\<rparr>)"
  using R_ask [where w = w and b = b and ss = "[]"] by simp

lemma grows_jask: "grows (jask s f)"
  by (simp add: grows_def jask_def R_ask split: prod.split)

lemma grows_jtry: "grows (jtry f)"
  by (simp add: grows_def jtry_def R_ask split: prod.split)

lemmas asking = grows_give grows_fail grows_stop grows_jask grows_jtry grows_then grows_case grows_if

lemma grows_each: "(\<And>x. grows (f x)) \<Longrightarrow> grows (eff_each f xs)"
  by (induction xs) (auto intro!: asking)

lemma grows_definitions: "grows (load_definitions k cs defs)"
  by (induction k cs defs rule: load_definitions.induct) (auto simp: Let_def intro!: asking split: option.split)

lemma grows_board: "grows (boardFor k project)"
  unfolding boardFor_def by (intro asking)

lemma grows_libraries: "grows (registerLibraries k ls)"
  unfolding registerLibraries_def by (intro grows_each asking)

lemma grows_generate: "grows (generateSchematic k n)"
  unfolding generateSchematic_def split_beta by (intro asking grows_definitions)

lemma grows_judge: "grows (judge k g)"
  unfolding judge_def read_merges_def by (intro asking)

lemma grows_after: "grows (after_hook k built)"
  unfolding after_hook_def by (intro asking)

lemma grows_constraints: "grows (apply_constraints k r)"
  unfolding apply_constraints_def by (intro asking)

lemma grows_accepted: "grows read_accepted"
  by (simp add: grows_def read_accepted_def le_refl)

lemma grows_with_rules: "(\<And>r. grows (f r)) \<Longrightarrow> grows (with_rules f)"
  by (simp add: grows_def with_rules_def le_refl split: option.split)

lemma grows_class: "grows (with_rules (class_part k))"
  unfolding class_part_def by (intro grows_with_rules asking)

lemma grows_persist: "grows (with_rules (write_class_part k))"
proof (rule grows_with_rules)
  fix r show "grows (write_class_part k r)"
    unfolding write_class_part_def
    by (intro grows_then grows_jask) (auto split: option.split project_file.split intro!: asking)
qed

lemma ewp_grows: "grows m \<Longrightarrow> R w t \<Longrightarrow> ewp m (\<lambda>x u. R w u) (\<lambda>e u. R w u) t"
proof -
  assume "grows m" "R w t"
  then have "R w (fst (m t))" unfolding grows_def using le_trans by blast
  then show ?thesis by (cases "m t") (auto simp: ewp_def split: sum.split)
qed

end

locale job_order = job_requests +
  assumes R_file: "R w (w\<lparr>jw_file := f\<rparr>)"
    and R_schematic: "R w (w\<lparr>jw_schematic := True\<rparr>)"
    and R_rules: "R w (w\<lparr>jw_rules := r\<rparr>)"
    and R_state: "R w (w\<lparr>jw_info := (jw_info w)\<lparr>ci_state := s\<rparr>\<rparr>)"
    and R_removed: "R w (w\<lparr>jw_info := (jw_info w)\<lparr>ci_removedCopper := c\<rparr>\<rparr>)"
    and R_rejected: "R w (w\<lparr>jw_info := (jw_info w)\<lparr>ci_rejectedSchematicPath := p\<rparr>\<rparr>)"
begin

lemma grows_update: "(\<And>w. R w (f w)) \<Longrightarrow> grows (eff_update f)"
  by (simp add: grows_def eff_update_def)

lemma grows_show: "grows (show_state s)"
  unfolding show_state_def on_info_def by (intro grows_update R_state)

lemma grows_save: "grows (save_schematic k)"
proof -
  have "R w (w\<lparr>jw_kicad := b, jw_steps := jw_steps w @ [SaveSchematic], jw_file := f\<rparr>)" for w b f
    by (rule le_trans [OF R_ask R_file])
  then show ?thesis by (simp add: grows_def save_schematic_def split: prod.split)
qed

lemma grows_restore: "grows (restore_file k s)"
  unfolding restore_file_def by (intro asking grows_update R_file)

lemma grows_reopen: "grows (save_and_reopen k)"
  unfolding save_and_reopen_def by (intro asking grows_save)

lemma grows_reject: "grows (reject_candidate k copy prior)"
  unfolding reject_candidate_def on_info_def by (intro asking grows_update grows_restore R_rejected)

lemma grows_clean: "grows (clean_rebuild k)"
  unfolding clean_rebuild_def on_info_def Let_def by (intro asking grows_update grows_show R_removed)

lemma grows_take: "grows (take_rules k rules)"
  unfolding take_rules_def by (intro asking grows_update grows_constraints R_rules)

lemma grows_marked: "grows (eff_update (\<lambda>w. w\<lparr>jw_schematic := True\<rparr>))"
  by (intro grows_update R_schematic)

lemmas growing = asking grows_accepted grows_libraries grows_generate grows_marked grows_reopen grows_judge
  grows_reject grows_clean grows_take

lemma grows_before: "grows (before_hook k req libs copy built)"
  unfolding before_hook_def candidate_part_def judged_part_def split_beta by (intro growing)

lemma grows_save_part: "grows (save_part k)"
proof -
  have "grows (\<lambda>w. if jw_schematic w then save_schematic k w else (w, Inr ()))"
    using grows_save by (simp add: grows_def le_refl)
  then show ?thesis unfolding save_part_def by (intro asking grows_show grows_persist)
qed

end
text \<open>The compile respects what the job's own requests respect: both reach the same KiCad.\<close>

sublocale job_order \<subseteq> compiling: world_order "\<lambda>w w'. R (w_server w) (w_server w')"
  by unfold_locales (auto intro: le_refl le_trans)

context job_order
begin

lemma R_on_kicad: "R w (fst (on_kicad f w))"
  by (simp add: on_kicad_def R_kicad split: prod.split)

lemma compiling_request: "(\<And>w. R w (fst (f w))) \<Longrightarrow> compiling.grows (request c f)"
proof -
  assume "\<And>w. R w (fst (f w))"
  then have f: "f w = (b, r) \<Longrightarrow> R w b" for w b r by (metis fst_conv)
  show ?thesis
    by (auto simp: compiling.grows_def request_def dest: f split: prod.split option.split)
qed

lemma compiling_board: "compiling.requests_grow (job_board k)"
proof -
  have a: "R w (fst (case on_kicad f w of (b', a) \<Rightarrow> (b', Some a)))" for f w
    using R_on_kicad [of w f] by (simp add: split_beta)
  show ?thesis
    unfolding compiling.requests_grow_def read_board_def job_board_def
    by (simp add: compiling_request R_on_kicad a)
qed

lemma R_as_hook: "grows m \<Longrightarrow> R w (fst (as_hook m w))"
  by (simp add: grows_def as_hook_def split_beta)

lemma grows_compile: "grows (run_compile k env req (job_options k env req build proPath margin))"
proof -
  have "compiling.grows (compile (job_board (jk_board k)) now aborted (job_options k env req build proPath margin) source)"
    for now aborted source
    by (rule compiling.compile_grows [OF compiling_board])
      (auto simp: job_options_def intro!: compiling_request le_refl R_as_hook grows_before grows_after)
  then have "R w (w_server (fst (compile (job_board (jk_board k)) now aborted (job_options k env req build proPath margin)
      source \<lparr>w_server = w, w_calls = []\<rparr>)))" for w now aborted source
    unfolding compiling.grows_def by (metis world.select_convs(1))
  then show ?thesis
    unfolding grows_def run_compile_def by (simp add: split_beta)
qed

end
section \<open>Rejected candidates\<close>

lemma ewp_jask [ewp_simps]:
  "ewp (jask s f) Q E w =
     (case f (jw_kicad w) of (b, r) \<Rightarrow>
        (case r of None \<Rightarrow> E JobRequestFailed (w\<lparr>jw_kicad := b, jw_steps := jw_steps w @ [s None]\<rparr>)
         | Some x \<Rightarrow> Q x (w\<lparr>jw_kicad := b, jw_steps := jw_steps w @ [s (Some x)]\<rparr>)))"
  by (auto simp: ewp_def jask_def split: prod.split option.split)

interpretation filing: job_requests "\<lambda>w w'. jw_file w' = jw_file w"
  by unfold_locales simp_all

lemma reject_restores:
  "ewp (reject_candidate k copy (Some s))
     (\<lambda>x t. jw_file t = Some s \<and> ci_rejectedSchematicPath (jw_info t) = Some copy) (\<lambda>e t. True) w"
  by (simp add: reject_candidate_def restore_file_def on_info_def ewp_simps split: prod.split option.split)

lemma reject_keeps: "filing.grows (reject_candidate k copy None)"
  unfolding reject_candidate_def option.case by (intro filing.asking)

lemma filing_clean: "filing.grows (clean_rebuild k)"
  unfolding clean_rebuild_def show_state_def on_info_def Let_def
  by (intro filing.asking) (simp_all add: filing.grows_def eff_update_def)

lemma filing_take: "filing.grows (take_rules k rules)"
  unfolding take_rules_def
  by (intro filing.asking filing.grows_constraints) (simp_all add: filing.grows_def eff_update_def)

lemma filing_marked: "filing.grows (eff_update (\<lambda>w. w\<lparr>jw_schematic := True\<rparr>))"
  by (simp add: filing.grows_def eff_update_def)

lemma judged_keeps: "filing.grows (judged_part k req copy spec None n ds)"
  unfolding judged_part_def by (intro filing.asking reject_keeps filing_clean filing_take)

lemma unsaved_keeps:
  assumes "\<not> saves req"
  shows "filing.grows (before_hook k req libs copy built)"
proof -
  have s: "filing.grows (if saves req then m else eff_give ())" for m :: "('b, unit) job_part"
    using assms by (simp add: filing.grows_give)
  have "filing.grows (candidate_part k req libs copy built None)"
    unfolding candidate_part_def split_beta
    by (intro filing.asking filing.grows_libraries filing.grows_generate filing.grows_judge judged_keeps filing_marked s)
  then show ?thesis using assms by (simp add: before_hook_def)
qed

lemma judged_rejects:
  "ewp (judged_part k req copy spec (Some s) n ds)
     (\<lambda>x t. hasErrors (snd x) \<longrightarrow> jw_file t = Some s \<and> ci_rejectedSchematicPath (jw_info t) = Some copy)
     (\<lambda>e t. True) w"
  unfolding judged_part_def by (simp add: ewp_simps ewp_mono [OF reject_restores] ewp_any)

lemma candidate_rejects:
  "ewp (candidate_part k req libs copy built (Some s))
     (\<lambda>x t. hasErrors (snd x) \<longrightarrow> jw_file t = Some s \<and> ci_rejectedSchematicPath (jw_info t) = Some copy)
     (\<lambda>e t. True) w"
  unfolding candidate_part_def ewp_then split_beta
  by (cases "fr_netlist built")
    ((simp only: option.case split_beta ewp_then ewp_basic)?; (rule judged_rejects | rule ewp_any | simp add: ewp_basic))+

text \<open>
  C22: a rejected candidate does not become the schematic of the project. When generation, ERC or the
  check for merged nets finds an error and the job saves, the hook hands the errors back with the
  schematic file exactly as it was, whatever KiCad wrote in between, and the path of the rejected copy in
  the info of the job; without a save the hook never changes the file.
\<close>

theorem rejected_candidate_restored:
  "case before_hook k req libs copy built w of (w', r) \<Rightarrow>
     (if saves req
      then (case r of Inl e \<Rightarrow> True
            | Inr (n, ds) \<Rightarrow>
                if hasErrors ds
                then jw_file w \<noteq> None \<and> jw_file w' = jw_file w \<and> ci_rejectedSchematicPath (jw_info w') = Some copy
                else True)
      else jw_file w' = jw_file w)"
proof (cases "saves req")
  case False
  then show ?thesis using unsaved_keeps [of req k libs copy built] unfolding filing.grows_def by (simp add: split_beta)
next
  case True
  have "ewp (before_hook k req libs copy built)
     (\<lambda>x t. hasErrors (snd x) \<longrightarrow> jw_file w \<noteq> None \<and> jw_file t = jw_file w \<and>
        ci_rejectedSchematicPath (jw_info t) = Some copy) (\<lambda>e t. True) w"
    using True by (cases "jw_file w")
      (auto simp: before_hook_def ewp_then ewp_def [of read_accepted] read_accepted_def intro: ewp_mono [OF candidate_rejects])
  then show ?thesis using True by (auto simp: ewp_result split: prod.splits sum.splits)
qed

section \<open>The info of a job\<close>

definition unsettled :: "'b job_world \<Rightarrow> bool" where
  "unsettled w \<longleftrightarrow> ci_result (jw_info w) = None \<and> ci_error (jw_info w) = None"

interpretation settling: job_order "\<lambda>w w'. unsettled w \<longrightarrow> unsettled w'"
  by unfold_locales (simp_all add: unsettled_def)

definition settled :: "'b job_world \<Rightarrow> bool" where
  "settled w \<longleftrightarrow> (case ci_result (jw_info w) of None \<Rightarrow> False
     | Some r \<Rightarrow> ci_error (jw_info w) = None \<and> ci_state (jw_info w) = (if cr_ok r then JobIsDone else JobHasFailed))"

lemma ewp_unsettled: "settling.grows m \<Longrightarrow> unsettled w \<Longrightarrow> ewp m (\<lambda>x. unsettled) (\<lambda>e. unsettled) w"
  by (rule ewp_mono [OF settling.ewp_grows [where w = w]]) simp_all

lemma ewp_unsettled_then:
  assumes "settling.grows m" "unsettled w" "\<And>x t. unsettled t \<Longrightarrow> ewp (f x) Q (\<lambda>e. unsettled) t"
  shows "ewp (eff_then m f) Q (\<lambda>e. unsettled) w"
  unfolding ewp_then by (rule ewp_mono [OF ewp_unsettled [OF assms(1,2)]]) (simp_all add: assms(3))

lemma tail_settles: "unsettled w \<Longrightarrow> ewp (job_tail k env req res) (\<lambda>x. settled) (\<lambda>e. unsettled) w"
  unfolding job_tail_def
  by (intro ewp_unsettled_then settling.asking settling.grows_class settling.grows_save_part)
    (auto simp: on_info_def ewp_simps settled_def unsettled_def)

lemma body_settles: "unsettled w \<Longrightarrow> ewp (compile_job_body k env req) (\<lambda>x. settled) (\<lambda>e. unsettled) w"
  unfolding compile_job_body_def
  by (intro ewp_unsettled_then settling.asking)
    (auto split: option.split intro!: ewp_unsettled_then settling.asking settling.grows_board settling.grows_compile
      tail_settles simp: ewp_basic)

text \<open>
  A job always ends, in one of three ways. When the job returns, its info holds either a verdict of
  the compiler or a failure, never both: with a verdict the state is \<open>done\<close> exactly when the verdict
  is positive and \<open>failed\<close> otherwise, with a failure it is \<open>cancelled\<close> for an abort and \<open>failed\<close> for
  every other.
\<close>

theorem compile_job_info:
  "case jw_info (run_compile_job k env req b file) of i \<Rightarrow>
     (case ci_result i of
        Some r \<Rightarrow> ci_error i = None \<and> ci_state i = (if cr_ok r then JobIsDone else JobHasFailed)
      | None \<Rightarrow> (case ci_error i of None \<Rightarrow> False
          | Some e \<Rightarrow> ci_state i = (if e = JobAborted then JobIsCancelled else JobHasFailed)))"
proof -
  have "unsettled (new_job_world b file)" by (simp add: unsettled_def new_job_world_def)
  from body_settles [OF this, of k env req] show ?thesis
    by (auto simp: ewp_result run_compile_job_def job_ended_def settled_def unsettled_def split: prod.splits sum.splits option.splits)
qed

section \<open>What a finished job has checked\<close>

definition erc_clean :: "'b job_world \<Rightarrow> bool" where
  "erc_clean w \<longleftrightarrow> (\<exists>e. RunErc (Some e) \<in> set (jw_steps w) \<and> er_errorCount e = 0)"

definition parity_clean :: "'b job_world \<Rightarrow> bool" where
  "parity_clean w \<longleftrightarrow> erc_clean w \<and> RunParity (Some 0) \<in> set (jw_steps w)"

interpretation stepping: job_order "\<lambda>w w'. set (jw_steps w) \<subseteq> set (jw_steps w')"
  by unfold_locales auto

lemma erc_clean_mono: "erc_clean w \<Longrightarrow> set (jw_steps w) \<subseteq> set (jw_steps w') \<Longrightarrow> erc_clean w'"
  by (auto simp: erc_clean_def)

lemma ewp_steps: "stepping.grows m \<Longrightarrow> erc_clean w \<Longrightarrow> ewp m (\<lambda>x. erc_clean) (\<lambda>e t. True) w"
  by (rule ewp_mono [OF stepping.ewp_grows [where w = w]]) (auto intro: erc_clean_mono)

lemma stepping_merges: "stepping.grows (read_merges k ms)"
  unfolding read_merges_def by (intro stepping.asking)

lemma judge_steps: "ewp (judge k g) (\<lambda>ds t. hasErrors ds \<or> erc_clean t) (\<lambda>e t. True) w"
proof -
  have d: "er_errorCount e \<noteq> 0 \<Longrightarrow> hasErrors (erc_diagnostics e)" for e
    by (simp add: erc_diagnostics_def Let_def)
  have m: "ewp (read_merges k ms) (\<lambda>x t. hasErrors as \<or> hasErrors (erc_diagnostics e) \<or> hasErrors (merge_diagnostics x) \<or>
      erc_clean t) (\<lambda>e t. True) t" if "RunErc (Some e) \<in> set (jw_steps t)" for e as ms t
  proof (cases "er_errorCount e = 0")
    case True
    then have "erc_clean t" using that by (auto simp: erc_clean_def)
    from ewp_steps [OF stepping_merges this] show ?thesis by (rule ewp_mono) simp_all
  next
    case False
    then show ?thesis by (intro ewp_any disjI2 disjI1 d)
  qed
  show ?thesis
    unfolding judge_def by (simp add: ewp_simps ewp_give m split: prod.split option.split)
qed

lemma judged_steps:
  assumes "hasErrors ds \<or> erc_clean w"
  shows "ewp (judged_part k req copy spec prior n ds) (\<lambda>x t. hasErrors (snd x) \<or> erc_clean t) (\<lambda>e t. True) w"
proof (cases "hasErrors ds")
  case True
  then show ?thesis by (simp add: judged_part_def ewp_then ewp_any ewp_basic)
next
  case False
  have "stepping.grows (judged_part k req copy spec prior n ds)"
    unfolding judged_part_def by (intro stepping.growing)
  moreover have "erc_clean w" using assms False by simp
  ultimately show ?thesis by (rule ewp_mono [OF ewp_steps]) simp_all
qed

lemma before_steps:
  "ewp (before_hook k req libs copy built) (\<lambda>x t. hasErrors (snd x) \<or> erc_clean t) (\<lambda>e t. True) w"
proof -
  have j: "ewp (judge k g) (\<lambda>ds. ewp (judged_part k req copy spec prior n ds) (\<lambda>x t. hasErrors (snd x) \<or> erc_clean t)
      (\<lambda>e t. True)) (\<lambda>e t. True) t" for g spec prior n t
    by (rule ewp_mono [OF judge_steps]) (rule judged_steps, simp_all)
  have c: "ewp (candidate_part k req libs copy built prior) (\<lambda>x t. hasErrors (snd x) \<or> erc_clean t) (\<lambda>e t. True) t" for prior t
    unfolding candidate_part_def
    by (cases "fr_netlist built")
      ((simp only: option.case split_beta ewp_then ewp_basic)?; (rule j | rule ewp_any | simp add: ewp_basic))+
  show ?thesis
    unfolding before_hook_def by (simp add: ewp_then ewp_any c)
qed

lemma after_steps:
  assumes "erc_clean w"
  shows "ewp (after_hook k built) (\<lambda>ds t. hasErrors ds \<or> parity_clean t) (\<lambda>e t. True) w"
  using assms
  by (auto simp: after_hook_def ewp_simps parity_diagnostics_def parity_clean_def erc_clean_def split: prod.split option.split)

lemma ewp_hook:
  assumes "\<And>w. ewp m Q (\<lambda>e t. True) w"
  shows "ewp (request c (as_hook m)) (\<lambda>x t. Q x (w_server t)) (\<lambda>e t. True) v"
  using assms [of "w_server v"] by (auto simp: ewp_def request_def as_hook_def split: prod.splits sum.splits)

lemma compile_steps:
  fixes k :: "'b job_kicad"
  shows "ewp (compile (job_board (jk_board k)) now aborted (job_options k env req build proPath margin) source)
     (\<lambda>r t. cr_ok r \<longrightarrow> silent_frontend (job_options k env req build proPath margin) source (w_server w) \<or>
        parity_clean (w_server t)) (\<lambda>e t. True) w"
proof (rule compile_hooks [where P = erc_clean])
  fix built n v
  show "ewp (run_before (job_options k env req build proPath margin) built n)
     (\<lambda>x t. hasErrors (snd x) \<or> erc_clean (w_server t)) (\<lambda>e t. True) v"
    unfolding run_before_def job_options_def stage_def note_call_def
    by (simp add: ewp_then ewp_basic ewp_hook [OF before_steps])
next
  fix n ao and v :: "'b job_world world"
  assume v: "erc_clean (w_server v)"
  let ?a = "applyNetlist (job_board (jk_board k)) now aborted n ao"
  have "stepping.compiling.grows ?a" by (rule stepping.compiling.apply_grows [OF stepping.compiling_board])
  then have "set (jw_steps (w_server v)) \<subseteq> set (jw_steps (w_server (fst (?a v))))"
    unfolding stepping.compiling.grows_def by blast
  then have "erc_clean (w_server (fst (?a v)))" by (rule erc_clean_mono [OF v])
  then show "ewp ?a (\<lambda>a t. erc_clean (w_server t)) (\<lambda>e t. True) v"
    by (auto simp: ewp_def split: prod.splits sum.splits)
next
  fix built ds and v :: "'b job_world world"
  assume v: "erc_clean (w_server v)" and ds: "\<not> hasErrors ds"
  show "ewp (run_after (job_options k env req build proPath margin) aborted built ds)
     (\<lambda>fs t. hasErrors fs \<or> parity_clean (w_server t)) (\<lambda>e t. True) v"
    using after_steps [OF v, of k built] ds
    by (auto simp: run_after_def job_options_def stage_def note_call_def cancelled_def ewp_then ewp_basic ewp_request as_hook_def
        ewp_def [of "after_hook k built"] split: prod.splits sum.splits)
qed

text \<open>A frontend that breaks its contract: neither a netlist nor an error.\<close>

definition silent_build :: "compile_env \<Rightarrow> compile_job_request \<Rightarrow> bool" where
  "silent_build env req \<longleftrightarrow>
     (case map_of (je_frontends env) (cs_kind (cq_source req)) of None \<Rightarrow> False
      | Some build \<Rightarrow> (case build (cq_source req) of None \<Rightarrow> False
          | Some built \<Rightarrow> fr_netlist built = None \<and> \<not> hasErrors (fr_diagnostics built)))"

lemma run_steps:
  assumes "map_of (je_frontends env) (cs_kind (cq_source req)) = Some build"
  shows "ewp (run_compile k env req (job_options k env req build proPath margin))
     (\<lambda>r t. cr_ok r \<longrightarrow> silent_build env req \<or> parity_clean t) (\<lambda>e t. True) w"
proof -
  have "silent_frontend (job_options k env req build proPath margin) (cq_source req) w = silent_build env req"
    by (simp add: silent_frontend_def silent_build_def assms job_options_def)
  then show ?thesis
    using compile_steps [of k "je_now env" "je_aborted env" env req build proPath margin "cq_source req" "\<lparr>w_server = w, w_calls = []\<rparr>"]
    by (auto simp: ewp_def run_compile_def split: prod.splits sum.splits compile_failure.splits)
qed

lemma ewp_jtry [ewp_simps]:
  "ewp (jtry f) Q E w = (case f (jw_kicad w) of (b, r) \<Rightarrow> Q r (w\<lparr>jw_kicad := b, jw_steps := jw_steps w @ [AskKiCad]\<rparr>))"
  by (simp add: ewp_def jtry_def split: prod.split)

lemma stepping_info: "stepping.grows (on_info f)"
  unfolding on_info_def by (rule stepping.grows_update) simp

lemma tail_grows: "stepping.grows (job_tail k env req res)"
  unfolding job_tail_def
  by (intro stepping.asking stepping.grows_class stepping.grows_save_part stepping_info)

lemma save_stores: "ewp (save_part k) (\<lambda>x t. StoreBoard \<in> set (jw_steps t)) (\<lambda>e t. True) w"
proof -
  let ?s = "\<lambda>w. if jw_schematic w then save_schematic k w else (w, Inr ())"
  have g: "stepping.grows (eff_then ?s (\<lambda>_. with_rules (write_class_part k)))"
    using stepping.grows_save [of k] by (intro stepping.grows_then stepping.grows_persist) (simp add: stepping.grows_def)
  have "ewp (eff_then ?s (\<lambda>_. with_rules (write_class_part k))) (\<lambda>x t. StoreBoard \<in> set (jw_steps t)) (\<lambda>e t. True) t"
    if "StoreBoard \<in> set (jw_steps t)" for t
    by (rule ewp_mono [OF stepping.ewp_grows [OF g subset_refl]]) (use that in auto)
  then show ?thesis
    unfolding save_part_def show_state_def on_info_def
    by (auto simp: ewp_then [of "eff_update f" for f] ewp_then [of "jask s f" for s f] ewp_basic ewp_jask split: prod.split option.split)
qed

lemma tail_verdict:
  "ewp (job_tail k env req res)
     (\<lambda>x t. ci_state (jw_info t) = JobIsDone \<longrightarrow> cr_ok res \<and> (saves req \<longrightarrow> StoreBoard \<in> set (jw_steps t))) (\<lambda>e t. True) w"
proof -
  have l: "ewp (eff_then (jtry f) (\<lambda>rev. on_info (\<lambda>i. i\<lparr>ci_revision := h rev i, ci_result := Some res,
       ci_state := (if cr_ok res then JobIsDone else JobHasFailed)\<rparr>)))
     (\<lambda>x t. ci_state (jw_info t) = JobIsDone \<longrightarrow> cr_ok res \<and> (saves req \<longrightarrow> StoreBoard \<in> set (jw_steps t))) (\<lambda>e t. True) v"
    if "cr_ok res \<and> saves req \<Longrightarrow> StoreBoard \<in> set (jw_steps v)" for f h v
    using that by (auto simp: ewp_simps on_info_def split: prod.split)
  have s: "ewp (if cr_ok res \<and> saves req then save_part k else eff_give ())
     (\<lambda>x t. cr_ok res \<and> saves req \<longrightarrow> StoreBoard \<in> set (jw_steps t)) (\<lambda>e t. True) v" for v
    by (cases "cr_ok res \<and> saves req") (auto simp: ewp_basic intro: ewp_mono [OF save_stores])
  have j: "ewp (eff_then (if cr_ok res \<and> saves req then save_part k else eff_give ())
     (\<lambda>x. eff_then (jtry f) (\<lambda>rev. on_info (\<lambda>i. i\<lparr>ci_revision := h rev i, ci_result := Some res,
       ci_state := (if cr_ok res then JobIsDone else JobHasFailed)\<rparr>))))
     (\<lambda>x t. ci_state (jw_info t) = JobIsDone \<longrightarrow> cr_ok res \<and> (saves req \<longrightarrow> StoreBoard \<in> set (jw_steps t))) (\<lambda>e t. True) v" for f h v
    by (subst ewp_then, rule ewp_mono [OF s]) (rule l, simp_all)
  show ?thesis
    unfolding job_tail_def by (simp only: ewp_then [of "eff_stop_if b e" for b e], rule ewp_any)
      (simp only: ewp_then [of "if b then with_rules m else n" for b m n], rule ewp_any, rule j)
qed

lemma body_verdict:
  "ewp (compile_job_body k env req)
     (\<lambda>x t. ci_state (jw_info t) = JobIsDone \<longrightarrow>
        silent_build env req \<or> parity_clean t \<and> (saves req \<longrightarrow> StoreBoard \<in> set (jw_steps t))) (\<lambda>e t. True) w"
proof -
  let ?Q = "\<lambda>x t. ci_state (jw_info t) = JobIsDone \<longrightarrow>
        silent_build env req \<or> parity_clean t \<and> (saves req \<longrightarrow> StoreBoard \<in> set (jw_steps t))"
  have t: "ewp (job_tail k env req res) ?Q (\<lambda>e t. True) v" if "cr_ok res \<Longrightarrow> silent_build env req \<or> parity_clean v" for res v
  proof -
    have "set (jw_steps v) \<subseteq> set (jw_steps t) \<Longrightarrow> parity_clean v \<Longrightarrow> parity_clean t" for t :: "'a job_world"
      by (auto simp: parity_clean_def dest: erc_clean_mono)
    then show ?thesis
      using that by (intro ewp_mono [OF ewp_both [OF tail_verdict stepping.ewp_grows [OF tail_grows subset_refl]]]) auto
  qed
  show ?thesis
  proof (cases "map_of (je_frontends env) (cs_kind (cq_source req))")
    case None
    then show ?thesis by (simp add: compile_job_body_def ewp_simps)
  next
    case (Some build)
    have r: "ewp (run_compile k env req (job_options k env req build proPath margin)) (\<lambda>res. ewp (job_tail k env req res) ?Q (\<lambda>e t. True))
        (\<lambda>e t. True) v" for proPath margin v
      by (rule ewp_mono [OF run_steps [OF Some]]) (rule t, simp_all)
    show ?thesis
      unfolding compile_job_body_def Some option.case ewp_then by (rule r | rule ewp_any)+
  qed
qed


section \<open>Two jobs that stop halfway\<close>

text \<open>A KiCad with one routed track whose save writes the generated schematic, with an answer for ERC.\<close>

definition routed_kicad :: "erc_report option \<Rightarrow> nat job_kicad" where
  "routed_kicad erc =
     \<lparr>jk_board = counting_kicad 0, jk_currentBoard = (\<lambda>b. (b, Some True)), jk_newProject = (\<lambda>p b. (b, Some ())),
      jk_openBoard = (\<lambda>b. (b, Some ())), jk_projectInfo = (\<lambda>b. (b, Some ''p.kicad_pro'')), jk_mkdir = (\<lambda>p b. (b, Some ())),
      jk_edgeMargin = (\<lambda>b. (b, Some 0)), jk_addLibrary = (\<lambda>l r b. (b, Some ())), jk_currentSchematic = (\<lambda>b. (b, Some True)),
      jk_openSchematic = (\<lambda>b. (b, Some ())), jk_rootSheet = (\<lambda>b. (b, Some ())), jk_symbol = (\<lambda>l b. (b, None)),
      jk_sheetItems = (\<lambda>b. (b, Some [])), jk_commitSheet = (\<lambda>ids items b. (b, Some ())),
      jk_saveSchematic = (\<lambda>b. (b, Some ''candidate'', True)), jk_closeSchematic = (\<lambda>b. (b, Some ())), jk_erc = (\<lambda>b. (b, erc)),
      jk_saveCopy = (\<lambda>p b. (b, Some ())), jk_restore = (\<lambda>s b. (b, Some ())),
      jk_tracks = (\<lambda>b. (b, Some [\<lparr>bt_id = ''t1'', bt_via = False, bt_net = True\<rparr>])),
      jk_deleteTracks = (\<lambda>ids b. (b, Some ())), jk_constraints = (\<lambda>b. (b, Some [])), jk_setConstraints = (\<lambda>c b. (b, Some ())),
      jk_parity = (\<lambda>b. (b, Some 0)), jk_netClasses = (\<lambda>b. (b, Some [])), jk_setNetClass = (\<lambda>c b. (b, Some ())),
      jk_saveBoard = (\<lambda>b. (b, Some ())), jk_projectFile = (\<lambda>b. (b, Some NoFile)), jk_writeProject = (\<lambda>j b. (b, Some ())),
      jk_revision = (\<lambda>b. (b, None))\<rparr>"

definition routed_request :: compile_job_request where
  "routed_request =
     \<lparr>cq_source = no_source, cq_project = None, cq_board = None, cq_clean = True, cq_matchMode = None,
      cq_deleteExtraFootprints = None, cq_updateFootprints = None, cq_autoplace = Some False, cq_save = None,
      cq_netlistPath = None, cq_message = None\<rparr>"

definition routed_env :: "(check_point \<Rightarrow> bool) \<Rightarrow> bool \<Rightarrow> compile_env" where
  "routed_env aborted ended =
     \<lparr>je_transport = True, je_frontends = [(''circuit'', \<lambda>source. Some (empty_built []))], je_libraries = [],
      je_netlistPath = (\<lambda>p n. n), je_netlistDir = (\<lambda>p. []), je_rejectedPath = (\<lambda>p. ''rejected.kicad_sch''),
      je_aborted = aborted, je_abortedBefore = False, je_abortedAfter = ended, je_abortedAtEnd = ended, je_now = []\<rparr>"

text \<open>
  A check that fails to run, after the save, leaves the generated schematic in the place of the accepted
  one: only a verdict against the candidate restores the file.
\<close>

lemma failed_check_keeps_candidate:
  "case before_hook (routed_kicad None) routed_request [] ''rejected.kicad_sch'' (empty_built []) (new_job_world 0 (Some ''good''))
   of (w, r) \<Rightarrow> r = Inl JobRequestFailed \<and> jw_file w = Some ''candidate''"
  by code_simp

text \<open>A job cancelled between the hook and the dry run has already removed the routed copper of a clean rebuild.\<close>

lemma cancelled_after_cleaning:
  "case run_compile_job (routed_kicad (Some \<lparr>er_errorCount = 0, er_markers = []\<rparr>)) (routed_env (\<lambda>c. c = AfterBefore) True)
     routed_request 0 (Some ''good'')
   of w \<Rightarrow> ci_state (jw_info w) = JobIsCancelled \<and> RemoveCopper [''t1''] \<in> set (jw_steps w) \<and> jw_file w = Some ''candidate''"
  by code_simp

text \<open>And the same job when nobody cancels it.\<close>

lemma routed_job_done:
  "case run_compile_job (routed_kicad (Some \<lparr>er_errorCount = 0, er_markers = []\<rparr>)) (routed_env (\<lambda>c. False) False)
     routed_request 0 (Some ''good'')
   of w \<Rightarrow> ci_state (jw_info w) = JobIsDone \<and> ci_removedCopper (jw_info w) = Some (1, 0)"
  by code_simp

end
