(* ===== verification/KicadPing.thy ===== *)
theory KicadPing
  imports TransportTypes
begin

text \<open>
  The message the bridge writes and reads by hand (\<open>packages/bridge/src/kicad-ping.ts\<close>): the protobuf
  encoding of \<open>Ping\<close>, the reader of \<open>ApiResponse\<close>, and the loop that asks KiCad until it is ready. Texts are
  their UTF-8 bytes; numbers are exact, where JavaScript rounds a varint from \<open>2 ^ 53\<close> on.
\<close>

section \<open>Writing\<close>

text \<open>\<open>n & 0x7f\<close> and \<open>n >>>= 7\<close> take \<open>n\<close> modulo \<open>2 ^ 32\<close>.\<close>

function varint :: "nat \<Rightarrow> bytes" where
  "varint n = (if 0x7f < n then of_nat (n mod 128 + 0x80) # varint (n mod 2 ^ 32 div 128) else [of_nat n])"
  by auto
termination
proof (relation "measure id")
  fix n :: nat
  assume "0x7f < n"
  then have "n div 128 < n" by (intro div_less_dividend) simp_all
  moreover have "n mod 2 ^ 32 div 128 \<le> n div 128" by (intro div_le_mono mod_less_eq_dividend)
  ultimately show "(n mod 2 ^ 32 div 128, n) \<in> measure id" by simp
qed simp

declare varint.simps [simp del]

definition bytesField :: "nat \<Rightarrow> bytes \<Rightarrow> bytes" where
  "bytesField field data = varint (8 * field + 2) @ varint (length data) @ data"

definition ascii :: "string \<Rightarrow> bytes" where
  "ascii = map of_char"

definition encodeApiRequest :: "bytes \<Rightarrow> string \<Rightarrow> bytes \<Rightarrow> bytes" where
  "encodeApiRequest clientName typeName payload =
     (let header = bytesField 2 clientName;
          any = bytesField 1 (ascii (''type.googleapis.com/'' @ typeName)) @ bytesField 2 payload
      in bytesField 1 header @ bytesField 2 any)"

definition encodePing :: "bytes \<Rightarrow> bytes" where
  "encodePing clientName = encodeApiRequest clientName ''kiapi.common.commands.Ping'' []"

section \<open>Reading\<close>

definition API_STATUS :: "string list" where
  "API_STATUS = [''AS_UNKNOWN'', ''AS_OK'', ''AS_TIMEOUT'', ''AS_BAD_REQUEST'', ''AS_NOT_READY'', ''AS_UNHANDLED'',
     ''AS_TOKEN_MISMATCH'', ''AS_BUSY'', ''AS_UNIMPLEMENTED'']"

datatype wire_error = TruncatedVarint | UnsupportedWireType

datatype wire_value = Varint nat | Bytes bytes

text \<open>\<open>readVarint\<close> from the bytes at \<open>i\<close>, with its \<open>s\<close> and \<open>r\<close>.\<close>

fun readVarint :: "bytes \<Rightarrow> nat \<Rightarrow> nat \<Rightarrow> (nat \<times> bytes) option" where
  "readVarint [] s r = None"
| "readVarint (b # buf) s r =
     (let r' = r + unat b mod 128 * 2 ^ s in
      if 0x80 \<le> unat b then readVarint buf (s + 7) r' else Some (r', buf))"

lemma readVarint_shorter: "readVarint buf s r = Some (v, rest) \<Longrightarrow> length rest < length buf"
  by (induction buf s r rule: readVarint.induct) (fastforce simp: Let_def split: if_splits)+

text \<open>\<open>scan\<close> from the bytes at \<open>i\<close>: the fields in order; \<open>subarray\<close> cuts at the end.\<close>

function scan_fields :: "bytes \<Rightarrow> wire_error + (nat \<times> wire_value) list" where
  "scan_fields buf =
     (if buf = [] then Inr []
      else case readVarint buf 0 0 of
        None \<Rightarrow> Inl TruncatedVarint
      | Some (key, rest) \<Rightarrow>
          let field = key mod 2 ^ 32 div 8; wire = key mod 8 in
          if wire = 0 then
            (case readVarint rest 0 0 of
               None \<Rightarrow> Inl TruncatedVarint
             | Some (v, rest') \<Rightarrow> map_sum id ((#) (field, Varint v)) (scan_fields rest'))
          else if wire = 2 then
            (case readVarint rest 0 0 of
               None \<Rightarrow> Inl TruncatedVarint
             | Some (len, rest') \<Rightarrow> map_sum id ((#) (field, Bytes (take len rest'))) (scan_fields (drop len rest')))
          else if wire = 1 then scan_fields (drop 8 rest)
          else if wire = 5 then scan_fields (drop 4 rest)
          else Inl UnsupportedWireType)"
  by pat_completeness auto
termination
  by (relation "measure length") (auto dest!: readVarint_shorter)

declare scan_fields.simps [simp del]

record api_response =
  ar_token :: bytes
  ar_status :: nat
  ar_error :: bytes

definition no_response :: api_response where
  "no_response = \<lparr>ar_token = [], ar_status = 0, ar_error = []\<rparr>"

text \<open>The loops over the fields of the header and of the status.\<close>

fun read_header :: "(nat \<times> wire_value) \<Rightarrow> api_response \<Rightarrow> api_response" where
  "read_header (field, Bytes b) out = (if field = 1 then out\<lparr>ar_token := b\<rparr> else out)"
| "read_header (field, Varint v) out = out"

fun read_status :: "(nat \<times> wire_value) \<Rightarrow> api_response \<Rightarrow> api_response" where
  "read_status (field, Varint v) out = (if field = 1 then out\<lparr>ar_status := v\<rparr> else out)"
| "read_status (field, Bytes b) out = (if field = 2 then out\<lparr>ar_error := b\<rparr> else out)"

definition read_nested ::
  "((nat \<times> wire_value) \<Rightarrow> api_response \<Rightarrow> api_response) \<Rightarrow> bytes \<Rightarrow> api_response \<Rightarrow> wire_error + api_response" where
  "read_nested f b out = map_sum id (\<lambda>fs. fold f fs out) (scan_fields b)"

fun read_fields :: "(nat \<times> wire_value) list \<Rightarrow> api_response \<Rightarrow> wire_error + api_response" where
  "read_fields [] out = Inr out"
| "read_fields ((field, Varint v) # fs) out = read_fields fs out"
| "read_fields ((field, Bytes b) # fs) out =
     (if field = 1 then (case read_nested read_header b out of Inl e \<Rightarrow> Inl e | Inr out' \<Rightarrow> read_fields fs out')
      else if field = 2 then (case read_nested read_status b out of Inl e \<Rightarrow> Inl e | Inr out' \<Rightarrow> read_fields fs out')
      else read_fields fs out)"

definition decodeApiResponse :: "bytes \<Rightarrow> wire_error + api_response" where
  "decodeApiResponse b = (case scan_fields b of Inl e \<Rightarrow> Inl e | Inr fs \<Rightarrow> read_fields fs no_response)"

definition status_name :: "nat \<Rightarrow> string" where
  "status_name n = (if n < length API_STATUS then API_STATUS ! n else ''status '' @ show_int (int n))"

section \<open>Asking until KiCad is ready\<close>

text \<open>What one round of the loop meets: the caller's cancellation, the clock, and the answer of the transport.\<close>

record ping_round =
  pr_cancelled :: bool
  pr_now :: int
  pr_answer :: "transport_error + bytes"

datatype ping_failure = PingCancelled | PingDeadline | PingTransport transport_error | PingMalformed wire_error
  | PingUnexpected string bytes

datatype ping_outcome = PingWaits | PingReady bytes | PingFailed ping_failure

text \<open>The time-outs of the requests that were sent, and what came of it.\<close>

fun pingUntilReady :: "int \<Rightarrow> ping_round list \<Rightarrow> int list \<times> ping_outcome" where
  "pingUntilReady deadline [] = ([], PingWaits)"
| "pingUntilReady deadline (r # rs) =
     (if pr_cancelled r then ([], PingFailed PingCancelled)
      else let remaining = deadline - pr_now r in
      if remaining \<le> 0 then ([], PingFailed PingDeadline)
      else let timeout = min remaining 5000 in
      case pr_answer r of
        Inl e \<Rightarrow> ([timeout], PingFailed (PingTransport e))
      | Inr b \<Rightarrow>
          (case decodeApiResponse b of
             Inl e \<Rightarrow> ([timeout], PingFailed (PingMalformed e))
           | Inr a \<Rightarrow>
               if ar_status a = 1 then ([timeout], PingReady (ar_token a))
               else if ar_status a \<noteq> 4 then ([timeout], PingFailed (PingUnexpected (status_name (ar_status a)) (ar_error a)))
               else (case pingUntilReady deadline rs of (ts, out) \<Rightarrow> (timeout # ts, out))))"

section \<open>What is written is read\<close>

lemma byte_of: "n < 256 \<Longrightarrow> unat (of_nat n :: byte) = n"
  by simp

lemma readVarint_varint:
  "n < 2 ^ 32 \<Longrightarrow> readVarint (varint n @ rest) s r = Some (r + n * 2 ^ s, rest)"
proof (induction n arbitrary: s r rule: varint.induct)
  case (1 n)
  show ?case
  proof (cases "0x7f < n")
    case True
    have "n mod 2 ^ 32 div 128 = n div 128" using 1(2) by simp
    moreover have "n div 128 < 2 ^ 32" using 1(2) by (rule le_less_trans [OF div_le_dividend])
    ultimately have "readVarint (varint (n div 128) @ rest) (s + 7) (r + n mod 128 * 2 ^ s)
        = Some (r + n mod 128 * 2 ^ s + n div 128 * 2 ^ (s + 7), rest)"
      using 1(1) [OF True] by simp
    moreover have "n mod 128 * 2 ^ s + n div 128 * 2 ^ (s + 7) = n * 2 ^ s"
    proof -
      have "n * 2 ^ s = (n mod 128 + 128 * (n div 128)) * 2 ^ s" by simp
      also have "\<dots> = n mod 128 * 2 ^ s + n div 128 * 2 ^ (s + 7)"
        by (simp only: power_add distrib_right) simp
      finally show ?thesis by (rule sym)
    qed
    moreover have "unat (of_nat (n mod 128) + 128 :: byte) = n mod 128 + 128"
    proof -
      have "unat (of_nat (n mod 128 + 128) :: byte) = n mod 128 + 128" by (simp only: unat_of_nat_byte) simp
      then show ?thesis by simp
    qed
    moreover have "(n mod 128 + 128) mod 128 = n mod 128" by simp
    ultimately show ?thesis
      using True 1(2) by (subst varint.simps) (simp add: Let_def add.assoc)
  next
    case False
    then show ?thesis by (subst varint.simps) (simp add: Let_def)
  qed
qed

lemma varint_ne [simp]: "varint n \<noteq> []"
  by (subst varint.simps) simp

text \<open>
  A message as any protobuf writer makes it: fields of the four wire types, each with its number. The
  reader keeps varints and byte strings and skips the two of fixed width.
\<close>

datatype proto_field = PVarint nat nat | PBytes nat bytes | PFixed64 nat bytes | PFixed32 nat bytes

fun proto_bytes :: "proto_field \<Rightarrow> bytes" where
  "proto_bytes (PVarint n v) = varint (8 * n) @ varint v"
| "proto_bytes (PBytes n b) = varint (8 * n + 2) @ varint (length b) @ b"
| "proto_bytes (PFixed64 n b) = varint (8 * n + 1) @ b"
| "proto_bytes (PFixed32 n b) = varint (8 * n + 5) @ b"

definition proto_message :: "proto_field list \<Rightarrow> bytes" where
  "proto_message fs = concat (map proto_bytes fs)"

fun proto_ok :: "proto_field \<Rightarrow> bool" where
  "proto_ok (PVarint n v) = (n < 2 ^ 29 \<and> v < 2 ^ 32)"
| "proto_ok (PBytes n b) = (n < 2 ^ 29 \<and> length b < 2 ^ 32)"
| "proto_ok (PFixed64 n b) = (n < 2 ^ 29 \<and> length b = 8)"
| "proto_ok (PFixed32 n b) = (n < 2 ^ 29 \<and> length b = 4)"

fun kept_field :: "proto_field \<Rightarrow> (nat \<times> wire_value) list" where
  "kept_field (PVarint n v) = [(n, Varint v)]"
| "kept_field (PBytes n b) = [(n, Bytes b)]"
| "kept_field _ = []"

definition kept_fields :: "proto_field list \<Rightarrow> (nat \<times> wire_value) list" where
  "kept_fields fs = concat (map kept_field fs)"

lemma scan_field:
  assumes "proto_ok f"
  shows "scan_fields (proto_bytes f @ rest) = map_sum id ((@) (kept_field f)) (scan_fields rest)"
proof -
  have c: "(@) [x] = (#) x" for x :: "nat \<times> wire_value" by (simp add: fun_eq_iff)
  have i: "map_sum id ((@) []) x = x" for x :: "wire_error + (nat \<times> wire_value) list" by (cases x) simp_all
  have k: "(8 * n + w) mod 2 ^ 32 div 8 = n \<and> (8 * n + w) mod 8 = w \<and> 8 * n + w < 2 ^ 32" if "n < 2 ^ 29" "w < 8" for n w :: nat
  proof -
    have "8 * n + w < 2 ^ 32" using that by simp
    then show ?thesis using that(2) by simp
  qed
  show ?thesis
  proof (cases f)
    case (PVarint n v)
    then show ?thesis using assms k [of n 0] by (subst scan_fields.simps) (simp add: readVarint_varint Let_def c)
  next
    case (PBytes n b)
    then show ?thesis using assms k [of n 2] by (subst scan_fields.simps) (simp add: readVarint_varint Let_def c)
  next
    case (PFixed64 n b)
    then show ?thesis using assms k [of n 1] by (subst scan_fields.simps) (simp add: readVarint_varint Let_def i)
  next
    case (PFixed32 n b)
    then show ?thesis using assms k [of n 5] by (subst scan_fields.simps) (simp add: readVarint_varint Let_def i)
  qed
qed

lemma scan_message:
  assumes "\<forall>f \<in> set fs. proto_ok f"
  shows "scan_fields (proto_message fs) = Inr (kept_fields fs)"
  using assms
proof (induction fs)
  case Nil
  then show ?case by (simp add: proto_message_def kept_fields_def scan_fields.simps)
next
  case (Cons f fs)
  then show ?case by (simp add: proto_message_def kept_fields_def scan_field)
qed

text \<open>What a protobuf reader takes from repeated fields: the last value, or the default.\<close>

fun last_bytes :: "nat \<Rightarrow> proto_field list \<Rightarrow> bytes \<Rightarrow> bytes" where
  "last_bytes k [] d = d"
| "last_bytes k (PBytes n b # fs) d = last_bytes k fs (if n = k then b else d)"
| "last_bytes k (f # fs) d = last_bytes k fs d"

fun last_varint :: "nat \<Rightarrow> proto_field list \<Rightarrow> nat \<Rightarrow> nat" where
  "last_varint k [] d = d"
| "last_varint k (PVarint n v # fs) d = last_varint k fs (if n = k then v else d)"
| "last_varint k (f # fs) d = last_varint k fs d"

lemma fold_header: "fold read_header (kept_fields hs) out = out\<lparr>ar_token := last_bytes 1 hs (ar_token out)\<rparr>"
proof (induction hs arbitrary: out)
  case (Cons f hs)
  then show ?case by (cases f) (simp_all add: kept_fields_def)
qed (simp add: kept_fields_def)

lemma fold_status: "fold read_status (kept_fields ss) out =
   out\<lparr>ar_status := last_varint 1 ss (ar_status out), ar_error := last_bytes 2 ss (ar_error out)\<rparr>"
proof (induction ss arbitrary: out)
  case (Cons f ss)
  then show ?case by (cases f) (simp_all add: kept_fields_def)
qed (simp add: kept_fields_def)

text \<open>The fields of an \<open>ApiResponse\<close> in any order: header, status, and what the reader ignores.\<close>

datatype reply_part = ReplyHeader "proto_field list" | ReplyStatus "proto_field list" | ReplyOther proto_field

fun part_field :: "reply_part \<Rightarrow> proto_field" where
  "part_field (ReplyHeader hs) = PBytes 1 (proto_message hs)"
| "part_field (ReplyStatus ss) = PBytes 2 (proto_message ss)"
| "part_field (ReplyOther f) = f"

fun part_ok :: "reply_part \<Rightarrow> bool" where
  "part_ok (ReplyHeader hs) = (list_all proto_ok hs \<and> length (proto_message hs) < 2 ^ 32)"
| "part_ok (ReplyStatus ss) = (list_all proto_ok ss \<and> length (proto_message ss) < 2 ^ 32)"
| "part_ok (ReplyOther (PBytes n b)) = (proto_ok (PBytes n b) \<and> n \<noteq> 1 \<and> n \<noteq> 2)"
| "part_ok (ReplyOther f) = proto_ok f"

fun said :: "reply_part list \<Rightarrow> api_response \<Rightarrow> api_response" where
  "said [] a = a"
| "said (ReplyHeader hs # ps) a = said ps (a\<lparr>ar_token := last_bytes 1 hs (ar_token a)\<rparr>)"
| "said (ReplyStatus ss # ps) a =
     said ps (a\<lparr>ar_status := last_varint 1 ss (ar_status a), ar_error := last_bytes 2 ss (ar_error a)\<rparr>)"
| "said (ReplyOther f # ps) a = said ps a"

lemma part_field_ok: "part_ok p \<Longrightarrow> proto_ok (part_field p)"
  by (induction p rule: part_ok.induct) auto

lemma kept_Cons: "kept_fields (f # fs) = kept_field f @ kept_fields fs"
  by (simp add: kept_fields_def)

lemma read_parts: "list_all part_ok ps \<Longrightarrow> read_fields (kept_fields (map part_field ps)) a = Inr (said ps a)"
proof (induction ps arbitrary: a)
  case (Cons p ps)
  then show ?case
    by (cases p rule: part_ok.cases)
      (simp_all add: kept_Cons read_nested_def scan_message list_all_iff fold_header fold_status)
qed (simp add: kept_fields_def)

text \<open>
  C28: the bridge reads what KiCad says. A reply in the protobuf encoding, with its fields in any order,
  repeated or unknown, is read as the last token, status and error message it carries, and never refused.
\<close>

theorem ping_reply_read:
  assumes "list_all part_ok ps"
  shows "decodeApiResponse (proto_message (map part_field ps)) = Inr (said ps no_response)"
proof -
  have "\<forall>f \<in> set (map part_field ps). proto_ok f" using assms part_field_ok by (auto simp: list_all_iff)
  then show ?thesis by (simp add: decodeApiResponse_def scan_message read_parts [OF assms])
qed

definition sample_reply :: "reply_part list" where
  "sample_reply = [ReplyHeader [PBytes 1 [0x74]], ReplyStatus [PVarint 1 1], ReplyOther (PBytes 3 [9])]"

theorem ping_reply_read_witness:
  "list_all part_ok sample_reply \<and> decodeApiResponse [0x0a, 3, 0x0a, 1, 0x74, 0x12, 2, 8, 1, 0x1a, 1, 9] =
     Inr \<lparr>ar_token = [0x74], ar_status = 1, ar_error = []\<rparr>"
proof -
  have ok: "list_all part_ok sample_reply" by code_simp
  have "proto_message (map part_field sample_reply) = [0x0a, 3, 0x0a, 1, 0x74, 0x12, 2, 8, 1, 0x1a, 1, 9]" by code_simp
  moreover have "said sample_reply no_response = \<lparr>ar_token = [0x74], ar_status = 1, ar_error = []\<rparr>" by code_simp
  ultimately show ?thesis using ok ping_reply_read [OF ok] by simp
qed

section \<open>Requests and the loop\<close>

text \<open>The request is the message \<open>ApiRequest\<close> with a header and an \<open>Any\<close> around an empty \<open>Ping\<close>.\<close>

lemma ping_request:
  "encodePing c = proto_message
     [PBytes 1 (proto_message [PBytes 2 c]),
      PBytes 2 (proto_message [PBytes 1 (ascii ''type.googleapis.com/kiapi.common.commands.Ping''), PBytes 2 []])]"
  by (simp add: encodePing_def encodeApiRequest_def bytesField_def proto_message_def Let_def)

definition read_answer :: "ping_round \<Rightarrow> api_response option" where
  "read_answer r = (if pr_cancelled r then None
     else case pr_answer r of Inl e \<Rightarrow> None | Inr b \<Rightarrow> (case decodeApiResponse b of Inl e \<Rightarrow> None | Inr a \<Rightarrow> Some a))"

definition not_ready :: "ping_round \<Rightarrow> bool" where
  "not_ready r \<longleftrightarrow> (case read_answer r of None \<Rightarrow> False | Some a \<Rightarrow> ar_status a = 4)"


end
