(* ===== verification/BridgeSession.thy ===== *)
theory BridgeSession
  imports WsProtocol
begin

text \<open>
  A session of the bridge (\<open>packages/bridge/src/session.ts\<close>, class \<open>Session\<close>) and the WebSocket handlers of
  \<open>server.ts\<close> that serve its clients: one KiCad process, its transport, the subscriber of its events and the
  clients. The process, the sockets, the files and the clients are events; \<open>start\<close> and every call of
  \<open>stop\<close> stand where they await, so that all interleavings are runs. Log lines of the bridge itself are left out.
\<close>

section \<open>Paths\<close>

fun letters_match :: "string list \<Rightarrow> string \<Rightarrow> bool" where
  "letters_match [] s = True"
| "letters_match (cs # css) (c # s) = (c \<in> set cs \<and> letters_match css s)"
| "letters_match _ [] = False"

text \<open>\<open>/^wss?:\/\//i\<close>.\<close>

definition is_ws_url :: "string \<Rightarrow> bool" where
  "is_ws_url p \<longleftrightarrow> letters_match [''wW'', ''sS'', '':'', ''/'', ''/''] p \<or>
     letters_match [''wW'', ''sS'', ''sS'', '':'', ''/'', ''/''] p"

definition string_suffix :: "string \<Rightarrow> string \<Rightarrow> bool" where
  "string_suffix e s \<longleftrightarrow> length e \<le> length s \<and> drop (length s - length e) s = e"

definition eventsSocketPathFor :: "string \<Rightarrow> string" where
  "eventsSocketPathFor p =
     (if is_ws_url p then (if string_suffix ''/'' p then butlast p else p) @ ''/events''
      else if string_suffix ''.sock'' p then take (length p - 5) p @ ''-events.sock'' else p @ ''-events'')"

text \<open>The path in the \<open>events_socket_url\<close> of \<open>GetServerInfo\<close>.\<close>

definition events_path_of :: "string \<Rightarrow> string" where
  "events_path_of url = (if is_ws_url url then url else if take 6 url = ''ipc://'' then drop 6 url else url)"

section \<open>The state\<close>

datatype start_pc = Preparing | AwaitSocket | Polling | AwaitTransport | AwaitPing | AwaitInfo | AwaitEvents
  | CleaningUp nat string | StartDone | StartThrew string

text \<open>A call of \<open>stop\<close>: whether it found a process, and where it stands.\<close>

datatype stop_pc = StopSubscriber | StopTransport | StopProcess | StopExit | StopFiles | StopDone

record stop_call =
  st_proc :: bool
  st_pc :: stop_pc

datatype process = NoProcess | Alive | Dead

datatype session_out = ToClient nat control_message | FrameTo nat bytes | EventTo nat bytes | PongTo nat "json option" | CloseClient nat
  | SpawnProcess | KillProcess | RemoveFile string | ForwardRequest nat bytes

record session_config =
  sc_id :: string
  sc_socket :: string
  sc_kicadCli :: string
  sc_startTimeoutMs :: nat
  sc_relayEvents :: bool

record kicad_session =
  ss_config :: session_config
  ss_state :: server_state
  ss_token :: "string option"
  ss_exitCode :: "int option"
  ss_signal :: "string option"
  ss_error :: "string option"
  ss_process :: process
  ss_transport :: "transport_state option"
  ss_subscriber :: "nat option"
  ss_subscribers :: nat
  ss_eventsPath :: "string option"
  ss_eventsState :: events_state
  ss_relayed :: nat
  ss_clients :: "nat list"
  ss_clientCount :: nat
  ss_listeners :: "nat list"
  ss_lastClientAt :: int
  ss_log :: "string list"
  ss_stopping :: bool
  ss_start :: start_pc
  ss_stops :: "stop_call list"
  ss_closing :: nat
  ss_forwards :: "(nat \<times> nat) option list"
  ss_out :: "session_out list"

definition new_session :: "session_config \<Rightarrow> kicad_session" where
  "new_session cfg = \<lparr>ss_config = cfg, ss_state = Starting, ss_token = None, ss_exitCode = None, ss_signal = None,
     ss_error = None, ss_process = NoProcess, ss_transport = None, ss_subscriber = None, ss_subscribers = 0,
     ss_eventsPath = None, ss_eventsState = Disconnected, ss_relayed = 0, ss_clients = [], ss_clientCount = 0,
     ss_listeners = [], ss_lastClientAt = 0, ss_log = [], ss_stopping = False, ss_start = Preparing, ss_stops = [],
     ss_closing = 0, ss_forwards = [], ss_out = []\<rparr>"

definition says :: "session_out list \<Rightarrow> kicad_session \<Rightarrow> kicad_session" where
  "says os s = s\<lparr>ss_out := ss_out s @ os\<rparr>"

definition broadcast :: "control_message \<Rightarrow> kicad_session \<Rightarrow> kicad_session" where
  "broadcast m s = says (map (\<lambda>c. ToClient c m) (ss_clients s)) s"

definition remove_socket :: "string \<Rightarrow> kicad_session \<Rightarrow> kicad_session" where
  "remove_socket p s = (if is_ws_url p then s else says [RemoveFile p] s)"

section \<open>Texts\<close>

fun lines_text :: "string list \<Rightarrow> string" where
  "lines_text [] = []"
| "lines_text [l] = l"
| "lines_text (l # ls) = l @ [CHR 0x0A] @ lines_text ls"

definition tailLog :: "kicad_session \<Rightarrow> string" where
  "tailLog s =
     (let tail = drop (length (ss_log s) - 10) (ss_log s) in
      if tail = [] then [] else CHR 0x0A # ''--- kicad-cli output ---'' @ [CHR 0x0A] @ lines_text tail)"

definition code_text :: "int option \<Rightarrow> string" where
  "code_text c = (case c of None \<Rightarrow> ''null'' | Some n \<Rightarrow> show_int n)"

definition signal_text :: "string option \<Rightarrow> string" where
  "signal_text s = (case s of None \<Rightarrow> ''null'' | Some x \<Rightarrow> x)"

definition exit_text :: "int option \<Rightarrow> string option \<Rightarrow> string" where
  "exit_text c s = ''(code '' @ code_text c @ '', signal '' @ signal_text s @ '')''"

definition LOG_RING :: nat where "LOG_RING = 200"

definition pushLog :: "string \<Rightarrow> kicad_session \<Rightarrow> kicad_session" where
  "pushLog l s = (let ls = ss_log s @ [l] in s\<lparr>ss_log := drop (length ls - LOG_RING) ls\<rparr>)"

section \<open>Events of KiCad\<close>

definition setEventsState :: "events_state \<Rightarrow> string option \<Rightarrow> kicad_session \<Rightarrow> kicad_session" where
  "setEventsState v message s =
     (if ss_eventsState s = v then s
      else broadcast (BridgeEvents \<lparr>v_sessionId = sc_id (ss_config s), v_state = v, v_message = message\<rparr>)
        (s\<lparr>ss_eventsState := v\<rparr>))"

definition events_stopped :: "kicad_session \<Rightarrow> kicad_session" where
  "events_stopped = setEventsState Disconnected (Some ''session stopped'')"

text \<open>A frame of the events socket, for every client and every listener.\<close>

definition on_event_frame :: "nat \<Rightarrow> bytes \<Rightarrow> kicad_session \<Rightarrow> kicad_session" where
  "on_event_frame k event s =
     (if ss_subscriber s \<noteq> Some k then s
      else says (map (\<lambda>c. FrameTo c (encodeEventFrame event)) (ss_clients s) @ map (\<lambda>l. EventTo l event) (ss_listeners s))
        (s\<lparr>ss_relayed := ss_relayed s + 1\<rparr>))"

definition on_subscriber_state :: "nat \<Rightarrow> bool \<Rightarrow> string \<Rightarrow> kicad_session \<Rightarrow> kicad_session" where
  "on_subscriber_state k is_open message s =
     (if ss_subscriber s \<noteq> Some k then s
      else if is_open then setEventsState Connected (ss_eventsPath s) s
      else setEventsState Disconnected (Some message) s)"

section \<open>Stopping\<close>

definition stop :: "kicad_session \<Rightarrow> kicad_session" where
  "stop s =
     (let call = \<lparr>st_proc = (ss_process s \<noteq> NoProcess), st_pc = (if ss_subscriber s = None then StopTransport else StopSubscriber)\<rparr>;
          s1 = s\<lparr>ss_stopping := True, ss_subscriber := None, ss_stops := ss_stops s @ [call]\<rparr>
      in if ss_subscriber s = None then events_stopped s1 else s1)"

definition at_stop :: "nat \<Rightarrow> stop_pc \<Rightarrow> kicad_session \<Rightarrow> kicad_session" where
  "at_stop i pc s = s\<lparr>ss_stops := (ss_stops s)[i := (ss_stops s ! i)\<lparr>st_pc := pc\<rparr>]\<rparr>"

definition close_transport :: "kicad_session \<Rightarrow> kicad_session" where
  "close_transport s = s\<lparr>ss_transport := map_option (\<lambda>_. ClosedState) (ss_transport s)\<rparr>"

definition drop_clients :: "kicad_session \<Rightarrow> kicad_session" where
  "drop_clients s = says (map CloseClient (ss_clients s)) (s\<lparr>ss_clients := [], ss_listeners := []\<rparr>)"

text \<open>The process is gone, or there was none: the files, and without one to await the end.\<close>

definition stop_files :: "nat \<Rightarrow> kicad_session \<Rightarrow> kicad_session" where
  "stop_files i s =
     (let socket = sc_socket (ss_config s) in
      if is_ws_url socket then at_stop i StopDone (drop_clients s) else at_stop i StopFiles (remove_socket socket s))"

text \<open>Call \<open>i\<close> of \<open>stop\<close> goes on from where it awaits.\<close>

definition stop_resumes :: "nat \<Rightarrow> kicad_session \<Rightarrow> kicad_session" where
  "stop_resumes i s =
     (case st_pc (ss_stops s ! i) of
        StopSubscriber \<Rightarrow> at_stop i StopTransport (events_stopped s)
      | StopTransport \<Rightarrow> at_stop i StopProcess (close_transport s)
      | StopProcess \<Rightarrow>
          if st_proc (ss_stops s ! i) \<and> ss_process s = Alive then at_stop i StopExit (says [KillProcess] s)
          else stop_files i s
      | StopExit \<Rightarrow> stop_files i s
      | StopFiles \<Rightarrow> at_stop i StopDone (drop_clients s)
      | StopDone \<Rightarrow> s)"

section \<open>The exit of the process\<close>

definition exit_message :: "kicad_session \<Rightarrow> control_message" where
  "exit_message s = ServerState \<lparr>s_sessionId = sc_id (ss_config s), s_state = ss_state s, s_kicadToken = None,
     s_exitCode = Some (ss_exitCode s), s_signal = Some (ss_signal s), s_message = ss_error s\<rparr>"

definition exited_state :: "int option \<Rightarrow> string option \<Rightarrow> kicad_session \<Rightarrow> kicad_session" where
  "exited_state code signal s =
     (case ss_state s of
        Starting \<Rightarrow> s\<lparr>ss_state := Failed,
          ss_error := Some (''kicad-cli exited during startup '' @ exit_text code signal @ tailLog s)\<rparr>
      | Running \<Rightarrow>
          if ss_stopping s then s\<lparr>ss_state := Exited\<rparr>
          else s\<lparr>ss_state := (if code = Some 0 then Exited else Failed),
            ss_error := Some (''kicad-cli exited unexpectedly '' @ exit_text code signal)\<rparr>
      | _ \<Rightarrow> s)"

definition process_exits :: "int option \<Rightarrow> string option \<Rightarrow> kicad_session \<Rightarrow> kicad_session" where
  "process_exits code signal s =
     (let s1 = exited_state code signal (s\<lparr>ss_exitCode := code, ss_signal := signal\<rparr>);
          s2 = (if ss_subscriber s1 = None then events_stopped s1
                else s1\<lparr>ss_subscriber := None, ss_closing := ss_closing s1 + 1\<rparr>);
          s3 = remove_socket (sc_socket (ss_config s)) (close_transport s2);
          s4 = (case ss_eventsPath s3 of None \<Rightarrow> s3 | Some p \<Rightarrow> if p = [] then s3 else remove_socket p s3)
      in if ss_state s = Running then broadcast (exit_message s4) s4 else s4)"

section \<open>Starting\<close>

definition fail_start :: "string \<Rightarrow> kicad_session \<Rightarrow> kicad_session" where
  "fail_start message s = s\<lparr>ss_state := Failed, ss_error := Some message, ss_start := StartThrew message\<rparr>"

text \<open>The \<open>catch\<close> of \<open>start\<close>: the message, and the call of \<open>stop\<close> it awaits.\<close>

definition start_throws :: "string \<Rightarrow> kicad_session \<Rightarrow> kicad_session" where
  "start_throws e s =
     (let msg = (case ss_error s of None \<Rightarrow> e @ tailLog s | Some m \<Rightarrow> m)
      in (stop s)\<lparr>ss_start := CleaningUp (length (ss_stops s)) msg\<rparr>)"

definition spawned :: "kicad_session \<Rightarrow> kicad_session" where
  "spawned s =
     (let s1 = says [SpawnProcess] (s\<lparr>ss_process := Alive\<rparr>) in
      if is_ws_url (sc_socket (ss_config s)) then s1\<lparr>ss_transport := Some Connecting, ss_start := AwaitTransport\<rparr>
      else s1\<lparr>ss_start := AwaitSocket\<rparr>)"

definition spawn_fails :: "string \<Rightarrow> kicad_session \<Rightarrow> kicad_session" where
  "spawn_fails e s = fail_start (''cannot spawn '' @ sc_kicadCli (ss_config s) @ '': '' @ e) s"

definition state_error :: "string \<Rightarrow> kicad_session \<Rightarrow> string" where
  "state_error rest s = (case ss_error s of None \<Rightarrow> ''server '' @ server_state_name (ss_state s) @ rest | Some m \<Rightarrow> m)"

text \<open>A round of \<open>waitForSocket\<close>: the checks, and after its \<open>stat\<close> calls what they found.\<close>

definition poll_begins :: "kicad_session \<Rightarrow> kicad_session" where
  "poll_begins s =
     (if ss_state s \<noteq> Starting then start_throws (state_error [] s) s
      else if ss_process s = Dead
      then start_throws (''kicad-cli exited before listening '' @ exit_text (ss_exitCode s) (ss_signal s) @ tailLog s) s
      else s\<lparr>ss_start := Polling\<rparr>)"

datatype poll_result = SocketFound | SocketMissing | SocketTimeout

definition poll_ends :: "poll_result \<Rightarrow> kicad_session \<Rightarrow> kicad_session" where
  "poll_ends r s =
     (case r of
        SocketFound \<Rightarrow> s\<lparr>ss_transport := Some Connecting, ss_start := AwaitTransport\<rparr>
      | SocketMissing \<Rightarrow> s\<lparr>ss_start := AwaitSocket\<rparr>
      | SocketTimeout \<Rightarrow> start_throws (''timeout after '' @ show_int (int (sc_startTimeoutMs (ss_config s)))
          @ '' ms waiting for '' @ sc_socket (ss_config s) @ tailLog s) s)"

definition running_message :: "kicad_session \<Rightarrow> control_message" where
  "running_message s = ServerState \<lparr>s_sessionId = sc_id (ss_config s), s_state = Running, s_kicadToken = Some (ss_token s),
     s_exitCode = None, s_signal = None, s_message = None\<rparr>"

definition ping_answered :: "string \<Rightarrow> kicad_session \<Rightarrow> kicad_session" where
  "ping_answered token s =
     (let s1 = s\<lparr>ss_token := Some token\<rparr> in
      if ss_state s1 \<noteq> Starting then start_throws (state_error '' during startup'' s1) s1
      else
        let s2 = s1\<lparr>ss_state := Running\<rparr>; s3 = broadcast (running_message s2) s2 in
        s3\<lparr>ss_start := (if sc_relayEvents (ss_config s) then AwaitInfo else StartDone)\<rparr>)"

text \<open>\<open>GetServerInfo\<close> answered, perhaps without a path, or failed: the subscriber is opened on its path or on the derived one.\<close>

definition info_answered :: "string option \<Rightarrow> kicad_session \<Rightarrow> kicad_session" where
  "info_answered url s =
     (if ss_state s \<noteq> Running \<or> ss_stopping s then s\<lparr>ss_start := StartDone\<rparr>
      else s\<lparr>ss_eventsPath := Some (case url of
            None \<Rightarrow> eventsSocketPathFor (sc_socket (ss_config s))
          | Some u \<Rightarrow> if u = [] then eventsSocketPathFor (sc_socket (ss_config s)) else events_path_of u),
        ss_subscriber := Some (ss_subscribers s), ss_subscribers := ss_subscribers s + 1, ss_start := AwaitEvents\<rparr>)"

definition cleaned_up :: "string \<Rightarrow> kicad_session \<Rightarrow> kicad_session" where
  "cleaned_up message = fail_start message"

section \<open>Clients\<close>

definition WS_BRIDGE_PROTOCOL_VERSION :: rat where "WS_BRIDGE_PROTOCOL_VERSION = 2"

definition hello_message :: "kicad_session \<Rightarrow> control_message" where
  "hello_message s = Hello \<lparr>h_protocolVersion = WS_BRIDGE_PROTOCOL_VERSION, h_sessionId = sc_id (ss_config s), h_kicadToken = ss_token s,
     h_serverState = ss_state s, h_eventsState = Some (ss_eventsState s)\<rparr>"

definition client_opens :: "nat \<Rightarrow> int \<Rightarrow> kicad_session \<Rightarrow> kicad_session" where
  "client_opens c now s =
     says [ToClient c (hello_message s)] (s\<lparr>ss_clients := sadd c (ss_clients s), ss_clientCount := c + 1, ss_lastClientAt := now\<rparr>)"

definition client_closes :: "nat \<Rightarrow> int \<Rightarrow> kicad_session \<Rightarrow> kicad_session" where
  "client_closes c now s = s\<lparr>ss_clients := sdel c (ss_clients s), ss_lastClientAt := now\<rparr>"

definition onEvent :: "nat \<Rightarrow> int \<Rightarrow> kicad_session \<Rightarrow> kicad_session" where
  "onEvent l now s = s\<lparr>ss_listeners := sadd l (ss_listeners s), ss_lastClientAt := now\<rparr>"

definition offEvent :: "nat \<Rightarrow> int \<Rightarrow> kicad_session \<Rightarrow> kicad_session" where
  "offEvent l now s = s\<lparr>ss_listeners := sdel l (ss_listeners s), ss_lastClientAt := now\<rparr>"

definition touch :: "int \<Rightarrow> kicad_session \<Rightarrow> kicad_session" where
  "touch now s = s\<lparr>ss_lastClientAt := now\<rparr>"

definition idle :: "kicad_session \<Rightarrow> bool" where
  "idle s \<longleftrightarrow> ss_clients s = [] \<and> ss_listeners s = []"

definition bad_request :: "string \<Rightarrow> control_message" where
  "bad_request message = BridgeError \<lparr>e_id = None, e_code = BadRequest, e_message = message\<rparr>"

definition closed_text :: "kicad_session \<Rightarrow> string" where
  "closed_text s = ''KiCad server is '' @ server_state_name (ss_state s)
     @ (case ss_error s of None \<Rightarrow> [] | Some e \<Rightarrow> if e = [] then [] else '': '' @ e)"

text \<open>A frame of a client: a control message, or a request that is handed to the transport byte for byte.\<close>

definition client_text :: "nat \<Rightarrow> json option \<Rightarrow> string \<Rightarrow> kicad_session \<Rightarrow> kicad_session" where
  "client_text c parsed message s =
     (case parseControl parsed of
        Inl e \<Rightarrow> says [ToClient c (bad_request message)] s
      | Inr m \<Rightarrow>
          if jprop m ''type'' = Some (JStr ''ping'')
          then says [PongTo c (jprop m ''t'')] s else s)"

definition client_frame :: "nat \<Rightarrow> bytes \<Rightarrow> string \<Rightarrow> kicad_session \<Rightarrow> kicad_session" where
  "client_frame c raw message s =
     (case decodeWsFrame raw of
        Inl e \<Rightarrow> says [ToClient c (bad_request message)] s
      | Inr (rid, payload) \<Rightarrow>
          if ss_state s \<noteq> Running \<or> ss_transport s \<noteq> Some Open
          then says [ToClient c (BridgeError \<lparr>e_id = Some rid, e_code = FromTransport ClosedError, e_message = closed_text s\<rparr>)] s
          else says [ForwardRequest (length (ss_forwards s)) payload] (s\<lparr>ss_forwards := ss_forwards s @ [Some (c, rid)]\<rparr>))"

text \<open>The transport settles a forwarded request; a client that has gone gets nothing.\<close>

definition forward_settled :: "nat \<Rightarrow> (bridge_error_code \<times> string) + bytes \<Rightarrow> kicad_session \<Rightarrow> kicad_session" where
  "forward_settled n r s =
     (case ss_forwards s ! n of
        None \<Rightarrow> s
      | Some (c, rid) \<Rightarrow>
          let s1 = s\<lparr>ss_forwards := (ss_forwards s)[n := None]\<rparr> in
          if c \<notin> set (ss_clients s) then s1
          else (case r of
              Inr reply \<Rightarrow> says [FrameTo c (encodeWsFrame (int rid) reply)] s1
            | Inl (code, message) \<Rightarrow> says [ToClient c (BridgeError \<lparr>e_id = Some rid, e_code = code, e_message = message\<rparr>)] s1))"

section \<open>The machine\<close>

datatype session_event =
    Prepared "string option"
  | PollBegins
  | PollEnds poll_result
  | TransportReady "string option"
  | PingAnswered "string + string"
  | InfoAnswered "string option"
  | EventsSettled
  | CleanedUp
  | StopCalled
  | StopResumes nat
  | EventsClosed
  | ProcessExits "int option" "string option"
  | TransportChanges transport_state
  | OutputLine string
  | EventFrame nat bytes
  | SubscriberState nat bool string
  | ClientOpens nat int
  | ClientCloses nat int
  | Touched int
  | ListenerOpens nat int
  | ListenerCloses nat int
  | ClientText nat "json option" string
  | ClientFrame nat bytes string
  | ForwardSettled nat "(bridge_error_code \<times> string) + bytes"

fun session_step :: "session_event \<Rightarrow> kicad_session \<Rightarrow> kicad_session" where
  "session_step (Prepared None) s = spawned s"
| "session_step (Prepared (Some e)) s = spawn_fails e s"
| "session_step PollBegins s = poll_begins s"
| "session_step (PollEnds r) s = poll_ends r s"
| "session_step (TransportReady None) s = s\<lparr>ss_start := AwaitPing\<rparr>"
| "session_step (TransportReady (Some e)) s = start_throws e s"
| "session_step (PingAnswered (Inr token)) s = ping_answered token s"
| "session_step (PingAnswered (Inl e)) s = start_throws e s"
| "session_step (InfoAnswered url) s = info_answered url s"
| "session_step EventsSettled s = s\<lparr>ss_start := StartDone\<rparr>"
| "session_step CleanedUp s = (case ss_start s of CleaningUp i m \<Rightarrow> cleaned_up m s | _ \<Rightarrow> s)"
| "session_step StopCalled s = stop s"
| "session_step (StopResumes i) s = stop_resumes i s"
| "session_step EventsClosed s = events_stopped (s\<lparr>ss_closing := ss_closing s - 1\<rparr>)"
| "session_step (ProcessExits code signal) s = process_exits code signal (s\<lparr>ss_process := Dead\<rparr>)"
| "session_step (TransportChanges t) s = s\<lparr>ss_transport := Some t\<rparr>"
| "session_step (OutputLine l) s = pushLog l s"
| "session_step (EventFrame k b) s = on_event_frame k b s"
| "session_step (SubscriberState k is_open m) s = on_subscriber_state k is_open m s"
| "session_step (ClientOpens c now) s = client_opens c now s"
| "session_step (ClientCloses c now) s = client_closes c now s"
| "session_step (Touched now) s = touch now s"
| "session_step (ListenerOpens l now) s = onEvent l now s"
| "session_step (ListenerCloses l now) s = offEvent l now s"
| "session_step (ClientText c j m) s = client_text c j m s"
| "session_step (ClientFrame c b m) s = client_frame c b m s"
| "session_step (ForwardSettled n r) s = forward_settled n r s"

text \<open>
  When the runtime delivers an event. A transport that closed stays closed; a client has a number of
  its own.
\<close>

fun session_allowed :: "session_event \<Rightarrow> kicad_session \<Rightarrow> bool" where
  "session_allowed (Prepared e) s = (ss_start s = Preparing)"
| "session_allowed PollBegins s = (ss_start s = AwaitSocket)"
| "session_allowed (PollEnds r) s = (ss_start s = Polling)"
| "session_allowed (TransportReady e) s = (ss_start s = AwaitTransport)"
| "session_allowed (PingAnswered r) s = (ss_start s = AwaitPing)"
| "session_allowed (InfoAnswered url) s = (ss_start s = AwaitInfo)"
| "session_allowed EventsSettled s = (ss_start s = AwaitEvents)"
| "session_allowed CleanedUp s =
     (case ss_start s of CleaningUp i m \<Rightarrow> st_pc (ss_stops s ! i) = StopDone | _ \<Rightarrow> False)"
| "session_allowed StopCalled s = True"
| "session_allowed (StopResumes i) s =
     (i < length (ss_stops s) \<and> st_pc (ss_stops s ! i) \<noteq> StopDone \<and>
      (if st_pc (ss_stops s ! i) = StopExit then ss_process s = Dead else True))"
| "session_allowed EventsClosed s = (0 < ss_closing s)"
| "session_allowed (ProcessExits code signal) s = (ss_process s = Alive)"
| "session_allowed (TransportChanges t) s = (ss_transport s \<noteq> None \<and> ss_transport s \<noteq> Some ClosedState)"
| "session_allowed (OutputLine l) s = (ss_process s \<noteq> NoProcess)"
| "session_allowed (EventFrame k b) s = (k < ss_subscribers s)"
| "session_allowed (SubscriberState k is_open m) s = (k < ss_subscribers s)"
| "session_allowed (ClientOpens c now) s = (ss_clientCount s \<le> c)"
| "session_allowed (ClientCloses c now) s = True"
| "session_allowed (Touched now) s = True"
| "session_allowed (ListenerOpens l now) s = True"
| "session_allowed (ListenerCloses l now) s = True"
| "session_allowed (ClientText c j m) s = (c \<in> set (ss_clients s))"
| "session_allowed (ClientFrame c b m) s = (c \<in> set (ss_clients s))"
| "session_allowed (ForwardSettled n r) s = (n < length (ss_forwards s) \<and> ss_forwards s ! n \<noteq> None)"

section \<open>The life of a session\<close>

abbreviation session_reach :: "session_config \<Rightarrow> kicad_session \<Rightarrow> bool" where
  "session_reach cfg \<equiv> reach (new_session cfg) session_allowed session_step"

text \<open>The fields that say how far a session is, and what holds of them at every moment.\<close>

type_synonym life = "server_state \<times> process \<times> start_pc \<times> stop_call list \<times> string option"

definition life :: "kicad_session \<Rightarrow> life" where
  "life s = (ss_state s, ss_process s, ss_start s, ss_stops s, ss_error s)"

definition late :: "start_pc \<Rightarrow> bool" where
  "late pc \<longleftrightarrow> pc \<in> {AwaitInfo, AwaitEvents, StartDone}"

fun life_ok :: "life \<Rightarrow> bool" where
  "life_ok (state, proc, pc, stops, err) \<longleftrightarrow>
     (case state of
        Starting \<Rightarrow> \<not> late pc \<and> proc \<noteq> Dead \<and> (proc = NoProcess \<longleftrightarrow> pc = Preparing)
      | Running \<Rightarrow> late pc \<and> proc = Alive
      | Exited \<Rightarrow> late pc \<and> proc = Dead
      | Failed \<Rightarrow> pc \<noteq> Preparing \<and> proc \<noteq> Alive \<and> err \<noteq> None \<and> (proc = NoProcess \<longrightarrow> (\<exists>m. pc = StartThrew m))) \<and>
     (case pc of
        StartThrew m \<Rightarrow> state = Failed \<and> err = Some m
      | CleaningUp i m \<Rightarrow> i < length stops \<and> st_proc (stops ! i)
      | _ \<Rightarrow> True) \<and>
     (\<forall>c \<in> set stops. st_proc c \<longrightarrow> proc \<noteq> NoProcess \<and> (st_pc c \<in> {StopFiles, StopDone} \<longrightarrow> proc = Dead))"

lemma late_simps [simp]: "late AwaitInfo" "late AwaitEvents" "late StartDone" "\<not> late Preparing" "\<not> late AwaitSocket"
  "\<not> late Polling" "\<not> late AwaitTransport" "\<not> late AwaitPing" "\<not> late (CleaningUp i m)" "\<not> late (StartThrew m)"
  by (simp_all add: late_def)

lemmas session_defs = says_def broadcast_def remove_socket_def setEventsState_def events_stopped_def
  close_transport_def drop_clients_def touch_def Let_def

lemma life_kept [simp]: "life (says os s) = life s" "life (broadcast msg s) = life s" "life (remove_socket p s) = life s"
  "life (setEventsState v m s) = life s" "life (events_stopped s) = life s" "life (close_transport s) = life s"
  "life (drop_clients s) = life s" "life (pushLog l s) = life s" "life (on_event_frame k b s) = life s"
  "life (on_subscriber_state k opened m' s) = life s" "life (client_text c j m' s) = life s"
  "life (client_frame c b m' s) = life s" "life (forward_settled n r s) = life s" "life (client_opens c now s) = life s"
  "life (client_closes c now s) = life s" "life (onEvent c now s) = life s" "life (offEvent c now s) = life s"
  "life (touch now s) = life s"
  by (auto simp: life_def session_defs pushLog_def on_event_frame_def on_subscriber_state_def client_text_def client_frame_def
      forward_settled_def client_opens_def client_closes_def onEvent_def offEvent_def split: sum.split option.split prod.split)

lemma life_update [simp]: "life (s\<lparr>ss_transport := t\<rparr>) = life s" "life (s\<lparr>ss_closing := n\<rparr>) = life s"
  "life (s\<lparr>ss_subscriber := k\<rparr>) = life s" "life (s\<lparr>ss_token := tk\<rparr>) = life s"
  "life (s\<lparr>ss_stopping := f\<rparr>) = life s" "life (s\<lparr>ss_exitCode := code\<rparr>) = life s" "life (s\<lparr>ss_signal := sg\<rparr>) = life s"
  "life (s\<lparr>ss_eventsPath := p\<rparr>) = life s" "life (s\<lparr>ss_subscribers := n\<rparr>) = life s"
  by (simp_all add: life_def)

lemma life_of: "life s = (state, proc, pc, stops, err) \<longleftrightarrow>
   ss_state s = state \<and> ss_process s = proc \<and> ss_start s = pc \<and> ss_stops s = stops \<and> ss_error s = err"
  by (simp add: life_def)

lemma life_stop:
  "life s = (state, proc, pc, stops, err) \<Longrightarrow>
   \<exists>c. st_proc c = (proc \<noteq> NoProcess) \<and> st_pc c \<notin> {StopFiles, StopDone} \<and> life (stop s) = (state, proc, pc, stops @ [c], err)"
  by (cases "ss_subscriber s = None") (auto simp: stop_def Let_def life_def setEventsState_def broadcast_def says_def events_stopped_def)

lemma life_at_stop:
  "life s = (state, proc, pc, stops, err) \<Longrightarrow>
   life (at_stop i to s) = (state, proc, pc, stops[i := (stops ! i)\<lparr>st_pc := to\<rparr>], err)"
  by (simp add: life_def at_stop_def)

lemma ok_snoc: "life_ok (state, proc, pc, stops, err) \<Longrightarrow> st_proc c = (proc \<noteq> NoProcess) \<Longrightarrow>
   st_pc c \<notin> {StopFiles, StopDone} \<Longrightarrow> life_ok (state, proc, pc, stops @ [c], err)"
  by (auto simp: nth_append split: start_pc.splits)

lemma ok_throws: "life_ok (state, proc, pc, stops, err) \<Longrightarrow> \<not> late pc \<Longrightarrow> proc \<noteq> NoProcess \<Longrightarrow>
   st_proc c \<Longrightarrow> st_pc c \<notin> {StopFiles, StopDone} \<Longrightarrow> life_ok (state, proc, CleaningUp (length stops) m, stops @ [c], err)"
  by (auto split: server_state.splits)

lemma ok_at_stop:
  assumes "life_ok (state, proc, pc, stops, err)"
    and "st_proc (stops ! i) \<and> to \<in> {StopFiles, StopDone} \<Longrightarrow> proc = Dead"
  shows "life_ok (state, proc, pc, stops[i := (stops ! i)\<lparr>st_pc := to\<rparr>], err)"
proof -
  have "st_proc (stops[i := (stops ! i)\<lparr>st_pc := to\<rparr>] ! j) = st_proc (stops ! j)" for j
    by (cases "i < length stops") (auto simp: nth_list_update list_update_beyond)
  moreover have "st_proc c \<longrightarrow> proc \<noteq> NoProcess \<and> (st_pc c \<in> {StopFiles, StopDone} \<longrightarrow> proc = Dead)"
    if "c \<in> set (stops[i := (stops ! i)\<lparr>st_pc := to\<rparr>])" for c
  proof (cases "i < length stops")
    case True
    then have "stops ! i \<in> set stops" by simp
    then show ?thesis using that assms set_update_subset_insert [of stops i] by fastforce
  qed (use that assms in \<open>auto simp: list_update_beyond\<close>)
  ultimately show ?thesis using assms(1) by (auto split: start_pc.splits)
qed

lemma life_exit: "life (process_exits code sg s) = life (exited_state code sg (s\<lparr>ss_exitCode := code, ss_signal := sg\<rparr>))"
  by (simp add: process_exits_def Let_def split: option.split)

lemma exit_ok: "life_ok (life s) \<Longrightarrow> ss_process s = Alive \<Longrightarrow> life_ok (life (process_exits code sg (s\<lparr>ss_process := Dead\<rparr>)))"
  unfolding life_exit by (cases "ss_state s") (auto simp: exited_state_def life_def split: start_pc.splits)

text \<open>What a step does to these fields, besides leaving them alone.\<close>

lemma life_pc: "life s = (state, proc, pc, stops, err) \<Longrightarrow> life (s\<lparr>ss_start := pc'\<rparr>) = (state, proc, pc', stops, err)"
  by (simp add: life_def)

lemma start_throws_ok:
  assumes "life_ok (life s)" "\<not> late (ss_start s)" "ss_start s \<noteq> Preparing" "\<forall>m. ss_start s \<noteq> StartThrew m"
  shows "life_ok (life (start_throws e s))"
proof -
  obtain state proc pc stops err where l: "life s = (state, proc, pc, stops, err)" by (cases "life s")
  obtain c where c: "st_proc c = (proc \<noteq> NoProcess)" "st_pc c \<notin> {StopFiles, StopDone}"
      "life (stop s) = (state, proc, pc, stops @ [c], err)"
    using life_stop [OF l] by blast
  have "length (ss_stops s) = length stops" "ss_start s = pc" using l by (simp_all add: life_of)
  moreover from this have "proc \<noteq> NoProcess" using assms l by (cases state) auto
  ultimately show ?thesis
    using ok_throws [of state proc pc stops err c] assms c l life_pc [OF c(3)]
    by (simp add: start_throws_def Let_def del: life_ok.simps)
qed

lemma stop_files_ok:
  assumes "life_ok (life s)" "st_proc (ss_stops s ! i) \<longrightarrow> ss_process s = Dead"
  shows "life_ok (life (stop_files i s))"
proof -
  obtain state proc pc stops err where l: "life s = (state, proc, pc, stops, err)" by (cases "life s")
  then have d: "life (drop_clients s) = (state, proc, pc, stops, err)"
    "life (remove_socket p s) = (state, proc, pc, stops, err)" for p by simp_all
  have "st_proc (stops ! i) \<Longrightarrow> proc = Dead" using assms(2) l by (simp add: life_of)
  then show ?thesis
    using assms(1) ok_at_stop [of state proc pc stops err i] unfolding stop_files_def Let_def l
    by (simp add: life_at_stop [OF d(1)] life_at_stop [OF d(2)] del: life_ok.simps)
qed

lemma stop_resumes_ok:
  assumes "life_ok (life s)" "session_allowed (StopResumes i) s"
  shows "life_ok (life (stop_resumes i s))"
proof -
  obtain state proc pc stops err where l: "life s = (state, proc, pc, stops, err)" by (cases "life s")
  have i: "ss_stops s = stops" "ss_process s = proc" "stops ! i \<in> set stops"
    using l assms(2) by (auto simp: life_of)
  have u: "life_ok (life (at_stop i to t))" if "life t = life s" "to \<notin> {StopFiles, StopDone}" for t to
    using that assms(1) ok_at_stop [of state proc pc stops err i to] life_at_stop [of t state proc pc stops err i to] l
    by (simp del: life_ok.simps)
  show ?thesis
  proof (cases "st_pc (ss_stops s ! i)")
    case StopProcess
    have "proc = Alive \<or> proc = Dead \<or> \<not> st_proc (stops ! i)"
      using assms(1) i(3) l by (cases proc) auto
    then show ?thesis using StopProcess i u [of "says [KillProcess] s" StopExit] stop_files_ok [OF assms(1), of i]
      by (auto simp: stop_resumes_def simp del: life_ok.simps)
  next
    case StopFiles
    then have "st_proc (stops ! i) \<longrightarrow> proc = Dead" using assms(1) i l by auto
    then show ?thesis
      using StopFiles assms(1) ok_at_stop [of state proc pc stops err i StopDone] life_at_stop [of "drop_clients s" state proc pc stops err i StopDone] l
      by (simp add: stop_resumes_def del: life_ok.simps)
  qed (use assms i u stop_files_ok [OF assms(1), of i] in \<open>auto simp: stop_resumes_def simp del: life_ok.simps\<close>)
qed

definition early :: "start_pc \<Rightarrow> bool" where
  "early pc \<longleftrightarrow> pc \<in> {AwaitSocket, Polling, AwaitTransport, AwaitPing}"

lemma ok_early: "life_ok (state, proc, pc, stops, err) \<Longrightarrow> early pc \<Longrightarrow> early pc' \<Longrightarrow> life_ok (state, proc, pc', stops, err)"
  by (cases state) (auto simp: early_def)

lemma ok_late: "life_ok (state, proc, pc, stops, err) \<Longrightarrow> late pc \<Longrightarrow> late pc' \<Longrightarrow> life_ok (state, proc, pc', stops, err)"
  by (cases state) (auto simp: late_def)

lemma ok_running: "life_ok (Starting, proc, AwaitPing, stops, err) \<Longrightarrow> late pc' \<Longrightarrow> life_ok (Running, proc, pc', stops, err)"
  by (cases proc) (auto simp: late_def)

lemma ok_failed: "life_ok (state, proc, CleaningUp i m, stops, err) \<Longrightarrow> st_pc (stops ! i) = StopDone \<Longrightarrow>
   life_ok (Failed, proc, StartThrew m, stops, Some m)"
  by (cases state) auto

lemma life_start: "life (s\<lparr>ss_start := pc\<rparr>) = (ss_state s, ss_process s, pc, ss_stops s, ss_error s)"
  by (simp add: life_def)

lemma life_eta: "life s = (ss_state s, ss_process s, ss_start s, ss_stops s, ss_error s)"
  by (rule life_def)

lemma prepared_ok:
  assumes "life_ok (life s)" "ss_start s = Preparing"
  shows "life_ok (life (spawned s))" "life_ok (life (spawn_fails e s))"
  using assms by (cases "ss_state s"; simp add: life_def spawned_def spawn_fails_def fail_start_def says_def Let_def)+

lemma poll_ok:
  assumes "life_ok (life s)"
  shows "ss_start s = AwaitSocket \<Longrightarrow> life_ok (life (poll_begins s))" "ss_start s = Polling \<Longrightarrow> life_ok (life (poll_ends r s))"
  using assms start_throws_ok [OF assms]
  by (auto simp: poll_begins_def poll_ends_def life_start life_eta [of s] early_def simp del: life_ok.simps
      split: poll_result.split intro: ok_early)

lemma ping_ok:
  assumes "life_ok (life s)" "ss_start s = AwaitPing"
  shows "life_ok (life (ping_answered token s))"
proof -
  let ?t = "s\<lparr>ss_token := Some token\<rparr>"
  have "life_ok (life (start_throws e ?t))" for e by (rule start_throws_ok) (use assms in simp_all)
  moreover have "ss_state s = Starting \<Longrightarrow> late pc \<Longrightarrow> life_ok (Running, ss_process s, pc, ss_stops s, ss_error s)" for pc
    using assms by (intro ok_running [where pc' = pc]) (simp_all add: life_eta del: life_ok.simps)
  ultimately show ?thesis
    by (simp add: ping_answered_def Let_def life_start broadcast_def says_def del: life_ok.simps)
qed

lemma info_ok:
  assumes "life_ok (life s)" "ss_start s = AwaitInfo"
  shows "life_ok (life (info_answered url s))"
proof -
  have "life_ok (ss_state s, ss_process s, pc, ss_stops s, ss_error s)" if "late pc" for pc
    using assms that by (intro ok_late [where pc = AwaitInfo and pc' = pc]) (simp_all add: life_eta del: life_ok.simps)
  from this [of StartDone] this [of AwaitEvents] show ?thesis
    by (cases "ss_state s = Running") (simp_all add: info_answered_def life_start del: life_ok.simps)
qed

lemma cleaned_ok:
  assumes "life_ok (life s)" "session_allowed CleanedUp s"
  shows "life_ok (life (session_step CleanedUp s))"
  using assms ok_failed [of "ss_state s" "ss_process s" _ _ "ss_stops s" "ss_error s"]
  by (auto simp: cleaned_up_def fail_start_def life_eta simp del: life_ok.simps split: start_pc.splits)

lemma life_ok_step:
  assumes "life_ok (life s)" "session_allowed e s"
  shows "life_ok (life (session_step e s))"
proof (cases "(e, s)" rule: session_step.cases)
  case (11 t)
  then show ?thesis using cleaned_ok assms by (simp del: life_ok.simps)
next
  case (12 t)
  obtain state proc pc stops err where l: "life s = (state, proc, pc, stops, err)" by (cases "life s")
  then show ?thesis using 12 assms(1) life_stop [OF l] ok_snoc [of state proc pc stops err]
    by (auto simp del: life_ok.simps)
next
  case (5 t)
  then show ?thesis using assms ok_early [of "ss_state t" "ss_process t" AwaitTransport "ss_stops t" "ss_error t" AwaitPing]
    by (simp add: life_start life_eta [of t] early_def del: life_ok.simps)
next
  case (10 t)
  then show ?thesis using assms ok_late [of "ss_state t" "ss_process t" AwaitEvents "ss_stops t" "ss_error t" StartDone]
    by (simp add: life_start life_eta [of t] del: life_ok.simps)
qed (use assms prepared_ok poll_ok ping_ok info_ok stop_resumes_ok exit_ok start_throws_ok [OF assms(1)] in
    \<open>auto simp del: life_ok.simps\<close>)

lemma new_life: "life_ok (life (new_session cfg))"
  by (simp add: life_def new_session_def)

lemma session_life: "session_reach cfg s \<Longrightarrow> life_ok (life s)"
  by (erule reach_invariant) (auto intro: life_ok_step new_life simp del: life_ok.simps)

text \<open>
  C18: what a session says of its process. In every interleaving of starting, stopping, the end of the process
  and everything that comes in, a session that is \<open>running\<close> has a live process; one that has \<open>exited\<close>
  or \<open>failed\<close> has none; a \<open>start\<close> that threw leaves a failed session with the error it threw; and a
  call of \<open>stop\<close> that found a process and has ended has seen its end.
\<close>

theorem session_lifecycle:
  assumes "session_reach cfg s"
  shows "(case ss_state s of Starting \<Rightarrow> ss_process s \<noteq> Dead | Running \<Rightarrow> ss_process s = Alive
      | Exited \<Rightarrow> ss_process s = Dead | Failed \<Rightarrow> ss_process s \<noteq> Alive \<and> ss_error s \<noteq> None) \<and>
    (case ss_start s of StartThrew m \<Rightarrow> ss_state s = Failed \<and> ss_error s = Some m
      | StartDone \<Rightarrow> ss_state s \<noteq> Starting | _ \<Rightarrow> True) \<and>
    list_all (\<lambda>c. if st_proc c \<and> st_pc c = StopDone then ss_process s = Dead else True) (ss_stops s)"
  using session_life [OF assms]
  by (cases "ss_state s") (auto simp: life_def list_all_iff split: start_pc.splits)

section \<open>What its clients know\<close>

fun state_in :: "control_message \<Rightarrow> server_state option" where
  "state_in (Hello h) = Some (h_serverState h)"
| "state_in (ServerState m) = Some (s_state m)"
| "state_in _ = None"

fun events_in :: "control_message \<Rightarrow> events_state option" where
  "events_in (Hello h) = h_eventsState h"
| "events_in (BridgeEvents v) = Some (v_state v)"
| "events_in _ = None"

text \<open>The last word on something in what was sent to a client.\<close>

fun word_in :: "(control_message \<Rightarrow> 'a option) \<Rightarrow> nat \<Rightarrow> session_out \<Rightarrow> 'a option" where
  "word_in f c (ToClient d m) = (if d = c then f m else None)"
| "word_in f c _ = None"

fun told :: "(control_message \<Rightarrow> 'a option) \<Rightarrow> nat \<Rightarrow> session_out list \<Rightarrow> 'a option" where
  "told f c [] = None"
| "told f c (x # xs) = (case told f c xs of None \<Rightarrow> word_in f c x | Some w \<Rightarrow> Some w)"

lemma told_append: "told f c (xs @ ys) = (case told f c ys of None \<Rightarrow> told f c xs | Some w \<Rightarrow> Some w)"
  by (induction xs) (auto split: option.split)

lemma told_broadcast: "told f c (map (\<lambda>d. ToClient d m) cs) = (if c \<in> set cs then f m else None)"
  by (induction cs) (auto split: option.split)

lemma told_quiet: "list_all (\<lambda>x. word_in f c x = None) xs \<Longrightarrow> told f c xs = None"
  by (induction xs) auto

lemma told_frames [simp]: "told f c (map (\<lambda>d. FrameTo d b) cs) = None" "told f c (map (\<lambda>l. EventTo l b) ls) = None"
  "told f c (map CloseClient cs) = None"
  by (simp_all add: told_quiet list_all_iff)

text \<open>Every client was told the state of the events socket and a server state in \<open>X\<close>.\<close>

definition view_of :: "server_state set \<Rightarrow> kicad_session \<Rightarrow> bool" where
  "view_of X s \<longleftrightarrow> (\<forall>c \<in> set (ss_clients s). told events_in c (ss_out s) = Some (ss_eventsState s) \<and>
     told state_in c (ss_out s) \<in> Some ` X)"

fun known_states :: "server_state \<Rightarrow> server_state set" where
  "known_states Failed = {Failed, Starting}"
| "known_states w = {w}"

lemma view_mono: "view_of X s \<Longrightarrow> X \<subseteq> Y \<Longrightarrow> view_of Y s"
  by (auto simp: view_of_def)

lemma view_update [simp]: "view_of X (s\<lparr>ss_transport := t\<rparr>) = view_of X s" "view_of X (s\<lparr>ss_closing := n\<rparr>) = view_of X s"
  "view_of X (s\<lparr>ss_subscriber := k\<rparr>) = view_of X s" "view_of X (s\<lparr>ss_token := tk\<rparr>) = view_of X s"
  "view_of X (s\<lparr>ss_stopping := f\<rparr>) = view_of X s" "view_of X (s\<lparr>ss_exitCode := code\<rparr>) = view_of X s"
  "view_of X (s\<lparr>ss_signal := sg\<rparr>) = view_of X s" "view_of X (s\<lparr>ss_eventsPath := p\<rparr>) = view_of X s"
  "view_of X (s\<lparr>ss_subscribers := n\<rparr>) = view_of X s" "view_of X (s\<lparr>ss_state := w\<rparr>) = view_of X s"
  "view_of X (s\<lparr>ss_error := er\<rparr>) = view_of X s" "view_of X (s\<lparr>ss_start := pc\<rparr>) = view_of X s"
  "view_of X (s\<lparr>ss_stops := cs\<rparr>) = view_of X s" "view_of X (s\<lparr>ss_process := proc\<rparr>) = view_of X s"
  "view_of X (s\<lparr>ss_listeners := ls\<rparr>) = view_of X s" "view_of X (s\<lparr>ss_lastClientAt := now\<rparr>) = view_of X s"
  "view_of X (s\<lparr>ss_relayed := n\<rparr>) = view_of X s" "view_of X (s\<lparr>ss_log := l\<rparr>) = view_of X s"
  "view_of X (s\<lparr>ss_forwards := fs\<rparr>) = view_of X s" "view_of X (s\<lparr>ss_clientCount := n\<rparr>) = view_of X s"
  by (simp_all add: view_of_def)

fun quiet_word :: "session_out \<Rightarrow> bool" where
  "quiet_word (ToClient d m) = (state_in m = None \<and> events_in m = None)"
| "quiet_word x = True"

lemma quiet_told: "list_all quiet_word os \<Longrightarrow> told state_in c os = None \<and> told events_in c os = None"
proof (induction os)
  case (Cons x os)
  then show ?case by (cases x) auto
qed simp

lemma view_quiet: "list_all quiet_word os \<Longrightarrow> view_of X s \<Longrightarrow> view_of X (says os s)"
  using quiet_told [of os] by (simp add: view_of_def says_def told_append)

lemma view_broadcast_state: "view_of Y s \<Longrightarrow> s_state m = w \<Longrightarrow> view_of {w} (broadcast (ServerState m) s)"
  by (auto simp: view_of_def broadcast_def says_def told_append told_broadcast)

lemma view_set_events: "view_of X s \<Longrightarrow> view_of X (setEventsState v m s)"
  by (auto simp: view_of_def setEventsState_def broadcast_def says_def told_append told_broadcast)

lemma view_stopped: "view_of X s \<Longrightarrow> view_of X (events_stopped s)"
  unfolding events_stopped_def by (rule view_set_events)

lemma view_remove: "view_of X s \<Longrightarrow> view_of X (remove_socket p s)"
  by (simp add: remove_socket_def view_quiet)

lemma view_close: "view_of X s \<Longrightarrow> view_of X (close_transport s)"
  by (simp add: close_transport_def)

lemma view_dropped: "view_of X (drop_clients s)"
  by (simp add: view_of_def drop_clients_def says_def)

lemma view_stop: "view_of X s \<Longrightarrow> view_of X (stop s)"
  by (simp add: stop_def Let_def view_stopped)

lemma view_throws: "view_of X s \<Longrightarrow> view_of X (start_throws e s)"
  by (simp add: start_throws_def Let_def view_stop)

lemma view_at_stop: "view_of X (at_stop i pc s) = view_of X s"
  by (simp add: at_stop_def)

lemma view_resumes: "view_of X s \<Longrightarrow> view_of X (stop_resumes i s)"
proof -
  assume v: "view_of X s"
  have "view_of X (stop_files i s)" using v by (simp add: stop_files_def Let_def view_at_stop view_dropped view_remove)
  then show ?thesis
    using v by (simp add: stop_resumes_def view_at_stop view_dropped view_stopped view_close view_quiet split: stop_pc.split)
qed

lemma view_exited: "view_of X (exited_state code sg s) = view_of X s"
  by (simp add: exited_state_def split: server_state.split)

lemmas view_rules = view_quiet view_set_events view_stopped view_remove view_close view_stop view_throws view_resumes

text \<open>No step but the three below changes the state; and all of them keep what the clients were told.\<close>

definition kept_view :: "kicad_session \<Rightarrow> kicad_session \<Rightarrow> bool" where
  "kept_view s t \<longleftrightarrow> ss_state t = ss_state s \<and> (\<forall>X. view_of X s \<longrightarrow> view_of X t)"

lemma stop_fields: "ss_state (stop s) = ss_state s" "ss_state (start_throws e s) = ss_state s"
  "ss_state (stop_resumes i s) = ss_state s"
proof -
  have "ss_state (setEventsState v m t) = ss_state t" for v m t
    by (simp add: setEventsState_def broadcast_def says_def)
  then have e: "ss_state (events_stopped t) = ss_state t" for t by (simp add: events_stopped_def)
  show s: "ss_state (stop s) = ss_state s" by (simp add: stop_def Let_def e)
  show "ss_state (start_throws e s) = ss_state s" by (simp add: start_throws_def Let_def s)
  show "ss_state (stop_resumes i s) = ss_state s"
    by (simp add: stop_resumes_def stop_files_def Let_def at_stop_def remove_socket_def drop_clients_def says_def e close_transport_def
        split: stop_pc.split)
qed

lemma kept_throws: "kept_view s (start_throws e s)" "kept_view s (stop s)" "kept_view s (stop_resumes i s)"
  by (simp_all add: kept_view_def stop_fields view_rules)

lemma kept_start: "kept_view s t \<Longrightarrow> kept_view s (t\<lparr>ss_start := pc\<rparr>)" "kept_view s t \<Longrightarrow> kept_view s (t\<lparr>ss_transport := x\<rparr>)"
  "kept_view s s"
  by (simp_all add: kept_view_def)

lemma kept_says: "list_all quiet_word os \<Longrightarrow> kept_view s t \<Longrightarrow> kept_view s (says os t)"
  by (auto simp: kept_view_def view_quiet) (simp add: says_def)

lemma kept_client:
  "kept_view s (client_text c j m s)" "kept_view s (client_frame c b m s)" "kept_view s (forward_settled n r s)"
  "kept_view s (on_event_frame k b s)" "kept_view s (client_closes c now s)"
proof -
  have f: "kept_view s (t\<lparr>ss_forwards := fs\<rparr>)" if "kept_view s t" for t fs using that by (simp add: kept_view_def)
  show "kept_view s (client_text c j m s)" "kept_view s (client_frame c b m s)" "kept_view s (forward_settled n r s)"
    by (auto simp: client_text_def client_frame_def forward_settled_def bad_request_def Let_def kept_start
        split: sum.split option.split prod.split intro!: kept_says f)
  have "kept_view s (s\<lparr>ss_relayed := n\<rparr>)" for n by (simp add: kept_view_def)
  then show "kept_view s (on_event_frame k b s)"
    by (auto simp: on_event_frame_def kept_start list_all_iff intro!: kept_says)
  show "kept_view s (client_closes c now s)" by (auto simp: kept_view_def client_closes_def view_of_def)
qed


lemma kept_subscriber: "kept_view s (on_subscriber_state k o' m s)" "kept_view s (events_stopped s)"
  by (auto simp: on_subscriber_state_def kept_view_def view_set_events view_stopped)
    (simp_all add: setEventsState_def broadcast_def says_def events_stopped_def)

definition view_ok :: "kicad_session \<Rightarrow> bool" where
  "view_ok s \<longleftrightarrow> view_of (known_states (ss_state s)) s"

lemma kept_ok: "kept_view s t \<Longrightarrow> view_ok s \<Longrightarrow> view_ok t"
  by (simp add: kept_view_def view_ok_def)

lemma failed_ok: "view_ok s \<Longrightarrow> ss_state s \<in> {Starting, Failed} \<Longrightarrow> view_ok (fail_start m s)"
  by (auto simp: view_ok_def fail_start_def intro: view_mono)

lemma opens_ok: "view_ok s \<Longrightarrow> view_ok (client_opens c now s)"
proof -
  have "w \<in> known_states w" for w by (cases w) auto
  then show "view_ok s \<Longrightarrow> view_ok (client_opens c now s)"
    by (auto simp: view_ok_def view_of_def client_opens_def says_def told_append hello_message_def)
qed

lemma exit_view:
  assumes "view_ok s" "ss_state s \<in> {Starting, Running}"
  shows "view_ok (process_exits code sg (s\<lparr>ss_process := Dead\<rparr>))"
proof -
  let ?s = "s\<lparr>ss_process := Dead, ss_exitCode := code, ss_signal := sg\<rparr>"
  let ?s1 = "exited_state code sg ?s"
  have st: "ss_state (broadcast m t) = ss_state t" "ss_state (events_stopped t) = ss_state t"
    "ss_state (close_transport t) = ss_state t" "ss_state (remove_socket p t) = ss_state t" for m p t
    by (simp_all add: session_defs)
  obtain t where t: "process_exits code sg (s\<lparr>ss_process := Dead\<rparr>) = (if ss_state s = Running then broadcast (exit_message t) t else t)"
    "ss_state t = ss_state ?s1" "\<And>X. view_of X s \<Longrightarrow> view_of X t"
  proof
    let ?s2 = "if ss_subscriber ?s1 = None then events_stopped ?s1 else ?s1\<lparr>ss_subscriber := None, ss_closing := ss_closing ?s1 + 1\<rparr>"
    let ?s3 = "remove_socket (sc_socket (ss_config s)) (close_transport ?s2)"
    let ?t = "case ss_eventsPath ?s3 of None \<Rightarrow> ?s3 | Some p \<Rightarrow> if p = [] then ?s3 else remove_socket p ?s3"
    show "process_exits code sg (s\<lparr>ss_process := Dead\<rparr>) = (if ss_state s = Running then broadcast (exit_message ?t) ?t else ?t)"
      by (simp add: process_exits_def Let_def)
    show "ss_state ?t = ss_state ?s1" by (simp add: st split: option.split)
    show "view_of X ?t" if "view_of X s" for X
      using that by (auto simp: view_exited intro!: view_rules split: option.split)
  qed
  show ?thesis
  proof (cases "ss_state s = Running")
    case True
    have "view_of {ss_state t} (broadcast (exit_message t) t)"
      unfolding exit_message_def by (rule view_broadcast_state [OF t(3) [OF assms(1) [unfolded view_ok_def]]]) simp
    moreover have "{ss_state t} \<subseteq> known_states (ss_state t)" by (cases "ss_state t") auto
    ultimately show ?thesis using True by (simp add: t(1) view_ok_def st view_mono)
  next
    case False
    then have "ss_state s = Starting" using assms(2) by simp
    then show ?thesis using t assms(1) by (auto simp: view_ok_def exited_state_def intro: view_mono)
  qed
qed

lemma ping_view: "view_ok s \<Longrightarrow> view_ok (ping_answered token s)"
proof -
  assume v: "view_ok s"
  let ?s1 = "s\<lparr>ss_token := Some token\<rparr>"
  have "view_ok ?s1" using v by (simp add: view_ok_def)
  then have "view_ok (start_throws e ?s1)" for e by (rule kept_ok [OF kept_throws(1)])
  moreover have "view_of {Running} (broadcast (running_message (?s1\<lparr>ss_state := Running\<rparr>)) (?s1\<lparr>ss_state := Running\<rparr>))"
  proof -
    have "view_of (known_states (ss_state s)) (?s1\<lparr>ss_state := Running\<rparr>)" using v by (simp add: view_ok_def)
    then show ?thesis unfolding running_message_def by (rule view_broadcast_state) simp
  qed
  moreover have "ss_state (broadcast m t) = ss_state t" for m t by (simp add: session_defs)
  ultimately show ?thesis by (simp add: ping_answered_def Let_def view_ok_def)
qed

lemma view_step:
  assumes "view_ok s" "life_ok (life s)" "session_allowed e s"
  shows "view_ok (session_step e s)"
proof (cases "(e, s)" rule: session_step.cases)
  case (2 x t)
  then have "ss_state s = Starting" using assms(2,3) by (cases "ss_state s") (auto simp: life_def)
  then show ?thesis using 2 assms(1) failed_ok by (simp add: spawn_fails_def)
next
  case (11 t)
  then obtain i m where "ss_start s = CleaningUp i m" using assms(3) by (auto split: start_pc.splits)
  moreover from this have "ss_state s \<in> {Starting, Failed}" using assms(2) by (cases "ss_state s") (auto simp: life_def)
  ultimately show ?thesis using 11 assms(1) failed_ok by (simp add: cleaned_up_def)
next
  case (15 code sg t)
  then have "ss_state s \<in> {Starting, Running}" using assms(2,3) by (cases "ss_state s") (auto simp: life_def)
  then show ?thesis using 15 exit_view assms(1) by simp
next
  case (7 token t)
  then show ?thesis using ping_view assms(1) by simp
next
  case (20 c now t)
  then show ?thesis using opens_ok assms(1) by simp
next
  case (14 t)
  have "kept_view s (events_stopped (s\<lparr>ss_closing := n\<rparr>))" for n
    by (simp add: kept_view_def view_stopped) (simp add: session_defs)
  from kept_ok [OF this assms(1)] show ?thesis using 14 by simp
qed (use assms(1) in \<open>auto intro!: kept_ok [OF _ assms(1)] kept_throws kept_client kept_subscriber kept_start kept_says
    simp: spawned_def poll_begins_def poll_ends_def info_answered_def Let_def split: poll_result.split\<close>;
    simp add: kept_view_def touch_def onEvent_def offEvent_def pushLog_def Let_def)+

lemma session_view: "session_reach cfg s \<Longrightarrow> view_ok s"
proof -
  have n: "view_ok (new_session cfg)" by (simp add: view_ok_def view_of_def new_session_def)
  have "life_ok (life s) \<and> view_ok s" if "session_reach cfg s"
    using that by (rule reach_invariant) (auto intro: life_ok_step view_step new_life n simp del: life_ok.simps)
  then show "session_reach cfg s \<Longrightarrow> view_ok s" by blast
qed

text \<open>
  C26: what the clients of a session know. Whatever happens in whatever order, the last state of the server that an
  attached client was told is its state, except that a client may still be told \<open>starting\<close> when the
  session has failed to start; and the last state of the events socket it was told is the current one.
\<close>

theorem clients_know_state:
  assumes "session_reach cfg s"
  shows "list_all (\<lambda>c. told events_in c (ss_out s) = Some (ss_eventsState s) \<and>
     told state_in c (ss_out s) \<in> {Some (ss_state s), if ss_state s = Failed then Some Starting else Some (ss_state s)})
     (ss_clients s)"
  using session_view [OF assms] by (cases "ss_state s") (auto simp: view_ok_def view_of_def list_all_iff)

section \<open>The state machine of a session\<close>

lemma same_state: "kept_view s t \<Longrightarrow> ss_state t = ss_state s"
  by (simp add: kept_view_def)

text \<open>
  The states of a session go one way. A step leaves the state alone, or takes \<open>starting\<close> to
  \<open>running\<close> or \<open>failed\<close>, or \<open>running\<close> to \<open>exited\<close> or \<open>failed\<close>; \<open>running\<close> is only left when the process
  ends, and to \<open>failed\<close> only when nobody stopped it and its exit code is not 0.
\<close>

lemma session_states:
  assumes "session_reach cfg s" "session_allowed e s"
  shows "case (ss_state s, ss_state (session_step e s)) of
     (Starting, Starting) \<Rightarrow> True
   | (Starting, Running) \<Rightarrow> (case e of PingAnswered (Inr token) \<Rightarrow> ss_token (session_step e s) = Some token | _ \<Rightarrow> False)
   | (Starting, Failed) \<Rightarrow> True
   | (Running, Running) \<Rightarrow> True
   | (Running, Exited) \<Rightarrow> (case e of ProcessExits code sg \<Rightarrow> ss_stopping s \<or> code = Some 0 | _ \<Rightarrow> False)
   | (Running, Failed) \<Rightarrow> (case e of ProcessExits code sg \<Rightarrow> \<not> ss_stopping s \<and> code \<noteq> Some 0 | _ \<Rightarrow> False)
   | (Exited, Exited) \<Rightarrow> True
   | (Failed, Failed) \<Rightarrow> True
   | _ \<Rightarrow> False"
proof -
  note life = session_life [OF assms(1)]
  have b: "ss_state (broadcast m t) = ss_state t" "ss_token (broadcast m t) = ss_token t" for m t by (simp_all add: session_defs)
  have ok: "?thesis" if "ss_state (session_step e s) = ss_state s"
    using that by (cases "ss_state s") simp_all
  show ?thesis
  proof (cases "(e, s)" rule: session_step.cases)
    case (2 x t)
    then show ?thesis using life assms(2)
      by (cases "ss_state s") (auto simp: life_def spawn_fails_def fail_start_def)
  next
    case (7 token t)
    then show ?thesis using life assms(2)
      by (cases "ss_state s") (auto simp: life_def ping_answered_def Let_def b stop_fields)
  next
    case (11 t)
    then show ?thesis using life assms(2)
      by (cases "ss_state s") (auto simp: life_def cleaned_up_def fail_start_def split: start_pc.splits)
  next
    case (15 code sg t)
    have "ss_state (process_exits code sg (s\<lparr>ss_process := Dead\<rparr>)) =
        ss_state (exited_state code sg (s\<lparr>ss_process := Dead, ss_exitCode := code, ss_signal := sg\<rparr>))"
      using life_exit [of code sg "s\<lparr>ss_process := Dead\<rparr>"] by (simp add: life_def)
    then show ?thesis using 15 life assms(2)
      by (cases "ss_state s") (auto simp: life_def exited_state_def)
  next
    case (14 t)
    then show ?thesis by (intro ok) (simp add: session_defs)
  next
    case (20 c now t)
    then show ?thesis by (intro ok) (simp add: client_opens_def says_def)
  qed (intro ok same_state; auto intro!: kept_throws kept_client kept_subscriber kept_start kept_says
      simp: spawned_def poll_begins_def poll_ends_def info_answered_def Let_def split: poll_result.split;
      simp add: kept_view_def touch_def onEvent_def offEvent_def pushLog_def Let_def)+
qed

section \<open>Requests of the clients\<close>

text \<open>
  The ids a client has had answers for, and those of its requests that are with the transport, as 32 bits.
\<close>

definition wire_id :: "nat \<Rightarrow> nat" where
  "wire_id rid = nat (int rid mod 2 ^ 32)"

fun answer_id :: "nat \<Rightarrow> session_out \<Rightarrow> nat list" where
  "answer_id c (FrameTo d b) =
     (if d = c then (case decodeWsFrame b of Inl e \<Rightarrow> [] | Inr (rid, p) \<Rightarrow> [rid]) else [])"
| "answer_id c (ToClient d (BridgeError e)) = (if d = c then (case e_id e of None \<Rightarrow> [] | Some rid \<Rightarrow> [wire_id rid]) else [])"
| "answer_id c x = []"

definition request_ids :: "nat list \<Rightarrow> nat multiset" where
  "request_ids xs = mset (filter (\<lambda>rid. rid \<noteq> WS_EVENT_FRAME_ID) xs)"

definition answered_ids :: "nat \<Rightarrow> kicad_session \<Rightarrow> nat multiset" where
  "answered_ids c s = request_ids (concat (map (answer_id c) (ss_out s)))"

definition forwarded_ids :: "nat \<Rightarrow> kicad_session \<Rightarrow> nat multiset" where
  "forwarded_ids c s = request_ids (concat (map (\<lambda>f. case f of None \<Rightarrow> [] | Some (d, rid) \<Rightarrow> if d = c then [wire_id rid] else []) (ss_forwards s)))"

definition asked_ids :: "nat \<Rightarrow> session_event list \<Rightarrow> nat multiset" where
  "asked_ids c es = request_ids (concat (map (\<lambda>e. case e of
       ClientFrame d b m \<Rightarrow> if d = c then (case decodeWsFrame b of Inl e \<Rightarrow> [] | Inr (rid, p) \<Rightarrow> [rid]) else []
     | _ \<Rightarrow> []) es))"

definition books_of :: "nat \<Rightarrow> kicad_session \<Rightarrow> nat multiset" where
  "books_of c s = answered_ids c s + forwarded_ids c s"

fun attached :: "nat \<Rightarrow> session_event list \<Rightarrow> kicad_session \<Rightarrow> bool" where
  "attached c [] s = (c \<in> set (ss_clients s))"
| "attached c (e # es) s = (c \<in> set (ss_clients s) \<and> session_allowed e s \<and> attached c es (session_step e s))"

lemma request_ids_append [simp]: "request_ids (xs @ ys) = request_ids xs + request_ids ys" "request_ids [] = {#}"
  by (simp_all add: request_ids_def)

lemma no_answers: "list_all (\<lambda>x. answer_id c x = []) xs \<Longrightarrow> concat (map (answer_id c) xs) = []"
  by (simp add: list_all_iff)

lemma decode_event: "decodeWsFrame (encodeEventFrame b) = Inr (WS_EVENT_FRAME_ID, b)"
  unfolding encodeEventFrame_def by (rule decode_encode_nat) (simp add: WS_EVENT_FRAME_ID_def)

lemma event_answers: "request_ids (concat (map (answer_id c) (map (\<lambda>d. FrameTo d (encodeEventFrame b)) ds))) = {#}"
  by (induction ds) (simp_all add: decode_event, simp_all add: request_ids_def)

text \<open>What is said besides answers, and the two steps that keep the books.\<close>

lemma books_says: "list_all (\<lambda>x. answer_id c x = []) os \<Longrightarrow> books_of c (says os s) = books_of c s"
  by (simp add: books_of_def answered_ids_def forwarded_ids_def says_def no_answers)

lemma requests_update [simp]: "books_of c (s\<lparr>ss_transport := t\<rparr>) = books_of c s" "books_of c (s\<lparr>ss_closing := n\<rparr>) = books_of c s"
  "books_of c (s\<lparr>ss_subscriber := k\<rparr>) = books_of c s" "books_of c (s\<lparr>ss_token := tk\<rparr>) = books_of c s"
  "books_of c (s\<lparr>ss_stopping := f\<rparr>) = books_of c s" "books_of c (s\<lparr>ss_exitCode := code\<rparr>) = books_of c s"
  "books_of c (s\<lparr>ss_signal := sg\<rparr>) = books_of c s" "books_of c (s\<lparr>ss_eventsPath := p\<rparr>) = books_of c s"
  "books_of c (s\<lparr>ss_subscribers := n\<rparr>) = books_of c s" "books_of c (s\<lparr>ss_state := w\<rparr>) = books_of c s"
  "books_of c (s\<lparr>ss_error := er\<rparr>) = books_of c s" "books_of c (s\<lparr>ss_start := pc\<rparr>) = books_of c s"
  "books_of c (s\<lparr>ss_stops := cs\<rparr>) = books_of c s" "books_of c (s\<lparr>ss_process := proc\<rparr>) = books_of c s"
  "books_of c (s\<lparr>ss_listeners := ls\<rparr>) = books_of c s" "books_of c (s\<lparr>ss_lastClientAt := now\<rparr>) = books_of c s"
  "books_of c (s\<lparr>ss_relayed := n\<rparr>) = books_of c s" "books_of c (s\<lparr>ss_log := l\<rparr>) = books_of c s"
  "books_of c (s\<lparr>ss_clients := ds\<rparr>) = books_of c s" "books_of c (s\<lparr>ss_clientCount := n\<rparr>) = books_of c s"
  "books_of c (s\<lparr>ss_eventsState := v\<rparr>) = books_of c s"
  by (simp_all add: books_of_def answered_ids_def forwarded_ids_def)

lemma books_broadcast:
  "books_of c (broadcast (ServerState m) s) = books_of c s" "books_of c (broadcast (BridgeEvents v) s) = books_of c s"
  by (simp_all add: broadcast_def books_says list_all_iff)

lemma books_basic [simp]:
  "books_of c (setEventsState w m s) = books_of c s" "books_of c (events_stopped s) = books_of c s"
  "books_of c (remove_socket p s) = books_of c s" "books_of c (close_transport s) = books_of c s"
  "books_of c (drop_clients s) = books_of c s" "books_of c (at_stop i pc s) = books_of c s"
  "books_of c (exited_state code sg s) = books_of c s"
proof -
  show e: "books_of c (setEventsState w m s) = books_of c s" for w m by (simp add: setEventsState_def books_broadcast)
  show "books_of c (events_stopped s) = books_of c s" by (simp add: events_stopped_def e)
  show "books_of c (remove_socket p s) = books_of c s" by (simp add: remove_socket_def books_says)
  show "books_of c (close_transport s) = books_of c s" by (simp add: close_transport_def)
  show "books_of c (drop_clients s) = books_of c s" by (simp add: drop_clients_def books_says list_all_iff)
  show "books_of c (at_stop i pc s) = books_of c s" by (simp add: at_stop_def)
  show "books_of c (exited_state code sg s) = books_of c s" by (simp add: exited_state_def split: server_state.split)
qed

lemma books_stop [simp]: "books_of c (stop s) = books_of c s" "books_of c (start_throws e s) = books_of c s"
  "books_of c (stop_resumes i s) = books_of c s" "books_of c (process_exits code sg s) = books_of c s"
  "books_of c (fail_start m s) = books_of c s"
proof -
  show p: "books_of c (stop s) = books_of c s" by (simp add: stop_def Let_def)
  show "books_of c (start_throws e s) = books_of c s" by (simp add: start_throws_def Let_def p)
  show "books_of c (stop_resumes i s) = books_of c s"
    by (simp add: stop_resumes_def stop_files_def Let_def books_says split: stop_pc.split)
  show "books_of c (process_exits code sg s) = books_of c s"
    by (simp add: process_exits_def Let_def exit_message_def books_broadcast split: option.split)
  show "books_of c (fail_start m s) = books_of c s" by (simp add: fail_start_def)
qed

lemma wire_id_decoded: "decodeWsFrame b = Inr (rid, p) \<Longrightarrow> wire_id rid = rid"
proof -
  assume "decodeWsFrame b = Inr (rid, p)"
  then have "int rid < 2 ^ 32" using encode_decode(2) [of b rid p] by simp
  then show ?thesis by (simp add: wire_id_def)
qed

lemma books_frame:
  "books_of c (client_frame d b m s) =
     books_of c s + request_ids (if d = c then (case decodeWsFrame b of Inl e \<Rightarrow> [] | Inr (rid, p) \<Rightarrow> [rid]) else [])"
  by (auto simp: client_frame_def books_of_def answered_ids_def forwarded_ids_def says_def bad_request_def
      wire_id_decoded split: sum.split prod.split)

lemma forwards_split:
  "n < length fs \<Longrightarrow> request_ids (concat (map g (fs[n := x]))) + request_ids (g (fs ! n)) =
     request_ids (concat (map g fs)) + request_ids (g x)"
proof (induction fs arbitrary: n)
  case (Cons f fs)
  show ?case
  proof (cases n)
    case 0
    then show ?thesis by (simp add: ac_simps)
  next
    case (Suc k)
    then show ?thesis using Cons.IH [of k] Cons.prems by (simp add: ac_simps)
  qed
qed simp

lemma books_settled:
  assumes "n < length (ss_forwards s)" "c \<in> set (ss_clients s)"
  shows "books_of c (forward_settled n r s) = books_of c s"
proof (cases "ss_forwards s ! n")
  case None
  then show ?thesis by (simp add: forward_settled_def)
next
  case (Some dr)
  obtain d rid where dr: "dr = (d, rid)" by force
  let ?t = "s\<lparr>ss_forwards := (ss_forwards s)[n := None]\<rparr>"
  let ?mine = "request_ids (if d = c then [wire_id rid] else [])"
  have f: "forwarded_ids c ?t + ?mine = forwarded_ids c s"
    using forwards_split [OF assms(1), of "\<lambda>f. case f of None \<Rightarrow> [] | Some (d, rid) \<Rightarrow> if d = c then [wire_id rid] else []" None]
    by (simp add: forwarded_ids_def Some dr)
  have a: "answered_ids c ?t = answered_ids c s" by (simp add: answered_ids_def)
  have says: "books_of c (says [x] ?t) = books_of c s" if "request_ids (answer_id c x) = ?mine" for x
  proof -
    have "books_of c (says [x] ?t) = answered_ids c s + request_ids (answer_id c x) + forwarded_ids c ?t"
      by (simp add: books_of_def answered_ids_def forwarded_ids_def says_def)
    then show ?thesis using f that by (simp add: books_of_def ac_simps)
  qed
  show ?thesis
  proof (cases "d \<in> set (ss_clients s)")
    case False
    then have "d \<noteq> c" using assms(2) by blast
    then have "books_of c ?t = books_of c s" using f a by (simp add: books_of_def)
    then show ?thesis using False by (simp add: forward_settled_def Some dr Let_def)
  next
    case True
    show ?thesis
      using True by (auto simp: forward_settled_def Some dr Let_def wire_id_def split: sum.split intro!: says)
  qed
qed

lemma books_event: "books_of c (on_event_frame k b s) = books_of c s"
proof -
  have l: "request_ids (concat (map (answer_id c) (map (\<lambda>l. EventTo l b) ls))) = {#}" for ls
    by (subst no_answers) (simp_all add: list_all_iff)
  show ?thesis
    using event_answers [of c b] l
    by (simp add: on_event_frame_def books_of_def answered_ids_def forwarded_ids_def says_def del: map_map)
qed

lemma requests_step:
  assumes "session_allowed e s" "c \<in> set (ss_clients s)"
  shows "books_of c (session_step e s) = books_of c s + asked_ids c [e]"
proof (cases "(e, s)" rule: session_step.cases)
  case (26 d b m t)
  then show ?thesis by (simp add: books_frame asked_ids_def)
next
  case (27 n r t)
  then show ?thesis using assms books_settled by (simp add: asked_ids_def)
next
  case (18 k b t)
  then show ?thesis by (simp add: books_event asked_ids_def)
qed (simp_all add: asked_ids_def spawned_def spawn_fails_def poll_begins_def poll_ends_def ping_answered_def running_message_def
    info_answered_def cleaned_up_def on_subscriber_state_def client_opens_def client_closes_def onEvent_def offEvent_def touch_def
    client_text_def hello_message_def bad_request_def pushLog_def books_says books_broadcast Let_def
    split: poll_result.split start_pc.split sum.split)

text \<open>
  C19: every request of a client is answered once. While a client is attached, each binary frame it sends is
  either with KiCad or has had exactly one answer, a reply frame or an error with its id, whatever happens
  to the session in between; relayed events have an id of their own.
\<close>

theorem client_requests_answered:
  assumes "attached c es s"
  shows "answered_ids c (run session_step es s) + forwarded_ids c (run session_step es s) =
     answered_ids c s + forwarded_ids c s + asked_ids c es"
proof -
  have a: "asked_ids c (e # es) = asked_ids c [e] + asked_ids c es" for e es by (simp add: asked_ids_def)
  have "books_of c (run session_step es s) = books_of c s + asked_ids c es"
    using assms
  proof (induction es arbitrary: s)
    case Nil
    then show ?case by (simp add: asked_ids_def)
  next
    case (Cons e es)
    then have "books_of c (run session_step es (session_step e s)) = books_of c (session_step e s) + asked_ids c es" by simp
    moreover have "books_of c (session_step e s) = books_of c s + asked_ids c [e]" using requests_step Cons.prems by simp
    ultimately show ?case using a [of e es] by (simp add: ac_simps)
  qed
  then show ?thesis by (simp add: books_of_def)
qed

section \<open>Runs\<close>

definition demo_config :: session_config where
  "demo_config = \<lparr>sc_id = ''a'', sc_socket = ''/tmp/api.sock'', sc_kicadCli = ''kicad-cli'', sc_startTimeoutMs = 1000,
     sc_relayEvents = True\<rparr>"

definition demo_start :: "session_event list" where
  "demo_start = [Prepared None, PollBegins, ClientOpens 0 5, PollEnds SocketFound, TransportChanges Open, TransportReady None,
     PingAnswered (Inr ''t''), InfoAnswered None, SubscriberState 0 True [], EventsSettled]"

definition demo_requests :: "session_event list" where
  "demo_requests = [ClientFrame 0 (encodeWsFrame 7 [1]) [], EventFrame 0 [9], ClientFrame 0 (encodeWsFrame 8 [2]) [],
     ForwardSettled 1 (Inr [3]), ProcessExits None (Some ''SIGSEGV''), ClientFrame 0 (encodeWsFrame 9 [4]) []]"

definition demo_running :: kicad_session where "demo_running = run session_step demo_start (new_session demo_config)"

lemma demo_reach: "session_reach demo_config demo_running"
  unfolding demo_running_def by (rule reach_run [OF reach.start]) code_simp

theorem session_lifecycle_witness: "ss_state demo_running = Running \<and> ss_process demo_running = Alive"
proof -
  have "ss_state demo_running = Running" by code_simp
  then show ?thesis using session_lifecycle [OF demo_reach] by simp
qed

theorem clients_know_state_witness: "ss_clients demo_running = [0] \<and> told state_in 0 (ss_out demo_running) = Some Running"
proof -
  have "ss_clients demo_running = [0]" "ss_state demo_running = Running" by code_simp+
  then show ?thesis using clients_know_state [OF demo_reach] by simp
qed

theorem client_requests_answered_witness:
  "answered_ids 0 (run session_step demo_requests demo_running) = {#8, 9#} \<and>
   forwarded_ids 0 (run session_step demo_requests demo_running) = {#7#}"
proof -
  have a: "attached 0 demo_requests demo_running" by code_simp
  have "asked_ids 0 demo_requests = {#7, 8, 9#}" "answered_ids 0 demo_running = {#}" "forwarded_ids 0 demo_running = {#}"
    "forwarded_ids 0 (run session_step demo_requests demo_running) = {#7#}"
    by code_simp+
  then show ?thesis using client_requests_answered [OF a] by simp
qed

text \<open>
  A session that is stopped before its process is spawned: \<open>stop\<close> finds no process and ends, and \<open>start\<close>
  goes on, spawns KiCad and reaches \<open>running\<close>.
\<close>

lemma stop_before_spawn_leaks:
  "case run session_step [StopCalled, StopResumes 0, StopResumes 0, StopResumes 0, Prepared None, PollBegins, PollEnds SocketFound,
       TransportChanges Open, TransportReady None, PingAnswered (Inr ''t'')] (new_session demo_config) of s \<Rightarrow>
     runs_allowed session_allowed session_step [StopCalled, StopResumes 0, StopResumes 0, StopResumes 0, Prepared None, PollBegins,
       PollEnds SocketFound, TransportChanges Open, TransportReady None, PingAnswered (Inr ''t'')] (new_session demo_config) \<and>
     list_all (\<lambda>c. st_pc c = StopDone) (ss_stops s) \<and> ss_state s = Running \<and> ss_process s = Alive"
  by code_simp

end
