(* ===== verification/BridgeManager.thy ===== *)
theory BridgeManager
  imports BridgeSession
begin

text \<open>
  The sessions of the bridge (\<open>SessionManager\<close> in \<open>packages/bridge/src/session.ts\<close>): creating, destroying and
  reaping them. Each call of \<open>create\<close>, \<open>destroy\<close> and \<open>reapIdle\<close> stands where it awaits, and the sessions
  run beside them, each by the steps of \<open>BridgeSession\<close>. Only the process backend is modelled; \<open>join\<close> and
  \<open>resolve\<close> of the runtime are arguments.
\<close>

section \<open>Names\<close>

text \<open>\<open>/^[A-Za-z0-9_-]{1,64}$/\<close>.\<close>

definition id_chars :: string where
  "id_chars = ''ABCDEFGHIJKLMNOPQRSTUVWXYZabcdefghijklmnopqrstuvwxyz0123456789_-''"

definition valid_session_id :: "string \<Rightarrow> bool" where
  "valid_session_id s \<longleftrightarrow> 1 \<le> length s \<and> length s \<le> 64 \<and> list_all (\<lambda>c. c \<in> set id_chars) s"

definition hex_byte :: "byte \<Rightarrow> string" where
  "hex_byte b = [''0123456789abcdef'' ! (unat b div 16), ''0123456789abcdef'' ! (unat b mod 16)]"

definition randomId :: "bytes \<Rightarrow> string" where
  "randomId b = concat (map hex_byte b)"

datatype socket_transport = IpcSockets | WsSockets

record bridge_config =
  bc_socketDir :: string
  bc_socketTransport :: socket_transport
  bc_wsHostname :: string
  bc_kicadCli :: string
  bc_startTimeoutMs :: nat
  bc_relayEvents :: bool
  bc_sessionIdleTimeoutSec :: int

record create_options =
  op_path :: "string option"
  op_socket :: "string option"
  op_id :: "string option"

record path_functions =
  pf_join :: "string \<Rightarrow> string \<Rightarrow> string"
  pf_resolve :: "string \<Rightarrow> string"

definition has_text :: "string option \<Rightarrow> bool" where
  "has_text s \<longleftrightarrow> s \<noteq> None \<and> s \<noteq> Some []"

definition socket_path_of :: "path_functions \<Rightarrow> bridge_config \<Rightarrow> create_options \<Rightarrow> nat \<Rightarrow> string \<Rightarrow> string" where
  "socket_path_of pf cfg opts port sid =
     (if has_text (op_socket opts)
      then let s = the (op_socket opts) in if is_ws_url s then s else pf_resolve pf s
      else if bc_socketTransport cfg = WsSockets
      then ''ws://'' @ bc_wsHostname cfg @ '':'' @ show_int (int port) @ ''/kicad/'' @ sid
      else pf_join pf (bc_socketDir cfg) (''api-'' @ sid @ ''.sock''))"

definition session_config_of :: "path_functions \<Rightarrow> bridge_config \<Rightarrow> create_options \<Rightarrow> nat \<Rightarrow> string \<Rightarrow> session_config" where
  "session_config_of pf cfg opts port sid =
     \<lparr>sc_id = sid, sc_socket = socket_path_of pf cfg opts port sid, sc_kicadCli = bc_kicadCli cfg,
      sc_startTimeoutMs = bc_startTimeoutMs cfg, sc_relayEvents = bc_relayEvents cfg\<rparr>"

text \<open>The environment of the child: the variables of the AppImage launcher are taken out.\<close>

definition APPIMAGE_RUNTIME_ENV :: "string list" where
  "APPIMAGE_RUNTIME_ENV = [''APPDIR'', ''APPIMAGE'', ''ARGV0'', ''OWD'']"

definition kicadChildEnvironment :: "(string, string) jmap \<Rightarrow> (string, string) jmap \<Rightarrow> (string, string) jmap" where
  "kicadChildEnvironment base extra = fold jdel APPIMAGE_RUNTIME_ENV (fold (\<lambda>(k, v). jput k v) extra base)"

section \<open>The manager\<close>

datatype create_pc = CreateRefused | CreateChecking | CreateStarting nat | CreateReturned nat | CreateThrew nat

record create_call =
  ce_id :: string
  ce_options :: create_options
  ce_pc :: create_pc

text \<open>A call of \<open>destroy\<close> that found a session: the session, and the call of its \<open>stop\<close>.\<close>

record destroy_call =
  dy_session :: nat
  dy_stop :: nat

datatype reap_pc = ReapWaits nat | ReapDone

record reap_call =
  rp_now :: int
  rp_rest :: "nat list"
  rp_pc :: reap_pc

record manager =
  mn_config :: bridge_config
  mn_objects :: "kicad_session list"
  mn_sessions :: "(string, nat) jmap"
  mn_creates :: "create_call list"
  mn_destroys :: "destroy_call list"
  mn_reaps :: "reap_call list"

definition new_manager :: "bridge_config \<Rightarrow> manager" where
  "new_manager cfg = \<lparr>mn_config = cfg, mn_objects = [], mn_sessions = [], mn_creates = [], mn_destroys = [], mn_reaps = []\<rparr>"

definition session_id :: "kicad_session \<Rightarrow> string" where
  "session_id s = sc_id (ss_config s)"

definition create_goes :: "nat \<Rightarrow> create_pc \<Rightarrow> manager \<Rightarrow> manager" where
  "create_goes i pc m = m\<lparr>mn_creates := (mn_creates m)[i := (mn_creates m ! i)\<lparr>ce_pc := pc\<rparr>]\<rparr>"

text \<open>From the socket path on: the session is made, entered in the map, and starts.\<close>

definition create_registers :: "path_functions \<Rightarrow> nat \<Rightarrow> nat \<Rightarrow> manager \<Rightarrow> manager" where
  "create_registers pf i port m =
     (let c = mn_creates m ! i; n = length (mn_objects m) in
      create_goes i (CreateStarting n)
        (m\<lparr>mn_objects := mn_objects m @ [new_session (session_config_of pf (mn_config m) (ce_options c) port (ce_id c))],
           mn_sessions := jput (ce_id c) n (mn_sessions m)\<rparr>))"

definition create_awaits :: "bridge_config \<Rightarrow> create_options \<Rightarrow> bool" where
  "create_awaits cfg opts \<longleftrightarrow> has_text (op_path opts) \<or> \<not> has_text (op_socket opts) \<and> bc_socketTransport cfg = WsSockets"

definition create :: "path_functions \<Rightarrow> create_options \<Rightarrow> bytes \<Rightarrow> manager \<Rightarrow> manager" where
  "create pf opts random m =
     (let sid = (case op_id opts of None \<Rightarrow> randomId random | Some s \<Rightarrow> s);
          refused = (\<not> valid_session_id sid \<or> jhas (mn_sessions m) sid);
          i = length (mn_creates m);
          m1 = m\<lparr>mn_creates := mn_creates m @ [\<lparr>ce_id = sid, ce_options = opts, ce_pc = (if refused then CreateRefused else CreateChecking)\<rparr>]\<rparr>
      in if refused \<or> create_awaits (mn_config m) opts then m1 else create_registers pf i 0 m1)"

text \<open>The file was looked up and a port found, or one of the two failed.\<close>

definition create_checked :: "path_functions \<Rightarrow> nat \<Rightarrow> nat option \<Rightarrow> manager \<Rightarrow> manager" where
  "create_checked pf i port m =
     (case port of None \<Rightarrow> create_goes i CreateRefused m | Some p \<Rightarrow> create_registers pf i p m)"

definition create_ends :: "nat \<Rightarrow> manager \<Rightarrow> manager" where
  "create_ends i m =
     (case ce_pc (mn_creates m ! i) of
        CreateStarting n \<Rightarrow>
          (case ss_start (mn_objects m ! n) of
             StartDone \<Rightarrow> create_goes i (CreateReturned n) m
           | StartThrew e \<Rightarrow> create_goes i (CreateThrew n) (m\<lparr>mn_sessions := jdel (ce_id (mn_creates m ! i)) (mn_sessions m)\<rparr>)
           | _ \<Rightarrow> m)
      | _ \<Rightarrow> m)"

definition destroy :: "string \<Rightarrow> manager \<Rightarrow> manager" where
  "destroy sid m =
     (case jget (mn_sessions m) sid of
        None \<Rightarrow> m
      | Some n \<Rightarrow> m\<lparr>mn_sessions := jdel sid (mn_sessions m), mn_objects := (mn_objects m)[n := stop (mn_objects m ! n)],
          mn_destroys := mn_destroys m @ [\<lparr>dy_session = n, dy_stop = length (ss_stops (mn_objects m ! n))\<rparr>]\<rparr>)"

definition destroyAll :: "manager \<Rightarrow> manager" where
  "destroyAll m = fold destroy (jkeys (mn_sessions m)) m"

definition reapable :: "bridge_config \<Rightarrow> int \<Rightarrow> kicad_session \<Rightarrow> bool" where
  "reapable cfg now s \<longleftrightarrow> ss_state s \<noteq> Starting \<and> idle s \<and> bc_sessionIdleTimeoutSec cfg * 1000 \<le> now - ss_lastClientAt s"

text \<open>The loop of \<open>reapIdle\<close> from the sessions that are left, up to where it awaits a \<open>destroy\<close>.\<close>

fun reap_goes :: "int \<Rightarrow> nat list \<Rightarrow> manager \<Rightarrow> manager \<times> reap_call" where
  "reap_goes now [] m = (m, \<lparr>rp_now = now, rp_rest = [], rp_pc = ReapDone\<rparr>)"
| "reap_goes now (n # ns) m =
     (let s = mn_objects m ! n in
      if reapable (mn_config m) now s \<and> jhas (mn_sessions m) (session_id s)
      then (destroy (session_id s) m, \<lparr>rp_now = now, rp_rest = ns, rp_pc = ReapWaits (length (mn_destroys m))\<rparr>)
      else reap_goes now ns m)"

definition reapIdle :: "int \<Rightarrow> manager \<Rightarrow> manager" where
  "reapIdle now m =
     (if bc_sessionIdleTimeoutSec (mn_config m) \<le> 0 then m
      else case reap_goes now (jvalues (mn_sessions m)) m of (m', r) \<Rightarrow> m'\<lparr>mn_reaps := mn_reaps m' @ [r]\<rparr>)"

definition reap_resumes :: "nat \<Rightarrow> manager \<Rightarrow> manager" where
  "reap_resumes j m =
     (case reap_goes (rp_now (mn_reaps m ! j)) (rp_rest (mn_reaps m ! j)) m of (m', r) \<Rightarrow> m'\<lparr>mn_reaps := (mn_reaps m')[j := r]\<rparr>)"

definition stale_sockets :: "path_functions \<Rightarrow> manager \<Rightarrow> (string \<Rightarrow> bool) \<Rightarrow> string list \<Rightarrow> string list" where
  "stale_sockets pf m dead names =
     (let sessions = map (\<lambda>n. mn_objects m ! n) (jvalues (mn_sessions m)) in
      filter (\<lambda>p. \<not> list_ex (\<lambda>s. sc_socket (ss_config s) = p \<or> ss_eventsPath s = Some p) sessions \<and> dead p)
        (map (pf_join pf (bc_socketDir (mn_config m)))
           (filter (\<lambda>name. take 4 name = ''api-'' \<and> string_suffix ''.sock'' (drop 4 name)) names)))"

datatype manager_event =
    CreateCalled create_options bytes
  | CreateChecked nat "nat option"
  | CreateEnds nat
  | DestroyCalled string
  | DestroyAllCalled
  | ReapCalled int
  | ReapResumes nat
  | SessionEvent nat session_event

fun manager_step :: "path_functions \<Rightarrow> manager_event \<Rightarrow> manager \<Rightarrow> manager" where
  "manager_step pf (CreateCalled opts random) m = create pf opts random m"
| "manager_step pf (CreateChecked i port) m = create_checked pf i port m"
| "manager_step pf (CreateEnds i) m = create_ends i m"
| "manager_step pf (DestroyCalled sid) m = destroy sid m"
| "manager_step pf DestroyAllCalled m = destroyAll m"
| "manager_step pf (ReapCalled now) m = reapIdle now m"
| "manager_step pf (ReapResumes j) m = reap_resumes j m"
| "manager_step pf (SessionEvent n e) m = m\<lparr>mn_objects := (mn_objects m)[n := session_step e (mn_objects m ! n)]\<rparr>"

text \<open>Only the manager and a failing start stop a session.\<close>

fun manager_allowed :: "manager_event \<Rightarrow> manager \<Rightarrow> bool" where
  "manager_allowed (CreateChecked i port) m = (i < length (mn_creates m) \<and> ce_pc (mn_creates m ! i) = CreateChecking)"
| "manager_allowed (CreateEnds i) m = (i < length (mn_creates m))"
| "manager_allowed (ReapResumes j) m = (j < length (mn_reaps m) \<and>
     (case rp_pc (mn_reaps m ! j) of
        ReapDone \<Rightarrow> False
      | ReapWaits k \<Rightarrow> st_pc (ss_stops (mn_objects m ! dy_session (mn_destroys m ! k)) ! dy_stop (mn_destroys m ! k)) = StopDone))"
| "manager_allowed (SessionEvent n e) m = (n < length (mn_objects m) \<and> e \<noteq> StopCalled \<and> session_allowed e (mn_objects m ! n))"
| "manager_allowed e m = True"

abbreviation manager_reach :: "path_functions \<Rightarrow> bridge_config \<Rightarrow> manager \<Rightarrow> bool" where
  "manager_reach pf cfg \<equiv> reach (new_manager cfg) manager_allowed (manager_step pf)"

section \<open>What a session keeps\<close>

lemma config_basic [simp]: "ss_config (says os s) = ss_config s" "ss_config (broadcast m s) = ss_config s"
  "ss_config (setEventsState w t s) = ss_config s" "ss_config (events_stopped s) = ss_config s"
  "ss_config (remove_socket p s) = ss_config s" "ss_config (close_transport s) = ss_config s"
  "ss_config (drop_clients s) = ss_config s" "ss_config (at_stop i pc s) = ss_config s"
  "ss_config (exited_state code sg s) = ss_config s"
  by (simp_all add: session_defs at_stop_def exited_state_def split: server_state.split)

lemma config_stop [simp]: "ss_config (stop s) = ss_config s" "ss_config (start_throws e s) = ss_config s"
  "ss_config (stop_resumes i s) = ss_config s" "ss_config (process_exits code sg s) = ss_config s" "ss_config (fail_start m s) = ss_config s"
  by (simp_all add: stop_def start_throws_def stop_resumes_def stop_files_def process_exits_def fail_start_def Let_def
      split: stop_pc.split option.split)

lemma config_step: "ss_config (session_step e s) = ss_config s"
  by (cases "(e, s)" rule: session_step.cases)
    (simp_all add: spawned_def spawn_fails_def poll_begins_def poll_ends_def ping_answered_def info_answered_def cleaned_up_def
      on_subscriber_state_def on_event_frame_def client_opens_def client_closes_def onEvent_def offEvent_def touch_def
      client_text_def client_frame_def forward_settled_def pushLog_def Let_def
      split: poll_result.split start_pc.split sum.split option.split prod.split)

lemma threw_step:
  assumes "ss_start s = StartThrew m" "session_allowed e s"
  shows "ss_start (session_step e s) = StartThrew m"
proof -
  have k: "life t = life s \<Longrightarrow> ss_start t = StartThrew m" for t using assms(1) by (simp add: life_def)
  have a: "ss_start (at_stop i pc t) = ss_start t" "ss_start (says os t) = ss_start t" "ss_start (broadcast msg t) = ss_start t"
    "ss_start (setEventsState w x t) = ss_start t" "ss_start (events_stopped t) = ss_start t" "ss_start (remove_socket p t) = ss_start t"
    "ss_start (close_transport t) = ss_start t" "ss_start (drop_clients t) = ss_start t" "ss_start (exited_state code sg t) = ss_start t"
    for i pc os msg w x p code sg t
    by (simp_all add: session_defs at_stop_def exited_state_def split: server_state.split)
  show ?thesis
  proof (cases "(e, s)" rule: session_step.cases)
    case (12 t)
    then show ?thesis using assms(1) by (simp add: stop_def Let_def a)
  next
    case (13 i t)
    then show ?thesis using assms(1) by (simp add: stop_resumes_def stop_files_def Let_def a split: stop_pc.split)
  next
    case (15 code sg t)
    then show ?thesis using assms(1) by (simp add: process_exits_def Let_def a split: option.split)
  qed (use assms k in \<open>auto simp: a touch_def\<close>)
qed

section \<open>The books of the manager\<close>

fun pc_session :: "create_pc \<Rightarrow> nat option" where
  "pc_session (CreateStarting n) = Some n"
| "pc_session (CreateReturned n) = Some n"
| "pc_session (CreateThrew n) = Some n"
| "pc_session _ = None"

text \<open>The ids of the sessions, the calls of \<open>create\<close> with their ids, and the sessions that were destroyed.\<close>

definition object_ids :: "manager \<Rightarrow> string list" where
  "object_ids m = map session_id (mn_objects m)"

definition calls :: "manager \<Rightarrow> (string \<times> create_pc) list" where
  "calls m = map (\<lambda>c. (ce_id c, ce_pc c)) (mn_creates m)"

definition destroyed :: "manager \<Rightarrow> nat set" where
  "destroyed m = dy_session ` set (mn_destroys m)"

text \<open>Every session belongs to a call of \<open>create\<close> with its id, and every entry of the map to a session with its key.\<close>

definition owned :: "string list \<Rightarrow> (string \<times> create_pc) list \<Rightarrow> (string, nat) jmap \<Rightarrow> bool" where
  "owned ids cs m \<longleftrightarrow>
     (\<forall>(sid, pc) \<in> set cs. \<forall>n. pc_session pc = Some n \<longrightarrow> n < length ids \<and> ids ! n = sid) \<and>
     (\<forall>n < length ids. \<exists>(sid, pc) \<in> set cs. pc_session pc = Some n) \<and>
     (\<forall>sid n. jget m sid = Some n \<longrightarrow> n < length ids \<and> ids ! n = sid)"

text \<open>No session is lost: it is in the map, or it was destroyed, or its start threw.\<close>

definition tracked :: "string list \<Rightarrow> (string \<times> create_pc) list \<Rightarrow> (string, nat) jmap \<Rightarrow> nat set \<Rightarrow> bool" where
  "tracked ids cs m dead \<longleftrightarrow>
     (\<forall>n < length ids. jget m (ids ! n) = Some n \<or> n \<in> dead \<or> CreateThrew n \<in> snd ` set cs)"

lemma ownedD:
  assumes "owned ids cs m"
  shows "(sid, pc) \<in> set cs \<Longrightarrow> pc_session pc = Some n \<Longrightarrow> n < length ids \<and> ids ! n = sid"
    "n < length ids \<Longrightarrow> \<exists>sid pc. (sid, pc) \<in> set cs \<and> pc_session pc = Some n"
    "jget m sid = Some n \<Longrightarrow> n < length ids \<and> ids ! n = sid"
  using assms unfolding owned_def by blast+

lemma ownedI:
  assumes "\<And>sid pc n. (sid, pc) \<in> set cs \<Longrightarrow> pc_session pc = Some n \<Longrightarrow> n < length ids \<and> ids ! n = sid"
    "\<And>n. n < length ids \<Longrightarrow> \<exists>sid pc. (sid, pc) \<in> set cs \<and> pc_session pc = Some n"
    "\<And>sid n. jget m sid = Some n \<Longrightarrow> n < length ids \<and> ids ! n = sid"
  shows "owned ids cs m"
  using assms unfolding owned_def by fast

lemma owned_distinct:
  assumes "owned ids cs m" "distinct (map fst cs)"
  shows "distinct ids"
  unfolding distinct_conv_nth
proof (intro allI impI notI)
  fix n k
  assume n: "n < length ids" and k: "k < length ids" "n \<noteq> k" "ids ! n = ids ! k"
  obtain a pc where c: "(a, pc) \<in> set cs" "pc_session pc = Some n" using assms(1) n unfolding owned_def by blast
  obtain b pd where d: "(b, pd) \<in> set cs" "pc_session pd = Some k" using assms(1) k(1) unfolding owned_def by blast
  have "ids ! n = a" using assms(1) c unfolding owned_def by blast
  moreover have "ids ! k = b" using assms(1) d unfolding owned_def by blast
  ultimately have "a = b" using k(3) by simp
  then have "pc = pd" using assms(2) c(1) d(1) by (metis eq_key_imp_eq_value)
  then show False using c(2) d(2) k(2) by simp
qed

lemma owned_snoc: "owned ids cs m \<Longrightarrow> pc_session pc = None \<Longrightarrow> owned ids (cs @ [(sid, pc)]) m"
  unfolding owned_def by fastforce

lemma tracked_snoc: "tracked ids cs m dead \<Longrightarrow> tracked ids (cs @ [(sid, pc)]) m dead"
  unfolding tracked_def by auto

lemma owned_jdel: "owned ids cs m \<Longrightarrow> owned ids cs (jdel sid m)"
  unfolding owned_def by (simp split: if_splits)

text \<open>One call goes on: the others stay in the list.\<close>

lemma call_goes:
  assumes "i < length cs" "cs ! i = (sid, pc)"
  shows "set (cs[i := x]) \<subseteq> insert x (set cs)" "x \<in> set (cs[i := x])" "c \<in> set cs \<Longrightarrow> c \<noteq> (sid, pc) \<Longrightarrow> c \<in> set (cs[i := x])"
proof -
  show "set (cs[i := x]) \<subseteq> insert x (set cs)" by (rule set_update_subset_insert)
  show "x \<in> set (cs[i := x])" using assms(1) by (rule set_update_memI)
  show "c \<in> set (cs[i := x])" if "c \<in> set cs" "c \<noteq> (sid, pc)"
  proof -
    obtain j where j: "j < length cs" "cs ! j = c" using \<open>c \<in> set cs\<close> by (metis in_set_conv_nth)
    then have "j \<noteq> i" using that assms by auto
    then have "cs[i := x] ! j = c" using j by simp
    then show ?thesis using j(1) by (metis length_list_update nth_mem)
  qed
qed

lemma call_in: "i < length cs \<Longrightarrow> cs ! i = (sid, pc) \<Longrightarrow> (sid, pc) \<in> set cs"
  by (metis nth_mem)

lemma owned_pc:
  assumes "owned ids cs m" "i < length cs" "cs ! i = (sid, pc)" "pc_session pc' = pc_session pc"
  shows "owned ids (cs[i := (sid, pc')]) m"
proof (rule ownedI)
  note o = ownedD [OF assms(1)] and g = call_goes [OF assms(2,3), where x = "(sid, pc')"]
  show "n < length ids \<and> ids ! n = s" if "(s, p) \<in> set (cs[i := (sid, pc')])" "pc_session p = Some n" for s p n
  proof (cases "(s, p) = (sid, pc')")
    case True
    then show ?thesis using o(1) [OF call_in [OF assms(2,3)]] that(2) assms(4) by simp
  next
    case False
    then have "(s, p) \<in> set cs" using that(1) g(1) by blast
    then show ?thesis using o(1) that(2) by blast
  qed
  show "\<exists>s p. (s, p) \<in> set (cs[i := (sid, pc')]) \<and> pc_session p = Some n" if "n < length ids" for n
  proof -
    obtain s p where c: "(s, p) \<in> set cs" "pc_session p = Some n" using o(2) \<open>n < length ids\<close> by blast
    show ?thesis
    proof (cases "(s, p) = (sid, pc)")
      case True
      then show ?thesis using g(2) c(2) assms(4) by (intro exI [of _ sid] exI [of _ pc']) simp
    next
      case False
      then show ?thesis using g(3) c by blast
    qed
  qed
qed (rule ownedD(3) [OF assms(1)])

lemma tracked_pc: "tracked ids cs m dead \<Longrightarrow> i < length cs \<Longrightarrow> cs ! i = (sid, pc) \<Longrightarrow> \<forall>n. pc \<noteq> CreateThrew n \<Longrightarrow>
   tracked ids (cs[i := x]) m dead"
  unfolding tracked_def using call_goes(3) [where i = i and cs = cs and sid = sid and pc = pc and x = x] by fastforce

lemma owned_register:
  assumes "owned ids cs m" "i < length cs" "cs ! i = (sid, pc)" "pc_session pc = None"
  shows "owned (ids @ [sid]) (cs[i := (sid, CreateStarting (length ids))]) (jput sid (length ids) m)"
proof (rule ownedI)
  let ?x = "(sid, CreateStarting (length ids))"
  note o = ownedD [OF assms(1)] and g = call_goes [OF assms(2,3), where x = ?x]
  show "\<exists>s p. (s, p) \<in> set (cs[i := ?x]) \<and> pc_session p = Some n" if nlt: "n < length (ids @ [sid])" for n
  proof (cases "n = length ids")
    case True
    then show ?thesis using g(2) by (intro exI [of _ sid] exI [of _ "CreateStarting (length ids)"]) simp
  next
    case False
    then obtain s p where c: "(s, p) \<in> set cs" "pc_session p = Some n" using o(2) [of n] nlt by auto
    then have "(s, p) \<noteq> (sid, pc)" using assms(4) by auto
    then show ?thesis using g(3) c by blast
  qed
  show "n < length (ids @ [sid]) \<and> (ids @ [sid]) ! n = s" if "(s, p) \<in> set (cs[i := ?x])" "pc_session p = Some n" for s p n
  proof (cases "(s, p) = ?x")
    case True
    then show ?thesis using that(2) by (auto simp: nth_append)
  next
    case False
    then have "(s, p) \<in> set cs" using that(1) g(1) by blast
    from o(1) [OF this that(2)] show ?thesis by (simp add: nth_append)
  qed
  show "n < length (ids @ [sid]) \<and> (ids @ [sid]) ! n = s" if "jget (jput sid (length ids) m) s = Some n" for s n
    using that o(3) [of s n] by (auto simp: nth_append split: if_splits)
qed

lemma tracked_register:
  assumes "tracked ids cs m dead" "sid \<notin> set ids" "i < length cs" "cs ! i = (sid, pc)" "pc_session pc = None"
  shows "tracked (ids @ [sid]) (cs[i := (sid, CreateStarting (length ids))]) (jput sid (length ids) m) dead"
  unfolding tracked_def
proof (intro allI impI)
  let ?x = "(sid, CreateStarting (length ids))"
  note g = call_goes [OF assms(3,4), where x = ?x]
  fix n
  assume n: "n < length (ids @ [sid])"
  have t: "CreateThrew k \<in> snd ` set (cs[i := ?x])" if "CreateThrew k \<in> snd ` set cs" for k
    using that g(3) assms(5) by fastforce
  show "jget (jput sid (length ids) m) ((ids @ [sid]) ! n) = Some n \<or> n \<in> dead \<or> CreateThrew n \<in> snd ` set (cs[i := ?x])"
  proof (cases "n < length ids")
    case True
    then have "ids ! n \<noteq> sid" using assms(2) nth_mem by blast
    then show ?thesis using assms(1) True t unfolding tracked_def by (auto simp: nth_append)
  next
    case False
    then show ?thesis using n by (simp add: nth_append less_Suc_eq)
  qed
qed

lemma tracked_destroy:
  assumes "tracked ids cs m dead" "jget m sid = Some n" "owned ids cs m" "distinct ids"
  shows "tracked ids cs (jdel sid m) (insert n dead)"
proof -
  have "n < length ids" "ids ! n = sid" using assms(2,3) unfolding owned_def by blast+
  then have "k = n" if "k < length ids" "ids ! k = sid" for k
    using that assms(4) by (metis nth_eq_iff_index_eq)
  then show ?thesis using assms(1) unfolding tracked_def by auto
qed

lemma tracked_threw:
  assumes "tracked ids cs m dead" "i < length cs" "cs ! i = (sid, CreateStarting n)" "owned ids cs m" "distinct ids"
  shows "tracked ids (cs[i := (sid, CreateThrew n)]) (jdel sid m) dead"
proof -
  let ?x = "(sid, CreateThrew n)"
  note g = call_goes [OF assms(2,3), where x = ?x]
  have n: "n < length ids" "ids ! n = sid" using assms(4) call_in [OF assms(2,3)] unfolding owned_def by force+
  then have k: "k = n" if "k < length ids" "ids ! k = sid" for k using that assms(5) by (metis nth_eq_iff_index_eq)
  have "CreateThrew k \<in> snd ` set (cs[i := ?x])" if kn: "k = n \<or> CreateThrew k \<in> snd ` set cs" for k
  proof (cases "k = n")
    case True
    then show ?thesis using g(2) by force
  next
    case False
    then obtain s where s: "(s, CreateThrew k) \<in> set cs" using kn by auto
    then have "(s, CreateThrew k) \<in> set (cs[i := ?x])" by (rule g(3)) simp
    then show ?thesis by force
  qed
  note t = this
  show ?thesis
    unfolding tracked_def
  proof (intro allI impI)
    fix j
    assume j: "j < length ids"
    then have "jget m (ids ! j) = Some j \<or> j \<in> dead \<or> CreateThrew j \<in> snd ` set cs"
      using assms(1) unfolding tracked_def by blast
    then show "jget (jdel sid m) (ids ! j) = Some j \<or> j \<in> dead \<or> CreateThrew j \<in> snd ` set (cs[i := ?x])"
      using t [of j] k [OF j] by (cases "j = n") auto
  qed
qed

definition managed :: "manager \<Rightarrow> bool" where
  "managed m \<longleftrightarrow> owned (object_ids m) (calls m) (mn_sessions m) \<and>
     (distinct (map fst (calls m)) \<longrightarrow> tracked (object_ids m) (calls m) (mn_sessions m) (destroyed m)) \<and>
     (\<forall>s \<in> set (mn_objects m). \<exists>cfg. session_reach cfg s) \<and>
     (\<forall>n. CreateThrew n \<in> snd ` set (calls m) \<longrightarrow> (\<exists>e. ss_start (mn_objects m ! n) = StartThrew e))"

lemma managedD:
  assumes "managed m"
  shows "owned (object_ids m) (calls m) (mn_sessions m)"
    "distinct (map fst (calls m)) \<Longrightarrow> tracked (object_ids m) (calls m) (mn_sessions m) (destroyed m)"
    "n < length (mn_objects m) \<Longrightarrow> \<exists>cfg. session_reach cfg (mn_objects m ! n)"
    "CreateThrew n \<in> snd ` set (calls m) \<Longrightarrow> \<exists>e. ss_start (mn_objects m ! n) = StartThrew e"
  using assms unfolding managed_def by auto

lemma calls_goes: "i < length (mn_creates m) \<Longrightarrow> calls (create_goes i pc m) = (calls m)[i := (fst (calls m ! i), pc)]"
  by (simp add: calls_def create_goes_def map_update)

lemma calls_ids: "i < length cs \<Longrightarrow> map fst (cs[i := (fst (cs ! i), pc)]) = map fst cs"
  by (simp add: map_update) (metis list_update_id nth_map)

lemma goes_fields [simp]: "mn_objects (create_goes i pc m) = mn_objects m" "mn_sessions (create_goes i pc m) = mn_sessions m"
  "mn_destroys (create_goes i pc m) = mn_destroys m" "object_ids (create_goes i pc m) = object_ids m"
  "destroyed (create_goes i pc m) = destroyed m"
  by (simp_all add: create_goes_def object_ids_def destroyed_def)

lemma threw_update:
  assumes "CreateThrew n \<in> snd ` set (cs[i := (s, pc)])" "pc \<noteq> CreateThrew n"
  shows "CreateThrew n \<in> snd ` set cs"
proof -
  obtain t where "(t, CreateThrew n) \<in> set (cs[i := (s, pc)])" using assms(1) by auto
  then have "(t, CreateThrew n) \<in> set cs" using set_update_subset_insert [of cs i "(s, pc)"] assms(2) by auto
  then show ?thesis by force
qed

lemma managed_goes:
  assumes "managed m" "i < length (mn_creates m)" "pc_session pc = pc_session (ce_pc (mn_creates m ! i))"
    "\<forall>n. pc \<noteq> CreateThrew n" "\<forall>n. ce_pc (mn_creates m ! i) \<noteq> CreateThrew n"
  shows "managed (create_goes i pc m)"
proof -
  have l: "i < length (calls m)" "calls m ! i = (fst (calls m ! i), ce_pc (mn_creates m ! i))"
    using assms(2) by (simp_all add: calls_def)
  show ?thesis
    unfolding managed_def goes_fields calls_goes [OF assms(2)] calls_ids [OF l(1)]
    using owned_pc [OF managedD(1) [OF assms(1)] l assms(3)] tracked_pc [OF managedD(2) [OF assms(1)] l assms(5)]
      managedD(3) [OF assms(1)] managedD(4) [OF assms(1)] threw_update [of _ "calls m" i] assms(4)
    by (metis in_set_conv_nth)
qed

text \<open>A session of the manager makes a step of its own, or is stopped.\<close>

lemma managed_object:
  assumes "managed m" "n < length (mn_objects m)" "session_allowed e (mn_objects m ! n)"
  shows "managed (m\<lparr>mn_objects := (mn_objects m)[n := session_step e (mn_objects m ! n)]\<rparr>)"
proof -
  let ?s = "session_step e (mn_objects m ! n)"
  let ?m = "m\<lparr>mn_objects := (mn_objects m)[n := ?s]\<rparr>"
  have "session_id ?s = session_id (mn_objects m ! n)" by (simp add: session_id_def config_step)
  then have f: "object_ids ?m = object_ids m" "calls ?m = calls m" "destroyed ?m = destroyed m"
    by (simp_all add: object_ids_def calls_def destroyed_def map_update) (metis list_update_id nth_map assms(2))
  obtain cfg where "session_reach cfg (mn_objects m ! n)" using managedD(3) [OF assms(1,2)] by blast
  then have r: "session_reach cfg ?s" using assms(3) by (rule reach.step)
  have "\<exists>cfg. session_reach cfg s" if "s \<in> set ((mn_objects m)[n := ?s])" for s
    using that set_update_subset_insert [of "mn_objects m" n ?s] r assms(1) unfolding managed_def by blast
  moreover have "\<exists>x. ss_start ((mn_objects m)[n := ?s] ! k) = StartThrew x" if kt: "CreateThrew k \<in> snd ` set (calls m)" for k
  proof -
    obtain x where x: "ss_start (mn_objects m ! k) = StartThrew x" using managedD(4) [OF assms(1) kt] by blast
    then show ?thesis using threw_step [OF _ assms(3)] assms(2) by (cases "k = n") auto
  qed
  ultimately show ?thesis
    using managedD(1,2) [OF assms(1)] unfolding managed_def f by simp
qed

lemma stop_is_step: "session_step StopCalled s = stop s" "session_allowed StopCalled s"
  by simp_all

lemma managed_destroy:
  assumes "managed m"
  shows "managed (destroy sid m)"
proof (cases "jget (mn_sessions m) sid")
  case None
  then show ?thesis using assms by (simp add: destroy_def)
next
  case (Some n)
  have n: "n < length (mn_objects m)" using ownedD(3) [OF managedD(1) [OF assms] Some] by (simp add: object_ids_def)
  let ?m = "m\<lparr>mn_objects := (mn_objects m)[n := stop (mn_objects m ! n)]\<rparr>"
  have m: "managed ?m" using managed_object [OF assms n stop_is_step(2)] by simp
  have e: "object_ids (destroy sid m) = object_ids ?m" "calls (destroy sid m) = calls ?m"
    "mn_sessions (destroy sid m) = jdel sid (mn_sessions ?m)" "destroyed (destroy sid m) = insert n (destroyed ?m)"
    "mn_objects (destroy sid m) = mn_objects ?m"
    by (simp_all add: destroy_def Some object_ids_def calls_def destroyed_def)
  have g: "jget (mn_sessions ?m) sid = Some n" using Some by simp
  show ?thesis
    unfolding managed_def e
    using owned_jdel [OF managedD(1) [OF m]] tracked_destroy [OF managedD(2) [OF m] g managedD(1) [OF m]]
      owned_distinct [OF managedD(1) [OF m]] m unfolding managed_def by blast
qed

lemma managed_register:
  assumes "managed m" "i < length (mn_creates m)" "ce_pc (mn_creates m ! i) = CreateChecking"
  shows "managed (create_registers pf i port m)"
proof -
  let ?sid = "ce_id (mn_creates m ! i)" and ?n = "length (mn_objects m)"
  let ?new = "new_session (session_config_of pf (mn_config m) (ce_options (mn_creates m ! i)) port ?sid)"
  let ?r = "create_registers pf i port m"
  have l: "i < length (calls m)" "calls m ! i = (?sid, CreateChecking)" using assms by (simp_all add: calls_def)
  have len: "length (object_ids m) = ?n" by (simp add: object_ids_def)
  have e: "object_ids ?r = object_ids m @ [?sid]" "calls ?r = (calls m)[i := (?sid, CreateStarting ?n)]"
    "mn_sessions ?r = jput ?sid ?n (mn_sessions m)" "destroyed ?r = destroyed m" "mn_objects ?r = mn_objects m @ [?new]"
    using assms(2) by (simp_all add: create_registers_def Let_def create_goes_def object_ids_def calls_def destroyed_def map_update
        session_id_def new_session_def session_config_of_def)
  have d: "map fst ((calls m)[i := (?sid, CreateStarting ?n)]) = map fst (calls m)"
    using calls_ids [OF l(1), of "CreateStarting ?n"] l(2) by simp
  have fresh: "?sid \<notin> set (object_ids m)" if "distinct (map fst (calls m))"
  proof
    assume "?sid \<in> set (object_ids m)"
    then obtain k where k: "k < length (object_ids m)" "object_ids m ! k = ?sid" by (metis in_set_conv_nth)
    obtain s p where c: "(s, p) \<in> set (calls m)" "pc_session p = Some k" using ownedD(2) [OF managedD(1) [OF assms(1)] k(1)] by blast
    then have "s = ?sid" using ownedD(1) [OF managedD(1) [OF assms(1)] c] k(2) by simp
    then have "p = CreateChecking" using that c(1) call_in [OF l] by (metis eq_key_imp_eq_value)
    then show False using c(2) by simp
  qed
  have t: "\<exists>x. ss_start ((mn_objects m @ [?new]) ! k) = StartThrew x"
    if "CreateThrew k \<in> snd ` set ((calls m)[i := (?sid, CreateStarting ?n)])" for k
  proof -
    have c: "CreateThrew k \<in> snd ` set (calls m)" by (rule threw_update [OF that]) simp
    then obtain s where "(s, CreateThrew k) \<in> set (calls m)" by auto
    then have "k < ?n" using ownedD(1) [OF managedD(1) [OF assms(1)], of s "CreateThrew k" k] len by simp
    then show ?thesis using managedD(4) [OF assms(1) c] by (simp add: nth_append)
  qed
  have "\<exists>cfg. session_reach cfg ?new" by (blast intro: reach.start)
  then show ?thesis
    unfolding managed_def e d
    using owned_register [OF managedD(1) [OF assms(1)] l] tracked_register [OF managedD(2) [OF assms(1)] fresh l] t assms(1)
    unfolding len managed_def by simp
qed

lemma managed_threw:
  assumes "managed m" "i < length (mn_creates m)" "ce_pc (mn_creates m ! i) = CreateStarting n"
    "ss_start (mn_objects m ! n) = StartThrew e"
  shows "managed (create_goes i (CreateThrew n) (m\<lparr>mn_sessions := jdel (ce_id (mn_creates m ! i)) (mn_sessions m)\<rparr>))"
proof -
  let ?sid = "ce_id (mn_creates m ! i)"
  let ?r = "create_goes i (CreateThrew n) (m\<lparr>mn_sessions := jdel ?sid (mn_sessions m)\<rparr>)"
  have l: "i < length (calls m)" "calls m ! i = (?sid, CreateStarting n)" using assms(2,3) by (simp_all add: calls_def)
  have eq: "object_ids ?r = object_ids m" "calls ?r = (calls m)[i := (?sid, CreateThrew n)]"
    "mn_sessions ?r = jdel ?sid (mn_sessions m)" "destroyed ?r = destroyed m" "mn_objects ?r = mn_objects m"
    using assms(2) by (simp_all add: calls_goes) (simp_all add: calls_def object_ids_def destroyed_def)
  have d: "map fst ((calls m)[i := (?sid, CreateThrew n)]) = map fst (calls m)"
    using calls_ids [OF l(1), of "CreateThrew n"] l(2) by simp
  note o = managedD(1) [OF assms(1)]
  have t: "\<exists>x. ss_start (mn_objects m ! k) = StartThrew x" if kt: "CreateThrew k \<in> snd ` set ((calls m)[i := (?sid, CreateThrew n)])" for k
  proof (cases "k = n")
    case True
    then show ?thesis using assms(4) by blast
  next
    case False
    then have "CreateThrew k \<in> snd ` set (calls m)" using threw_update [OF kt] by simp
    then show ?thesis by (rule managedD(4) [OF assms(1)])
  qed
  show ?thesis
    unfolding managed_def eq d
    using owned_jdel [OF owned_pc [OF o l, of "CreateThrew n"]]
      tracked_threw [OF managedD(2) [OF assms(1)] l o owned_distinct [OF o]] t assms(1)
    unfolding managed_def by simp
qed

lemma managed_reaps: "managed (m\<lparr>mn_reaps := r\<rparr>) = managed m"
  by (simp add: managed_def object_ids_def calls_def destroyed_def)

lemma managed_reap: "managed m \<Longrightarrow> managed (fst (reap_goes now ns m))"
  by (induction now ns m rule: reap_goes.induct) (auto simp: Let_def managed_destroy)

lemma managed_create: "managed m \<Longrightarrow> managed (create pf opts random m)"
proof -
  assume m: "managed m"
  let ?sid = "case op_id opts of None \<Rightarrow> randomId random | Some s \<Rightarrow> s"
  have s: "managed (m\<lparr>mn_creates := mn_creates m @ [\<lparr>ce_id = ?sid, ce_options = opts, ce_pc = pc\<rparr>]\<rparr>)" (is "managed (?m pc)")
    if "pc_session pc = None" for pc
  proof -
    have e: "object_ids (?m pc) = object_ids m" "calls (?m pc) = calls m @ [(?sid, pc)]" "destroyed (?m pc) = destroyed m"
      by (simp_all add: object_ids_def calls_def destroyed_def)
    have "\<forall>n. pc \<noteq> CreateThrew n" using that by auto
    then show ?thesis
      using owned_snoc [OF managedD(1) [OF m] that] tracked_snoc [OF managedD(2) [OF m]] m
      unfolding managed_def e by auto
  qed
  have "managed (create_registers pf (length (mn_creates m)) 0 (?m CreateChecking))"
    by (rule managed_register) (use s in simp_all)
  then show ?thesis using s by (simp add: create_def Let_def)
qed

lemma managed_step:
  assumes "managed m" "manager_allowed e m"
  shows "managed (manager_step pf e m)"
proof (cases e)
  case (CreateChecked i port)
  then show ?thesis using assms by (auto simp: create_checked_def managed_register managed_goes split: option.split)
next
  case (CreateEnds i)
  then show ?thesis using assms
    by (auto simp: create_ends_def managed_threw managed_goes split: create_pc.split start_pc.split)
next
  case DestroyAllCalled
  have "managed k \<Longrightarrow> managed (fold destroy sids k)" for sids k
    by (induction sids arbitrary: k) (simp_all add: managed_destroy)
  then show ?thesis using assms DestroyAllCalled by (simp add: destroyAll_def)
next
  case (ReapCalled now)
  obtain m' c where "reap_goes now (jvalues (mn_sessions m)) m = (m', c)" by force
  then show ?thesis using assms ReapCalled managed_reap [of m now "jvalues (mn_sessions m)"]
    by (simp add: reapIdle_def managed_reaps)
next
  case (ReapResumes j)
  obtain m' c where "reap_goes (rp_now (mn_reaps m ! j)) (rp_rest (mn_reaps m ! j)) m = (m', c)" by force
  then show ?thesis using assms ReapResumes managed_reap [of m "rp_now (mn_reaps m ! j)" "rp_rest (mn_reaps m ! j)"]
    by (simp add: reap_resumes_def managed_reaps)
qed (use assms in \<open>simp_all add: managed_create managed_destroy managed_object\<close>)

lemma new_managed: "managed (new_manager cfg)"
  by (simp add: managed_def new_manager_def owned_def tracked_def object_ids_def calls_def)

lemma manager_managed: "manager_reach pf cfg m \<Longrightarrow> managed m"
  by (erule reach_invariant) (auto intro: managed_step new_managed)

text \<open>
  C20: who answers for a KiCad process. As long as no two calls of \<open>create\<close> have used the same id, every session
  whose process lives is the one the manager has under its id, or one whose \<open>destroy\<close> was called; and the
  map never has a session under a name that is not its own.
\<close>

theorem live_sessions_owned:
  assumes "manager_reach pf cfg m" "distinct (map ce_id (mn_creates m))"
  shows "list_all (\<lambda>n. if ss_process (mn_objects m ! n) = Alive
       then jget (mn_sessions m) (session_id (mn_objects m ! n)) = Some n \<or> n \<in> dy_session ` set (mn_destroys m) else True)
     [0..<length (mn_objects m)] \<and>
   list_all (\<lambda>sid. case jget (mn_sessions m) sid of None \<Rightarrow> False
       | Some n \<Rightarrow> n < length (mn_objects m) \<and> session_id (mn_objects m ! n) = sid) (jkeys (mn_sessions m))"
proof -
  note m = manager_managed [OF assms(1)]
  have "map fst (calls m) = map ce_id (mn_creates m)" by (simp add: calls_def)
  then have t: "tracked (object_ids m) (calls m) (mn_sessions m) (destroyed m)" using managedD(2) [OF m] assms(2) by simp
  have "jget (mn_sessions m) (session_id (mn_objects m ! n)) = Some n \<or> n \<in> destroyed m"
    if n: "n < length (mn_objects m)" and a: "ss_process (mn_objects m ! n) = Alive" for n
  proof -
    obtain c where "session_reach c (mn_objects m ! n)" using managedD(3) [OF m n] by blast
    then have "life_ok (life (mn_objects m ! n))" by (rule session_life)
    then have "ss_start (mn_objects m ! n) \<noteq> StartThrew e" for e using a by (auto simp: life_def)
    then have "CreateThrew n \<notin> snd ` set (calls m)" using managedD(4) [OF m] by blast
    then show ?thesis using t n by (auto simp: tracked_def object_ids_def)
  qed
  moreover have "case jget (mn_sessions m) sid of None \<Rightarrow> False
       | Some n \<Rightarrow> n < length (mn_objects m) \<and> session_id (mn_objects m ! n) = sid" if "sid \<in> set (jkeys (mn_sessions m))" for sid
    using that ownedD(3) [OF managedD(1) [OF m], of sid] by (auto simp: jkeys_jget object_ids_def)
  ultimately show ?thesis by (auto simp: list_all_iff destroyed_def)
qed

section \<open>The reaper\<close>

definition in_range :: "manager \<Rightarrow> bool" where
  "in_range m \<longleftrightarrow> distinct (jkeys (mn_sessions m)) \<and> (\<forall>n \<in> set (jvalues (mn_sessions m)). n < length (mn_objects m)) \<and>
     (\<forall>r \<in> set (mn_reaps m). \<forall>n \<in> set (rp_rest r). n < length (mn_objects m))"

lemma jvalues_put_in: "set (jvalues (jput k v m)) \<subseteq> insert v (set (jvalues m))"
  by (induction k v m rule: jput.induct) (auto simp: jvalues_def)

lemma jvalues_del_in: "set (jvalues (jdel k m)) \<subseteq> set (jvalues m)"
  by (auto simp: jvalues_def jdel_def)

lemma range_destroy: "in_range m \<Longrightarrow> in_range (destroy sid m)"
  using jvalues_del_in [of sid "mn_sessions m"] by (auto simp: in_range_def destroy_def split: option.split)

lemma destroy_length [simp]: "length (mn_objects (destroy sid m)) = length (mn_objects m)" "mn_reaps (destroy sid m) = mn_reaps m"
  by (simp_all add: destroy_def split: option.split)

lemma range_reap:
  "in_range m \<Longrightarrow> \<forall>n \<in> set ns. n < length (mn_objects m) \<Longrightarrow> reap_goes now ns m = (m', r) \<Longrightarrow>
     in_range m' \<and> length (mn_objects m') = length (mn_objects m) \<and> (\<forall>n \<in> set (rp_rest r). n < length (mn_objects m)) \<and>
     mn_reaps m' = mn_reaps m"
  by (induction now ns m rule: reap_goes.induct) (auto simp: Let_def range_destroy split: if_splits)

lemma range_goes: "in_range (create_goes i pc m) = in_range m"
  by (simp add: in_range_def create_goes_def)

lemma range_register: "in_range m \<Longrightarrow> in_range (create_registers pf i port m)"
  using jvalues_put_in [of "ce_id (mn_creates m ! i)" "length (mn_objects m)" "mn_sessions m"]
  unfolding create_registers_def Let_def range_goes by (fastforce simp: in_range_def)

lemma range_step:
  assumes "in_range m" "manager_allowed e m"
  shows "in_range (manager_step pf e m)"
proof (cases e)
  case (CreateCalled opts random)
  have "in_range (m\<lparr>mn_creates := c\<rparr>)" for c using assms(1) by (simp add: in_range_def)
  then show ?thesis using assms(1) CreateCalled by (simp add: create_def Let_def range_register)
next
  case (CreateChecked i port)
  then show ?thesis using assms(1) by (simp add: create_checked_def range_goes range_register split: option.split)
next
  case (CreateEnds i)
  have "in_range (m\<lparr>mn_sessions := jdel s (mn_sessions m)\<rparr>)" for s
    using assms(1) jvalues_del_in [of s "mn_sessions m"] by (auto simp: in_range_def)
  then show ?thesis using assms(1) CreateEnds by (simp add: create_ends_def range_goes split: create_pc.split start_pc.split)
next
  case DestroyAllCalled
  have "in_range k \<Longrightarrow> in_range (fold destroy sids k)" for sids k
    by (induction sids arbitrary: k) (simp_all add: range_destroy)
  then show ?thesis using assms DestroyAllCalled by (simp add: destroyAll_def)
next
  case (ReapCalled now)
  obtain m' c where g: "reap_goes now (jvalues (mn_sessions m)) m = (m', c)" by force
  have "in_range (m'\<lparr>mn_reaps := mn_reaps m' @ [c]\<rparr>)"
    using range_reap [OF assms(1) _ g] assms(1) by (auto simp: in_range_def)
  then show ?thesis using assms(1) ReapCalled by (simp add: reapIdle_def g)
next
  case (ReapResumes j)
  obtain m' c where g: "reap_goes (rp_now (mn_reaps m ! j)) (rp_rest (mn_reaps m ! j)) m = (m', c)" by force
  have "mn_reaps m ! j \<in> set (mn_reaps m)" using assms(2) ReapResumes by simp
  then have "\<forall>n \<in> set (rp_rest (mn_reaps m ! j)). n < length (mn_objects m)" using assms(1) unfolding in_range_def by blast
  from range_reap [OF assms(1) this g] have "in_range (m'\<lparr>mn_reaps := (mn_reaps m')[j := c]\<rparr>)"
    using set_update_subset_insert [of "mn_reaps m" j c] by (fastforce simp: in_range_def)
  then show ?thesis using ReapResumes by (simp add: reap_resumes_def g)
qed (use assms in \<open>simp_all add: range_destroy, simp_all add: in_range_def\<close>)

lemma new_range: "in_range (new_manager cfg)"
  by (simp add: in_range_def new_manager_def jkeys_def jvalues_def)

lemma manager_range: "manager_reach pf cfg m \<Longrightarrow> in_range m"
  by (erule reach_invariant) (auto intro: range_step new_range)

lemma reap_spares:
  assumes "managed m" "distinct (map fst (calls m))" "\<forall>n \<in> set ns. n < length (mn_objects m)"
    "k < length (mn_objects m)" "mn_objects (fst (reap_goes now ns m)) ! k \<noteq> mn_objects m ! k"
  shows "reapable (mn_config m) now (mn_objects m ! k)"
  using assms
proof (induction now ns m rule: reap_goes.induct)
  case (2 now n ns m)
  show ?case
  proof (cases "reapable (mn_config m) now (mn_objects m ! n) \<and> jhas (mn_sessions m) (session_id (mn_objects m ! n))")
    case True
    then obtain j where j: "jget (mn_sessions m) (session_id (mn_objects m ! n)) = Some j" by (auto simp: jhas_def)
    have d: "distinct (object_ids m)" using owned_distinct [OF managedD(1)] 2(2,3) by blast
    have "j < length (object_ids m)" "object_ids m ! j = session_id (mn_objects m ! n)"
      using ownedD(3) [OF managedD(1) [OF 2(2)] j] by simp_all
    moreover have "n < length (object_ids m)" "object_ids m ! n = session_id (mn_objects m ! n)"
      using 2(4) by (simp_all add: object_ids_def)
    ultimately have "j = n" using d by (metis nth_eq_iff_index_eq)
    then have "mn_objects (fst (reap_goes now (n # ns) m)) = (mn_objects m)[n := stop (mn_objects m ! n)]"
      using True j by (simp add: Let_def destroy_def)
    then have "k = n" using 2(6) by (metis nth_list_update_neq)
    then show ?thesis using True by simp
  next
    case False
    then show ?thesis using 2 by (auto simp: Let_def)
  qed
qed simp


section \<open>Runs\<close>

definition demo_bridge :: bridge_config where
  "demo_bridge = \<lparr>bc_socketDir = ''/tmp/kicad'', bc_socketTransport = IpcSockets, bc_wsHostname = [], bc_kicadCli = ''kicad-cli'',
     bc_startTimeoutMs = 1000, bc_relayEvents = False, bc_sessionIdleTimeoutSec = 60\<rparr>"

definition demo_paths :: path_functions where
  "demo_paths = \<lparr>pf_join = (\<lambda>d f. d @ ''/'' @ f), pf_resolve = (\<lambda>p. p)\<rparr>"

definition named_session :: "string \<Rightarrow> create_options" where
  "named_session sid = \<lparr>op_path = Some ''b.kicad_pcb'', op_socket = None, op_id = Some sid\<rparr>"

definition started :: "nat \<Rightarrow> manager_event list" where
  "started n = map (SessionEvent n) [Prepared None, PollBegins, PollEnds SocketFound, TransportChanges Open, TransportReady None,
     PingAnswered (Inr ''t'')]"

definition demo_create :: "manager_event list" where
  "demo_create = [CreateCalled (named_session ''a'') [], CreateChecked 0 (Some 0)] @ started 0 @ [CreateEnds 0]"

definition demo_managed :: manager where "demo_managed = run (manager_step demo_paths) demo_create (new_manager demo_bridge)"

lemma demo_managed_reach: "manager_reach demo_paths demo_bridge demo_managed"
  unfolding demo_managed_def by (rule reach_run [OF reach.start]) code_simp

theorem live_sessions_owned_witness:
  "ss_process (mn_objects demo_managed ! 0) = Alive \<and> jget (mn_sessions demo_managed) ''a'' = Some 0"
proof -
  have f: "distinct (map ce_id (mn_creates demo_managed))" "length (mn_objects demo_managed) = 1"
    "ss_process (mn_objects demo_managed ! 0) = Alive" "session_id (mn_objects demo_managed ! 0) = ''a''" "mn_destroys demo_managed = []"
    by code_simp+
  show ?thesis using live_sessions_owned [OF demo_managed_reach f(1)] f by simp
qed


text \<open>
  Two calls of \<open>create\<close> with the same id that are both checking their files: both go on, and the first session
  runs with nobody to destroy it.
\<close>

definition twice_created :: "manager_event list" where
  "twice_created = [CreateCalled (named_session ''a'') [], CreateCalled (named_session ''a'') [], CreateChecked 0 (Some 0),
     CreateChecked 1 (Some 0)] @ started 0 @ [CreateEnds 0, DestroyAllCalled]"

lemma same_id_loses_session:
  "runs_allowed manager_allowed (manager_step demo_paths) twice_created (new_manager demo_bridge) \<and>
   (case run (manager_step demo_paths) twice_created (new_manager demo_bridge) of m \<Rightarrow>
     ss_process (mn_objects m ! 0) = Alive \<and> mn_sessions m = [] \<and> map dy_session (mn_destroys m) = [1])"
  by code_simp

text \<open>The names.\<close>

lemma random_id_valid: "length b = 6 \<Longrightarrow> valid_session_id (randomId b)"
proof -
  have h: "''0123456789abcdef'' ! k \<in> set id_chars" if "k < 16" for k
  proof -
    have "list_all (\<lambda>k. ''0123456789abcdef'' ! k \<in> set id_chars) [0..<16]" by code_simp
    then show ?thesis using that by (simp add: list_all_iff)
  qed
  have b: "set (hex_byte x) \<subseteq> set id_chars" for x :: byte
    using h [of "unat x div 16"] h [of "unat x mod 16"] unat_byte_lt [of x]
    by (simp add: hex_byte_def less_mult_imp_div_less)
  have "set (randomId b) \<subseteq> set id_chars" for b using b by (induction b) (auto simp: randomId_def)
  moreover have "length (randomId b) = 2 * length b" for b by (induction b) (auto simp: randomId_def hex_byte_def)
  ultimately show "length b = 6 \<Longrightarrow> valid_session_id (randomId b)" by (auto simp: valid_session_id_def list_all_iff)
qed

end
