(* ===== verification/WasmTransport.thy ===== *)
theory WasmTransport
  imports TransportTypes
begin

text \<open>
  \<open>WasmTransport\<close> and \<open>WasmSubscriber\<close> (\<open>packages/client/src/transport/wasm.ts\<close>): requests go to a
  module loaded into the same program, one call each. The module is a parameter: in process it is a
  function from its state and a request to an answer, the events it emits while it works, and its new
  state; in a worker its answers are events of the machine. The queue of microtasks is part of the
  state, since the order in which replies and events reach the caller is decided there. Listeners are
  taken not to call back before they return; logging and what becomes of \<open>shutdown()\<close> are left out.
\<close>

section \<open>State\<close>

text \<open>A value that is thrown, by what the code asks of it.\<close>

record thrown =
  th_transport :: "transport_error option"
  th_error :: bool
  th_name :: string
  th_runtime :: bool

definition isRuntimeAbort :: "thrown \<Rightarrow> bool" where
  "isRuntimeAbort e = (th_error e \<and> th_name e = ''KiCadWasmAbort'' \<or> th_runtime e)"

datatype 'm kicad_instance =
    InProcess "'m \<Rightarrow> bytes \<Rightarrow> (thrown + bytes) \<times> bytes list \<times> 'm"
  | InWorker

datatype wasm_task = PumpTask | FlushTask

record wasm_pending =
  w_tok :: nat
  w_payload :: bytes
  w_timeoutMs :: millis
  w_timer :: bool
  w_cancelled :: bool

text \<open>
  \<open>attached\<close> says that the callback of the constructor is registered with the module, \<open>in_worker\<close>
  are the requests a worker has not answered, \<open>micro\<close> the microtasks this transport has queued.
\<close>

record 'm wasm_transport =
  st_state :: transport_state
  queue :: "wasm_pending list"
  pumping :: bool
  dispatching :: bool
  eventBuffer :: "bytes list"
  lastError :: "transport_error option"
  attached :: bool
  micro :: "wasm_task list"
  in_worker :: "nat list"
  module_state :: 'm
  defaultTimeoutMs :: millis
  ownsInstance :: bool
  issued :: nat
  trace :: "effect list"

definition emit :: "effect list \<Rightarrow> 'm wasm_transport \<Rightarrow> 'm wasm_transport" where
  "emit es t = t\<lparr>trace := trace t @ es\<rparr>"

section \<open>Operations\<close>

definition newWasmTransport :: "'m \<Rightarrow> millis option \<Rightarrow> bool option \<Rightarrow> 'm wasm_transport" where
  "newWasmTransport m dflt owns =
     \<lparr>st_state = Open, queue = [], pumping = False, dispatching = False, eventBuffer = [],
      lastError = None, attached = True, micro = [], in_worker = [], module_state = m,
      defaultTimeoutMs = (case dflt of None \<Rightarrow> Ms 30000 | Some d \<Rightarrow> d),
      ownsInstance = (case owns of None \<Rightarrow> True | Some b \<Rightarrow> b), issued = 0, trace = []\<rparr>"

definition setState :: "transport_state \<Rightarrow> 'm wasm_transport \<Rightarrow> 'm wasm_transport" where
  "setState s t = (if st_state t = s then t else emit [Notify s] (t\<lparr>st_state := s\<rparr>))"

definition schedule :: "'m wasm_transport \<Rightarrow> 'm wasm_transport" where
  "schedule t = (if pumping t then t else t\<lparr>pumping := True, micro := micro t @ [PumpTask]\<rparr>)"

definition closed_error :: "'m wasm_transport \<Rightarrow> transport_error" where
  "closed_error t = (case lastError t of None \<Rightarrow> ClosedError | Some e \<Rightarrow> e)"

definition send :: "bytes \<Rightarrow> millis option \<Rightarrow> 'm wasm_transport \<Rightarrow> 'm wasm_transport" where
  "send request timeoutMs t =
     (let tok = issued t; t1 = t\<lparr>issued := issued t + 1\<rparr>;
          ms = (case timeoutMs of None \<Rightarrow> defaultTimeoutMs t | Some d \<Rightarrow> d)
      in if st_state t = ClosedState then emit [Reject tok (closed_error t)] t1
         else schedule (t1\<lparr>queue := queue t @
                [\<lparr>w_tok = tok, w_payload = request, w_timeoutMs = ms, w_timer = arms_timer ms,
                  w_cancelled = False\<rparr>]\<rparr>))"

text \<open>The callback of the timer of a request that still waits in the queue.\<close>

definition onTimeout :: "nat \<Rightarrow> 'm wasm_transport \<Rightarrow> 'm wasm_transport" where
  "onTimeout tok t =
     emit (map (\<lambda>p. Reject (w_tok p) TimeoutError) (filter (\<lambda>p. w_tok p = tok \<and> \<not> w_cancelled p) (queue t)))
       (t\<lparr>queue := map (\<lambda>p. if w_tok p = tok then p\<lparr>w_cancelled := True\<rparr> else p) (queue t)\<rparr>)"

definition failAll :: "transport_error \<Rightarrow> 'm wasm_transport \<Rightarrow> 'm wasm_transport" where
  "failAll err t =
     emit (map (\<lambda>p. Reject (w_tok p) err) (filter (\<lambda>p. \<not> w_cancelled p) (queue t))) (t\<lparr>queue := []\<rparr>)"

definition close :: "'m wasm_transport \<Rightarrow> 'm wasm_transport" where
  "close t =
     (if st_state t = ClosedState then t
      else let t1 = (failAll ClosedError (t\<lparr>lastError := Some ClosedError\<rparr>))\<lparr>attached := False, eventBuffer := []\<rparr>;
               t2 = setState ClosedState t1
           in if ownsInstance t2 then emit [EndSocket 0] t2 else t2)"

definition onModuleEvent :: "bytes \<Rightarrow> 'm wasm_transport \<Rightarrow> 'm wasm_transport" where
  "onModuleEvent b t =
     (if dispatching t then t\<lparr>eventBuffer := eventBuffer t @ [b]\<rparr> else emit [Deliver b] t)"

definition flushEvents :: "'m wasm_transport \<Rightarrow> 'm wasm_transport" where
  "flushEvents t =
     (if length (eventBuffer t) = 0 then t
      else emit (map Deliver (eventBuffer t)) (t\<lparr>eventBuffer := []\<rparr>))"

definition afterDispatch :: "'m wasm_transport \<Rightarrow> 'm wasm_transport" where
  "afterDispatch t = t\<lparr>micro := micro t @ [FlushTask]\<rparr>"

text \<open>The microtask that \<open>afterDispatch\<close> queues.\<close>

definition flush_task :: "'m wasm_transport \<Rightarrow> 'm wasm_transport" where
  "flush_task t = (let t1 = flushEvents t in if length (queue t1) > 0 then schedule t1 else t1)"

definition dispatch_error :: "thrown \<Rightarrow> transport_error" where
  "dispatch_error e = (case th_transport e of Some err \<Rightarrow> err | None \<Rightarrow> ProtocolError)"

definition failDispatch :: "nat \<Rightarrow> thrown \<Rightarrow> 'm wasm_transport \<Rightarrow> 'm wasm_transport" where
  "failDispatch tok e t =
     (let t1 = emit [Reject tok (dispatch_error e)] t
      in if isRuntimeAbort e then close t1 else afterDispatch t1)"

text \<open>How a dispatch ends: the same for an answer of the module and for one of a worker.\<close>

definition dispatched :: "nat \<Rightarrow> thrown + bytes \<Rightarrow> 'm wasm_transport \<Rightarrow> 'm wasm_transport" where
  "dispatched tok r t =
     (let t1 = t\<lparr>dispatching := False\<rparr> in
      case r of Inl e \<Rightarrow> failDispatch tok e t1
        | Inr reply \<Rightarrow> afterDispatch (emit [Resolve tok reply] t1))"

definition pump :: "'m kicad_instance \<Rightarrow> 'm wasm_transport \<Rightarrow> 'm wasm_transport" where
  "pump inst t =
     (if st_state t = ClosedState then t
      else case dropWhile w_cancelled (queue t) of
          [] \<Rightarrow> t\<lparr>queue := []\<rparr>
        | p # q \<Rightarrow>
            let t1 = emit [Wire (w_tok p) (w_payload p)] (t\<lparr>queue := q, dispatching := True\<rparr>)
            in case inst of
                 InWorker \<Rightarrow> t1\<lparr>in_worker := in_worker t @ [w_tok p]\<rparr>
               | InProcess dispatch \<Rightarrow>
                   (case dispatch (module_state t) (w_payload p) of (r, events, m) \<Rightarrow>
                      dispatched (w_tok p) r (fold onModuleEvent events (t1\<lparr>module_state := m\<rparr>))))"

section \<open>The machine\<close>

datatype wasm_event =
    Send bytes "millis option"
  | Close
  | Microtask
  | Timeout nat
  | ModuleEvent bytes
  | WorkerAnswers nat "thrown + bytes"

fun wasm_step :: "'m kicad_instance \<Rightarrow> wasm_event \<Rightarrow> 'm wasm_transport \<Rightarrow> 'm wasm_transport" where
  "wasm_step inst (Send r m) t = send r m t"
| "wasm_step inst Close t = close t"
| "wasm_step inst Microtask t =
     (case micro t of
        [] \<Rightarrow> t
      | PumpTask # ts \<Rightarrow> pump inst (t\<lparr>micro := ts, pumping := False\<rparr>)
      | FlushTask # ts \<Rightarrow> flush_task (t\<lparr>micro := ts\<rparr>))"
| "wasm_step inst (Timeout k) t = onTimeout k t"
| "wasm_step inst (ModuleEvent b) t = onModuleEvent b t"
| "wasm_step inst (WorkerAnswers k r) t = dispatched k r (t\<lparr>in_worker := remove1 k (in_worker t)\<rparr>)"

text \<open>
  What the runtime can deliver: a microtask that is queued, a timer once the microtasks have run, an
  event while the callback is registered, an answer to a request a worker has.
\<close>

fun wasm_allowed :: "wasm_event \<Rightarrow> 'm wasm_transport \<Rightarrow> bool" where
  "wasm_allowed Microtask t = (micro t \<noteq> [])"
| "wasm_allowed (Timeout k) t =
     (micro t = [] \<and> (\<exists>p \<in> set (queue t). w_tok p = k \<and> w_timer p \<and> \<not> w_cancelled p))"
| "wasm_allowed (ModuleEvent b) t = attached t"
| "wasm_allowed (WorkerAnswers k r) t = (k \<in> set (in_worker t))"
| "wasm_allowed _ t = True"

text \<open>A module in process emits events only while it works on a request.\<close>

fun module_quiet :: "wasm_event \<Rightarrow> bool" where
  "module_quiet (ModuleEvent b) = False"
| "module_quiet _ = True"

lemmas wasm_ops [handler_defs] = emit_def setState_def schedule_def send_def onTimeout_def failAll_def
  close_def onModuleEvent_def flushEvents_def afterDispatch_def flush_task_def failDispatch_def
  dispatched_def

section \<open>Promises\<close>

definition waiting :: "'m wasm_transport \<Rightarrow> nat list" where
  "waiting t = in_worker t @ map w_tok (filter (\<lambda>p. \<not> w_cancelled p) (queue t))"

definition books :: "'m wasm_transport \<Rightarrow> bool" where
  "books t \<longleftrightarrow> accounted (issued t) (waiting t) (settled_by (trace t))"

lemmas books_simps = books_def accounted_def waiting_def

lemma no_effects_Delivers [simp]:
  "settled_by (map Deliver bs) = []" "wires_by (map Deliver bs) = []"
  by (induction bs) auto

lemma onModuleEvent_fields [simp]:
  "issued (onModuleEvent b t) = issued t" "queue (onModuleEvent b t) = queue t"
  "in_worker (onModuleEvent b t) = in_worker t" "st_state (onModuleEvent b t) = st_state t"
  "pumping (onModuleEvent b t) = pumping t" "micro (onModuleEvent b t) = micro t"
  "attached (onModuleEvent b t) = attached t" "dispatching (onModuleEvent b t) = dispatching t"
  "settled_by (trace (onModuleEvent b t)) = settled_by (trace t)"
  "wires_by (trace (onModuleEvent b t)) = wires_by (trace t)"
  by (simp_all add: onModuleEvent_def emit_def)

text \<open>Events of the module during a dispatch only reach the buffer.\<close>

lemma buffered [simp]:
  "dispatching t \<Longrightarrow> fold onModuleEvent bs t = t\<lparr>eventBuffer := eventBuffer t @ bs\<rparr>"
  by (induction bs arbitrary: t) (simp_all add: onModuleEvent_def)

lemma flushEvents_fields [simp]:
  "issued (flushEvents t) = issued t" "queue (flushEvents t) = queue t"
  "in_worker (flushEvents t) = in_worker t" "st_state (flushEvents t) = st_state t"
  "pumping (flushEvents t) = pumping t" "micro (flushEvents t) = micro t"
  "attached (flushEvents t) = attached t" "dispatching (flushEvents t) = dispatching t"
  "eventBuffer (flushEvents t) = []" "module_state (flushEvents t) = module_state t"
  "trace (flushEvents t) = trace t @ map Deliver (eventBuffer t)"
  by (simp_all add: flushEvents_def emit_def)

lemma schedule_fields [simp]:
  "issued (schedule t) = issued t" "queue (schedule t) = queue t"
  "in_worker (schedule t) = in_worker t" "st_state (schedule t) = st_state t"
  "attached (schedule t) = attached t" "dispatching (schedule t) = dispatching t"
  "eventBuffer (schedule t) = eventBuffer t" "module_state (schedule t) = module_state t"
  "trace (schedule t) = trace t" "pumping (schedule t)"
  "micro (schedule t) = (if pumping t then micro t else micro t @ [PumpTask])"
  by (simp_all add: schedule_def)

lemma flush_task_fields [simp]:
  "issued (flush_task t) = issued t" "queue (flush_task t) = queue t"
  "in_worker (flush_task t) = in_worker t" "st_state (flush_task t) = st_state t"
  "attached (flush_task t) = attached t" "dispatching (flush_task t) = dispatching t"
  "eventBuffer (flush_task t) = []" "module_state (flush_task t) = module_state t"
  "trace (flush_task t) = trace t @ map Deliver (eventBuffer t)"
  by (simp_all add: flush_task_def Let_def)

lemma settled_rejects [simp]: "settled_by (map (\<lambda>p. Reject (w_tok p) e) ps) = map w_tok ps"
  by (induction ps) auto

lemma failAll_fields [simp]:
  "issued (failAll e t) = issued t" "queue (failAll e t) = []" "in_worker (failAll e t) = in_worker t"
  "st_state (failAll e t) = st_state t" "pumping (failAll e t) = pumping t"
  "micro (failAll e t) = micro t" "dispatching (failAll e t) = dispatching t"
  "module_state (failAll e t) = module_state t" "ownsInstance (failAll e t) = ownsInstance t"
  "trace (failAll e t) = trace t @ map (\<lambda>p. Reject (w_tok p) e) (filter (\<lambda>p. \<not> w_cancelled p) (queue t))"
  by (simp_all add: failAll_def emit_def)

lemma setState_fields [simp]:
  "issued (setState s t) = issued t" "queue (setState s t) = queue t"
  "in_worker (setState s t) = in_worker t" "st_state (setState s t) = s"
  "pumping (setState s t) = pumping t" "micro (setState s t) = micro t"
  "attached (setState s t) = attached t" "dispatching (setState s t) = dispatching t"
  "eventBuffer (setState s t) = eventBuffer t" "module_state (setState s t) = module_state t"
  "ownsInstance (setState s t) = ownsInstance t"
  "trace (setState s t) = trace t @ (if st_state t = s then [] else [Notify s])"
  by (simp_all add: setState_def emit_def)

lemma close_fields [simp]:
  "issued (close t) = issued t" "in_worker (close t) = in_worker t"
  "st_state (close t) = ClosedState" "pumping (close t) = pumping t" "micro (close t) = micro t"
  "dispatching (close t) = dispatching t" "module_state (close t) = module_state t"
  "st_state t \<noteq> ClosedState \<Longrightarrow> queue (close t) = []"
  "st_state t \<noteq> ClosedState \<Longrightarrow> eventBuffer (close t) = []"
  "st_state t \<noteq> ClosedState \<Longrightarrow> \<not> attached (close t)"
  "st_state t \<noteq> ClosedState \<Longrightarrow> trace (close t) = trace t
     @ map (\<lambda>p. Reject (w_tok p) ClosedError) (filter (\<lambda>p. \<not> w_cancelled p) (queue t))
     @ Notify ClosedState # (if ownsInstance t then [EndSocket 0] else [])"
  by (simp_all add: close_def Let_def emit_def)

lemma close_closed [simp]: "st_state t = ClosedState \<Longrightarrow> close t = t"
  by (simp add: close_def)

lemma books_close [simp]: "books (close t) = books t"
  by (cases "st_state t = ClosedState") (simp_all add: books_simps ac_simps)

lemma dispatched_settles:
  "settled_by (trace (dispatched k r t)) = settled_by (trace t) @ k #
     (case r of Inl e \<Rightarrow> if isRuntimeAbort e \<and> st_state t \<noteq> ClosedState
                        then map w_tok (filter (\<lambda>p. \<not> w_cancelled p) (queue t)) else [] | Inr b \<Rightarrow> [])"
  by (cases "st_state t = ClosedState")
     (simp_all add: dispatched_def failDispatch_def afterDispatch_def emit_def Let_def split: sum.split)

lemma dispatched_fields [simp]:
  "issued (dispatched k r t) = issued t" "in_worker (dispatched k r t) = in_worker t"
  "pumping (dispatched k r t) = pumping t" "\<not> dispatching (dispatched k r t)"
  "module_state (dispatched k r t) = module_state t"
  by (simp_all add: dispatched_def failDispatch_def afterDispatch_def emit_def Let_def split: sum.split)

lemma dispatched_closed:
  "st_state t = ClosedState \<Longrightarrow> st_state (dispatched k r t) = ClosedState \<and> queue (dispatched k r t) = queue t"
  by (simp add: dispatched_def failDispatch_def afterDispatch_def emit_def Let_def split: sum.split)

lemma dispatched_queue:
  "queue (dispatched k r t) = (case r of Inl e \<Rightarrow> if isRuntimeAbort e \<and> st_state t \<noteq> ClosedState
                        then [] else queue t | Inr b \<Rightarrow> queue t)"
  by (cases "st_state t = ClosedState")
     (simp_all add: dispatched_def failDispatch_def afterDispatch_def emit_def Let_def split: sum.split)

text \<open>A dispatch settles the promise of its request, and with an abort those that still wait.\<close>

lemma books_dispatched:
  assumes "accounted (issued t) (k # waiting t) (settled_by (trace t))"
  shows "books (dispatched k r t)"
proof -
  have "mset (waiting (dispatched k r t)) + mset (settled_by (trace (dispatched k r t)))
      = mset (k # waiting t) + mset (settled_by (trace t))"
    unfolding waiting_def dispatched_settles dispatched_queue dispatched_fields
    by (cases r) (simp_all add: mset_append)
  then show ?thesis unfolding books_def dispatched_fields by (rule accounted_perm [OF assms])
qed

lemma waiting_taken:
  "dropWhile w_cancelled q = p # ps \<Longrightarrow>
   map w_tok (filter (\<lambda>p. \<not> w_cancelled p) q) = w_tok p # map w_tok (filter (\<lambda>p. \<not> w_cancelled p) ps)"
  by (induction q) (auto split: if_splits)

lemma waiting_none: "dropWhile w_cancelled q = [] \<Longrightarrow> filter (\<lambda>p. \<not> w_cancelled p) q = []"
  by (induction q) (auto split: if_splits)

text \<open>The three ways a turn of the pump goes on an open transport.\<close>

lemma pump_closed: "st_state t = ClosedState \<Longrightarrow> pump inst t = t"
  by (simp add: pump_def)

lemma pump_none: "st_state t \<noteq> ClosedState \<Longrightarrow> dropWhile w_cancelled (queue t) = [] \<Longrightarrow> pump inst t = t\<lparr>queue := []\<rparr>"
  by (simp only: pump_def) simp

lemma pump_worker:
  "st_state t \<noteq> ClosedState \<Longrightarrow> dropWhile w_cancelled (queue t) = p # q \<Longrightarrow>
   pump InWorker t = (emit [Wire (w_tok p) (w_payload p)] (t\<lparr>queue := q, dispatching := True\<rparr>))
     \<lparr>in_worker := in_worker t @ [w_tok p]\<rparr>"
  by (simp add: pump_def Let_def)

lemma pump_process:
  "st_state t \<noteq> ClosedState \<Longrightarrow> dropWhile w_cancelled (queue t) = p # q \<Longrightarrow>
   d (module_state t) (w_payload p) = (r, es, m) \<Longrightarrow>
   pump (InProcess d) t = dispatched (w_tok p) r (t\<lparr>queue := q, dispatching := True,
     trace := trace t @ [Wire (w_tok p) (w_payload p)], module_state := m,
     eventBuffer := eventBuffer t @ es\<rparr>)"
  by (simp add: pump_def Let_def emit_def)

lemma wasm_pump_cases:
  fixes t :: "'m wasm_transport" and inst :: "'m kicad_instance"
  obtains (closed) "st_state t = ClosedState"
  | (none) "st_state t \<noteq> ClosedState" "dropWhile w_cancelled (queue t) = []"
  | (worker) p q where "st_state t \<noteq> ClosedState" "dropWhile w_cancelled (queue t) = p # q" "inst = InWorker"
  | (process) p q d r es m where "st_state t \<noteq> ClosedState" "dropWhile w_cancelled (queue t) = p # q"
      "inst = InProcess d" "d (module_state t) (w_payload p) = (r, es, m)"
proof (cases "dropWhile w_cancelled (queue t)")
  case (Cons p q)
  show ?thesis
  proof (cases inst)
    case (InProcess d)
    then show ?thesis using Cons closed process by (cases "d (module_state t) (w_payload p)") blast
  qed (use Cons closed worker in blast)
qed (use closed none in blast)

lemma wasm_books_pump [simp]:
  assumes "books t" shows "books (pump inst t)"
proof (cases rule: wasm_pump_cases [where t = t and inst = inst])
  case none
  then show ?thesis using assms
    by (simp del: dropWhile_eq_Nil_conv add: pump_none books_simps waiting_none)
next
  case (worker p q)
  then show ?thesis using assms by (simp add: pump_worker books_simps waiting_taken emit_def)
next
  case (process p q d r es m)
  have "books (dispatched (w_tok p) r (t\<lparr>queue := q, dispatching := True,
     trace := trace t @ [Wire (w_tok p) (w_payload p)], module_state := m, eventBuffer := eventBuffer t @ es\<rparr>))"
    using assms process(2)
    by (intro books_dispatched) (simp add: books_def waiting_def waiting_taken accounted_def)
  then show ?thesis unfolding process(3) pump_process [where d = d, OF process(1,2,4)] .
qed (use assms in \<open>simp add: pump_closed\<close>)

lemma books_onTimeout [simp]: assumes "books t" shows "books (onTimeout k t)"
proof -
  have "mset (map w_tok (filter (\<lambda>p. \<not> w_cancelled p) (map (\<lambda>p. if w_tok p = k then p\<lparr>w_cancelled := True\<rparr> else p) q)))
      + mset (map w_tok (filter (\<lambda>p. w_tok p = k \<and> \<not> w_cancelled p) q))
      = mset (map w_tok (filter (\<lambda>p. \<not> w_cancelled p) q))" for q
    by (induction q) auto
  from this [of "queue t"] have "mset (waiting (onTimeout k t)) + mset (settled_by (trace (onTimeout k t)))
      = mset (waiting t) + mset (settled_by (trace t))"
    by (simp only: waiting_def onTimeout_def emit_def settled_by_append settled_rejects mset_append) simp
  moreover have "issued (onTimeout k t) = issued t" by (simp add: onTimeout_def emit_def)
  ultimately show ?thesis using assms by (simp add: books_def accounted_perm)
qed

lemma wasm_books_send [simp]: assumes "books t" shows "books (send r m t)"
  using accounted_issue [OF assms [unfolded books_def]] accounted_issue_settled [OF assms [unfolded books_def]]
  by (simp add: send_def Let_def books_def waiting_def emit_def)

lemma books_micro [simp]:
  "books (t\<lparr>micro := ts\<rparr>) = books t" "books (t\<lparr>micro := ts, pumping := b\<rparr>) = books t"
  by (simp_all add: books_def waiting_def)

lemma books_flush_task [simp]: "books (flush_task t) = books t"
  by (simp add: books_def waiting_def)

lemma wasm_books_step:
  assumes "books t" "wasm_allowed e t" shows "books (wasm_step inst e t)"
proof (cases e)
  case (WorkerAnswers k r)
  have "books (dispatched k r (t\<lparr>in_worker := remove1 k (in_worker t)\<rparr>))"
    using assms WorkerAnswers
    by (intro books_dispatched) (simp add: books_def waiting_def accounted_def)
  then show ?thesis using WorkerAnswers by simp
next
  case (ModuleEvent b)
  then show ?thesis using assms by (simp add: books_def waiting_def)
qed (use assms in \<open>simp_all split: list.split wasm_task.split\<close>)

lemma prefix_dispatched [simp]: "prefix (trace t) (trace (dispatched k r t))"
  by (cases "st_state t = ClosedState")
     (simp_all add: dispatched_def failDispatch_def afterDispatch_def emit_def Let_def split: sum.split)

lemma wasm_prefix_pump [simp]: "prefix (trace t) (trace (pump inst t))"
proof (cases rule: wasm_pump_cases [where t = t and inst = inst])
  case (process p q d r es m)
  show ?thesis unfolding process(3) pump_process [where d = d, OF process(1,2,4)]
    by (rule prefix_order.trans [OF _ prefix_dispatched]) simp
qed (simp_all del: dropWhile_eq_Nil_conv add: pump_closed pump_none pump_worker emit_def)

lemma wasm_prefix_step: "prefix (trace t) (trace (wasm_step inst e t))"
proof (cases e)
  case Microtask
  then show ?thesis
    using wasm_prefix_pump [of "t\<lparr>micro := tl (micro t), pumping := False\<rparr>"]
    by (auto split: list.splits wasm_task.splits)
next
  case Close
  then show ?thesis by (cases "st_state t = ClosedState") simp_all
next
  case (WorkerAnswers k r)
  then show ?thesis using prefix_dispatched [of "t\<lparr>in_worker := remove1 k (in_worker t)\<rparr>"] by simp
qed (simp_all add: send_def onTimeout_def onModuleEvent_def emit_def Let_def)

text \<open>Requests are handed to the module in the order in which they were made.\<close>

definition fifo_inv :: "'m wasm_transport \<Rightarrow> bool" where
  "fifo_inv t \<longleftrightarrow>
     sorted_wrt (<) (map fst (wires_by (trace t)) @ map w_tok (queue t)) \<and>
     (\<forall>k \<in> set (map fst (wires_by (trace t)) @ map w_tok (queue t)). k < issued t)"

text \<open>A closed transport has let go of everything it held.\<close>

definition closed_inv :: "'m wasm_transport \<Rightarrow> bool" where
  "closed_inv t \<longleftrightarrow>
     (st_state t = Open \<and> attached t \<or> st_state t = ClosedState \<and> \<not> attached t \<and> queue t = [] \<and> eventBuffer t = [])"

lemma dropWhile_suffix: "dropWhile P xs = y # ys \<Longrightarrow> \<exists>zs. xs = zs @ y # ys"
  by (metis takeWhile_dropWhile_id)

lemma wires_dispatched [simp]: "wires_by (trace (dispatched k r t)) = wires_by (trace t)"
  by (cases "st_state t = ClosedState")
     (simp_all add: dispatched_def failDispatch_def afterDispatch_def emit_def Let_def split: sum.split)

lemma fifo_taken:
  assumes "fifo_inv t" "queue t = zs @ p # q"
  shows "sorted_wrt (<) (map fst (wires_by (trace t)) @ w_tok p # map w_tok q)"
    and "\<forall>k \<in> set (map fst (wires_by (trace t)) @ w_tok p # map w_tok q). k < issued t"
  using assms by (auto simp: fifo_inv_def sorted_wrt_append)

lemma fifo_shorter:
  "fifo_inv t \<Longrightarrow> issued t' = issued t \<Longrightarrow> wires_by (trace t') = wires_by (trace t) \<Longrightarrow>
   queue t' = [] \<or> map w_tok (queue t') = map w_tok (queue t) \<Longrightarrow> fifo_inv t'"
  by (erule disjE) (simp add: fifo_inv_def sorted_wrt_append, metis fifo_inv_def)

lemma fifo_dispatched: "fifo_inv t \<Longrightarrow> fifo_inv (dispatched k r t)"
  by (erule fifo_shorter) (simp_all add: dispatched_queue split: sum.split)

lemma wasm_fifo_pump: assumes "fifo_inv t" shows "fifo_inv (pump inst t)"
proof (cases rule: wasm_pump_cases [where t = t and inst = inst])
  case none
  show ?thesis unfolding pump_none [OF none] by (rule fifo_shorter [OF assms]) simp_all
next
  case (worker p q)
  obtain zs where "queue t = zs @ p # q" using dropWhile_suffix [OF worker(2)] by blast
  then show ?thesis using worker fifo_taken [OF assms]
    by (simp add: pump_worker emit_def fifo_inv_def)
next
  case (process p q d r es m)
  obtain zs where "queue t = zs @ p # q" using dropWhile_suffix [OF process(2)] by blast
  then have "fifo_inv (t\<lparr>queue := q, dispatching := True,
     trace := trace t @ [Wire (w_tok p) (w_payload p)], module_state := m, eventBuffer := eventBuffer t @ es\<rparr>)"
    using fifo_taken [OF assms] by (simp add: fifo_inv_def)
  then show ?thesis unfolding process(3) pump_process [where d = d, OF process(1,2,4)] by (rule fifo_dispatched)
qed (use assms in \<open>simp add: pump_closed\<close>)

lemma wires_rejects [simp]: "wires_by (map (\<lambda>p. Reject (w_tok p) e) ps) = []"
  by (induction ps) auto

lemma wasm_fifo_step: assumes "fifo_inv t" shows "fifo_inv (wasm_step inst e t)"
proof (cases e)
  case (Send r m)
  then show ?thesis using assms
    by (auto simp: send_def Let_def emit_def fifo_inv_def sorted_wrt_append less_Suc_eq)
next
  case Close
  then show ?thesis using assms
    by (cases "st_state t = ClosedState") (auto intro: fifo_shorter)
next
  case Microtask
  have "fifo_inv (flush_task (t\<lparr>micro := ts\<rparr>))" "fifo_inv (t\<lparr>micro := ts, pumping := b\<rparr>)" for ts b
    using assms by (simp_all add: fifo_inv_def)
  then show ?thesis using Microtask assms by (simp add: wasm_fifo_pump split: list.split wasm_task.split)
next
  case (Timeout k)
  have "map w_tok (map (\<lambda>p. if w_tok p = k then p\<lparr>w_cancelled := True\<rparr> else p) q) = map w_tok q" for q
    by (induction q) auto
  then show ?thesis unfolding Timeout
    by (intro fifo_shorter [OF assms]) (simp_all only: wasm_step.simps onTimeout_def emit_def, simp_all)
next
  case (WorkerAnswers k r)
  have "fifo_inv (t\<lparr>in_worker := ks\<rparr>)" for ks using assms by (simp add: fifo_inv_def)
  then show ?thesis using WorkerAnswers by (simp add: fifo_dispatched)
qed (use assms in \<open>auto intro: fifo_shorter\<close>)

lemma closed_inv_dispatched: "closed_inv t \<Longrightarrow> closed_inv (dispatched k r t)"
  by (auto simp: closed_inv_def dispatched_def failDispatch_def afterDispatch_def emit_def Let_def
      split: sum.split)

lemma closed_inv_pump: assumes "closed_inv t" shows "closed_inv (pump inst t)"
proof (cases rule: wasm_pump_cases [where t = t and inst = inst])
  case (process p q d r es m)
  show ?thesis unfolding process(3) pump_process [where d = d, OF process(1,2,4)]
    by (rule closed_inv_dispatched) (use assms process(1) in \<open>simp add: closed_inv_def\<close>)
qed (use assms in \<open>auto simp del: dropWhile_eq_Nil_conv simp: pump_closed pump_none pump_worker emit_def closed_inv_def\<close>)

lemma closed_inv_step:
  assumes "closed_inv t" "wasm_allowed e t" shows "closed_inv (wasm_step inst e t)"
proof (cases e)
  case Close
  then show ?thesis using assms by (cases "st_state t = ClosedState") (auto simp: closed_inv_def)
next
  case Microtask
  have "closed_inv (t\<lparr>micro := ts, pumping := b\<rparr>)" "closed_inv (flush_task (t\<lparr>micro := ts\<rparr>))" for ts b
    using assms(1) by (auto simp: closed_inv_def)
  then show ?thesis using Microtask assms(1) by (simp add: closed_inv_pump split: list.split wasm_task.split)
next
  case (WorkerAnswers k r)
  have "closed_inv (t\<lparr>in_worker := ks\<rparr>)" for ks using assms(1) by (simp add: closed_inv_def)
  then show ?thesis using WorkerAnswers by (simp add: closed_inv_dispatched)
qed (use assms in \<open>auto simp: closed_inv_def send_def Let_def emit_def onTimeout_def onModuleEvent_def\<close>)

lemma wasm_new:
  "fifo_inv (newWasmTransport m dflt owns)" "closed_inv (newWasmTransport m dflt owns)"
  "books (newWasmTransport m dflt owns)"
  by (simp_all add: newWasmTransport_def fifo_inv_def closed_inv_def books_def waiting_def)

interpretation wasm_machine: promise_contract "newWasmTransport m0 dflt owns" wasm_allowed
  "wasm_step inst" "\<lambda>t. fifo_inv t \<and> closed_inv t" issued waiting trace
  for m0 :: 'm and dflt :: "millis option" and owns :: "bool option" and inst :: "'m kicad_instance"
proof
  show "accounted (issued (newWasmTransport m0 dflt owns)) (waiting (newWasmTransport m0 dflt owns))
      (settled_by (trace (newWasmTransport m0 dflt owns)))"
    using wasm_new(3) by (simp only: books_def)
  show "accounted (issued (wasm_step inst e t)) (waiting (wasm_step inst e t)) (settled_by (trace (wasm_step inst e t)))"
    if "accounted (issued t) (waiting t) (settled_by (trace t))" "wasm_allowed e t" for e and t :: "'m wasm_transport"
    using wasm_books_step [of t e inst] that by (simp only: books_def)
  show "issued t \<le> issued (wasm_step inst e t)" for e and t :: "'m wasm_transport"
  proof (cases e)
    case Microtask
    have "issued (pump inst t') = issued t'" for t' :: "'m wasm_transport"
      by (cases rule: wasm_pump_cases [where t = t' and inst = inst])
         (simp_all del: dropWhile_eq_Nil_conv add: pump_closed pump_none pump_worker pump_process emit_def)
    then show ?thesis using Microtask by (simp split: list.split wasm_task.split)
  qed (simp_all add: send_def Let_def emit_def onTimeout_def)
qed (auto intro: wasm_new wasm_fifo_step closed_inv_step wasm_prefix_step)

section \<open>One request at a time\<close>

text \<open>
  What the module does, as the caller is meant to see it: the requests one after another, each handed
  over, answered, and then its events. A dispatch that aborts the module ends it.
\<close>

fun serial :: "('m \<Rightarrow> bytes \<Rightarrow> (thrown + bytes) \<times> bytes list \<times> 'm) \<Rightarrow> 'm \<Rightarrow> (nat \<times> bytes) list \<Rightarrow> effect list \<times> 'm" where
  "serial d m [] = ([], m)"
| "serial d m ((k, p) # reqs) =
     (case d m p of (r, es, m') \<Rightarrow>
        (case serial d m' reqs of (rest, m'') \<Rightarrow>
           (Wire k p #
             (case r of Inr b \<Rightarrow> Resolve k b # map Deliver es
              | Inl e \<Rightarrow> Reject k (dispatch_error e) # (if isRuntimeAbort e then [] else map Deliver es))
            @ rest, m'')))"

text \<open>The part of a trace that is about requests the module got: timeouts and closing left out.\<close>

fun spoken :: "nat set \<Rightarrow> effect \<Rightarrow> bool" where
  "spoken ks (Wire _ _) = True"
| "spoken ks (Resolve _ _) = True"
| "spoken ks (Deliver _) = True"
| "spoken ks (Reject k _) = (k \<in> ks)"
| "spoken ks _ = False"

definition module_log :: "effect list \<Rightarrow> effect list" where
  "module_log tr = filter (spoken (set (map fst (wires_by tr)))) tr"

lemma serial_snoc:
  "serial d m (reqs @ [(k, p)]) =
     (case serial d m reqs of (said, m1) \<Rightarrow> case d m1 p of (r, es, m2) \<Rightarrow>
        (said @ Wire k p #
           (case r of Inr b \<Rightarrow> Resolve k b # map Deliver es
            | Inl e \<Rightarrow> Reject k (dispatch_error e) # (if isRuntimeAbort e then [] else map Deliver es)), m2))"
  by (induction d m reqs rule: serial.induct) (auto split: prod.splits)

lemma spoken_more:
  "k \<notin> set (settled_by tr) \<Longrightarrow> filter (spoken (insert k ks)) tr = filter (spoken ks) tr"
proof (induction tr)
  case (Cons e tr)
  then show ?case by (cases e) auto
qed simp

lemma module_log_more:
  "wires_by es = [] \<Longrightarrow> module_log (tr @ es) = module_log tr @ filter (spoken (set (map fst (wires_by tr)))) es"
  by (simp add: module_log_def)

lemma module_log_wire:
  assumes "k \<notin> set (settled_by tr)" and "wires_by es = []"
  shows "module_log (tr @ Wire k p # es) =
    module_log tr @ Wire k p # filter (spoken (insert k (set (map fst (wires_by tr))))) es"
  using assms by (simp add: module_log_def spoken_more)

lemma spoken_Delivers [simp]: "filter (spoken ks) (map Deliver bs) = map Deliver bs"
  by (induction bs) auto

lemma spoken_rejects:
  "\<forall>p \<in> set ps. w_tok p \<notin> ks \<Longrightarrow> filter (spoken ks) (map (\<lambda>p. Reject (w_tok p) e) ps) = []"
  by (induction ps) auto

text \<open>
  The microtasks of a module in process: at most one of each kind, and the one that hands out the
  events runs first. While requests wait one of them is queued.
\<close>

definition micro_inv :: "'m wasm_transport \<Rightarrow> bool" where
  "micro_inv t \<longleftrightarrow>
     micro t = [] \<and> \<not> pumping t \<and> eventBuffer t = [] \<and> queue t = [] \<or>
     micro t = [PumpTask] \<and> pumping t \<and> eventBuffer t = [] \<or>
     micro t = [FlushTask] \<and> \<not> pumping t \<or>
     micro t = [FlushTask, PumpTask] \<and> pumping t"

definition serial_inv :: "('m \<Rightarrow> bytes \<Rightarrow> (thrown + bytes) \<times> bytes list \<times> 'm) \<Rightarrow> 'm \<Rightarrow> 'm wasm_transport \<Rightarrow> bool" where
  "serial_inv d m0 t \<longleftrightarrow>
     (\<exists>said. serial d m0 (wires_by (trace t)) = (said, module_state t) \<and>
            prefix (module_log (trace t)) said \<and>
            (st_state t \<noteq> ClosedState \<longrightarrow> said = module_log (trace t) @ map Deliver (eventBuffer t))) \<and>
     in_worker t = [] \<and> \<not> dispatching t"

definition wasm_inv :: "('m \<Rightarrow> bytes \<Rightarrow> (thrown + bytes) \<times> bytes list \<times> 'm) \<Rightarrow> 'm \<Rightarrow> 'm wasm_transport \<Rightarrow> bool" where
  "wasm_inv d m0 t \<longleftrightarrow> books t \<and> fifo_inv t \<and> closed_inv t \<and> micro_inv t \<and> serial_inv d m0 t"

lemma unwired:
  assumes "fifo_inv t" shows "\<forall>p \<in> set (queue t). w_tok p \<notin> set (map fst (wires_by (trace t)))"
    and "issued t \<notin> set (map fst (wires_by (trace t)))"
proof -
  have "\<forall>k \<in> set (map fst (wires_by (trace t))). \<forall>k' \<in> set (map w_tok (queue t)). k < k'"
    and "\<forall>k \<in> set (map fst (wires_by (trace t))). k < issued t"
    using assms by (simp_all only: fifo_inv_def sorted_wrt_append set_append, blast+)
  then show "\<forall>p \<in> set (queue t). w_tok p \<notin> set (map fst (wires_by (trace t)))"
    and "issued t \<notin> set (map fst (wires_by (trace t)))"
    by (metis imageI less_irrefl list.set_map, blast)
qed

lemma unsettled:
  assumes "books t" "k \<in> set (waiting t)" shows "k \<notin> set (settled_by (trace t))"
  using accounted_distinct(1) [OF assms(1) [unfolded books_def]] assms(2) by auto

text \<open>Steps that only add effects the said does not show.\<close>

lemma serial_quiet:
  assumes "serial_inv d m0 t" "trace t' = trace t @ es" "wires_by es = []"
    and "filter (spoken (set (map fst (wires_by (trace t))))) es = []"
    and "module_state t' = module_state t" "in_worker t' = in_worker t" "\<not> dispatching t'"
    and "st_state t' \<noteq> ClosedState \<longrightarrow> st_state t \<noteq> ClosedState \<and> eventBuffer t' = eventBuffer t"
  shows "serial_inv d m0 t'"
  using assms by (auto simp: serial_inv_def module_log_more)

lemma serial_close: assumes "serial_inv d m0 t" "fifo_inv t" shows "serial_inv d m0 (close t)"
proof (cases "st_state t = ClosedState")
  case False
  then show ?thesis
    using assms unwired(1) [OF assms(2)] spoken_rejects [of "filter (\<lambda>p. \<not> w_cancelled p) (queue t)"]
    by (intro serial_quiet [OF assms(1)])
       (auto simp: serial_inv_def)
qed (use assms in simp)

text \<open>A turn of the pump adds one request to both sides.\<close>

lemma serial_pump:
  assumes i: "serial_inv d m0 t" "books t" "fifo_inv t" and b: "eventBuffer t = []"
  shows "serial_inv d m0 (pump (InProcess d) t)"
proof (cases rule: wasm_pump_cases [where t = t and inst = "InProcess d"])
  case closed
  then show ?thesis using i(1) by (simp add: pump_closed)
next
  case none
  show ?thesis unfolding pump_none [OF none] by (rule serial_quiet [OF i(1), where es = "[]"]) (use i(1) in \<open>auto simp: serial_inv_def\<close>)
next
  case (process p q d' r es m)
  then have d': "d' = d" by simp
  let ?t = "t\<lparr>queue := q, dispatching := True, trace := trace t @ [Wire (w_tok p) (w_payload p)],
    module_state := m, eventBuffer := eventBuffer t @ es\<rparr>"
  obtain zs where q: "queue t = zs @ p # q" using dropWhile_suffix [OF process(2)] by blast
  have "w_tok p \<in> set (waiting t)"
    using waiting_taken [OF process(2)] by (simp add: waiting_def)
  then have new: "w_tok p \<notin> set (settled_by (trace t))" by (rule unsettled [OF i(2)])
  have rest: "\<forall>p' \<in> set q. w_tok p' \<notin> insert (w_tok p) (set (map fst (wires_by (trace t))))"
    using fifo_taken(1) [OF i(3) q] by (force simp: sorted_wrt_append)
  have "serial d m0 (wires_by (trace t)) = (module_log (trace t), module_state t)"
    using i(1) process(1) b by (auto simp: serial_inv_def)
  then have s: "serial d m0 (wires_by (trace t) @ [(w_tok p, w_payload p)]) =
      (module_log (trace t) @ Wire (w_tok p) (w_payload p) #
         (case r of Inr b \<Rightarrow> Resolve (w_tok p) b # map Deliver es
          | Inl e \<Rightarrow> Reject (w_tok p) (dispatch_error e) # (if isRuntimeAbort e then [] else map Deliver es)), m)"
    using process(4) unfolding d' by (simp add: serial_snoc)
  have nc: "st_state t \<noteq> ClosedState" by (rule process(1))
  have "serial_inv d m0 (dispatched (w_tok p) r ?t)"
    using i(1) s new rest b nc
    by (cases r) (simp_all add: serial_inv_def dispatched_def failDispatch_def afterDispatch_def emit_def
        module_log_wire spoken_rejects Let_def)
  then show ?thesis unfolding d' [symmetric] pump_process [where d = d', OF process(1,2,4)] .
qed simp

lemma micro_same:
  "micro_inv t \<Longrightarrow> micro t' = micro t \<Longrightarrow> pumping t' = pumping t \<Longrightarrow> (queue t' = [] \<or> queue t \<noteq> []) \<Longrightarrow>
   (eventBuffer t' = [] \<or> eventBuffer t' = eventBuffer t) \<Longrightarrow> micro_inv t'"
  by (auto simp: micro_inv_def)

lemma micro_close: "micro_inv t \<Longrightarrow> micro_inv (close t)"
  by (cases "st_state t = ClosedState") (auto intro: micro_same)

lemma micro_dispatched:
  assumes "micro t = []" "\<not> pumping t" "st_state t \<noteq> ClosedState"
  shows "micro_inv (dispatched k r t)"
proof (cases r)
  case (Inl e)
  then show ?thesis using assms
    by (cases "isRuntimeAbort e")
       (simp_all add: dispatched_def failDispatch_def afterDispatch_def emit_def micro_inv_def)
qed (use assms in \<open>auto simp: dispatched_def afterDispatch_def emit_def micro_inv_def\<close>)

lemma micro_pump:
  assumes "micro t = []" "\<not> pumping t" "eventBuffer t = []" "closed_inv t"
  shows "micro_inv (pump (InProcess d) t)"
proof (cases rule: wasm_pump_cases [where t = t and inst = "InProcess d"])
  case closed
  then show ?thesis using assms by (simp add: pump_closed micro_inv_def closed_inv_def)
next
  case none
  then show ?thesis unfolding pump_none [OF none] using assms by (simp add: micro_inv_def)
next
  case (process p q d' r es m)
  then have d': "d' = d" by simp
  show ?thesis unfolding d' [symmetric] pump_process [where d = d', OF process(1,2,4)]
    by (rule micro_dispatched) (use assms process(1) in simp_all)
qed simp

lemma pump_task_head:
  "micro_inv t \<Longrightarrow> micro t = PumpTask # ts \<Longrightarrow> ts = [] \<and> eventBuffer t = [] \<and> pumping t"
  by (auto simp: micro_inv_def split: if_splits)

lemma flush_task_head:
  "micro_inv t \<Longrightarrow> micro t = FlushTask # ts \<Longrightarrow> ts = (if pumping t then [PumpTask] else [])"
  by (auto simp: micro_inv_def split: if_splits)

lemma micro_flush:
  "micro t = (if pumping t then [PumpTask] else []) \<Longrightarrow> micro_inv (flush_task t)"
  by (cases "pumping t") (simp_all add: flush_task_def micro_inv_def Let_def)

lemma wasm_inv_pump:
  assumes "wasm_inv d m0 t" "micro t = PumpTask # ts"
  shows "wasm_inv d m0 (pump (InProcess d) (t\<lparr>micro := ts, pumping := False\<rparr>))"
proof -
  let ?t = "t\<lparr>micro := ts, pumping := False\<rparr>"
  have h: "ts = []" "eventBuffer t = []"
    using assms pump_task_head [of t ts] by (simp_all add: wasm_inv_def)
  have "books ?t" "fifo_inv ?t" "closed_inv ?t" "serial_inv d m0 ?t"
    using assms(1) by (simp_all add: wasm_inv_def fifo_inv_def closed_inv_def serial_inv_def)
  then show ?thesis
    using h unfolding wasm_inv_def
    by (intro conjI wasm_books_pump wasm_fifo_pump closed_inv_pump micro_pump serial_pump) simp_all
qed

lemma wasm_inv_flush:
  assumes "wasm_inv d m0 t" "micro t = FlushTask # ts"
  shows "wasm_inv d m0 (flush_task (t\<lparr>micro := ts\<rparr>))"
proof -
  have "ts = (if pumping t then [PumpTask] else [])"
    using assms flush_task_head [of t ts] by (simp add: wasm_inv_def)
  then have "micro_inv (flush_task (t\<lparr>micro := ts\<rparr>))" by (intro micro_flush) simp
  moreover have "closed_inv (flush_task (t\<lparr>micro := ts\<rparr>))" "fifo_inv (flush_task (t\<lparr>micro := ts\<rparr>))"
    using assms(1) by (auto simp: wasm_inv_def fifo_inv_def closed_inv_def)
  moreover have "serial_inv d m0 (flush_task (t\<lparr>micro := ts\<rparr>))"
    using assms(1) by (auto simp: wasm_inv_def serial_inv_def closed_inv_def module_log_more)
  ultimately show ?thesis using assms(1) by (simp add: wasm_inv_def)
qed

lemma micro_send: "micro_inv t \<Longrightarrow> micro_inv (send r m t)"
  by (auto simp: send_def schedule_def emit_def micro_inv_def Let_def)

lemma micro_timeout: "micro_inv t \<Longrightarrow> micro_inv (onTimeout k t)"
  by (rule micro_same [of t]) (simp_all add: onTimeout_def emit_def)

lemma serial_send: assumes "serial_inv d m0 t" "fifo_inv t" shows "serial_inv d m0 (send r m t)"
proof (cases "st_state t = ClosedState")
  case True
  then show ?thesis using unwired(2) [OF assms(2)] assms(1)
    by (intro serial_quiet [OF assms(1), where es = "[Reject (issued t) (closed_error t)]"])
       (simp_all add: send_def Let_def emit_def serial_inv_def)
next
  case False
  then show ?thesis using assms(1)
    by (intro serial_quiet [OF assms(1), where es = "[]"])
       (simp_all add: send_def Let_def serial_inv_def)
qed

lemma serial_timeout: assumes "serial_inv d m0 t" "fifo_inv t" shows "serial_inv d m0 (onTimeout k t)"
proof -
  let ?ps = "filter (\<lambda>p. w_tok p = k \<and> \<not> w_cancelled p) (queue t)"
  have "filter (spoken (set (map fst (wires_by (trace t))))) (map (\<lambda>p. Reject (w_tok p) TimeoutError) ?ps) = []"
    by (rule spoken_rejects) (use unwired(1) [OF assms(2)] in auto)
  then show ?thesis using assms(1)
    by (intro serial_quiet [OF assms(1), where es = "map (\<lambda>p. Reject (w_tok p) TimeoutError) ?ps"])
       (simp_all add: onTimeout_def emit_def serial_inv_def)
qed

lemma wasm_inv_step:
  assumes i: "wasm_inv d m0 t" and a: "wasm_allowed e t" "module_quiet e"
  shows "wasm_inv d m0 (wasm_step (InProcess d) e t)"
proof -
  let ?t = "wasm_step (InProcess d) e t"
  have "books ?t" "fifo_inv ?t" "closed_inv ?t"
    using i a by (simp_all add: wasm_inv_def wasm_books_step wasm_fifo_step closed_inv_step del: wasm_step.simps)
  moreover have "micro_inv ?t \<and> serial_inv d m0 ?t"
  proof (cases e)
    case (Send r m)
    have "serial_inv d m0 (send r m t)" using i by (simp add: wasm_inv_def serial_send)
    then show ?thesis using i Send by (simp add: wasm_inv_def micro_send)
  next
    case Close
    then show ?thesis using i by (simp add: wasm_inv_def micro_close serial_close)
  next
    case Microtask
    show ?thesis
    proof (cases "micro t")
      case (Cons x ts)
      then show ?thesis using i Microtask wasm_inv_pump [of d m0 t ts] wasm_inv_flush [of d m0 t ts]
        by (cases x) (simp_all add: wasm_inv_def)
    qed (use i Microtask in \<open>simp add: wasm_inv_def\<close>)
  next
    case (Timeout k)
    then show ?thesis using i by (simp add: wasm_inv_def micro_timeout serial_timeout)
  next
    case (WorkerAnswers k r)
    then show ?thesis using i a by (simp add: wasm_inv_def serial_inv_def)
  qed (use a in simp)
  ultimately show ?thesis by (simp add: wasm_inv_def del: wasm_step.simps)
qed

lemma wasm_inv_new: "wasm_inv d m0 (newWasmTransport m0 dflt owns)"
  using wasm_new [of m0 dflt owns]
  by (simp add: wasm_inv_def) (simp add: newWasmTransport_def micro_inv_def serial_inv_def module_log_def)

lemma quiet_reach:
  assumes "reach (newWasmTransport m0 dflt owns) (\<lambda>e t. wasm_allowed e t \<and> module_quiet e) (wasm_step (InProcess d)) t"
  shows "wasm_inv d m0 t"
  by (rule reach_invariant [OF assms]) (auto intro: wasm_inv_new wasm_inv_step)

text \<open>
  C9: with a module in process that emits events only while it works on a request, what the callers see
  of the requests it got - handed over, answered, events - is what running the requests one at a
  time, in the order of their calls, gives: each reply comes before the events of its request, and
  those before the next request starts. While the transport is open nothing of it is lost; only
  \<open>close()\<close> may cut off the end.
\<close>

theorem wasm_serialises:
  assumes "reach (newWasmTransport m0 dflt owns) (\<lambda>e t. wasm_allowed e t \<and> module_quiet e) (wasm_step (InProcess d)) t"
  shows "sorted_wrt (<) (map fst (wires_by (trace t))) \<and>
    prefix (module_log (trace t)) (fst (serial d m0 (wires_by (trace t)))) \<and>
    (st_state t = Open \<longrightarrow>
       fst (serial d m0 (wires_by (trace t))) = module_log (trace t) @ map Deliver (eventBuffer t))"
  using quiet_reach [OF assms] by (auto simp: wasm_inv_def serial_inv_def fifo_inv_def sorted_wrt_append)

section \<open>The queue drains\<close>

text \<open>
  A turn of the pump costs a task of its own and takes a request for each task it adds; the bound on the
  microtasks needed counts both.
\<close>

definition drain_bound :: "'m wasm_transport \<Rightarrow> nat" where
  "drain_bound t = 3 * length (queue t) + 2 * count_list (micro t) FlushTask + count_list (micro t) PumpTask"

lemma drain_dispatched:
  assumes "st_state t \<noteq> ClosedState"
  shows "drain_bound (dispatched k r t) \<le> drain_bound t + 2"
proof (cases r)
  case (Inl e)
  then show ?thesis using assms
    by (cases "isRuntimeAbort e")
       (simp_all add: drain_bound_def dispatched_def failDispatch_def afterDispatch_def emit_def)
qed (simp add: drain_bound_def dispatched_def afterDispatch_def emit_def)

lemma drain_pump: "drain_bound (pump (InProcess d) t) \<le> drain_bound t"
proof (cases rule: wasm_pump_cases [where t = t and inst = "InProcess d"])
  case (process p q d' r es m)
  then have d': "d' = d" by simp
  let ?t = "t\<lparr>queue := q, dispatching := True, trace := trace t @ [Wire (w_tok p) (w_payload p)],
    module_state := m, eventBuffer := eventBuffer t @ es\<rparr>"
  obtain zs where "queue t = zs @ p # q" using dropWhile_suffix [OF process(2)] by blast
  then have "drain_bound ?t + 2 \<le> drain_bound t" by (simp add: drain_bound_def)
  moreover have "drain_bound (dispatched (w_tok p) r ?t) \<le> drain_bound ?t + 2"
    by (rule drain_dispatched) (use process(1) in simp)
  ultimately show ?thesis unfolding d' [symmetric] pump_process [where d = d', OF process(1,2,4)] by linarith
qed (simp_all del: dropWhile_eq_Nil_conv add: pump_closed pump_none drain_bound_def)

lemma drain_step:
  assumes "micro t \<noteq> []"
  shows "drain_bound (wasm_step (InProcess d) Microtask t) < drain_bound t"
proof (cases "micro t")
  case (Cons x ts)
  show ?thesis
  proof (cases x)
    case PumpTask
    have "drain_bound (t\<lparr>micro := ts, pumping := False\<rparr>) < drain_bound t"
      using Cons PumpTask by (simp add: drain_bound_def)
    then show ?thesis using Cons PumpTask drain_pump [of d "t\<lparr>micro := ts, pumping := False\<rparr>"] by simp
  next
    case FlushTask
    then show ?thesis using Cons by (simp add: drain_bound_def flush_task_def Let_def)
  qed
qed (use assms in simp)

lemma drains:
  assumes "wasm_inv d m0 t"
  shows "\<exists>n \<le> drain_bound t. runs_allowed (\<lambda>e t. wasm_allowed e t \<and> module_quiet e) (wasm_step (InProcess d)) (replicate n Microtask) t
    \<and> micro (run (wasm_step (InProcess d)) (replicate n Microtask) t) = []
    \<and> waiting (run (wasm_step (InProcess d)) (replicate n Microtask) t) = []"
  using assms
proof (induction "drain_bound t" arbitrary: t rule: less_induct)
  case less
  show ?case
  proof (cases "micro t = []")
    case True
    then have "waiting t = []"
      using less.prems by (simp add: wasm_inv_def micro_inv_def serial_inv_def waiting_def)
    then show ?thesis using True by (intro exI [of _ 0]) simp
  next
    case False
    let ?t = "wasm_step (InProcess d) Microtask t"
    have shrinks: "drain_bound ?t < drain_bound t" by (rule drain_step [OF False])
    have "wasm_inv d m0 ?t" using less.prems False by (intro wasm_inv_step) simp_all
    from less.hyps [OF shrinks this] obtain n where n: "n \<le> drain_bound ?t"
      "runs_allowed (\<lambda>e t. wasm_allowed e t \<and> module_quiet e) (wasm_step (InProcess d)) (replicate n Microtask) ?t"
      "micro (run (wasm_step (InProcess d)) (replicate n Microtask) ?t) = []"
      "waiting (run (wasm_step (InProcess d)) (replicate n Microtask) ?t) = []" by blast
    then show ?thesis using shrinks False
      by (intro exI [of _ "Suc n"]) (simp del: wasm_step.simps)
  qed
qed

text \<open>
  C32: with a module in process the microtasks always run dry, after at most three of them for each request in
  the queue and those queued already, and then every promise handed out is settled: no request waits
  for a timer, and none is forgotten after a failed dispatch, an abort or \<open>close()\<close>.
\<close>

theorem wasm_drains:
  assumes "reach (newWasmTransport m0 dflt owns) (\<lambda>e t. wasm_allowed e t \<and> module_quiet e) (wasm_step (InProcess d)) t"
  shows "\<exists>n \<le> drain_bound t. let t' = run (wasm_step (InProcess d)) (replicate n Microtask) t in
    reach (newWasmTransport m0 dflt owns) (\<lambda>e t. wasm_allowed e t \<and> module_quiet e) (wasm_step (InProcess d)) t' \<and>
    micro t' = [] \<and> set (settled_by (trace t')) = {0..<issued t'} \<and> distinct (settled_by (trace t'))"
proof -
  obtain n where n: "n \<le> drain_bound t"
    "runs_allowed (\<lambda>e t. wasm_allowed e t \<and> module_quiet e) (wasm_step (InProcess d)) (replicate n Microtask) t"
    and m: "micro (run (wasm_step (InProcess d)) (replicate n Microtask) t) = []"
    and w: "waiting (run (wasm_step (InProcess d)) (replicate n Microtask) t) = []"
    using drains [OF quiet_reach [OF assms]] by blast
  have r: "reach (newWasmTransport m0 dflt owns) (\<lambda>e t. wasm_allowed e t \<and> module_quiet e) (wasm_step (InProcess d))
      (run (wasm_step (InProcess d)) (replicate n Microtask) t)"
    by (rule reach_run [OF assms n(2)])
  then have r': "reach (newWasmTransport m0 dflt owns) wasm_allowed (wasm_step (InProcess d))
      (run (wasm_step (InProcess d)) (replicate n Microtask) t)"
    by (rule reach_mono) simp
  show ?thesis unfolding Let_def
    using n(1) r m wasm_machine.all_settled [OF r' w] wasm_machine.settled_once [OF r'] by blast
qed

text \<open>
  A module for the witnesses: it counts its requests, answers with the count, emits one event for each
  but aborts on an empty request.
\<close>

definition demo_module :: "8 word \<Rightarrow> bytes \<Rightarrow> (thrown + bytes) \<times> bytes list \<times> 8 word" where
  "demo_module n req =
     (if req = [] then (Inl \<lparr>th_transport = None, th_error = True, th_name = ''RuntimeError'', th_runtime = True\<rparr>, [], n)
      else (Inr [n], [n # req], n + 1))"

definition wasm_demo :: "8 word wasm_transport" where
  "wasm_demo = run (wasm_step (InProcess demo_module)) [Send [7] None, Send [8] None, Microtask, Send [9] (Some (Ms 5))]
     (newWasmTransport 0 None None)"

lemma wasm_demo_reach:
  "reach (newWasmTransport 0 None None) (\<lambda>e t. wasm_allowed e t \<and> module_quiet e) (wasm_step (InProcess demo_module)) wasm_demo"
  unfolding wasm_demo_def by (rule reach_run [OF reach.start]) code_simp

theorem wasm_serialises_witness:
  "module_log (trace wasm_demo) = [Wire 0 [7], Resolve 0 [0]] \<and> eventBuffer wasm_demo = [[0, 7]] \<and>
   fst (serial demo_module 0 (wires_by (trace wasm_demo))) =
     module_log (trace wasm_demo) @ map Deliver (eventBuffer wasm_demo)"
proof -
  have "module_log (trace wasm_demo) = [Wire 0 [7], Resolve 0 [0]]" "eventBuffer wasm_demo = [[0, 7]]"
    "st_state wasm_demo = Open"
    by code_simp+
  then show ?thesis using wasm_serialises [OF wasm_demo_reach] by blast
qed

theorem wasm_drains_witness:
  "\<exists>n \<le> 9. micro (run (wasm_step (InProcess demo_module)) (replicate n Microtask) wasm_demo) = []"
proof -
  have "drain_bound wasm_demo = 9" by code_simp
  then show ?thesis using wasm_drains [OF wasm_demo_reach] unfolding Let_def by force
qed

text \<open>
  The comment at \<open>pumpAsync\<close> says that nothing else runs while a worker has a request. But \<open>pump\<close>
  does not look at \<open>dispatching\<close>: a request made meanwhile goes to the worker at once, and the
  answer to the first lets the events of the second out before the second is answered.
\<close>

lemma wasm_worker_overlap:
  "let s = run (wasm_step InWorker) [Send [1] None, Microtask, Send [2] None, Microtask,
         WorkerAnswers 0 (Inr [5]), ModuleEvent [6], WorkerAnswers 1 (Inr [7])] (newWasmTransport () None None)
   in reach (newWasmTransport () None None) wasm_allowed (wasm_step InWorker) s \<and>
      trace s = [Wire 0 [1], Wire 1 [2], Resolve 0 [5], Deliver [6], Resolve 1 [7]]"
  unfolding Let_def by (intro conjI reach_run [OF reach.start]) code_simp+

section \<open>The subscriber\<close>

text \<open>
  \<open>WasmSubscriber\<close> listens to a transport. \<open>heard\<close> is what it hands to its message listeners,
  \<open>told\<close> what it tells its state listeners.
\<close>

record wasm_subscriber =
  sb_state :: transport_state
  sb_attached :: bool
  heard :: "bytes list"
  told :: "transport_state list"

definition newWasmSubscriber :: "'m wasm_transport \<Rightarrow> wasm_subscriber" where
  "newWasmSubscriber t =
     \<lparr>sb_state = (if st_state t = ClosedState then ClosedState else Open), sb_attached = True,
      heard = [], told = []\<rparr>"

definition sub_setState :: "transport_state \<Rightarrow> wasm_subscriber \<Rightarrow> wasm_subscriber" where
  "sub_setState x s = (if sb_state s = x then s else s\<lparr>sb_state := x, told := told s @ [x]\<rparr>)"

definition sub_close :: "wasm_subscriber \<Rightarrow> wasm_subscriber" where
  "sub_close s = sub_setState ClosedState (s\<lparr>sb_attached := False\<rparr>)"

text \<open>The two listeners it adds to the transport, on the effects of the transport.\<close>

fun sub_hears :: "effect \<Rightarrow> wasm_subscriber \<Rightarrow> wasm_subscriber" where
  "sub_hears (Deliver b) s = (if sb_attached s then s\<lparr>heard := heard s @ [b]\<rparr> else s)"
| "sub_hears (Notify x) s = (if sb_attached s \<and> x = ClosedState then sub_setState ClosedState s else s)"
| "sub_hears _ s = s"

datatype subscriber_event = OfTransport wasm_event | CloseSubscriber

fun sub_step :: "'m kicad_instance \<Rightarrow> subscriber_event \<Rightarrow> 'm wasm_transport \<times> wasm_subscriber \<Rightarrow> 'm wasm_transport \<times> wasm_subscriber" where
  "sub_step inst (OfTransport e) (t, s) =
     (let t' = wasm_step inst e t in (t', fold sub_hears (drop (length (trace t)) (trace t')) s))"
| "sub_step inst CloseSubscriber (t, s) = (t, sub_close s)"

fun sub_allowed :: "subscriber_event \<Rightarrow> 'm wasm_transport \<times> wasm_subscriber \<Rightarrow> bool" where
  "sub_allowed (OfTransport e) (t, s) = wasm_allowed e t"
| "sub_allowed CloseSubscriber (t, s) = True"

fun delivered_by :: "effect list \<Rightarrow> bytes list" where
  "delivered_by [] = []"
| "delivered_by (Deliver b # es) = b # delivered_by es"
| "delivered_by (_ # es) = delivered_by es"

lemma delivered_by_append [simp]: "delivered_by (xs @ ys) = delivered_by xs @ delivered_by ys"
  by (induction xs rule: delivered_by.induct) auto

lemma sub_hears_all:
  "sb_attached (fold sub_hears es s) = sb_attached s"
  "sb_attached s \<Longrightarrow> heard (fold sub_hears es s) = heard s @ delivered_by es"
  "\<not> sb_attached s \<Longrightarrow> fold sub_hears es s = s"
  "sb_attached s \<Longrightarrow> sb_state (fold sub_hears es s) = (if Notify ClosedState \<in> set es then ClosedState else sb_state s)"
proof (induction es arbitrary: s)
  case (Cons e es)
  note IH = Cons
  { case 1 then show ?case using IH by (cases e) (simp_all add: sub_setState_def)
  next case 2 then show ?case using IH by (cases e) (simp_all add: sub_setState_def)
  next case 3 then show ?case using IH by (cases e) simp_all
  next case 4 then show ?case using IH by (cases e) (auto simp: sub_setState_def) }
qed simp_all

text \<open>A transport is closed exactly when it has told so.\<close>

lemma tells_closed_dispatched:
  "st_state t = ClosedState \<longleftrightarrow> Notify ClosedState \<in> set (trace t) \<Longrightarrow>
   st_state (dispatched k r t) = ClosedState \<longleftrightarrow> Notify ClosedState \<in> set (trace (dispatched k r t))"
  by (cases "st_state t = ClosedState")
     (auto simp: dispatched_def failDispatch_def afterDispatch_def emit_def Let_def split: sum.split)

lemma tells_closed_pump:
  assumes "st_state t = ClosedState \<longleftrightarrow> Notify ClosedState \<in> set (trace t)"
  shows "st_state (pump inst t) = ClosedState \<longleftrightarrow> Notify ClosedState \<in> set (trace (pump inst t))"
proof (cases rule: wasm_pump_cases [where t = t and inst = inst])
  case (process p q d r es m)
  show ?thesis unfolding process(3) pump_process [where d = d, OF process(1,2,4)]
    by (rule tells_closed_dispatched) (use assms in simp)
qed (use assms in \<open>simp_all del: dropWhile_eq_Nil_conv add: pump_closed pump_none pump_worker emit_def\<close>)

lemma tells_closed_step:
  assumes "st_state t = ClosedState \<longleftrightarrow> Notify ClosedState \<in> set (trace t)"
  shows "st_state (wasm_step inst e t) = ClosedState \<longleftrightarrow> Notify ClosedState \<in> set (trace (wasm_step inst e t))"
proof (cases e)
  case Close
  then show ?thesis using assms by (cases "st_state t = ClosedState") auto
next
  case Microtask
  then show ?thesis using assms
    by (auto simp: tells_closed_pump split: list.split wasm_task.split)
next
  case (WorkerAnswers k r)
  then show ?thesis using tells_closed_dispatched [of "t\<lparr>in_worker := remove1 k (in_worker t)\<rparr>"] assms by simp
qed (use assms in \<open>auto simp: send_def Let_def emit_def onTimeout_def onModuleEvent_def\<close>)

lemma tells_closed:
  "reach (newWasmTransport m0 dflt owns) wasm_allowed (wasm_step inst) t \<Longrightarrow>
   st_state t = ClosedState \<longleftrightarrow> Notify ClosedState \<in> set (trace t)"
  by (induction rule: reach.induct) (simp add: newWasmTransport_def, rule tells_closed_step)

text \<open>
  A subscriber that is not closed hands on every event the transport delivers from the moment it was
  made, in order, and it is closed exactly when the transport is or it was closed itself.
\<close>

lemma subscriber_hears:
  assumes t0: "reach (newWasmTransport m0 dflt owns) wasm_allowed (wasm_step inst) t0"
    and "reach (t0, newWasmSubscriber t0) sub_allowed (sub_step inst) ts"
  shows "case ts of (t, s) \<Rightarrow>
    (\<exists>es. trace t = trace t0 @ es \<and> (sb_attached s \<longrightarrow> heard s = delivered_by es)) \<and>
    (sb_state s = ClosedState \<longleftrightarrow> st_state t = ClosedState \<or> \<not> sb_attached s) \<and>
    reach (newWasmTransport m0 dflt owns) wasm_allowed (wasm_step inst) t"
  using assms(2)
proof (induction rule: reach.induct)
  case start
  then show ?case using t0 by (simp add: newWasmSubscriber_def)
next
  case (step ts e)
  obtain t s where ts: "ts = (t, s)" by (cases ts)
  obtain es where es: "trace t = trace t0 @ es" "sb_attached s \<longrightarrow> heard s = delivered_by es"
    and c: "sb_state s = ClosedState \<longleftrightarrow> st_state t = ClosedState \<or> \<not> sb_attached s"
    and r: "reach (newWasmTransport m0 dflt owns) wasm_allowed (wasm_step inst) t"
    using step.IH ts by auto
  show ?case
  proof (cases e)
    case (OfTransport ev)
    let ?t = "wasm_step inst ev t"
    obtain new where new: "trace ?t = trace t @ new" using wasm_prefix_step [of t inst ev] by (auto simp: prefix_def)
    have r': "reach (newWasmTransport m0 dflt owns) wasm_allowed (wasm_step inst) ?t"
      using step.hyps(2) ts OfTransport by (auto intro: reach.step [OF r])
    have "st_state ?t = ClosedState \<longleftrightarrow> st_state t = ClosedState \<or> Notify ClosedState \<in> set new"
      using tells_closed [OF r] tells_closed [OF r'] new by auto
    then show ?thesis using es c r' new ts OfTransport
      by (cases "sb_attached s") (auto simp: sub_hears_all Let_def simp del: wasm_step.simps)
  next
    case CloseSubscriber
    then show ?thesis using es c r ts by (auto simp: sub_close_def sub_setState_def)
  qed
qed

end
