(* ===== verification/Spec2Isabelle.thy ===== *)
theory Spec2Isabelle
  imports Prelude StreamDecoder NngFraming StdioFraming TransportTypes StdioTransport NngIpcTransport
    JsCollections JsonValues ItemStore UndoStack DocumentSync Commit SExpr RouteTypes RouteRules Ses RouteJob
    WsProtocol WebSocketTransport Units CompileTypes Netlist Schematic Outline Effects Apply Compile
    NetlistJson ProjectRules CompileJob KicadPing BridgeManager WasmTransport
begin

text \<open>
  This is a verification library for fab_pcb, a TypeScript client, compiler and autorouter driver
  around the IPC interface of KiCad. It models the packages \<open>client\<close> (transports, item store, undo,
  commits), \<open>compile\<close> (from a design source to a board), \<open>router\<close> (rules, Specctra files, the routing
  job) and \<open>bridge\<close> (sessions that run KiCad for browsers) under \<open>src/packages/\<close>.

  Conventions. A class is a record and its methods are functions on it; an \<open>async\<close> function is either
  a step relation whose events are everything the outside may do (transports, commits, document
  synchronisation), or a computation on a state with errors as values (\<open>Effects\<close>, routing job,
  compile). A server, a socket, a timer, a router or a clock is never defined: it is an argument or a
  sequence of events, and what the code relies on is a named hypothesis (\<open>host_honest\<close>, \<open>server_honest\<close>,
  \<open>delta_ok\<close>, \<open>reads_only\<close>, \<open>board_works\<close>) that a witness meets with a concrete instance. A JavaScript number
  is a rational, with infinities and NaN (\<open>js_number\<close>) where the code checks for them: rounding of
  doubles is not modelled. A string is a list of 8-bit characters. A \<open>Map\<close> or \<open>Set\<close> is an association list
  in insertion order (\<open>jmap\<close>), since the code iterates over it. Bytes are numbers below 256, and machine
  integers are words where a field wraps around (\<open>REQ_ID_FLAG\<close>, \<open>id >>> 0\<close>).

  Theories, in the order they build on each other.

  \<^item> \<open>Prelude\<close>: bytes, big-endian integers, decimal text, and the collections of simplification rules.
  \<^item> \<open>StreamDecoder\<close>: the interface of an incremental frame parser (locales \<open>stream_parser\<close>, \<open>frame_codec\<close>),
    with the theorem that chunking does not matter proved once; \<open>NngFraming\<close> (\<open>transport/nng-framing.ts\<close>)
    and \<open>StdioFraming\<close> (\<open>transport/stdio.ts\<close>) interpret it.
  \<^item> \<open>TransportTypes\<close> (\<open>transport/types.ts\<close>): states, errors, effects and the trace they leave; the locales
    \<open>promise_machine\<close> and \<open>promise_contract\<close> say what every transport owes its callers (a promise is
    settled at most once, and all are once the transport is closed). \<open>StdioTransport\<close>, \<open>NngIpcTransport\<close>
    (\<open>transport/nng-ipc.ts\<close>), \<open>WsProtocol\<close> (\<open>transport/ws-bridge-protocol.ts\<close>) and \<open>WebSocketTransport\<close>
    (\<open>transport/websocket.ts\<close>) are the step functions of the transports and interpret them. Their lemmas
    are an invariant of each machine, the matching of replies to requests, what reaches the wire, and
    a simulation by the abstract contract.
  \<^item> \<open>JsCollections\<close>: maps and sets (locale \<open>map_laws\<close>), \<open>JsonValues\<close>: what \<open>JSON.parse\<close> returns. \<open>ItemStore\<close> (\<open>store/item-store.ts\<close>): the store, the
    invariant that its indexes say what its items say, and its queries. \<open>UndoStack\<close> (\<open>store/undo.ts\<close>),
    \<open>DocumentSync\<close> (\<open>store/document-sync.ts\<close>), \<open>Commit\<close> (\<open>model/commit.ts\<close>) rest on it.
  \<^item> \<open>SExpr\<close> (\<open>router/src/specctra/sexpr.ts\<close>): reader and writers; the loop of the reader is a partial function, and it ends
    exactly on the texts without a white space it does not skip. \<open>RouteTypes\<close>, \<open>RouteRules\<close>
    (\<open>request-rules.ts\<close>, \<open>pairs.ts\<close>, \<open>board-rule-floors.ts\<close>), \<open>Ses\<close> (\<open>ses.ts\<close>, \<open>session-filter.ts\<close>), \<open>RouteJob\<close>
    (\<open>bridge-job.ts\<close> of the router, with a weakest precondition for its parts).
  \<^item> \<open>Units\<close> (\<open>client/src/units.ts\<close>), \<open>CompileTypes\<close> (\<open>compile/src/types.ts\<close>), \<open>Netlist\<close> (\<open>netlist.ts\<close>: text for KiCad and
    validation), \<open>Schematic\<close> (\<open>schematic.ts\<close>: the drawing of the generated schematic), \<open>Outline\<close> (the
    outline of a board in \<open>apply.ts\<close>), \<open>Effects\<close> (computations with requests; locale \<open>eff_order\<close>), \<open>Apply\<close>
    (\<open>applyNetlist\<close> in \<open>apply.ts\<close>) and \<open>Compile\<close> (\<open>compile.ts\<close>).
  \<^item> \<open>NetlistJson\<close> (\<open>frontends/netlist-json.ts\<close>): the checks of the JSON source format as combinators, decoders for
    the declared types, and the theorem that the one accepts what the other takes.
  \<^item> \<open>ProjectRules\<close> (\<open>rules.ts\<close>, \<open>libraries.ts\<close>): design rules as constraints, net class and JSON project file.
  \<^item> \<open>CompileJob\<close> (\<open>compile/src/bridge-job.ts\<close>, \<open>generateSchematic\<close> of \<open>schematic.ts\<close>): the job around a compile. The
    locales \<open>job_requests\<close> and \<open>job_order\<close> are the orders on its world that its requests and its parts respect, with
    \<open>world_order\<close> of the compile as a sublocale; three interpretations give the file, the info and the steps.
  \<^item> \<open>KicadPing\<close> (\<open>bridge/src/kicad-ping.ts\<close>): the protobuf of the ping, read back from any honest encoding, and its loop.
    \<open>BridgeSession\<close> (\<open>bridge/src/session.ts\<close>, WebSocket handlers of \<open>server.ts\<close>): one KiCad process with its clients as a
    machine that stands where the code awaits; \<open>BridgeManager\<close> (\<open>SessionManager\<close>): the sessions run beside the calls of
    \<open>create\<close>, \<open>destroy\<close> and \<open>reapIdle\<close>.
  \<^item> \<open>WasmTransport\<close> (\<open>transport/wasm.ts\<close>): the transport to a module in the same program, with its queue of microtasks
    and its subscriber. It interprets \<open>promise_contract\<close> too; its theorems compare the trace with running the
    requests one at a time, and bound the microtasks.

  How the parts meet: a transport carries requests of the client; a commit sends batches through it
  and announces changes, which the document synchronisation turns into store patches and the undo
  stack records; \<open>compile\<close> calls the frontend, \<open>validateNetlist\<close>, the generator of the schematic as its
  first hook and \<open>applyNetlist\<close>, which reconciles the outline and imports; the routing job applies a
  session through commits and undoes what the design rule check rejects.

  Bounds. No definition runs on fuel of its own choice. \<open>cleanup\<close> of the routing job recurses on the
  bound the source computes (\<open>maxCleanupPasses\<close>), and the theorem is that the bound is enough; the walk
  and the searches of \<open>Outline\<close> recurse on the edges that are left, as the loops do; the frame parser
  recurses on the bytes it holds. Loops that the code does not bound (the reader of s-expressions, the
  searches for a free request id) are partial functions with the value \<open>None\<close> when they do not
  return; that the searches return is part of the theorems on requests, and where the reader does not
  is one of its own.

  Not modelled. Wrappers that build one protobuf request each (client of the KiCad API, item
  wrappers, commands, generated code): what they do is the server's code. Drivers of external
  routers, drawing, the web application: input and output. Of the modelled files, what a component
  leaves out is said in its theory; the largest pieces are angles with sine and cosine, the server-sent events
  of a job's status page, and the text of log lines.
\<close>

end
